(* ===== verification/Prelude.thy ===== *)
theory Prelude
  imports Main "HOL-Library.Word"
begin

text \<open>
  Shared vocabulary of the development: names for the machine types of the K210 port
  (64-bit RISC-V, 16-bit bignum digits), the collections of rewrite rules the component
  theories add to, and generic facts on words, lists and options.
\<close>

unbundle bit_operations_syntax

section \<open>Machine types\<close>

text \<open>
  \<open>byte\<close>, \<open>mp_uint_t\<close> and \<open>mp_int_t\<close> are the types of \<open>py/mpconfig.h\<close> and of
  \<open>ports/k210-standalone/mpconfigport.h\<close> (\<open>typedef long mp_int_t\<close> on a 64-bit target).
  A signed value is kept in the same word and read with \<open>sint\<close>.
\<close>

type_synonym byte = "8 word"
type_synonym u16 = "16 word"
type_synonym u32 = "32 word"
type_synonym mp_uint_t = "64 word"
type_synonym mp_int_t = "64 word"

text \<open>A small integer object (\<open>py/obj.h\<close>): the number in the upper 63 bits, the tag in the lowest.\<close>

definition MP_OBJ_SMALL_INT_VALUE :: "64 word \<Rightarrow> mp_int_t" where
  "MP_OBJ_SMALL_INT_VALUE obj = signed_drop_bit 1 obj"

definition MP_OBJ_NEW_SMALL_INT :: "mp_int_t \<Rightarrow> 64 word" where
  "MP_OBJ_NEW_SMALL_INT v = (push_bit 1 v OR 1)"

section \<open>Collections of rules\<close>

named_theorems word_nat \<open>facts that read a machine word as a natural number or an integer\<close>
named_theorems val_simps \<open>values of digit arrays\<close>

section \<open>Words\<close>

lemma unat_lt_2p: "unat (w :: 'a::len word) < 2 ^ LENGTH('a)"
  by (rule unsigned_less)

lemma unat_u16_lt: "unat (w :: u16) < 65536"
  using unat_lt_2p [of w] by simp

lemma unat_u32_lt: "unat (w :: u32) < 4294967296"
  using unat_lt_2p [of w] by simp

lemma unat_byte_lt: "unat (w :: byte) < 256"
  using unat_lt_2p [of w] by simp

lemma unat_u16_le: "unat (w :: u16) \<le> 65535"
  using unat_u16_lt [of w] by linarith

lemma uint_u16_lt: "uint (w :: u16) < 65536"
  using unat_u16_lt [of w] by (metis of_nat_less_iff of_nat_numeral uint_nat)

lemma uint_u16_ge: "0 \<le> uint (w :: u16)"
  by simp

lemma unat_ucast_16_32 [word_nat, simp]: "unat (ucast (w :: u16) :: u32) = unat w"
proof -
  have "unat w < 2 ^ 32" by (rule less_trans [OF unat_u16_lt]) simp
  then show ?thesis by (simp add: unsigned_ucast_eq take_bit_nat_eq_self_iff)
qed

lemma uint_ucast_16_32 [simp]: "uint (ucast (w :: u16) :: u32) = uint w"
  using unat_ucast_16_32 [of w] by (metis uint_nat)

lemma unat_ucast_up: "LENGTH('a) \<le> LENGTH('b) \<Longrightarrow> unat (ucast (w :: 'a::len word) :: 'b::len word) = unat w"
proof -
  assume "LENGTH('a) \<le> LENGTH('b)"
  then have "unat w < 2 ^ LENGTH('b)"
    by (intro less_le_trans [OF unat_lt_2p] power_increasing) simp_all
  then show ?thesis by (simp add: unsigned_ucast_eq take_bit_nat_eq_self_iff)
qed

lemma unat_ucast_16_64 [word_nat, simp]: "unat (ucast (w :: u16) :: 64 word) = unat w"
  by (rule unat_ucast_up) simp

lemma unat_ucast_8_16 [word_nat, simp]: "unat (ucast (w :: byte) :: u16) = unat w"
  by (rule unat_ucast_up) simp

lemma unat_ucast_8_32 [word_nat, simp]: "unat (ucast (w :: byte) :: u32) = unat w"
  by (rule unat_ucast_up) simp

lemma unat_ucast_8_64 [word_nat, simp]: "unat (ucast (w :: byte) :: 64 word) = unat w"
  by (rule unat_ucast_up) simp

lemma unat_ucast_32_64 [word_nat, simp]: "unat (ucast (w :: u32) :: 64 word) = unat w"
  by (rule unat_ucast_up) simp

lemma unat_ucast_32_16 [word_nat]: "unat (ucast (w :: u32) :: u16) = unat w mod 65536"
  by (simp add: unsigned_ucast_eq take_bit_eq_mod)

lemma unat_drop_bit_div [word_nat]:
  "unat (drop_bit n (w :: 'a::len word)) = unat w div 2 ^ n"
  by (simp only: unat_drop_bit_eq) (rule drop_bit_eq_div)

lemma unat_take_bit_mod [word_nat]:
  "unat (take_bit n (w :: 'a::len word)) = unat w mod 2 ^ n"
  by (simp only: unsigned_take_bit_eq) (rule take_bit_eq_mod)

lemma unat_and_mask [word_nat]:
  "unat ((w :: 'a::len word) AND mask n) = unat w mod 2 ^ n"
  by (simp only: take_bit_eq_mask [symmetric] unat_take_bit_mod)

lemma unat_plus_simple:
  "unat (a :: 'a::len word) + unat b < 2 ^ LENGTH('a) \<Longrightarrow> unat (a + b) = unat a + unat b"
  by (simp add: unat_word_ariths)

lemma unat_mult_simple:
  "unat (a :: 'a::len word) * unat b < 2 ^ LENGTH('a) \<Longrightarrow> unat (a * b) = unat a * unat b"
  by (simp add: unat_word_ariths)

lemma sint_u32_small:
  assumes "unat (w :: u32) < 2147483648"
  shows "sint w = int (unat w)"
proof -
  have "int (unat w) < 2147483648" using assms by linarith
  then have "uint w < 2147483648" by simp
  moreover have "- 2147483648 \<le> uint w"
    by (rule order_trans [OF _ unsigned_greater_eq]) simp
  ultimately have "sint w = uint w"
    by (simp add: sint_uint signed_take_bit_int_eq_self)
  then show ?thesis by simp
qed

lemma sint_ucast_16 [word_nat]: "sint (ucast (j :: u16) :: u32) = uint j"
proof -
  have "unat (ucast j :: u32) < 2147483648" using unat_u16_lt [of j] by simp
  from sint_u32_small [OF this] show ?thesis by simp
qed

lemma sint_u32_diff:
  assumes "unat (a :: u32) < 2147483648" and "unat b < 2147483648"
  shows "sint (a - b) = int (unat a) - int (unat b)"
proof -
  have "sint (a - b) = signed_take_bit 31 (int (unat a) - int (unat b))"
    by (simp only: sint_word_diff sint_u32_small [OF assms(1)] sint_u32_small [OF assms(2)]) simp
  moreover have "- 2147483648 \<le> int (unat a) - int (unat b)"
    and "int (unat a) - int (unat b) < 2147483648"
    using assms by linarith+
  ultimately show ?thesis by (simp add: signed_take_bit_int_eq_self)
qed

lemma sint_u32_add:
  assumes "- 2147483648 \<le> sint (a :: u32) + sint b" and "sint a + sint b < 2147483648"
  shows "sint (a + b) = sint a + sint b"
  using assms by (simp add: sint_word_add signed_take_bit_int_eq_self_iff)

lemma sint_u32_mod_16:
  "int (unat (w :: u32)) mod 65536 = sint w mod 65536"
proof -
  have "take_bit 16 (sint w) = take_bit 16 (uint w)"
    by (simp add: sint_uint take_bit_signed_take_bit)
  then show ?thesis by (simp add: take_bit_eq_mod)
qed

lemma sint_signed_drop_bit_div [word_nat]:
  "sint (signed_drop_bit n (w :: 'a::len word)) = sint w div 2 ^ n"
  by (simp only: sint_signed_drop_bit_eq) (rule drop_bit_eq_div)

lemma uint_64_lt: "uint (w :: 64 word) < 18446744073709551616" "0 \<le> uint w"
  using unsigned_less [of w, where 'a = int] by simp_all

lemma sint_64:
  "sint (w :: 64 word) = (if uint w < 9223372036854775808 then uint w else uint w - 18446744073709551616)"
proof -
  have "sint w = (uint w + 9223372036854775808) mod 18446744073709551616 - 9223372036854775808"
    by (simp add: sint_uint signed_take_bit_eq_take_bit_shift take_bit_eq_mod)
  moreover have "(uint w + 9223372036854775808) mod 18446744073709551616
      = (if uint w < 9223372036854775808 then uint w + 9223372036854775808 else uint w - 9223372036854775808)"
    using uint_64_lt [of w]
    by (cases "uint w < 9223372036854775808")
      (simp_all, rule int_mod_pos_eq [where q = 1], simp_all)
  ultimately show ?thesis by simp
qed

lemma uint_neg_64: "uint (- w :: 64 word) = (if w = 0 then 0 else 18446744073709551616 - uint w)"
proof -
  have "uint (- w) = (- uint w) mod 18446744073709551616" by (simp add: uint_word_ariths)
  moreover have "w = 0 \<longleftrightarrow> uint w = 0" by (simp add: word_uint_eq_iff)
  moreover have "(- uint w) mod 18446744073709551616 = 18446744073709551616 - uint w" if "uint w \<noteq> 0"
    using uint_64_lt [of w] that by (intro int_mod_pos_eq [where q = "-1"]) linarith+
  ultimately show ?thesis by simp
qed

lemma sint_small_int_obj:
  assumes "- (2 ^ 62) \<le> i" and "i < 2 ^ 62"
  shows "sint (MP_OBJ_SMALL_INT_VALUE (MP_OBJ_NEW_SMALL_INT (of_int i))) = i"
proof -
  have "MP_OBJ_NEW_SMALL_INT (of_int i) = push_bit 1 (of_int i) + 1"
    unfolding MP_OBJ_NEW_SMALL_INT_def by (rule disjunctive_add [symmetric]) (unfold bit_push_bit_iff bit_1_iff, simp)
  then have "MP_OBJ_NEW_SMALL_INT (of_int i) = of_int (2 * i + 1)" by (simp add: push_bit_eq_mult)
  then have "sint (MP_OBJ_NEW_SMALL_INT (of_int i)) = signed_take_bit 63 (2 * i + 1)"
    by (simp only: signed_of_int) simp
  also have "\<dots> = 2 * i + 1" using assms by (intro signed_take_bit_int_eq_self) simp_all
  finally show ?thesis
    by (simp add: MP_OBJ_SMALL_INT_VALUE_def sint_signed_drop_bit_eq drop_bit_eq_div)
qed

section \<open>Integer division\<close>

text \<open>One digit of a number modulo a product of bases.\<close>

lemma mod_digit_step:
  fixes r x b m :: int
  assumes "0 \<le> r" and "r < b" and "0 < m"
  shows "(r + b * x) mod (b * m) = r + b * (x mod m)"
proof -
  have "0 \<le> x mod m" "x mod m \<le> m - 1" using assms(3) by (simp_all add: pos_mod_bound)
  then have "0 \<le> b * (x mod m)" "b * (x mod m) \<le> b * (m - 1)"
    using assms by (simp_all add: mult_left_mono)
  with assms have "0 \<le> r + b * (x mod m)" "r + b * (x mod m) < b * m"
    by (simp_all add: algebra_simps)
  moreover have "(r + b * x) mod (b * m) = (r + b * (x mod m)) mod (b * m)"
    by (metis mod_add_right_eq mult_mod_right)
  ultimately show ?thesis by simp
qed

section \<open>Byte strings\<close>

text \<open>The number that a byte string is, lowest byte first.\<close>

fun bytes_val :: "byte list \<Rightarrow> nat" where
  "bytes_val [] = 0"
| "bytes_val (b # bs) = unat b + 256 * bytes_val bs"

end
