(* ===== verification/Mpn.thy ===== *)
theory Mpn
  imports Prelude
begin

text \<open>
  The digit arrays of \<open>py/mpz.c\<close>: non-negative integers as little-endian lists of 16-bit
  digits (\<open>mpz_dig_t\<close> with \<open>MPZ_DIG_SIZE\<close> 16, the value \<open>py/mpz.h\<close> selects for this
  64-bit RISC-V port), with carries in 32-bit words (\<open>mpz_dbl_dig_t\<close>). A C function that
  fills \<open>idig\<close> and returns the number of digits is a function that returns the list of
  those digits. The C code reads each input digit before it overwrites the same position,
  so a call whose arguments share memory computes the same digits.
\<close>

section \<open>Digits\<close>

type_synonym mpz_dig_t = "16 word"
type_synonym mpz_dbl_dig_t = "32 word"

definition DIG_SIZE :: nat where
  "DIG_SIZE = 16"

definition DIG_MASK :: mpz_dbl_dig_t where
  "DIG_MASK = 0xFFFF"

definition DIG_MSB :: mpz_dig_t where
  "DIG_MSB = 0x8000"

text \<open>\<open>*idig = carry & DIG_MASK\<close>, and \<open>carry >>= DIG_SIZE\<close>.\<close>

definition dig_of :: "mpz_dbl_dig_t \<Rightarrow> mpz_dig_t" where
  "dig_of c = ucast (c AND DIG_MASK)"

definition carry_of :: "mpz_dbl_dig_t \<Rightarrow> mpz_dbl_dig_t" where
  "carry_of c = drop_bit DIG_SIZE c"

text \<open>The number a digit array stands for.\<close>

fun mpn_val :: "mpz_dig_t list \<Rightarrow> nat" where
  "mpn_val [] = 0"
| "mpn_val (d # ds) = unat d + 65536 * mpn_val ds"

text \<open>Normalised: no leading zero digit.\<close>

definition mpn_norm :: "mpz_dig_t list \<Rightarrow> bool" where
  "mpn_norm ds \<longleftrightarrow> (ds = [] \<or> last ds \<noteq> 0)"

lemma unat_dig_of [word_nat]: "unat (dig_of c) = unat c mod 65536"
proof -
  have "(0xFFFF :: u32) = mask 16" by (simp add: mask_eq_exp_minus_1)
  then show ?thesis
    by (simp only: dig_of_def DIG_MASK_def unat_ucast_32_16 unat_and_mask) simp
qed

lemma unat_carry_of [word_nat]: "unat (carry_of c) = unat c div 65536"
  by (simp add: carry_of_def DIG_SIZE_def unat_drop_bit_div del: drop_bit_eq_div)

lemma mpn_val_append [val_simps]: "mpn_val (xs @ ys) = mpn_val xs + 65536 ^ length xs * mpn_val ys"
  by (induction xs) (auto simp: algebra_simps)

lemma mpn_val_replicate_0 [val_simps, simp]: "mpn_val (replicate n 0) = 0"
  by (induction n) auto

lemma mpn_val_lt: "mpn_val ds < 65536 ^ length ds"
proof (induction ds)
  case (Cons d ds)
  have "unat d < 65536" by (rule unat_u16_lt)
  moreover have "65536 * (mpn_val ds + 1) \<le> 65536 * 65536 ^ length ds"
    using Cons by (intro mult_le_mono2) simp
  ultimately show ?case by simp
qed simp

lemma mpn_val_ge:
  assumes "mpn_norm ds" and "ds \<noteq> []"
  shows "65536 ^ (length ds - 1) \<le> mpn_val ds"
proof -
  from assms have ds: "ds = butlast ds @ [last ds]" and l: "last ds \<noteq> 0"
    by (auto simp: mpn_norm_def)
  from l have "1 \<le> unat (last ds)"
    by (metis One_nat_def Suc_leI unat_gt_0)
  then have "65536 ^ (length ds - 1) * 1 \<le> 65536 ^ (length ds - 1) * unat (last ds)"
    by (rule mult_le_mono2)
  also have "\<dots> \<le> mpn_val (butlast ds @ [last ds])"
    by (simp only: mpn_val_append) simp
  also have "\<dots> = mpn_val ds" using ds by simp
  finally show ?thesis by simp
qed

lemma mpn_norm_Nil [simp]: "mpn_norm []"
  by (simp add: mpn_norm_def)

lemma mpn_norm_Cons: "mpn_norm (d # ds) \<longleftrightarrow> (if ds = [] then d \<noteq> 0 else mpn_norm ds)"
  by (auto simp: mpn_norm_def)

lemma mpn_norm_val_0: "mpn_norm ds \<Longrightarrow> mpn_val ds = 0 \<longleftrightarrow> ds = []"
  using mpn_val_ge [of ds] by (cases "ds = []") (auto intro: less_le_trans [of 0 "65536 ^ n" for n])

lemma mpn_val_less_length:
  assumes "mpn_norm js" and "length is < length js"
  shows "mpn_val is < mpn_val js"
proof -
  have "mpn_val is < 65536 ^ length is" by (rule mpn_val_lt)
  also have "\<dots> \<le> 65536 ^ (length js - 1)" using assms(2) by (intro power_increasing) auto
  also have "\<dots> \<le> mpn_val js" using assms by (intro mpn_val_ge) auto
  finally show ?thesis .
qed

section \<open>\<open>mpn_remove_trailing_zeros\<close>, \<open>mpn_cmp\<close>\<close>

text \<open>The C code walks down from the top digit while it is zero.\<close>

definition mpn_remove_trailing_zeros :: "mpz_dig_t list \<Rightarrow> mpz_dig_t list" where
  "mpn_remove_trailing_zeros ds = rev (dropWhile (\<lambda>d. d = 0) (rev ds))"

lemma remove_zeros_snoc:
  "mpn_remove_trailing_zeros (ds @ [d]) = (if d = 0 then mpn_remove_trailing_zeros ds else ds @ [d])"
  by (simp add: mpn_remove_trailing_zeros_def)

lemma remove_zeros_Nil [simp]: "mpn_remove_trailing_zeros [] = []"
  by (simp add: mpn_remove_trailing_zeros_def)

lemma val_remove_zeros [val_simps, simp]: "mpn_val (mpn_remove_trailing_zeros ds) = mpn_val ds"
  by (induction ds rule: rev_induct) (auto simp: remove_zeros_snoc mpn_val_append)

lemma norm_remove_zeros [simp, intro]: "mpn_norm (mpn_remove_trailing_zeros ds)"
  by (induction ds rule: rev_induct) (auto simp: remove_zeros_snoc mpn_norm_def)

lemma length_remove_zeros: "length (mpn_remove_trailing_zeros ds) \<le> length ds"
  by (induction ds rule: rev_induct) (auto simp: remove_zeros_snoc)

text \<open>The digits are compared from the top; \<open>mpn_cmp_digs\<close> gets them in that order.\<close>

fun mpn_cmp_digs :: "mpz_dig_t list \<Rightarrow> mpz_dig_t list \<Rightarrow> int" where
  "mpn_cmp_digs (i # is) (j # js) =
     (let cmp = (ucast i :: mpz_dbl_dig_t) - ucast j
      in if sint cmp < 0 then -1 else if 0 < sint cmp then 1 else mpn_cmp_digs is js)"
| "mpn_cmp_digs _ _ = 0"

definition mpn_cmp :: "mpz_dig_t list \<Rightarrow> mpz_dig_t list \<Rightarrow> int" where
  "mpn_cmp idig jdig =
     (if length idig < length jdig then -1
      else if length jdig < length idig then 1
      else mpn_cmp_digs (rev idig) (rev jdig))"

lemma sint_ucast_diff:
  "sint ((ucast (i :: u16) :: u32) - ucast (j :: u16)) = int (unat i) - int (unat j)"
proof -
  have b: "unat (ucast k :: u32) < 2147483648" for k :: u16
    using unat_u16_lt [of k] by simp
  have "sint ((ucast i :: u32) - ucast j) = int (unat (ucast i :: u32)) - int (unat (ucast j :: u32))"
    by (rule sint_u32_diff [OF b b])
  then show ?thesis by simp
qed

lemma mpn_cmp_digs_sgn:
  "length is = length js \<Longrightarrow>
   mpn_cmp_digs is js = sgn (int (mpn_val (rev is)) - int (mpn_val (rev js)))"
proof (induction "is" js rule: mpn_cmp_digs.induct)
  case (1 i "is" j js)
  let ?p = "65536 ^ length is :: int"
  have len: "length is = length js" using "1.prems" by simp
  have lo: "int (mpn_val (rev is)) < ?p" "int (mpn_val (rev js)) < ?p"
    using mpn_val_lt [of "rev is"] mpn_val_lt [of "rev js"] len
    by (metis length_rev of_nat_less_iff of_nat_numeral of_nat_power)+
  define d where "d = int (unat i) - int (unat j)"
  have diff: "int (mpn_val (rev (i # is))) - int (mpn_val (rev (j # js)))
      = int (mpn_val (rev is)) - int (mpn_val (rev js)) + ?p * d"
    using len by (simp add: mpn_val_append d_def algebra_simps)
  have cmp: "sint ((ucast i :: u32) - ucast j) = d"
    by (simp only: sint_ucast_diff d_def)
  consider "d \<le> -1" | "d = 0" | "1 \<le> d" by linarith
  then show ?case
  proof cases
    case 1
    then have "?p * d \<le> ?p * (-1)" by (intro mult_left_mono) auto
    with lo have "int (mpn_val (rev (i # is))) - int (mpn_val (rev (j # js))) < 0"
      unfolding diff by linarith
    with 1 show ?thesis by (simp add: cmp Let_def del: rev.simps)
  next
    case 2
    with "1.IH" [OF refl] len have "mpn_cmp_digs is js = sgn (int (mpn_val (rev is)) - int (mpn_val (rev js)))"
      by (simp add: cmp)
    with 2 show ?thesis by (simp only: mpn_cmp_digs.simps cmp Let_def diff) simp
  next
    case 3
    then have "?p * 1 \<le> ?p * d" by (intro mult_left_mono) auto
    with lo have "0 < int (mpn_val (rev (i # is))) - int (mpn_val (rev (j # js)))"
      unfolding diff by linarith
    with 3 show ?thesis by (simp add: cmp Let_def del: rev.simps)
  qed
qed auto

lemma mpn_cmp_correct:
  assumes "mpn_norm is" and "mpn_norm js"
  shows "mpn_cmp is js = sgn (int (mpn_val is) - int (mpn_val js))"
  using mpn_val_less_length [OF assms(1), of js] mpn_val_less_length [OF assms(2), of "is"]
    mpn_cmp_digs_sgn [of "rev is" "rev js"]
  by (auto simp: mpn_cmp_def)

lemma mpn_cmp_less_iff: "mpn_norm is \<Longrightarrow> mpn_norm js \<Longrightarrow> mpn_cmp is js < 0 \<longleftrightarrow> mpn_val is < mpn_val js"
  by (auto simp: mpn_cmp_correct sgn_if)

lemma mpn_cmp_eq_iff: "mpn_norm is \<Longrightarrow> mpn_norm js \<Longrightarrow> mpn_cmp is js = 0 \<longleftrightarrow> mpn_val is = mpn_val js"
  by (auto simp: mpn_cmp_correct sgn_if)

section \<open>Shifts\<close>

text \<open>
  \<open>mpn_shl\<close>: the digits are visited from the top (\<open>mpn_shl_loop\<close> gets them in that
  order) and the results come out top first; the last result stores the remaining bits.
\<close>

fun mpn_shl_loop :: "nat \<Rightarrow> mpz_dig_t list \<Rightarrow> mpz_dbl_dig_t \<Rightarrow> mpz_dig_t list" where
  "mpn_shl_loop n_part [] d = [dig_of (drop_bit (DIG_SIZE - n_part) d)]"
| "mpn_shl_loop n_part (j # js) d =
     (let d = d OR ucast j
      in dig_of (drop_bit (DIG_SIZE - n_part) d) # mpn_shl_loop n_part js (push_bit DIG_SIZE d))"

definition mpn_shl :: "mpz_dig_t list \<Rightarrow> nat \<Rightarrow> mpz_dig_t list" where
  "mpn_shl jdig n =
     (let n_whole = (n + DIG_SIZE - 1) div DIG_SIZE;
          n_part = (if n mod DIG_SIZE = 0 then DIG_SIZE else n mod DIG_SIZE)
      in mpn_remove_trailing_zeros
           (replicate (n_whole - 1) 0 @ rev (mpn_shl_loop n_part (rev jdig) 0)))"

fun mpn_shr_loop :: "nat \<Rightarrow> mpz_dig_t list \<Rightarrow> mpz_dig_t list" where
  "mpn_shr_loop n_part [] = []"
| "mpn_shr_loop n_part [j] = [dig_of (drop_bit n_part (ucast j))]"
| "mpn_shr_loop n_part (j # j1 # js) =
     dig_of (drop_bit n_part (ucast j OR push_bit DIG_SIZE (ucast j1))) # mpn_shr_loop n_part (j1 # js)"

definition mpn_shr :: "mpz_dig_t list \<Rightarrow> nat \<Rightarrow> mpz_dig_t list" where
  "mpn_shr jdig n =
     (let n_whole = n div DIG_SIZE; n_part = n mod DIG_SIZE
      in if length jdig \<le> n_whole then []
         else let i = mpn_shr_loop n_part (drop n_whole jdig)
              in if last i = 0 then butlast i else i)"

lemma unat_or_push:
  "unat (push_bit 16 (ucast (k :: u16) :: u32) OR ucast (j :: u16)) = unat j + 65536 * unat k"
proof -
  have "push_bit 16 (ucast k :: u32) AND ucast j = 0"
    by (rule bit_word_eqI) (auto simp: bit_simps dest: bit_imp_le_length)
  then have "push_bit 16 (ucast k :: u32) OR ucast j = push_bit 16 (ucast k) + ucast j"
    by (rule disjunctive_add_eq_or [symmetric])
  moreover have "unat (push_bit 16 (ucast k :: u32)) = 65536 * unat k"
    using unat_u16_lt [of k] by (simp add: push_bit_eq_mult unat_mult_simple)
  ultimately show ?thesis
    using unat_u16_lt [of k] unat_u16_lt [of j] by (simp add: unat_plus_simple)
qed

lemmas unat_or_push' = unat_or_push [unfolded or.commute [of "push_bit 16 _"]]

lemma div_pow2_split:
  fixes j w :: nat
  assumes "j < 65536" and "p < 16"
  shows "(j + 65536 * w) div 2 ^ p
       = (j + 65536 * (w mod 65536)) div 2 ^ p mod 65536 + 65536 * (w div 2 ^ p)"
proof -
  have B: "(65536::nat) = 2 ^ p * 2 ^ (16 - p)" using assms(2) by (simp flip: power_add)
  let ?N = "j + 65536 * w"
  have "?N div 2 ^ p div 65536 = ?N div 65536 div 2 ^ p"
    by (simp only: div_mult2_eq [symmetric] mult.commute)
  also have "\<dots> = w div 2 ^ p" using assms(1) by simp
  finally have hi: "?N div 2 ^ p div 65536 = w div 2 ^ p" .
  define x where "x = 2 ^ (16 - p) * (w div 65536)"
  have "65536 * 65536 * (w div 65536) = 2 ^ p * (65536 * x)"
    by (subst B) (simp add: x_def)
  then have N: "?N = (j + 65536 * (w mod 65536)) + 2 ^ p * (65536 * x)"
    using mult_div_mod_eq [of 65536 w] by linarith
  have "?N div 2 ^ p = 65536 * x + (j + 65536 * (w mod 65536)) div 2 ^ p"
    unfolding N by (rule div_mult_self2) simp
  then have lo: "?N div 2 ^ p mod 65536 = (j + 65536 * (w mod 65536)) div 2 ^ p mod 65536"
    by simp
  from hi lo show ?thesis by (metis add.commute mult_div_mod_eq)
qed

lemma mpn_shr_loop_val:
  assumes "p < 16"
  shows "mpn_val (mpn_shr_loop p js) = mpn_val js div 2 ^ p"
  using assms
proof (induction p js rule: mpn_shr_loop.induct)
  case (2 p j)
  have "unat j div 2 ^ p < 65536" using unat_u16_lt [of j] by (rule le_less_trans [OF div_le_dividend])
  then show ?case by (simp add: unat_dig_of unat_drop_bit_div del: drop_bit_eq_div)
next
  case (3 p j j1 js)
  have "mpn_val (j1 # js) mod 65536 = unat j1"
    using unat_u16_lt [of j1] by simp
  moreover have "unat (dig_of (drop_bit p (ucast j OR push_bit DIG_SIZE (ucast j1))))
      = (unat j + 65536 * unat j1) div 2 ^ p mod 65536"
    by (simp only: unat_dig_of unat_drop_bit_div DIG_SIZE_def unat_or_push')
  ultimately show ?case
    using 3 div_pow2_split [OF unat_u16_lt 3(2), of j "mpn_val (j1 # js)"]
    by (simp del: mpn_val.simps(2) drop_bit_or
        add: mpn_val.simps(2) [of j] mpn_val.simps(2) [of "dig_of c" for c])
qed auto

lemma length_mpn_shr_loop [simp]: "length (mpn_shr_loop p js) = length js"
  by (induction p js rule: mpn_shr_loop.induct) auto

lemma mpn_val_drop: "mpn_val (drop n ds) = mpn_val ds div 65536 ^ n"
proof (cases "n \<le> length ds")
  case True
  have "mpn_val ds = mpn_val (take n ds) + 65536 ^ n * mpn_val (drop n ds)"
    using mpn_val_append [of "take n ds" "drop n ds"] True by simp
  moreover have "mpn_val (take n ds) < 65536 ^ n"
    using mpn_val_lt [of "take n ds"] True by simp
  ultimately show ?thesis by simp
next
  case False
  then have "mpn_val ds < 65536 ^ n"
    by (intro less_le_trans [OF mpn_val_lt] power_increasing) auto
  with False show ?thesis by simp
qed

lemma mpn_val_butlast_0: "ds \<noteq> [] \<Longrightarrow> last ds = 0 \<Longrightarrow> mpn_val (butlast ds) = mpn_val ds"
  by (metis append_butlast_last_id add_0_right mpn_val.simps mpn_val_append mult_0_right unsigned_0)

lemma mpn_shr_val: "mpn_val (mpn_shr js n) = mpn_val js div 2 ^ n"
proof -
  have pow: "(2::nat) ^ n = 65536 ^ (n div 16) * 2 ^ (n mod 16)"
  proof -
    have "(2::nat) ^ n = 2 ^ (16 * (n div 16) + n mod 16)" by simp
    also have "\<dots> = 65536 ^ (n div 16) * 2 ^ (n mod 16)"
      by (simp only: power_add power_mult) simp
    finally show ?thesis .
  qed
  let ?i = "mpn_shr_loop (n mod 16) (drop (n div 16) js)"
  have i: "mpn_val ?i = mpn_val js div 2 ^ n"
    by (simp add: mpn_shr_loop_val mpn_val_drop pow div_mult2_eq)
  show ?thesis
  proof (cases "length js \<le> n div 16")
    case True
    then have "mpn_val js < 65536 ^ (n div 16)"
      by (intro less_le_trans [OF mpn_val_lt] power_increasing) auto
    also have "\<dots> \<le> 2 ^ n" by (simp add: pow)
    finally show ?thesis using True by (simp add: mpn_shr_def Let_def DIG_SIZE_def)
  next
    case False
    then have "?i \<noteq> []" by (metis drop_eq_Nil length_0_conv length_mpn_shr_loop)
    with False i show ?thesis
      by (simp add: mpn_shr_def Let_def DIG_SIZE_def mpn_val_butlast_0)
  qed
qed

lemma length_mpn_shr: "length (mpn_shr js n) \<le> length js"
  by (simp add: mpn_shr_def Let_def)

lemma mpn_norm_iff: "mpn_norm ds \<longleftrightarrow> (ds \<noteq> [] \<longrightarrow> 65536 ^ (length ds - 1) \<le> mpn_val ds)"
proof
  assume "ds \<noteq> [] \<longrightarrow> 65536 ^ (length ds - 1) \<le> mpn_val ds"
  moreover have "mpn_val (butlast ds) < 65536 ^ (length ds - 1)"
    using mpn_val_lt [of "butlast ds"] by simp
  ultimately show "mpn_norm ds"
    by (auto simp: mpn_norm_def mpn_val_butlast_0)
qed (use mpn_val_ge in blast)

lemma norm_mpn_shr:
  assumes "mpn_norm js"
  shows "mpn_norm (mpn_shr js n)"
proof (cases "length js \<le> n div DIG_SIZE")
  case False
  define p ds where "p = n mod DIG_SIZE" and "ds = drop (n div DIG_SIZE) js"
  define i where "i = mpn_shr_loop p ds"
  have p: "p < 16" by (simp add: p_def DIG_SIZE_def)
  have ds: "ds \<noteq> []" "mpn_norm ds" using False assms by (auto simp: ds_def mpn_norm_def)
  then have i: "i \<noteq> []" "length i = length ds"
    unfolding i_def by (metis length_mpn_shr_loop length_0_conv, simp)
  have v: "mpn_val i = mpn_val ds div 2 ^ p" unfolding i_def by (rule mpn_shr_loop_val [OF p])
  have eq: "mpn_shr js n = (if last i = 0 then butlast i else i)"
    using False by (simp add: mpn_shr_def i_def ds_def p_def)
  show ?thesis
  proof (cases "last i = 0 \<and> butlast i \<noteq> []")
    case True
    then have "0 < length (butlast i)" by blast
    then have "\<exists>k. length ds = Suc (Suc k)" using i(2) by (intro exI [of _ "length ds - 2"]) simp
    then obtain k where k: "length ds = Suc (Suc k)" by blast
    have "65536 ^ k * 2 ^ p \<le> (65536 ^ k * 65536 :: nat)"
      using p power_increasing [of p 16 "2 :: nat"] by simp
    also have "\<dots> \<le> mpn_val ds" using mpn_val_ge [OF ds(2,1)] by (simp add: k)
    finally have "65536 ^ k \<le> mpn_val ds div 2 ^ p" by (simp add: less_eq_div_iff_mult_less_eq)
    then show ?thesis using True i k v mpn_val_butlast_0 [of i] by (simp add: eq mpn_norm_iff)
  qed (auto simp: eq mpn_norm_def i)
qed (simp add: mpn_shr_def)

lemma shl_step:
  fixes h W prev :: nat
  assumes "p \<le> 16" and "W < 65536 ^ L"
  shows "((prev * 65536 ^ Suc L + (h * 65536 ^ L + W)) * 2 ^ p) mod 65536 ^ Suc (Suc L)
       = (h + 65536 * prev) div 2 ^ (16 - p) mod 65536 * 65536 ^ Suc L
         + ((h * 65536 ^ L + W) * 2 ^ p) mod 65536 ^ Suc L"
proof -
  have B: "(65536::nat) = 2 ^ p * 2 ^ (16 - p)" using assms(1) by (simp flip: power_add)
  define X where "X = (h * 65536 ^ L + W) * 2 ^ p"
  define Y where "Y = (prev * 65536 ^ Suc L + (h * 65536 ^ L + W)) * 2 ^ p"
  have Y: "Y = X + 65536 ^ Suc L * (prev * 2 ^ p)"
    by (simp add: X_def Y_def algebra_simps)
  have "X div 65536 ^ Suc L = X div (2 ^ p * (65536 ^ L * 2 ^ (16 - p)))"
    by (subst power_Suc, subst (1) B) (simp add: ac_simps)
  also have "\<dots> = (h * 65536 ^ L + W) div 65536 ^ L div 2 ^ (16 - p)"
    by (simp only: X_def div_mult2_eq) simp
  also have "(h * 65536 ^ L + W) div 65536 ^ L = h" using assms(2) by simp
  finally have X: "X div 65536 ^ Suc L = h div 2 ^ (16 - p)" .
  have "(h + 65536 * prev) div 2 ^ (16 - p) = (h + 2 ^ (16 - p) * (prev * 2 ^ p)) div 2 ^ (16 - p)"
    by (subst B) (simp add: ac_simps)
  also have "\<dots> = prev * 2 ^ p + h div 2 ^ (16 - p)" by (rule div_mult_self2) simp
  finally have hp: "(h + 65536 * prev) div 2 ^ (16 - p) = prev * 2 ^ p + h div 2 ^ (16 - p)" .
  have "Y div 65536 ^ Suc L = prev * 2 ^ p + X div 65536 ^ Suc L"
    unfolding Y by (rule div_mult_self2) simp
  with X hp have "Y div 65536 ^ Suc L = (h + 65536 * prev) div 2 ^ (16 - p)" by simp
  moreover have "Y mod 65536 ^ Suc L = X mod 65536 ^ Suc L" unfolding Y by simp
  moreover have "Y mod (65536 ^ Suc L * 65536)
      = 65536 ^ Suc L * (Y div 65536 ^ Suc L mod 65536) + Y mod 65536 ^ Suc L"
    by (rule mod_mult2_eq)
  ultimately have "Y mod (65536 ^ Suc L * 65536)
      = (h + 65536 * prev) div 2 ^ (16 - p) mod 65536 * 65536 ^ Suc L + X mod 65536 ^ Suc L"
    by (simp only: mult.commute)
  then show ?thesis by (simp only: X_def Y_def power_Suc2 [of _ "Suc L"])
qed

lemma length_mpn_shl_loop [simp]: "length (mpn_shl_loop p hs d) = Suc (length hs)"
  by (induction hs arbitrary: d) (auto simp: Let_def)

lemma mpn_shl_loop_val:
  assumes "p \<le> 16"
  shows "mpn_val (rev (mpn_shl_loop p hs (push_bit 16 (ucast (prev :: u16)))))
       = ((unat prev * 65536 ^ length hs + mpn_val (rev hs)) * 2 ^ p) mod 65536 ^ Suc (length hs)"
proof (induction hs arbitrary: prev)
  case Nil
  have B: "(65536::nat) = 2 ^ p * 2 ^ (16 - p)" using assms by (simp flip: power_add)
  have "unat (push_bit 16 (ucast prev :: u32)) = 65536 * unat prev"
    using unat_u16_lt [of prev] by (simp add: push_bit_eq_mult unat_mult_simple)
  moreover have "65536 * unat prev div 2 ^ (16 - p) = unat prev * 2 ^ p"
    by (subst B) (simp add: mult.assoc mult.commute [of "2 ^ (16 - p)"])
  ultimately show ?case
    by (simp add: unat_dig_of unat_drop_bit_div DIG_SIZE_def del: drop_bit_eq_div)
next
  case (Cons h hs)
  let ?d = "push_bit 16 (ucast prev :: u32) OR ucast h"
  have push: "push_bit DIG_SIZE ?d = push_bit 16 (ucast h)"
    by (rule bit_word_eqI) (auto simp: bit_simps DIG_SIZE_def dest: bit_imp_le_length)
  have out: "unat (dig_of (drop_bit (DIG_SIZE - p) ?d)) = (unat h + 65536 * unat prev) div 2 ^ (16 - p) mod 65536"
    by (simp only: unat_dig_of unat_drop_bit_div DIG_SIZE_def unat_or_push)
  have "mpn_val (rev (mpn_shl_loop p (h # hs) (push_bit 16 (ucast prev))))
      = mpn_val (rev (mpn_shl_loop p hs (push_bit 16 (ucast h))))
        + 65536 ^ Suc (length hs) * unat (dig_of (drop_bit (DIG_SIZE - p) ?d))"
    by (simp add: Let_def mpn_val_append push del: push_bit_or drop_bit_or)
  also have "\<dots> = ((unat prev * 65536 ^ Suc (length hs) + (unat h * 65536 ^ length hs + mpn_val (rev hs))) * 2 ^ p)
      mod 65536 ^ Suc (Suc (length hs))"
    using mpn_val_lt [of "rev hs"] by (simp only: Cons.IH out shl_step [OF assms] length_rev) simp
  finally show ?case by (simp add: mpn_val_append algebra_simps)
qed

lemma mpn_shl_val:
  assumes "0 < n"
  shows "mpn_val (mpn_shl js n) = mpn_val js * 2 ^ n"
proof -
  define p where "p = (if n mod 16 = 0 then 16 else n mod 16)"
  define w where "w = (n + 15) div 16 - 1"
  have p: "p \<le> 16" by (simp add: p_def)
  have n: "n = 16 * w + p" 
  proof (cases "n mod 16 = 0")
    case True
    then obtain q where "n = 16 * q" by auto
    with assms show ?thesis by (simp add: p_def w_def)
  next
    case False
    obtain q r where qr: "n = 16 * q + r" "r < 16" "r \<noteq> 0"
      using False mult_div_mod_eq [of 16 n] mod_less_divisor [of 16 n] by (metis zero_less_numeral)
    then have "16 * Suc q \<le> n + 15" "n + 15 < 16 * Suc (Suc q)" by simp_all
    then have "(n + 15) div 16 = Suc q" by (intro div_nat_eqI) (simp_all add: mult.commute)
    then show ?thesis using qr False by (simp add: p_def w_def)
  qed
  have pow: "(2::nat) ^ n = 65536 ^ w * 2 ^ p"
    by (simp only: n power_add power_mult) simp
  let ?l = "mpn_shl_loop p (rev js) 0"
  have "(2::nat) ^ p \<le> 2 ^ 16" using p by (rule power_increasing) simp
  then have "mpn_val js * 2 ^ p < 65536 ^ length js * 65536"
    using mpn_val_lt [of js] by (intro mult_less_le_imp_less) auto
  then have "mpn_val (rev ?l) = mpn_val js * 2 ^ p"
    using mpn_shl_loop_val [OF p, of "rev js" 0] by (simp add: mult.commute)
  moreover have "mpn_shl js n = mpn_remove_trailing_zeros (replicate w 0 @ rev ?l)"
    by (simp add: mpn_shl_def DIG_SIZE_def p_def w_def Let_def add.commute)
  ultimately show ?thesis by (simp add: mpn_val_append pow)
qed

lemma norm_mpn_shl: "mpn_norm (mpn_shl js n)"
  by (simp add: mpn_shl_def Let_def norm_remove_zeros)

lemma length_mpn_shl: "0 < n \<Longrightarrow> length (mpn_shl js n) \<le> length js + (n + DIG_SIZE - 1) div DIG_SIZE"
  using length_remove_zeros
  by (auto simp: mpn_shl_def Let_def DIG_SIZE_def intro!: le_trans [OF length_remove_zeros])

section \<open>Addition and subtraction\<close>

text \<open>
  Both loops of \<open>mpn_add\<close>: the digits both operands have, then the rest of the longer one.
  The callers pass \<open>jlen >= klen\<close>; with a shorter \<open>j\<close> the C code would read past its end,
  and the model stops.
\<close>

fun mpn_add_rest :: "mpz_dig_t list \<Rightarrow> mpz_dbl_dig_t \<Rightarrow> mpz_dig_t list" where
  "mpn_add_rest [] carry = (if carry \<noteq> 0 then [ucast carry] else [])"
| "mpn_add_rest (j # js) carry =
     (let carry = carry + ucast j in dig_of carry # mpn_add_rest js (carry_of carry))"

fun mpn_add_loop :: "mpz_dig_t list \<Rightarrow> mpz_dig_t list \<Rightarrow> mpz_dbl_dig_t \<Rightarrow> mpz_dig_t list" where
  "mpn_add_loop (j # js) (k # ks) carry =
     (let carry = carry + (ucast j + ucast k) in dig_of carry # mpn_add_loop js ks (carry_of carry))"
| "mpn_add_loop js [] carry = mpn_add_rest js carry"
| "mpn_add_loop [] (k # ks) carry = []"

definition mpn_add :: "mpz_dig_t list \<Rightarrow> mpz_dig_t list \<Rightarrow> mpz_dig_t list" where
  "mpn_add jdig kdig = mpn_add_loop jdig kdig 0"

text \<open>
  \<open>mpn_sub\<close> keeps the borrow in a signed word: \<open>borrow & DIG_MASK\<close> of a negative borrow are
  its low 16 bits in two's complement, and \<open>>>=\<close> is the arithmetic shift.
\<close>

definition borrow_of :: "mpz_dbl_dig_t \<Rightarrow> mpz_dbl_dig_t" where
  "borrow_of b = signed_drop_bit DIG_SIZE b"

fun mpn_sub_rest :: "mpz_dig_t list \<Rightarrow> mpz_dbl_dig_t \<Rightarrow> mpz_dig_t list" where
  "mpn_sub_rest [] borrow = []"
| "mpn_sub_rest (j # js) borrow =
     (let borrow = borrow + ucast j in dig_of borrow # mpn_sub_rest js (borrow_of borrow))"

fun mpn_sub_loop :: "mpz_dig_t list \<Rightarrow> mpz_dig_t list \<Rightarrow> mpz_dbl_dig_t \<Rightarrow> mpz_dig_t list" where
  "mpn_sub_loop (j # js) (k # ks) borrow =
     (let borrow = borrow + (ucast j - ucast k)
      in dig_of borrow # mpn_sub_loop js ks (borrow_of borrow))"
| "mpn_sub_loop js [] borrow = mpn_sub_rest js borrow"
| "mpn_sub_loop [] (k # ks) borrow = []"

definition mpn_sub :: "mpz_dig_t list \<Rightarrow> mpz_dig_t list \<Rightarrow> mpz_dig_t list" where
  "mpn_sub jdig kdig = mpn_remove_trailing_zeros (mpn_sub_loop jdig kdig 0)"

lemma mpn_add_rest_val:
  "unat c \<le> 1 \<Longrightarrow> mpn_val (mpn_add_rest js c) = mpn_val js + unat c"
proof (induction js arbitrary: c)
  case Nil
  then show ?case by (auto simp: unat_ucast_32_16 unat_eq_0)
next
  case (Cons j js)
  have s: "unat (c + ucast j) = unat c + unat j"
    using Cons.prems unat_u16_lt [of j] by (simp add: unat_plus_simple)
  moreover have "unat (carry_of (c + ucast j)) \<le> 1"
    using Cons.prems unat_u16_lt [of j] by (simp add: unat_carry_of s)
  ultimately show ?case
    using Cons.IH by (simp add: Let_def unat_dig_of unat_carry_of algebra_simps)
qed

lemma mpn_add_loop_val:
  "unat c \<le> 1 \<Longrightarrow> length ks \<le> length js \<Longrightarrow>
   mpn_val (mpn_add_loop js ks c) = mpn_val js + mpn_val ks + unat c"
proof (induction js ks c rule: mpn_add_loop.induct)
  case (1 j js k ks c)
  have s: "unat (c + (ucast j + ucast k)) = unat c + unat j + unat k"
    using "1.prems" unat_u16_lt [of j] unat_u16_lt [of k] by (simp add: unat_plus_simple)
  moreover have "unat (carry_of (c + (ucast j + ucast k))) \<le> 1"
    using "1.prems" unat_u16_lt [of j] unat_u16_lt [of k] by (simp add: unat_carry_of s)
  ultimately show ?case
    using "1.IH" [OF refl] "1.prems" by (simp add: Let_def unat_dig_of unat_carry_of algebra_simps)
qed (auto simp: mpn_add_rest_val)

lemma mpn_add_val: "length ks \<le> length js \<Longrightarrow> mpn_val (mpn_add js ks) = mpn_val js + mpn_val ks"
  by (simp add: mpn_add_def mpn_add_loop_val)

lemma mpn_add_rest_last:
  "unat c \<le> 1 \<Longrightarrow> length (mpn_add_rest js c) = length js \<or>
     length (mpn_add_rest js c) = Suc (length js) \<and> last (mpn_add_rest js c) \<noteq> 0"
proof (induction js arbitrary: c)
  case Nil
  then have "unat (ucast c :: u16) = unat c" by (simp add: unat_ucast_32_16)
  then show ?case by (auto simp: unat_eq_0 [symmetric])
next
  case (Cons j js)
  have "unat (carry_of (c + ucast j)) \<le> 1"
    using Cons.prems unat_u16_lt [of j] by (simp add: unat_carry_of unat_plus_simple)
  from Cons.IH [OF this] show ?case by (auto simp: Let_def)
qed

lemma mpn_add_loop_last:
  "unat c \<le> 1 \<Longrightarrow> length ks \<le> length js \<Longrightarrow> length (mpn_add_loop js ks c) = length js \<or>
     length (mpn_add_loop js ks c) = Suc (length js) \<and> last (mpn_add_loop js ks c) \<noteq> 0"
proof (induction js ks c rule: mpn_add_loop.induct)
  case (1 j js k ks c)
  have "unat (carry_of (c + (ucast j + ucast k))) \<le> 1"
    using "1.prems" unat_u16_lt [of j] unat_u16_lt [of k] by (simp add: unat_carry_of unat_plus_simple)
  from "1.IH" [OF refl this] "1.prems" show ?case by (auto simp: Let_def)
qed (auto simp: mpn_add_rest_last)

lemma length_mpn_add: "length ks \<le> length js \<Longrightarrow> length (mpn_add js ks) \<le> Suc (length js)"
  using mpn_add_loop_last [of 0 ks js] by (auto simp: mpn_add_def)

lemma norm_mpn_add:
  assumes "mpn_norm js" and "length ks \<le> length js"
  shows "mpn_norm (mpn_add js ks)"
proof -
  have le: "mpn_val js \<le> mpn_val (mpn_add js ks)" using assms(2) by (simp add: mpn_add_val)
  show ?thesis
  proof (cases "length (mpn_add js ks) = length js")
    case True
    with assms(1) le show ?thesis by (auto simp: mpn_norm_iff)
  next
    case False
    with mpn_add_loop_last [of 0 ks js] assms(2) show ?thesis by (auto simp: mpn_norm_def mpn_add_def)
  qed
qed

text \<open>Subtraction modulo the digits of \<open>j\<close>; no borrow is left when \<open>k <= j\<close>.\<close>

lemma uint_dig_of: "uint (dig_of b) = sint b mod 65536"
proof -
  have "int (unat (dig_of b)) = int (unat b) mod 65536"
    by (simp only: unat_dig_of of_nat_mod of_nat_numeral)
  then show ?thesis by (simp only: sint_u32_mod_16) simp
qed

lemma sint_borrow_of: "sint (borrow_of b) = sint b div 65536"
  by (simp add: borrow_of_def DIG_SIZE_def sint_signed_drop_bit_div)

lemma int_mpn_val_Cons: "int (mpn_val (d # ds)) = uint d + 65536 * int (mpn_val ds)"
  by simp

lemma sub_digit_step:
  assumes "0 < m" and "v = (x + s div 65536) mod m"
  shows "s mod 65536 + 65536 * v = (s + 65536 * x) mod (65536 * (m :: int))"
proof -
  have "s + 65536 * x = s mod 65536 + 65536 * (x + s div 65536)"
    using mult_div_mod_eq [of 65536 s] by (simp only: distrib_left)
  moreover have "(s mod 65536 + 65536 * (x + s div 65536)) mod (65536 * m)
      = s mod 65536 + 65536 * ((x + s div 65536) mod m)"
    using assms(1) by (intro mod_digit_step) simp_all
  ultimately show ?thesis by (simp only: assms(2))
qed

lemma div_borrow: "-65536 \<le> (s :: int) \<Longrightarrow> s < 65536 \<Longrightarrow> s div 65536 \<in> {-1, 0}"
proof -
  assume "-65536 \<le> s" "s < 65536"
  then have "-1 \<le> s div 65536" "s div 65536 < 1" by linarith+
  then show ?thesis by auto
qed

lemma mpn_sub_rest_val:
  "sint b \<in> {-1, 0} \<Longrightarrow>
   int (mpn_val (mpn_sub_rest js b)) = (int (mpn_val js) + sint b) mod 65536 ^ length js"
proof (induction js arbitrary: b)
  case (Cons j js)
  let ?s = "sint b + uint j"
  have j: "0 \<le> uint j" "uint j < 65536" by (simp, rule uint_u16_lt)
  have sb: "-1 \<le> sint b" "sint b \<le> 0" using Cons.prems by auto
  have s: "sint (b + ucast j) = ?s"
    by (rule sint_u32_add [of b "ucast j", unfolded sint_ucast_16]) (use sb j in linarith)+
  have "?s div 65536 \<in> {-1, 0}" by (rule div_borrow) (use sb j in linarith)+
  then have "int (mpn_val (mpn_sub_rest js (borrow_of (b + ucast j))))
      = (int (mpn_val js) + ?s div 65536) mod 65536 ^ length js"
    using Cons.IH by (simp add: sint_borrow_of s)
  from sub_digit_step [OF _ this] show ?case
    by (simp add: Let_def int_mpn_val_Cons uint_dig_of s algebra_simps)
qed auto

lemma mpn_sub_loop_val:
  "sint b \<in> {-1, 0} \<Longrightarrow> length ks \<le> length js \<Longrightarrow>
   int (mpn_val (mpn_sub_loop js ks b))
     = (int (mpn_val js) - int (mpn_val ks) + sint b) mod 65536 ^ length js"
proof (induction js ks b rule: mpn_sub_loop.induct)
  case (1 j js k ks b)
  let ?s = "sint b + (uint j - uint k)"
  have j: "0 \<le> uint j" "uint j < 65536" "0 \<le> uint k" "uint k < 65536"
    by (simp_all add: uint_u16_lt)
  have sb: "-1 \<le> sint b" "sint b \<le> 0" using "1.prems" by auto
  have d: "sint ((ucast j :: u32) - ucast k) = uint j - uint k"
    using sint_ucast_diff [of j k] by simp
  have s: "sint (b + (ucast j - ucast k)) = ?s"
    by (rule sint_u32_add [of b "ucast j - ucast k", unfolded d]) (use sb j in linarith)+
  have "?s div 65536 \<in> {-1, 0}" by (rule div_borrow) (use sb j in linarith)+
  then have "int (mpn_val (mpn_sub_loop js ks (borrow_of (b + (ucast j - ucast k)))))
      = (int (mpn_val js) - int (mpn_val ks) + ?s div 65536) mod 65536 ^ length js"
    using "1.IH" [OF refl] "1.prems" by (simp add: sint_borrow_of s)
  from sub_digit_step [OF _ this] have "int (mpn_val (mpn_sub_loop (j # js) (k # ks) b))
      = (?s + 65536 * (int (mpn_val js) - int (mpn_val ks))) mod (65536 * 65536 ^ length js)"
    by (simp only: mpn_sub_loop.simps Let_def int_mpn_val_Cons uint_dig_of s) simp
  also have "?s + 65536 * (int (mpn_val js) - int (mpn_val ks))
      = int (mpn_val (j # js)) - int (mpn_val (k # ks)) + sint b"
    by simp
  finally show ?case by simp
qed (auto simp: mpn_sub_rest_val)

lemma mpn_sub_val:
  assumes "length ks \<le> length js" and "mpn_val ks \<le> mpn_val js"
  shows "mpn_val (mpn_sub js ks) = mpn_val js - mpn_val ks"
proof -
  have "int (mpn_val js) < 65536 ^ length js"
    using mpn_val_lt [of js] by (metis of_nat_less_iff of_nat_numeral of_nat_power)
  then have "(int (mpn_val js) - int (mpn_val ks)) mod 65536 ^ length js = int (mpn_val js) - int (mpn_val ks)"
    using assms(2) by (intro mod_pos_pos_trivial) linarith+
  then have "int (mpn_val (mpn_sub js ks)) = int (mpn_val js) - int (mpn_val ks)"
    using assms(1) by (simp add: mpn_sub_def mpn_sub_loop_val)
  then show ?thesis using assms(2) by linarith
qed

lemma norm_mpn_sub: "mpn_norm (mpn_sub js ks)"
  by (simp add: mpn_sub_def norm_remove_zeros)

lemma length_mpn_sub_loop: "length ks \<le> length js \<Longrightarrow> length (mpn_sub_loop js ks b) = length js"
proof (induction js ks b rule: mpn_sub_loop.induct)
  case (2 js b)
  show ?case by (induction js arbitrary: b) (auto simp: Let_def)
qed (auto simp: Let_def)

lemma length_mpn_sub: "length ks \<le> length js \<Longrightarrow> length (mpn_sub js ks) \<le> length js"
  using length_remove_zeros [of "mpn_sub_loop js ks 0"]
  by (simp add: mpn_sub_def length_mpn_sub_loop)

section \<open>Multiplication\<close>

fun mpn_mul_dig_loop :: "mpz_dig_t list \<Rightarrow> mpz_dig_t \<Rightarrow> mpz_dbl_dig_t \<Rightarrow> mpz_dig_t list" where
  "mpn_mul_dig_loop [] dmul carry = (if carry \<noteq> 0 then [ucast carry] else [])"
| "mpn_mul_dig_loop (i # is) dmul carry =
     (let carry = carry + ucast i * ucast dmul
      in dig_of carry # mpn_mul_dig_loop is dmul (carry_of carry))"

definition mpn_mul_dig_add_dig :: "mpz_dig_t list \<Rightarrow> mpz_dig_t \<Rightarrow> mpz_dig_t \<Rightarrow> mpz_dig_t list" where
  "mpn_mul_dig_add_dig idig dmul dadd = mpn_mul_dig_loop idig dmul (ucast dadd)"

lemma mul_dig_bound:
  fixes a b c :: nat
  assumes "a \<le> 65535" and "b \<le> 65535"
  shows "a * b \<le> 4294836225"
  using mult_le_mono [OF assms] by simp

lemma unat_mul_digs: "unat ((ucast (i :: u16) :: u32) * ucast (d :: u16)) = unat i * unat d"
  using mul_dig_bound [OF unat_u16_le [of i] unat_u16_le [of d]] by (simp add: unat_mult_simple)

lemma mpn_mul_dig_loop_val:
  "unat c < 65536 \<Longrightarrow> mpn_val (mpn_mul_dig_loop is d c) = mpn_val is * unat d + unat c"
proof (induction "is" arbitrary: c)
  case Nil
  then show ?case by (auto simp: unat_ucast_32_16 unat_eq_0)
next
  case (Cons i "is")
  let ?c = "c + ucast i * ucast d"
  have b: "unat i * unat d \<le> 4294836225"
    using mul_dig_bound [OF unat_u16_le [of i] unat_u16_le [of d]] .
  have s: "unat ?c = unat c + unat i * unat d"
    using Cons.prems b by (simp add: unat_plus_simple unat_mul_digs)
  moreover have "unat (carry_of ?c) < 65536"
    using Cons.prems b by (simp add: unat_carry_of s)
  ultimately show ?case
    using Cons.IH by (simp add: Let_def unat_dig_of unat_carry_of algebra_simps)
qed

lemma mpn_mul_dig_add_dig_val:
  "mpn_val (mpn_mul_dig_add_dig is d a) = mpn_val is * unat d + unat a"
  by (simp add: mpn_mul_dig_add_dig_def mpn_mul_dig_loop_val unat_u16_lt)

lemma mpn_mul_dig_loop_last:
  "unat c < 65536 \<Longrightarrow> length (mpn_mul_dig_loop is d c) = length is \<or>
     length (mpn_mul_dig_loop is d c) = Suc (length is) \<and> last (mpn_mul_dig_loop is d c) \<noteq> 0"
proof (induction "is" arbitrary: c)
  case Nil
  then have "unat (ucast c :: u16) = unat c" by (simp add: unat_ucast_32_16)
  then show ?case by (auto simp: unat_eq_0 [symmetric])
next
  case (Cons i "is")
  have "unat (carry_of (c + ucast i * ucast d)) < 65536"
    using Cons.prems mul_dig_bound [OF unat_u16_le [of i] unat_u16_le [of d]]
    by (simp add: unat_carry_of unat_plus_simple unat_mul_digs)
  from Cons.IH [OF this] show ?case by (auto simp: Let_def)
qed

lemma norm_mpn_mul_dig_add_dig:
  assumes "mpn_norm is" and "d \<noteq> 0"
  shows "mpn_norm (mpn_mul_dig_add_dig is d a)"
proof -
  have "1 \<le> unat d" using assms(2) by (metis One_nat_def Suc_leI unat_gt_0)
  then have "mpn_val is * 1 \<le> mpn_val is * unat d" by (rule mult_le_mono2)
  then have le: "mpn_val is \<le> mpn_val (mpn_mul_dig_add_dig is d a)"
    by (simp only: mpn_mul_dig_add_dig_val mult_1_right trans_le_add1)
  show ?thesis
  proof (cases "length (mpn_mul_dig_add_dig is d a) = length is")
    case True
    with assms(1) le show ?thesis by (auto simp: mpn_norm_iff)
  next
    case False
    with mpn_mul_dig_loop_last [of "ucast a" "is" d] show ?thesis
      by (auto simp: mpn_norm_def mpn_mul_dig_add_dig_def unat_u16_lt)
  qed
qed

lemma length_mpn_mul_dig_add_dig: "length (mpn_mul_dig_add_dig is d a) \<le> Suc (length is)"
  using mpn_mul_dig_loop_last [of "ucast a" "is" d]
  by (auto simp: mpn_mul_dig_add_dig_def unat_u16_lt)

text \<open>
  \<open>mpn_mul\<close>: the destination is a zeroed buffer. \<open>mpn_mul_inner\<close> is one row, starting at the
  digit of the destination that \<open>id\<close> points to; it returns the buffer and how far \<open>id\<close> got.
  \<open>mpn_mul_outer\<close> runs over the digits of \<open>k\<close>; \<open>off\<close> is \<open>idig - oidig\<close>.
\<close>

fun mpn_mul_inner ::
  "mpz_dig_t list \<Rightarrow> mpz_dig_t list \<Rightarrow> mpz_dig_t \<Rightarrow> mpz_dbl_dig_t \<Rightarrow> mpz_dig_t list \<times> nat" where
  "mpn_mul_inner (i # is) (j # js) k carry =
     (let carry = carry + (ucast i + ucast j * ucast k);
          (is', n) = mpn_mul_inner is js k (carry_of carry)
      in (dig_of carry # is', Suc n))"
| "mpn_mul_inner is [] k carry =
     (if carry \<noteq> 0 then (case is of [] \<Rightarrow> [] | _ # is' \<Rightarrow> ucast carry # is', 1) else (is, 0))"
| "mpn_mul_inner [] (j # js) k carry = ([], 0)"

fun mpn_mul_outer ::
  "nat \<Rightarrow> mpz_dig_t list \<Rightarrow> mpz_dig_t list \<Rightarrow> mpz_dig_t list \<Rightarrow> nat \<Rightarrow> mpz_dig_t list \<times> nat" where
  "mpn_mul_outer off is js [] ilen = (is, ilen)"
| "mpn_mul_outer off is js (k # ks) ilen =
     (case mpn_mul_inner is js k 0 of
        ([], n) \<Rightarrow> ([], off + n)
      | (i # is', n) \<Rightarrow>
          (let (is'', ilen') = mpn_mul_outer (Suc off) is' js ks (off + n) in (i # is'', ilen')))"

definition mpn_mul :: "mpz_dig_t list \<Rightarrow> mpz_dig_t list \<Rightarrow> mpz_dig_t list \<Rightarrow> mpz_dig_t list" where
  "mpn_mul idig jdig kdig =
     (let (i, ilen) = mpn_mul_outer 0 idig jdig kdig 0 in take ilen i)"

lemma unat_mul_step:
  assumes "unat (c :: u32) < 65536"
  shows "unat (c + (ucast (i :: u16) + ucast (j :: u16) * ucast (k :: u16))) = unat c + unat i + unat j * unat k"
proof -
  have "unat j * unat k \<le> 4294836225"
    using mul_dig_bound [OF unat_u16_le [of j] unat_u16_le [of k]] .
  then show ?thesis
    using assms unat_u16_lt [of i] by (simp add: unat_plus_simple unat_mul_digs)
qed

lemma mul_carry_bound:
  "unat (c :: u32) < 65536 \<Longrightarrow> unat (carry_of (c + (ucast (i :: u16) + ucast (j :: u16) * ucast (k :: u16)))) < 65536"
  using mul_dig_bound [OF unat_u16_le [of j] unat_u16_le [of k]] unat_u16_le [of i]
  by (simp add: unat_carry_of unat_mul_step)

lemma mpn_mul_inner_spec:
  assumes "mpn_mul_inner is js k c = (r, n)" and "length js < length is" and "unat c < 65536"
    and "drop (length js) is = replicate (length is - length js) 0"
  shows "mpn_val r = mpn_val is + mpn_val js * unat k + unat c \<and> length r = length is
    \<and> drop (Suc (length js)) r = replicate (length is - Suc (length js)) 0
    \<and> (n = length js \<and> r ! length js = 0 \<or> n = Suc (length js) \<and> r ! length js \<noteq> 0)"
  using assms
proof (induction "is" js k c arbitrary: r n rule: mpn_mul_inner.induct)
  case (1 i "is" j js k c)
  let ?c = "c + (ucast i + ucast j * ucast k)"
  obtain r' n' where r': "mpn_mul_inner is js k (carry_of ?c) = (r', n')" by fastforce
  with "1.prems" have rn: "r = dig_of ?c # r'" "n = Suc n'" by (simp_all add: Let_def)
  have len: "length js < length is" using "1.prems"(2) by simp
  have dr: "drop (length js) is = replicate (length is - length js) 0" using "1.prems"(4) by simp
  have IH: "mpn_val r' = mpn_val is + mpn_val js * unat k + unat (carry_of ?c) \<and> length r' = length is
    \<and> drop (Suc (length js)) r' = replicate (length is - Suc (length js)) 0
    \<and> (n' = length js \<and> r' ! length js = 0 \<or> n' = Suc (length js) \<and> r' ! length js \<noteq> 0)"
    by (rule "1.IH" [OF refl r' len _ dr]) (rule mul_carry_bound [OF "1.prems"(3)])
  have "unat ?c mod 65536 + 65536 * (unat ?c div 65536) = unat c + unat i + unat j * unat k"
    by (simp only: unat_mul_step [OF "1.prems"(3)]) simp
  with IH show ?case
    by (simp add: rn unat_dig_of unat_carry_of algebra_simps)
next
  case (2 "is" k c)
  then obtain i is' where i: "is = i # is'" by (cases "is") auto
  have i0: "i = 0" "is' = replicate (length is') 0" using 2 by (simp_all add: i)
  have "unat (ucast c :: u16) = unat c" using 2 by (simp add: unat_ucast_32_16)
  moreover from this have "c \<noteq> 0 \<Longrightarrow> (ucast c :: u16) \<noteq> 0" by (metis unat_eq_0)
  ultimately show ?case using 2 i0 by (auto simp: i split: if_splits)
qed auto

lemma mpn_mul_outer_spec:
  assumes "mpn_mul_outer off is js ks il = (r, il')"
    and "length js + length ks \<le> length is" and "js \<noteq> []"
    and "drop (length js) is = replicate (length is - length js) 0"
    and "ks = [] \<longrightarrow> drop (il - off) is = replicate (length is - (il - off)) 0"
  shows "mpn_val r = mpn_val is + mpn_val js * mpn_val ks \<and> length r = length is
    \<and> drop (il' - off) r = replicate (length is - (il' - off)) 0
    \<and> (ks = [] \<longrightarrow> r = is \<and> il' = il)
    \<and> (ks \<noteq> [] \<longrightarrow> il' = off + length js + length ks - 1 \<or>
          il' = off + length js + length ks \<and> r ! (il' - off - 1) \<noteq> 0)"
  using assms
proof (induction off "is" js ks il arbitrary: r il' rule: mpn_mul_outer.induct)
  case (2 off "is" js k ks il)
  obtain r1 n where in1: "mpn_mul_inner is js k 0 = (r1, n)" by fastforce
  have js: "0 < length js" using "2.prems"(3) by simp
  have row: "mpn_val r1 = mpn_val is + mpn_val js * unat k" "length r1 = length is"
    "drop (Suc (length js)) r1 = replicate (length is - Suc (length js)) 0"
    "n = length js \<and> r1 ! length js = 0 \<or> n = Suc (length js) \<and> r1 ! length js \<noteq> 0"
    using mpn_mul_inner_spec [OF in1 _ _ "2.prems"(4)] "2.prems"(2) by auto
  then obtain i r1' where r1: "r1 = i # r1'" using "2.prems"(2) by (cases r1) auto
  obtain r' where r': "mpn_mul_outer (Suc off) r1' js ks (off + n) = (r', il')" and r: "r = i # r'"
    using "2.prems"(1) by (auto simp: in1 r1 split: prod.splits)
  have "drop (length js) r1 = r1 ! length js # drop (Suc (length js)) r1"
    using row(2) "2.prems"(2) by (intro Cons_nth_drop_Suc [symmetric]) simp
  moreover have "length is - length js = Suc (length is - Suc (length js))"
    using "2.prems"(2) by simp
  ultimately have dn: "drop n r1 = replicate (length is - n) 0"
    using row by auto
  have n: "n = Suc (n - 1)" using row(4) js by auto
  have "mpn_val r' = mpn_val r1' + mpn_val js * mpn_val ks \<and> length r' = length r1'
    \<and> drop (il' - Suc off) r' = replicate (length r1' - (il' - Suc off)) 0
    \<and> (ks = [] \<longrightarrow> r' = r1' \<and> il' = off + n)
    \<and> (ks \<noteq> [] \<longrightarrow> il' = Suc off + length js + length ks - 1 \<or>
          il' = Suc off + length js + length ks \<and> r' ! (il' - Suc off - 1) \<noteq> 0)"
  proof (rule "2.IH" [OF in1 [symmetric] r1 r'])
    show "drop (length js) r1' = replicate (length r1' - length js) 0"
      using row(2,3) by (simp add: r1)
    show "ks = [] \<longrightarrow> drop (off + n - Suc off) r1' = replicate (length r1' - (off + n - Suc off)) 0"
      using dn row(2) n by (metis r1 diff_Suc_Suc diff_add_inverse drop_Suc_Cons length_Cons add_Suc_right)
  qed (use "2.prems" row r1 in auto)
  moreover from this have "il' - off = Suc (il' - Suc off)" using n js by (cases "ks = []") auto
  ultimately show ?case
    using row js by (auto simp: r r1 algebra_simps nth_Cons')
qed auto

lemma mpn_mul_outer_zeroed:
  assumes "mpn_mul_outer 0 (replicate a 0) js ks 0 = (r, il)"
    and "length js + length ks \<le> a" and "js \<noteq> []"
  shows "mpn_val (take il r) = mpn_val js * mpn_val ks" and "length r = a"
    and "ks \<noteq> [] \<longrightarrow> il = length js + length ks - 1 \<or>
          il = length js + length ks \<and> r ! (il - 1) \<noteq> 0"
proof -
  have z: "drop n (replicate a 0) = replicate (length (replicate a (0 :: u16)) - n) (0 :: u16)" for n
    by simp
  have "mpn_val r = mpn_val js * mpn_val ks \<and> length r = a \<and> drop il r = replicate (a - il) 0
    \<and> (ks \<noteq> [] \<longrightarrow> il = length js + length ks - 1 \<or> il = length js + length ks \<and> r ! (il - 1) \<noteq> 0)"
    using mpn_mul_outer_spec [OF assms(1) _ assms(3) z] assms(2) by simp
  moreover from this have "mpn_val (take il r) = mpn_val r"
    using mpn_val_append [of "take il r" "drop il r"] unfolding append_take_drop_id by simp
  ultimately show "mpn_val (take il r) = mpn_val js * mpn_val ks" and "length r = a"
    and "ks \<noteq> [] \<longrightarrow> il = length js + length ks - 1 \<or> il = length js + length ks \<and> r ! (il - 1) \<noteq> 0"
    by simp_all
qed

lemma mpn_mul_val:
  assumes "length js + length ks \<le> a" and "js \<noteq> []"
  shows "mpn_val (mpn_mul (replicate a 0) js ks) = mpn_val js * mpn_val ks"
  using mpn_mul_outer_zeroed(1) [OF _ assms]
  by (auto simp: mpn_mul_def Let_def split: prod.split)

lemma length_mpn_mul:
  assumes "length js + length ks \<le> a" and "js \<noteq> []" and "ks \<noteq> []"
  shows "length (mpn_mul (replicate a 0) js ks) \<le> length js + length ks"
  using mpn_mul_outer_zeroed(2,3) [OF _ assms(1,2)] assms(3)
  by (fastforce simp: mpn_mul_def Let_def split: prod.split)

lemma norm_mpn_mul:
  assumes "length js + length ks \<le> a" and "js \<noteq> []" and "ks \<noteq> []" and "mpn_norm js" and "mpn_norm ks"
  shows "mpn_norm (mpn_mul (replicate a 0) js ks)"
proof -
  obtain r il where r: "mpn_mul_outer 0 (replicate a 0) js ks 0 = (r, il)" by fastforce
  note z = mpn_mul_outer_zeroed [OF r assms(1,2)]
  have m: "mpn_mul (replicate a 0) js ks = take il r" by (simp add: mpn_mul_def r)
  have pos: "0 < length js" "0 < length ks" using assms(2,3) by auto
  from z(3) assms(3) consider (short) "il = length js + length ks - 1"
    | (long) "il = length js + length ks" "r ! (il - 1) \<noteq> 0" by auto
  then show ?thesis
  proof cases
    case short
    have "65536 ^ (il - 1) = (65536::nat) ^ (length js - 1) * 65536 ^ (length ks - 1)"
      using pos by (cases "length js"; cases "length ks") (auto simp: short power_add)
    also have "\<dots> \<le> mpn_val js * mpn_val ks"
      using assms by (intro mult_le_mono mpn_val_ge)
    finally show ?thesis
      using z(1,2) assms(1) short by (simp add: m mpn_norm_iff)
  next
    case long
    then have "last (take il r) = r ! (il - 1)"
      using z(2) assms(1) pos by (subst last_conv_nth) auto
    with long show ?thesis by (simp add: m mpn_norm_def)
  qed
qed

section \<open>Digits and carries as integers\<close>

lemma uint_carry_of: "uint (carry_of c) = uint c div 65536"
proof -
  have "int (unat (carry_of c)) = int (unat c) div 65536"
    by (simp only: unat_carry_of of_nat_div of_nat_numeral)
  then show ?thesis by simp
qed

lemma uint_dig_of_mod: "uint (dig_of c) = uint c mod 65536"
proof -
  have "int (unat (dig_of c)) = int (unat c) mod 65536"
    by (simp only: unat_dig_of of_nat_mod of_nat_numeral)
  then show ?thesis by simp
qed

lemma uint_u32_add:
  assumes "uint (a :: u32) + uint b < 4294967296"
  shows "uint (a + b) = uint a + uint b"
  using assms by (simp add: uint_word_ariths)

lemma uint_DIG_MASK [simp]: "uint DIG_MASK = 65535"
  by (simp add: DIG_MASK_def)

lemma DIG_MASK_mask: "DIG_MASK = mask 16"
  by (simp add: DIG_MASK_def mask_eq_exp_minus_1)

lemma uint_and_DIG_MASK: "uint (w AND DIG_MASK) = uint w mod 65536"
proof -
  have "uint (w AND DIG_MASK) = take_bit 16 (uint w)"
    by (simp only: DIG_MASK_mask take_bit_eq_mask [symmetric] unsigned_take_bit_eq)
  then show ?thesis by (simp add: take_bit_eq_mod)
qed

end
