(* ===== verification/MpnBits.thy ===== *)
theory MpnBits
  imports Mpn
begin

text \<open>
  The bitwise operations of \<open>py/mpz.c\<close> on digit arrays: the plain digit-by-digit loops and the
  loops that work on the two's complement of negative operands. The port sets
  \<open>MICROPY_OPT_MPZ_BITWISE\<close>, so these are the variants of that configuration.
\<close>

section \<open>Non-negative operands\<close>

text \<open>\<open>mpn_and\<close> reads only the \<open>klen\<close> digits of the shorter operand.\<close>

definition mpn_and :: "mpz_dig_t list \<Rightarrow> mpz_dig_t list \<Rightarrow> mpz_dig_t list" where
  "mpn_and jdig kdig = mpn_remove_trailing_zeros (map2 (AND) jdig kdig)"

fun mpn_bit_loop ::
  "(mpz_dig_t \<Rightarrow> mpz_dig_t \<Rightarrow> mpz_dig_t) \<Rightarrow> mpz_dig_t list \<Rightarrow> mpz_dig_t list \<Rightarrow> mpz_dig_t list" where
  "mpn_bit_loop f (j # js) (k # ks) = f j k # mpn_bit_loop f js ks"
| "mpn_bit_loop f js [] = js"
| "mpn_bit_loop f [] (k # ks) = []"

definition mpn_or :: "mpz_dig_t list \<Rightarrow> mpz_dig_t list \<Rightarrow> mpz_dig_t list" where
  "mpn_or jdig kdig = mpn_bit_loop (OR) jdig kdig"

definition mpn_xor :: "mpz_dig_t list \<Rightarrow> mpz_dig_t list \<Rightarrow> mpz_dig_t list" where
  "mpn_xor jdig kdig = mpn_remove_trailing_zeros (mpn_bit_loop (XOR) jdig kdig)"

section \<open>Operands in two's complement\<close>

text \<open>
  The loop shared by \<open>mpn_and_neg\<close>, \<open>mpn_or_neg\<close> and \<open>mpn_xor_neg\<close>. \<open>fj\<close> and \<open>fk\<close> are what a
  digit adds to \<open>carryj\<close> and \<open>carryk\<close>, \<open>kfill\<close> what \<open>carryk\<close> gets once \<open>k\<close> is used up, and
  \<open>fi\<close> what the two carries add to \<open>carryi\<close>. The lengths are \<open>size_t\<close> counters: the test
  \<open>--klen <= --jlen\<close> relies on \<open>klen\<close> wrapping around to a huge value after the last digit of
  \<open>k\<close>. The result is the digits and the \<open>carryi\<close> that is left.
\<close>

fun mpn_neg_loop ::
  "(mpz_dbl_dig_t \<Rightarrow> mpz_dbl_dig_t \<Rightarrow> mpz_dbl_dig_t) \<Rightarrow> (mpz_dig_t \<Rightarrow> mpz_dbl_dig_t) \<Rightarrow>
   (mpz_dig_t \<Rightarrow> mpz_dbl_dig_t) \<Rightarrow> mpz_dbl_dig_t \<Rightarrow> mpz_dig_t list \<Rightarrow> 64 word \<Rightarrow> mpz_dig_t list \<Rightarrow>
   64 word \<Rightarrow> mpz_dbl_dig_t \<Rightarrow> mpz_dbl_dig_t \<Rightarrow> mpz_dbl_dig_t \<Rightarrow> mpz_dig_t list \<times> mpz_dbl_dig_t" where
  "mpn_neg_loop fi fj fk kfill [] jlen ks klen carryi carryj carryk = ([], carryi)"
| "mpn_neg_loop fi fj fk kfill (j # js) jlen ks klen carryi carryj carryk =
     (let carryj = carryj + fj j;
          klen = klen - 1;
          jlen = jlen - 1;
          (addk, ks) = (if klen \<le> jlen then (fk (hd ks), tl ks) else (kfill, ks));
          carryk = carryk + addk;
          carryi = carryi + fi carryj carryk;
          (ds, c) = mpn_neg_loop fi fj fk kfill js jlen ks klen
                      (carry_of carryi) (carry_of carryj) (carry_of carryk)
      in (dig_of carryi # ds, c))"

text \<open>A mask is \<open>DIG_MASK\<close> when its carry is set.\<close>

definition mask_of :: "mpz_dbl_dig_t \<Rightarrow> mpz_dig_t" where
  "mask_of carry = (if carry = 0 then 0 else ucast DIG_MASK)"

definition mpn_and_neg ::
  "mpz_dig_t list \<Rightarrow> mpz_dig_t list \<Rightarrow> mpz_dbl_dig_t \<Rightarrow> mpz_dbl_dig_t \<Rightarrow> mpz_dbl_dig_t \<Rightarrow> mpz_dig_t list" where
  "mpn_and_neg jdig kdig carryi carryj carryk =
     (let imask = mask_of carryi; jmask = mask_of carryj; kmask = mask_of carryk;
          (ds, c) = mpn_neg_loop (\<lambda>cj ck. ((cj AND ck) XOR ucast imask) AND DIG_MASK)
                      (\<lambda>j. ucast (j XOR jmask)) (\<lambda>k. ucast (k XOR kmask)) (ucast kmask)
                      jdig (of_nat (length jdig)) kdig (of_nat (length kdig)) carryi carryj carryk
      in mpn_remove_trailing_zeros (ds @ (if c \<noteq> 0 then [ucast c] else [])))"

text \<open>\<open>mpn_or_neg\<close> ends with \<open>assert(carryi == 0)\<close>: \<open>None\<close> is the failed assertion.\<close>

definition mpn_or_neg ::
  "mpz_dig_t list \<Rightarrow> mpz_dig_t list \<Rightarrow> mpz_dbl_dig_t \<Rightarrow> mpz_dbl_dig_t \<Rightarrow> mpz_dig_t list option" where
  "mpn_or_neg jdig kdig carryj carryk =
     (let jmask = mask_of carryj; kmask = mask_of carryk;
          (ds, c) = mpn_neg_loop (\<lambda>cj ck. ((cj OR ck) XOR DIG_MASK) AND DIG_MASK)
                      (\<lambda>j. ucast (j XOR jmask)) (\<lambda>k. ucast (k XOR kmask)) (ucast kmask)
                      jdig (of_nat (length jdig)) kdig (of_nat (length kdig)) 1 carryj carryk
      in if c = 0 then Some (mpn_remove_trailing_zeros ds) else None)"

definition mpn_xor_neg ::
  "mpz_dig_t list \<Rightarrow> mpz_dig_t list \<Rightarrow> mpz_dbl_dig_t \<Rightarrow> mpz_dbl_dig_t \<Rightarrow> mpz_dbl_dig_t \<Rightarrow> mpz_dig_t list" where
  "mpn_xor_neg jdig kdig carryi carryj carryk =
     (let (ds, c) = mpn_neg_loop (\<lambda>cj ck. (cj XOR ck) AND DIG_MASK)
                      (\<lambda>j. ucast j + DIG_MASK) (\<lambda>k. ucast k + DIG_MASK) DIG_MASK
                      jdig (of_nat (length jdig)) kdig (of_nat (length kdig)) carryi carryj carryk
      in mpn_remove_trailing_zeros (ds @ (if c \<noteq> 0 then [ucast c] else [])))"

section \<open>Bitwise operations digit by digit\<close>

text \<open>
  The operations on integers that act on each digit separately; \<open>digitwise f\<close> is what the
  proofs need of \<open>AND\<close>, \<open>OR\<close> and \<open>XOR\<close>.
\<close>

definition digitwise :: "(int \<Rightarrow> int \<Rightarrow> int) \<Rightarrow> bool" where
  "digitwise f \<longleftrightarrow> f 0 0 = 0 \<and>
     (\<forall>x y. f x y mod 65536 = f (x mod 65536) (y mod 65536) \<and> f x y div 65536 = f (x div 65536) (y div 65536))"

lemma digitwise_ops [simp, intro]: "digitwise (AND)" "digitwise (OR)" "digitwise (XOR)"
proof -
  have m: "x mod 65536 = take_bit 16 (x :: int)" and d: "x div 65536 = drop_bit 16 (x :: int)" for x
    by (simp_all add: take_bit_eq_mod drop_bit_eq_div)
  show "digitwise (AND)" "digitwise (OR)" "digitwise (XOR)"
    by (simp_all only: digitwise_def m d take_bit_and take_bit_or take_bit_xor
        drop_bit_and drop_bit_or drop_bit_xor) simp_all
qed

lemma digitwise_split:
  assumes "digitwise f" and "0 \<le> x" "x < 65536" "0 \<le> y" "y < 65536"
  shows "f (x + 65536 * x') (y + 65536 * y') = f x y + 65536 * f x' y'" and "0 \<le> f x y" and "f x y < 65536"
proof -
  let ?X = "x + 65536 * x'" and ?Y = "y + 65536 * y'"
  have "f ?X ?Y mod 65536 = f x y" "f ?X ?Y div 65536 = f x' y'"
    using assms by (simp_all add: digitwise_def)
  then show "f ?X ?Y = f x y + 65536 * f x' y'" and "0 \<le> f x y" and "f x y < 65536"
    by (metis mult_div_mod_eq add.commute, metis pos_mod_sign zero_less_numeral,
        metis pos_mod_bound zero_less_numeral)
qed

lemma uint_u16_digit: "0 \<le> uint (w :: u16)" "uint (w :: u16) < 65536"
  by (simp_all add: uint_u16_lt)

lemma digitwise_Cons:
  assumes "digitwise f"
  shows "f (int (mpn_val (j # js))) (int (mpn_val (k # ks)))
       = f (uint j) (uint k) + 65536 * f (int (mpn_val js)) (int (mpn_val ks))"
  by (simp only: int_mpn_val_Cons digitwise_split(1) [OF assms uint_u16_digit uint_u16_digit])

lemma mpn_bit_loop_val:
  assumes "digitwise f" and "\<And>j k. uint (g j k) = f (uint j) (uint k)" and "\<And>x. f x 0 = x"
  shows "length ks \<le> length js \<Longrightarrow> int (mpn_val (mpn_bit_loop g js ks)) = f (int (mpn_val js)) (int (mpn_val ks))"
proof (induction js arbitrary: ks)
  case (Cons j js)
  then show ?case
    by (cases ks) (simp_all add: assms(2,3) digitwise_Cons [OF assms(1)] del: mpn_val.simps(2)
        of_nat_add, simp add: int_mpn_val_Cons assms(2))
qed (simp add: assms(3))

lemma mpn_and_val:
  "length ks \<le> length js \<Longrightarrow> int (mpn_val (mpn_and js ks)) = int (mpn_val js) AND int (mpn_val ks)"
proof -
  have "int (mpn_val (map2 (AND) js ks)) = int (mpn_val js) AND int (mpn_val ks)"
    if "length ks \<le> length js"
    using that
  proof (induction js arbitrary: ks)
    case (Cons j js)
    then show ?case
      by (cases ks) (simp_all add: digitwise_split(1) [of "(AND)", OF _ uint_u16_digit uint_u16_digit]
          int_mpn_val_Cons unsigned_and_eq del: mpn_val.simps(2) of_nat_add)
  qed simp
  then show "length ks \<le> length js \<Longrightarrow> ?thesis" by (simp add: mpn_and_def)
qed

lemma mpn_or_val:
  "length ks \<le> length js \<Longrightarrow> int (mpn_val (mpn_or js ks)) = int (mpn_val js) OR int (mpn_val ks)"
  unfolding mpn_or_def by (rule mpn_bit_loop_val) (simp_all add: unsigned_or_eq)

lemma mpn_xor_val:
  "length ks \<le> length js \<Longrightarrow> int (mpn_val (mpn_xor js ks)) = int (mpn_val js) XOR int (mpn_val ks)"
proof -
  assume "length ks \<le> length js"
  then have "int (mpn_val (mpn_bit_loop (XOR) js ks)) = int (mpn_val js) XOR int (mpn_val ks)"
    by (intro mpn_bit_loop_val) (simp_all add: unsigned_xor_eq)
  then show ?thesis by (simp add: mpn_xor_def)
qed

lemma length_mpn_bit_loop: "length ks \<le> length js \<Longrightarrow> length (mpn_bit_loop f js ks) = length js"
  by (induction f js ks rule: mpn_bit_loop.induct) auto

lemma mpn_bit_loop_last:
  "length ks < length js \<Longrightarrow> last (mpn_bit_loop f js ks) = last js"
proof (induction f js ks rule: mpn_bit_loop.induct)
  case (1 f j js k ks)
  then have "js \<noteq> []" "mpn_bit_loop f js ks \<noteq> []"
    using length_mpn_bit_loop [of ks js f] by auto
  with 1 show ?case by simp
qed auto

lemma norm_mpn_or:
  assumes "mpn_norm js" and "mpn_norm ks" and "length ks \<le> length js"
  shows "mpn_norm (mpn_or js ks)"
proof (cases "js = []")
  case False
  have len: "length (mpn_or js ks) = length js" using assms(3) by (simp add: mpn_or_def length_mpn_bit_loop)
  have "int (mpn_val js) \<le> int (mpn_val js) OR int (mpn_val ks)"
    by (rule or_greater_eq) simp
  then have "mpn_val js \<le> mpn_val (mpn_or js ks)"
    using mpn_or_val [OF assms(3)] by linarith
  with assms(1) len False show ?thesis by (auto simp: mpn_norm_iff)
qed (use assms(3) in \<open>auto simp: mpn_or_def\<close>)

lemma length_mpn_and: "length (mpn_and js ks) \<le> length ks"
  using length_remove_zeros [of "map2 (AND) js ks"] by (simp add: mpn_and_def)

lemma length_mpn_or: "length ks \<le> length js \<Longrightarrow> length (mpn_or js ks) = length js"
  by (simp add: mpn_or_def length_mpn_bit_loop)

lemma length_mpn_xor: "length ks \<le> length js \<Longrightarrow> length (mpn_xor js ks) \<le> length js"
  using length_remove_zeros [of "mpn_bit_loop (XOR) js ks"]
  by (simp add: mpn_xor_def length_mpn_bit_loop)

section \<open>The value the shared loop computes\<close>

text \<open>What \<open>L\<close> digits add to a carry, the digits after the last one adding \<open>fill\<close>.\<close>

fun fed_val :: "(mpz_dig_t \<Rightarrow> mpz_dbl_dig_t) \<Rightarrow> mpz_dbl_dig_t \<Rightarrow> nat \<Rightarrow> mpz_dig_t list \<Rightarrow> int" where
  "fed_val f fill 0 ds = 0"
| "fed_val f fill (Suc n) [] = uint fill + 65536 * fed_val f fill n []"
| "fed_val f fill (Suc n) (d # ds) = uint (f d) + 65536 * fed_val f fill n ds"

text \<open>The two counters of the loop, against the digits that are left.\<close>

definition counters_ok :: "mpz_dig_t list \<Rightarrow> 64 word \<Rightarrow> mpz_dig_t list \<Rightarrow> 64 word \<Rightarrow> bool" where
  "counters_ok js jlen ks klen \<longleftrightarrow> unat jlen = length js \<and>
     (if ks = [] then klen = 0 \<or> length js < unat klen
      else unat klen = length ks \<and> length ks \<le> length js)"

lemma counters_step:
  assumes "counters_ok (j # js) jlen ks klen"
  shows "klen - 1 \<le> jlen - 1 \<longleftrightarrow> ks \<noteq> []" and "counters_ok js (jlen - 1) (tl ks) (klen - 1)"
proof -
  have j: "unat (jlen - 1) = length js" and jl: "length js < 2 ^ 64 - 1"
  proof -
    have "jlen \<noteq> 0" using assms by (auto simp: counters_ok_def)
    then show "unat (jlen - 1) = length js" using assms by (simp add: counters_ok_def unat_minus_one)
    show "length js < 2 ^ 64 - 1" using assms unat_lt_2p [of jlen] by (simp add: counters_ok_def)
  qed
  consider (z) "ks = []" "klen = 0" | (w) "ks = []" "Suc (length js) < unat klen"
    | (k) k ks' where "ks = k # ks'" "unat klen = Suc (length ks')" "length ks' \<le> length js"
    using assms by (cases ks) (auto simp: counters_ok_def)
  then have "(klen - 1 \<le> jlen - 1 \<longleftrightarrow> ks \<noteq> []) \<and> counters_ok js (jlen - 1) (tl ks) (klen - 1)"
  proof cases
    case z
    have "unat (klen - 1) = 2 ^ 64 - 1" unfolding z by (simp add: unsigned_minus_1_eq_mask mask_eq_exp_minus_1)
    with z j jl show ?thesis by (simp add: counters_ok_def word_le_nat_alt)
  next
    case w
    then have "klen \<noteq> 0" by auto
    then have "unat (klen - 1) = unat klen - 1" by (rule unat_minus_one)
    moreover have "length js < unat klen - 1" using w by linarith
    ultimately show ?thesis using w j by (simp add: counters_ok_def word_le_nat_alt)
  next
    case k
    then have "klen \<noteq> 0" by auto
    then have "unat (klen - 1) = length ks'" using k by (simp add: unat_minus_one)
    moreover have "ks' = [] \<longrightarrow> klen = 1" using k by (simp add: word_unat_eq_iff)
    ultimately show ?thesis using k j by (simp add: counters_ok_def word_le_nat_alt)
  qed
  then show "klen - 1 \<le> jlen - 1 \<longleftrightarrow> ks \<noteq> []" and "counters_ok js (jlen - 1) (tl ks) (klen - 1)"
    by simp_all
qed

text \<open>\<open>fi\<close> combines the low digits of its arguments by \<open>f\<close>, complemented or not.\<close>

definition combines ::
  "(mpz_dbl_dig_t \<Rightarrow> mpz_dbl_dig_t \<Rightarrow> mpz_dbl_dig_t) \<Rightarrow> (int \<Rightarrow> int \<Rightarrow> int) \<Rightarrow> bool \<Rightarrow> bool" where
  "combines fi f cmpl \<longleftrightarrow> digitwise f \<and>
     (\<forall>a b. uint (fi a b) = (let r = f (uint a mod 65536) (uint b mod 65536) in if cmpl then 65535 - r else r))"

definition compl_val :: "bool \<Rightarrow> int \<Rightarrow> int \<Rightarrow> int" where
  "compl_val cmpl m r = (if cmpl then m - 1 - r else r)"

lemma compl_val_Cons:
  "compl_val cmpl 65536 r + 65536 * compl_val cmpl m r' = compl_val cmpl (65536 * m) (r + 65536 * r')"
  by (simp add: compl_val_def)

lemma mpn_neg_loop_val:
  assumes "combines fi f cmpl"
    and bnd: "\<And>d. uint (fj d) \<le> 131070" "\<And>d. uint (fk d) \<le> 131070" "uint kfill \<le> 131070"
  shows "counters_ok js jlen ks klen \<Longrightarrow> uint ci \<le> 1 \<Longrightarrow> uint cj \<le> 1 \<Longrightarrow> uint ck \<le> 1 \<Longrightarrow>
    mpn_neg_loop fi fj fk kfill js jlen ks klen ci cj ck = (ds, c) \<Longrightarrow>
    length ds = length js \<and> uint c \<le> 1 \<and>
    int (mpn_val ds) + 65536 ^ length js * uint c =
      compl_val cmpl (65536 ^ length js)
        (f ((fed_val fj 0 (length js) js + uint cj) mod 65536 ^ length js)
           ((fed_val fk kfill (length js) ks + uint ck) mod 65536 ^ length js)) + uint ci"
proof (induction js arbitrary: jlen ks klen ci cj ck ds)
  case Nil
  with assms(1) show ?case by (auto simp: combines_def digitwise_def compl_val_def)
next
  case (Cons j js)
  have f: "digitwise f" using assms(1) by (simp add: combines_def)
  note cs = counters_step [OF Cons.prems(1)]
  define addk where "addk = (if ks = [] then kfill else fk (hd ks))"
  define cj' ck' where "cj' = cj + fj j" and "ck' = ck + addk"
  define r where "r = f (uint cj' mod 65536) (uint ck' mod 65536)"
  define ci' where "ci' = ci + fi cj' ck'"
  obtain ds' where ds': "mpn_neg_loop fi fj fk kfill js (jlen - 1) (tl ks) (klen - 1)
      (carry_of ci') (carry_of cj') (carry_of ck') = (ds', c)" and ds: "ds = dig_of ci' # ds'"
    using Cons.prems(5)
    by (cases "ks = []") (auto simp: Let_def cs(1) cj'_def ck'_def ci'_def addk_def split: prod.splits)
  have addk: "uint addk \<le> 131070" using bnd by (simp add: addk_def)
  have uj: "uint cj' = uint cj + uint (fj j)"
    unfolding cj'_def by (rule uint_u32_add) (use Cons.prems(3) bnd(1) [of j] in linarith)
  have uk: "uint ck' = uint ck + uint addk"
    unfolding ck'_def by (rule uint_u32_add) (use Cons.prems(4) addk in linarith)
  have r: "0 \<le> r" "r < 65536" unfolding r_def by (rule digitwise_split [OF f]; simp)+
  have fi: "uint (fi cj' ck') = compl_val cmpl 65536 r"
    using assms(1) by (simp add: combines_def r_def Let_def compl_val_def)
  have ui: "uint ci' = uint ci + compl_val cmpl 65536 r"
    unfolding ci'_def fi [symmetric]
    by (rule uint_u32_add) (use Cons.prems(2) r in \<open>simp only: fi compl_val_def split: if_splits\<close>, linarith)
  let ?L = "length js"
  have IH: "length ds' = ?L \<and> uint c \<le> 1 \<and>
    int (mpn_val ds') + 65536 ^ ?L * uint c =
      compl_val cmpl (65536 ^ ?L)
        (f ((fed_val fj 0 ?L js + uint cj' div 65536) mod 65536 ^ ?L)
           ((fed_val fk kfill ?L (tl ks) + uint ck' div 65536) mod 65536 ^ ?L)) + uint ci' div 65536"
    unfolding uint_carry_of [symmetric]
  proof (rule Cons.IH [OF cs(2) _ _ _ ds'])
    show "uint (carry_of cj') \<le> 1" unfolding uint_carry_of uj using Cons.prems(3) bnd(1) [of j] by simp
    show "uint (carry_of ck') \<le> 1" unfolding uint_carry_of uk using Cons.prems(4) addk by simp
    show "uint (carry_of ci') \<le> 1"
      unfolding uint_carry_of ui compl_val_def using Cons.prems(2) r by (cases cmpl) simp_all
  qed
  have x: "(fed_val fj 0 (Suc ?L) (j # js) + uint cj) mod 65536 ^ Suc ?L
      = uint cj' mod 65536 + 65536 * ((fed_val fj 0 ?L js + uint cj' div 65536) mod 65536 ^ ?L)"
    using sub_digit_step [OF _ refl, of "65536 ^ ?L" "uint cj'" "fed_val fj 0 ?L js"]
    by (simp add: uj algebra_simps)
  have "fed_val fk kfill (Suc ?L) ks = uint addk + 65536 * fed_val fk kfill ?L (tl ks)"
    by (cases ks) (simp_all add: addk_def)
  then have y: "(fed_val fk kfill (Suc ?L) ks + uint ck) mod 65536 ^ Suc ?L
      = uint ck' mod 65536 + 65536 * ((fed_val fk kfill ?L (tl ks) + uint ck' div 65536) mod 65536 ^ ?L)"
    using sub_digit_step [OF _ refl, of "65536 ^ ?L" "uint ck'" "fed_val fk kfill ?L (tl ks)"]
    by (simp add: uk algebra_simps)
  let ?X = "(fed_val fj 0 ?L js + uint cj' div 65536) mod 65536 ^ ?L"
  let ?Y = "(fed_val fk kfill ?L (tl ks) + uint ck' div 65536) mod 65536 ^ ?L"
  have "f ((fed_val fj 0 (Suc ?L) (j # js) + uint cj) mod 65536 ^ Suc ?L)
          ((fed_val fk kfill (Suc ?L) ks + uint ck) mod 65536 ^ Suc ?L) = r + 65536 * f ?X ?Y"
    unfolding x y r_def by (rule digitwise_split(1) [OF f]) simp_all
  then have comb: "compl_val cmpl (65536 ^ Suc ?L)
        (f ((fed_val fj 0 (Suc ?L) (j # js) + uint cj) mod 65536 ^ Suc ?L)
           ((fed_val fk kfill (Suc ?L) ks + uint ck) mod 65536 ^ Suc ?L)) + uint ci
      = uint ci' + 65536 * compl_val cmpl (65536 ^ ?L) (f ?X ?Y)"
    by (simp only: ui power_Suc compl_val_Cons [symmetric])
  have "int (mpn_val ds) + 65536 ^ Suc ?L * uint c
      = uint ci' mod 65536 + 65536 * (int (mpn_val ds') + 65536 ^ ?L * uint c)"
    by (simp add: ds uint_dig_of_mod algebra_simps)
  also have "\<dots> = uint ci' + 65536 * compl_val cmpl (65536 ^ ?L) (f ?X ?Y)"
    using IH mult_div_mod_eq [of 65536 "uint ci'"] by (simp only: distrib_left)
  finally show ?case using IH comb by (simp add: ds)
qed

lemma val_carry_digit:
  assumes "uint (c :: u32) \<le> 1"
  shows "int (mpn_val (ds @ (if c \<noteq> 0 then [ucast c] else []))) = int (mpn_val ds) + 65536 ^ length ds * uint c"
proof -
  have "uint (ucast c :: u16) = uint c"
    using assms by (simp add: unsigned_ucast_eq take_bit_int_eq_self_iff)
  then show ?thesis by (simp add: mpn_val_append)
qed

text \<open>An operand with its sign: \<open>of_bool\<close> of the sign is the carry the loop starts with.\<close>

definition signed_val :: "bool \<Rightarrow> nat \<Rightarrow> int" where
  "signed_val neg v = (if neg then - int v else int v)"

lemma mask_of_simps [simp]: "mask_of 0 = 0" "mask_of 1 = mask 16"
  by (simp_all add: mask_of_def DIG_MASK_def mask_eq_exp_minus_1)

lemma uint_mask_16: "uint (mask 16 :: u16) = 65535"
  by (simp add: mask_eq_exp_minus_1)

lemma uint_xor_mask: "uint (d XOR (mask 16 :: u16)) = 65535 - uint d"
proof -
  have "d XOR (mask 16 :: u16) = NOT d"
    by (rule bit_word_eqI) (simp add: bit_simps)
  moreover have "uint (NOT d) = 65535 - take_bit 16 (uint d)"
    by (simp add: unsigned_not_eq take_bit_not_eq_mask_diff mask_eq_exp_minus_1)
  ultimately show ?thesis by (simp add: take_bit_int_eq_self_iff uint_u16_lt)
qed

lemma fed_val_xor:
  assumes "length ds \<le> n"
  shows "fed_val (\<lambda>d. ucast (d XOR mask_of (of_bool b))) (ucast (mask_of (of_bool b))) n ds
       = (if b then 65536 ^ n - 1 - int (mpn_val ds) else int (mpn_val ds))"
  using assms
proof (induction n arbitrary: ds)
  case (Suc n)
  then have "length (tl ds) \<le> n" by simp
  from Suc.IH [OF this] show ?case
    by (cases b; cases ds) (simp_all add: uint_xor_mask uint_mask_16)
qed simp

lemma fed_val_xor_mod:
  assumes "length ds \<le> n"
  shows "(fed_val (\<lambda>d. ucast (d XOR mask_of (of_bool b))) (ucast (mask_of (of_bool b))) n ds
          + uint (of_bool b :: u32)) mod 65536 ^ n = signed_val b (mpn_val ds) mod 65536 ^ n"
proof (cases b)
  case True
  have "(65536 ^ n - int (mpn_val ds)) mod 65536 ^ n = (- int (mpn_val ds)) mod 65536 ^ n"
    by (metis add.commute diff_conv_add_uminus mod_add_self2)
  with True show ?thesis using fed_val_xor [OF assms, of True] by (simp add: signed_val_def)
qed (use fed_val_xor [OF assms, of False] in \<open>simp add: signed_val_def\<close>)

lemma fed_val_fill_irrelevant:
  "length ds = n \<Longrightarrow> fed_val f fill n ds = fed_val f fill' n ds"
  by (induction n arbitrary: ds) (auto simp: length_Suc_conv)

lemma uint_add_mask: "uint (ucast (d :: u16) + DIG_MASK) = uint d + 65535"
  using uint_u16_lt [of d] by (subst uint_u32_add) simp_all

lemma fed_val_add_mod:
  assumes "length ds \<le> n"
  shows "(fed_val (\<lambda>d. ucast d + DIG_MASK) DIG_MASK n ds + c) mod 65536 ^ n
       = (int (mpn_val ds) - 1 + c) mod 65536 ^ n"
proof -
  have "fed_val (\<lambda>d. ucast d + DIG_MASK) DIG_MASK n ds = int (mpn_val ds) - 1 + 65536 ^ n"
    using assms
  proof (induction n arbitrary: ds)
    case (Suc n)
    then have "length (tl ds) \<le> n" by simp
    from Suc.IH [OF this] show ?case by (cases ds) (simp_all add: uint_add_mask)
  qed simp
  then have "fed_val (\<lambda>d. ucast d + DIG_MASK) DIG_MASK n ds + c = (int (mpn_val ds) - 1 + c) + 65536 ^ n"
    by simp
  then show ?thesis by (simp only: mod_add_self2)
qed

lemma uint_xor_and_DIG_MASK:
  "uint ((w XOR DIG_MASK) AND DIG_MASK) = 65535 - uint w mod 65536"
proof -
  have "(w XOR DIG_MASK) AND DIG_MASK = take_bit 16 (NOT w)"
    unfolding DIG_MASK_mask by (rule bit_word_eqI) (auto simp: bit_simps)
  also have "uint \<dots> = take_bit 16 (uint (NOT w))" by (simp only: unsigned_take_bit_eq)
  also have "\<dots> = take_bit 16 (NOT (uint w))" by (simp add: unsigned_not_eq)
  also have "\<dots> = 65535 - take_bit 16 (uint w)"
    by (simp add: take_bit_not_eq_mask_diff mask_eq_exp_minus_1)
  finally show ?thesis by (simp add: take_bit_eq_mod)
qed

lemma digitwise_mod: "digitwise f \<Longrightarrow> f x y mod 65536 = f (x mod 65536) (y mod 65536)"
  by (simp add: digitwise_def)

lemma ucast_mask_of: "(ucast (mask_of (of_bool n)) :: u32) = (if n then DIG_MASK else 0)"
  by (cases n) (simp_all add: DIG_MASK_mask mask_eq_exp_minus_1)

lemma combines_and:
  "combines (\<lambda>cj ck. ((cj AND ck) XOR ucast (mask_of (of_bool n))) AND DIG_MASK) (AND) n"
proof (cases n)
  case True
  have "uint (((cj AND ck) XOR DIG_MASK) AND DIG_MASK) = 65535 - (uint cj mod 65536 AND uint ck mod 65536)"
    for cj ck
    by (subst uint_xor_and_DIG_MASK)
      (simp only: unsigned_and_eq digitwise_mod [OF digitwise_ops(1)])
  with True show ?thesis
    by (simp only: combines_def ucast_mask_of Let_def digitwise_ops if_True simp_thms)
next
  case False
  have "uint (((cj AND ck) XOR 0) AND DIG_MASK) = (uint cj mod 65536 AND uint ck mod 65536)" for cj ck
    by (subst uint_and_DIG_MASK)
      (simp only: xor.right_neutral unsigned_and_eq digitwise_mod [OF digitwise_ops(1)])
  with False show ?thesis
    by (simp only: combines_def ucast_mask_of Let_def digitwise_ops if_False simp_thms)
qed

lemma combines_or: "combines (\<lambda>cj ck. ((cj OR ck) XOR DIG_MASK) AND DIG_MASK) (OR) True"
  by (simp only: combines_def uint_xor_and_DIG_MASK unsigned_or_eq
      digitwise_mod [OF digitwise_ops(2)] Let_def digitwise_ops if_True simp_thms)

lemma combines_xor: "combines (\<lambda>cj ck. (cj XOR ck) AND DIG_MASK) (XOR) False"
  by (simp only: combines_def uint_and_DIG_MASK unsigned_xor_eq
      digitwise_mod [OF digitwise_ops(3)] Let_def digitwise_ops if_False simp_thms)

section \<open>The results of the signed operations\<close>

lemma counters_init:
  "length ks \<le> length js \<Longrightarrow> length js < 2 ^ 64 \<Longrightarrow>
   counters_ok js (of_nat (length js)) ks (of_nat (length ks))"
  by (auto simp: counters_ok_def unat_of_nat take_bit_nat_eq_self_iff)

lemma pow_65536: "(65536 :: int) ^ n = 2 ^ (16 * n)"
  by (simp add: power_mult)

lemma mod_pow_ops:
  fixes x y :: int
  shows "(x mod 65536 ^ n) AND (y mod 65536 ^ n) = (x AND y) mod 65536 ^ n"
    and "(x mod 65536 ^ n) OR (y mod 65536 ^ n) = (x OR y) mod 65536 ^ n"
    and "(x mod 65536 ^ n) XOR (y mod 65536 ^ n) = (x XOR y) mod 65536 ^ n"
  by (simp_all only: pow_65536 take_bit_eq_mod [symmetric] take_bit_and take_bit_or take_bit_xor)

lemma and_ge:
  fixes a b :: int
  assumes "- (65536 ^ n) \<le> a" and "- (65536 ^ n) \<le> b" and "a < 0" and "b < 0"
  shows "- (65536 ^ n) \<le> a AND b"
proof -
  have d: "drop_bit (16 * n) x = -1" if "- (65536 ^ n) \<le> x" "x < 0" for x :: int
  proof -
    have "x div 65536 ^ n = -1"
      using that by (intro int_div_pos_eq [where r = "x + 65536 ^ n"]) auto
    then show ?thesis by (simp add: drop_bit_eq_div power_mult)
  qed
  have "drop_bit (16 * n) (a AND b) = -1" using d [OF assms(1,3)] d [OF assms(2,4)] by simp
  then have "(a AND b) div 65536 ^ n = -1" by (simp add: drop_bit_eq_div power_mult)
  then have "a AND b = 65536 ^ n * -1 + (a AND b) mod 65536 ^ n"
    by (metis mult_div_mod_eq)
  moreover have "0 \<le> (a AND b) mod 65536 ^ n" by (rule pos_mod_sign) simp
  ultimately show ?thesis by linarith
qed

lemma mod_neg_shift:
  fixes n m :: int
  assumes "- m \<le> n" and "n < 0"
  shows "n mod m = n + m"
  by (rule int_mod_pos_eq [where q = "-1"]) (use assms in auto)

lemma int_val_bound: "length ds \<le> n \<Longrightarrow> int (mpn_val ds) < 65536 ^ n"
proof -
  assume "length ds \<le> n"
  then have "mpn_val ds < 65536 ^ n"
    by (intro less_le_trans [OF mpn_val_lt] power_increasing) auto
  then show ?thesis by (metis of_nat_less_iff of_nat_numeral of_nat_power)
qed

lemma signed_val_bound:
  "length ds \<le> n \<Longrightarrow> - (65536 ^ n) < signed_val b (mpn_val ds) \<and> signed_val b (mpn_val ds) < 65536 ^ n"
proof -
  assume "length ds \<le> n"
  from int_val_bound [OF this] have "int (mpn_val ds) < 65536 ^ n" .
  moreover have "0 \<le> int (mpn_val ds)" "(0 :: int) < 65536 ^ n" by simp_all
  ultimately show ?thesis
    unfolding signed_val_def by (cases b; simp only: if_True if_False; linarith)
qed

lemma neg_loop_bounds:
  "uint (ucast (d XOR m :: u16) :: u32) \<le> 131070" "uint (ucast (m :: u16) :: u32) \<le> 131070"
  using uint_u16_lt [of "d XOR m"] uint_u16_lt [of m] by simp_all

lemma uint_of_bool_le: "uint (of_bool b :: u32) \<le> 1"
  by (cases b) simp_all

lemma mpn_and_neg_raw:
  assumes "length ks \<le> length js" and "length js < 2 ^ 64"
  shows "int (mpn_val (mpn_and_neg js ks (of_bool (jn \<and> kn)) (of_bool jn) (of_bool kn)))
       = compl_val (jn \<and> kn) (65536 ^ length js)
           ((signed_val jn (mpn_val js) AND signed_val kn (mpn_val ks)) mod 65536 ^ length js)
         + of_bool (jn \<and> kn)"
proof -
  obtain ds c where dc: "mpn_neg_loop
      (\<lambda>cj ck. ((cj AND ck) XOR ucast (mask_of (of_bool (jn \<and> kn)))) AND DIG_MASK)
      (\<lambda>j. ucast (j XOR mask_of (of_bool jn))) (\<lambda>k. ucast (k XOR mask_of (of_bool kn)))
      (ucast (mask_of (of_bool kn))) js (of_nat (length js)) ks (of_nat (length ks))
      (of_bool (jn \<and> kn)) (of_bool jn) (of_bool kn) = (ds, c)"
    by fastforce
  note spec = mpn_neg_loop_val [OF combines_and neg_loop_bounds(1) neg_loop_bounds(1) neg_loop_bounds(2)
      counters_init [OF assms] uint_of_bool_le uint_of_bool_le uint_of_bool_le dc]
  have "int (mpn_val (mpn_and_neg js ks (of_bool (jn \<and> kn)) (of_bool jn) (of_bool kn)))
      = int (mpn_val ds) + 65536 ^ length js * uint c"
    using spec val_carry_digit [of c ds] by (simp only: mpn_and_neg_def Let_def dc split val_remove_zeros)
  moreover have "fed_val (\<lambda>j. ucast (j XOR mask_of (of_bool jn))) 0 (length js) js
      = fed_val (\<lambda>j. ucast (j XOR mask_of (of_bool jn))) (ucast (mask_of (of_bool jn))) (length js) js"
    by (rule fed_val_fill_irrelevant) simp
  ultimately show ?thesis
    using spec by (simp only: fed_val_xor_mod assms(1) order_refl mod_pow_ops) (simp split: if_splits)
qed

lemma signed_val_eqI: "int v = (if n then - z else z) \<Longrightarrow> signed_val n v = z"
  by (cases n) (simp_all add: signed_val_def)

lemma signed_val_neg_iff: "(n \<Longrightarrow> 0 < v) \<Longrightarrow> signed_val n v < 0 \<longleftrightarrow> n"
  by (cases n) (simp_all add: signed_val_def)

theorem mpn_and_neg_val:
  assumes "length ks \<le> length js" and "length js < 2 ^ 64" and "jn \<or> kn"
    and "jn \<Longrightarrow> 0 < mpn_val js" and "kn \<Longrightarrow> 0 < mpn_val ks"
  shows "signed_val (jn \<and> kn)
           (mpn_val (mpn_and_neg js ks (of_bool (jn \<and> kn)) (of_bool jn) (of_bool kn)))
       = signed_val jn (mpn_val js) AND signed_val kn (mpn_val ks)"
proof -
  define a b where "a = signed_val jn (mpn_val js)" and "b = signed_val kn (mpn_val ks)"
  let ?M = "65536 ^ length js :: int"
  have n: "a < 0 \<longleftrightarrow> jn" "b < 0 \<longleftrightarrow> kn"
    unfolding a_def b_def by (rule signed_val_neg_iff, fact)+
  have bnd: "- ?M < a" "a < ?M" "- ?M < b" "b < ?M"
    using signed_val_bound [of js "length js" jn] signed_val_bound [of ks "length js" kn] assms(1)
    by (simp_all add: a_def b_def)
  note raw = mpn_and_neg_raw [OF assms(1,2), of jn kn, folded a_def b_def]
  show ?thesis
  proof (cases "jn \<and> kn")
    case True
    have "(a AND b) mod ?M = (a AND b) + ?M"
      using mod_neg_shift [of ?M "a AND b"] and_ge [of "length js" a b] bnd n True by auto
    with raw True show ?thesis by (simp add: signed_val_def compl_val_def a_def b_def)
  next
    case False
    have "0 \<le> a AND b" using n False by (auto simp: not_less [symmetric])
    moreover have "a AND b < ?M"
    proof (cases jn)
      case True
      then have "0 \<le> b" using False n by linarith
      then have "a AND b \<le> b" by (simp add: AND_upper2)
      then show ?thesis using bnd by linarith
    next
      case False
      then have "0 \<le> a" using n by linarith
      then have "a AND b \<le> a" by (simp add: AND_upper1)
      then show ?thesis using bnd by linarith
    qed
    ultimately have "(a AND b) mod ?M = a AND b" by simp
    with raw False have "int (mpn_val (mpn_and_neg js ks (of_bool (jn \<and> kn)) (of_bool jn) (of_bool kn))) = a AND b"
      by (simp only: compl_val_def if_False) simp
    with False show ?thesis by (simp only: signed_val_def [of False] if_False a_def b_def)
  qed
qed

lemma or_neg_bounds:
  fixes a b m :: int
  assumes "a < 0" and "- m < a"
  shows "a OR b < 0" and "- m < a OR b"
proof -
  have "NOT (a OR b) = NOT a AND NOT b" by simp
  moreover have "0 \<le> NOT a" using assms by (simp add: not_int_def)
  ultimately have "0 \<le> NOT (a OR b)" "NOT (a OR b) \<le> NOT a" by (simp_all add: AND_upper1)
  then show "a OR b < 0" and "- m < a OR b" using assms by (simp_all add: not_int_def)
qed

theorem mpn_or_neg_val:
  assumes "length ks \<le> length js" and "length js < 2 ^ 64" and "jn \<or> kn"
    and "jn \<Longrightarrow> 0 < mpn_val js" and "kn \<Longrightarrow> 0 < mpn_val ks"
  obtains ds where "mpn_or_neg js ks (of_bool jn) (of_bool kn) = Some ds"
    and "mpn_norm ds" and "length ds \<le> length js"
    and "signed_val True (mpn_val ds) = signed_val jn (mpn_val js) OR signed_val kn (mpn_val ks)"
proof -
  define a b where "a = signed_val jn (mpn_val js)" and "b = signed_val kn (mpn_val ks)"
  let ?M = "65536 ^ length js :: int"
  have n: "a < 0 \<longleftrightarrow> jn" "b < 0 \<longleftrightarrow> kn"
    unfolding a_def b_def by (rule signed_val_neg_iff, fact)+
  have bnd: "- ?M < a" "- ?M < b"
    using signed_val_bound [of js "length js" jn] signed_val_bound [of ks "length js" kn] assms(1)
    by (simp_all add: a_def b_def)
  have ab: "a OR b < 0" "- ?M < a OR b"
    using or_neg_bounds [of a ?M b] or_neg_bounds [of b ?M a] n bnd assms(3)
    by (auto simp: or.commute)
  obtain ds c where dc: "mpn_neg_loop
      (\<lambda>cj ck. ((cj OR ck) XOR DIG_MASK) AND DIG_MASK)
      (\<lambda>j. ucast (j XOR mask_of (of_bool jn))) (\<lambda>k. ucast (k XOR mask_of (of_bool kn)))
      (ucast (mask_of (of_bool kn))) js (of_nat (length js)) ks (of_nat (length ks))
      1 (of_bool jn) (of_bool kn) = (ds, c)"
    by fastforce
  have "uint (1 :: u32) \<le> 1" by simp
  note spec = mpn_neg_loop_val [OF combines_or neg_loop_bounds(1) neg_loop_bounds(1) neg_loop_bounds(2)
      counters_init [OF assms(1,2)] this uint_of_bool_le uint_of_bool_le dc]
  have "fed_val (\<lambda>j. ucast (j XOR mask_of (of_bool jn))) 0 (length js) js
      = fed_val (\<lambda>j. ucast (j XOR mask_of (of_bool jn))) (ucast (mask_of (of_bool jn))) (length js) js"
    by (rule fed_val_fill_irrelevant) simp
  then have "int (mpn_val ds) + ?M * uint c = compl_val True ?M ((a OR b) mod ?M) + 1"
    using spec unfolding a_def b_def
    by (simp only: fed_val_xor_mod assms(1) order_refl mod_pow_ops) simp
  moreover have "(a OR b) mod ?M = (a OR b) + ?M"
    using mod_neg_shift [of ?M "a OR b"] ab by linarith
  ultimately have v: "int (mpn_val ds) + ?M * uint c = - (a OR b)" by (simp add: compl_val_def)
  have "uint c = 0"
  proof (rule ccontr)
    assume "uint c \<noteq> 0"
    moreover have "0 \<le> uint c" by simp
    ultimately have "1 \<le> uint c" by linarith
    then have "?M * 1 \<le> ?M * uint c" by (intro mult_left_mono) auto
    with v ab show False by simp
  qed
  then have c: "c = 0" by (simp add: word_uint_eq_iff)
  show ?thesis
  proof (rule that)
    show "mpn_or_neg js ks (of_bool jn) (of_bool kn) = Some (mpn_remove_trailing_zeros ds)"
      by (simp add: mpn_or_neg_def Let_def dc c)
    show "length (mpn_remove_trailing_zeros ds) \<le> length js"
      using length_remove_zeros [of ds] spec by simp
    show "signed_val True (mpn_val (mpn_remove_trailing_zeros ds))
        = signed_val jn (mpn_val js) OR signed_val kn (mpn_val ks)"
      using v c by (simp add: signed_val_def a_def b_def)
  qed simp
qed

text \<open>\<open>mpn_xor_neg\<close> adds minus one to an operand that is negated and nothing to the other one.\<close>

lemma xor_feed:
  "int v - 1 + uint (of_bool (\<not> n) :: u32) = (if n then NOT (signed_val n v) else signed_val n v)"
  by (cases n) (simp_all add: signed_val_def not_int_def)

lemma xor_feed_bound:
  assumes "int v < m" and "n \<Longrightarrow> 0 < v"
  shows "0 \<le> (if n then NOT (signed_val n v) else signed_val n v)"
    and "(if n then NOT (signed_val n v) else signed_val n v) < m"
  using assms by (cases n; simp add: signed_val_def not_int_def; linarith)+

theorem mpn_xor_neg_val:
  assumes "length ks \<le> length js" and "length js < 2 ^ 64" and "jn \<or> kn"
    and "jn \<Longrightarrow> 0 < mpn_val js" and "kn \<Longrightarrow> 0 < mpn_val ks"
  shows "signed_val (jn \<noteq> kn)
           (mpn_val (mpn_xor_neg js ks (of_bool (jn \<noteq> kn)) (of_bool (\<not> jn)) (of_bool (\<not> kn))))
       = signed_val jn (mpn_val js) XOR signed_val kn (mpn_val ks)"
proof -
  define a b where "a = signed_val jn (mpn_val js)" and "b = signed_val kn (mpn_val ks)"
  define x y where "x = (if jn then NOT a else a)" and "y = (if kn then NOT b else b)"
  let ?M = "65536 ^ length js :: int"
  obtain ds c where dc: "mpn_neg_loop (\<lambda>cj ck. (cj XOR ck) AND DIG_MASK)
      (\<lambda>j. ucast j + DIG_MASK) (\<lambda>k. ucast k + DIG_MASK) DIG_MASK
      js (of_nat (length js)) ks (of_nat (length ks))
      (of_bool (jn \<noteq> kn)) (of_bool (\<not> jn)) (of_bool (\<not> kn)) = (ds, c)"
    by fastforce
  have b1: "uint (ucast (d :: u16) + DIG_MASK) \<le> 131070" for d
    using uint_u16_lt [of d] by (simp only: uint_add_mask)
  have b2: "uint DIG_MASK \<le> 131070" by simp
  note spec = mpn_neg_loop_val [OF combines_xor b1 b1 b2
      counters_init [OF assms(1,2)] uint_of_bool_le uint_of_bool_le uint_of_bool_le dc]
  have "0 \<le> x" "x < ?M" "0 \<le> y" "y < ?M"
    unfolding x_def y_def a_def b_def
    by (rule xor_feed_bound int_val_bound assms order_refl; assumption?)+
  then have xy: "x mod ?M = x" "y mod ?M = y" by simp_all
  have "fed_val (\<lambda>j. ucast j + DIG_MASK) 0 (length js) js
      = fed_val (\<lambda>j. ucast j + DIG_MASK) DIG_MASK (length js) js"
    by (rule fed_val_fill_irrelevant) simp
  then have "int (mpn_val ds) + ?M * uint c = (x XOR y) + uint (of_bool (jn \<noteq> kn) :: u32)"
    using spec xy
    by (simp only: fed_val_add_mod assms(1) order_refl xor_feed compl_val_def x_def y_def a_def b_def) simp
  moreover have "int (mpn_val (mpn_xor_neg js ks (of_bool (jn \<noteq> kn)) (of_bool (\<not> jn)) (of_bool (\<not> kn))))
      = int (mpn_val ds) + ?M * uint c"
    using spec val_carry_digit [of c ds] by (simp only: mpn_xor_neg_def Let_def dc split val_remove_zeros)
  moreover have "(x XOR y) = (if jn \<noteq> kn then NOT (a XOR b) else a XOR b)"
    by (cases jn; cases kn) (simp_all add: x_def y_def)
  ultimately have "int (mpn_val (mpn_xor_neg js ks (of_bool (jn \<noteq> kn)) (of_bool (\<not> jn)) (of_bool (\<not> kn))))
      = (if jn \<noteq> kn then - (a XOR b) else a XOR b)"
    by (cases "jn = kn") (simp_all add: not_int_def)
  from signed_val_eqI [OF this] show ?thesis by (simp only: a_def b_def)
qed

lemma length_neg_loop:
  "length (fst (mpn_neg_loop fi fj fk kfill js jlen ks klen ci cj ck)) = length js"
  by (induction js arbitrary: jlen ks klen ci cj ck) (simp_all add: Let_def split: prod.splits, metis fst_conv)

lemma length_mpn_and_neg: "length (mpn_and_neg js ks ci cj ck) \<le> Suc (length js)"
  unfolding mpn_and_neg_def
  by (auto simp: Let_def split: prod.splits intro!: le_trans [OF length_remove_zeros])
    (metis fst_conv length_neg_loop le_SucI order_refl)+

lemma length_mpn_xor_neg: "length (mpn_xor_neg js ks ci cj ck) \<le> Suc (length js)"
  unfolding mpn_xor_neg_def
  by (auto simp: Let_def split: prod.splits intro!: le_trans [OF length_remove_zeros])
    (metis fst_conv length_neg_loop le_SucI order_refl)+

lemma norm_mpn_bits [simp, intro]:
  "mpn_norm (mpn_and js ks)" "mpn_norm (mpn_xor js ks)"
  "mpn_norm (mpn_and_neg js ks ci cj ck)" "mpn_norm (mpn_xor_neg js ks ci cj ck)"
  by (simp_all add: mpn_and_def mpn_xor_def mpn_and_neg_def mpn_xor_neg_def Let_def split: prod.splits)

end
