(* ===== verification/MpnDiv.thy ===== *)
theory MpnDiv
  imports Mpn
begin

text \<open>
  \<open>mpn_div\<close> of \<open>py/mpz.c\<close>: schoolbook division of digit arrays. The denominator is normalised
  on the fly, each time one of its digits is read; a trial quotient digit is found from the
  leading digits, the product is subtracted with a borrow, and the denominator is added back
  while the borrow is not cancelled. The port has \<open>DIG_SIZE == MPZ_DBL_DIG_SIZE / 2\<close>, so this is
  the second of the two variants in the source.
\<close>

section \<open>The loops of \<open>mpn_div\<close>\<close>

text \<open>
  Counting the leading zeros of the leading digit: with a zero digit the loop never ends,
  which is \<open>None\<close>.
\<close>

partial_function (option) mpn_div_lead_shift :: "mpz_dig_t \<Rightarrow> nat \<Rightarrow> nat option" where
  "mpn_div_lead_shift d norm_shift =
     (if d AND DIG_MSB \<noteq> 0 then Some norm_shift
      else mpn_div_lead_shift (push_bit 1 d) (Suc norm_shift))"

text \<open>Shifting the numerator up, from its lowest digit.\<close>

fun mpn_div_norm_num :: "nat \<Rightarrow> mpz_dig_t list \<Rightarrow> mpz_dig_t \<Rightarrow> mpz_dig_t list" where
  "mpn_div_norm_num norm_shift [] carry = []"
| "mpn_div_norm_num norm_shift (n # num) carry =
     dig_of (push_bit norm_shift (ucast n) OR ucast carry)
     # mpn_div_norm_num norm_shift num (dig_of (drop_bit (DIG_SIZE - norm_shift) (ucast n)))"

text \<open>Shifting the remainder back, from its highest digit; the digits come top first.\<close>

fun mpn_div_unnorm :: "nat \<Rightarrow> mpz_dig_t list \<Rightarrow> mpz_dig_t \<Rightarrow> mpz_dig_t list" where
  "mpn_div_unnorm norm_shift [] carry = []"
| "mpn_div_unnorm norm_shift (n # num) carry =
     dig_of (drop_bit norm_shift (ucast n) OR ucast carry)
     # mpn_div_unnorm norm_shift num (dig_of (push_bit (DIG_SIZE - norm_shift) (ucast n)))"

text \<open>The next digit of the normalised denominator, in \<open>d_norm & DIG_MASK\<close>.\<close>

definition d_norm_step :: "nat \<Rightarrow> mpz_dig_t \<Rightarrow> mpz_dbl_dig_t \<Rightarrow> mpz_dbl_dig_t" where
  "d_norm_step norm_shift d d_norm = push_bit norm_shift (ucast d) OR drop_bit DIG_SIZE d_norm"

text \<open>
  One digit of the subtraction: the borrow is kept positive, shifted right with round-up.
\<close>

definition mpn_div_sub_digit ::
  "mpz_dig_t \<Rightarrow> mpz_dbl_dig_t \<Rightarrow> mpz_dbl_dig_t \<Rightarrow> mpz_dig_t \<times> mpz_dbl_dig_t" where
  "mpn_div_sub_digit n x borrow =
     (if ucast n \<le> x \<or> ucast n - x \<le> borrow then
        let borrow = borrow + (x - ucast n)
        in (dig_of (- borrow),
            drop_bit DIG_SIZE borrow + (if borrow AND DIG_MASK = 0 then 0 else 1))
      else (dig_of (ucast n - x - borrow), 0))"

fun mpn_div_mulsub ::
  "nat \<Rightarrow> mpz_dbl_dig_t \<Rightarrow> mpz_dig_t list \<Rightarrow> mpz_dig_t list \<Rightarrow> mpz_dbl_dig_t \<Rightarrow> mpz_dbl_dig_t \<Rightarrow>
   mpz_dig_t list \<times> mpz_dbl_dig_t" where
  "mpn_div_mulsub norm_shift quo (n # num) (d # den) d_norm borrow =
     (let d_norm = d_norm_step norm_shift d d_norm;
          x = quo * (d_norm AND DIG_MASK);
          (n', borrow) = mpn_div_sub_digit n x borrow;
          (num, borrow) = mpn_div_mulsub norm_shift quo num den d_norm borrow
      in (n' # num, borrow))"
| "mpn_div_mulsub norm_shift quo num den d_norm borrow = (num, borrow)"

fun mpn_div_addback ::
  "nat \<Rightarrow> mpz_dig_t list \<Rightarrow> mpz_dig_t list \<Rightarrow> mpz_dbl_dig_t \<Rightarrow> mpz_dbl_dig_t \<Rightarrow>
   mpz_dig_t list \<times> mpz_dbl_dig_t" where
  "mpn_div_addback norm_shift (n # num) (d # den) d_norm carry =
     (let d_norm = d_norm_step norm_shift d d_norm;
          carry = carry + (ucast n + (d_norm AND DIG_MASK));
          (num, c) = mpn_div_addback norm_shift num den d_norm (carry_of carry)
      in (dig_of carry # num, c))"
| "mpn_div_addback norm_shift num den d_norm carry = (num, carry)"

text \<open>
  \<open>for (; borrow != 0; --quo)\<close>: the loop ends only when the carries cancel the borrow. The
  result is the window of the numerator and the quotient digit.
\<close>

partial_function (option) mpn_div_fix ::
  "nat \<Rightarrow> mpz_dig_t list \<Rightarrow> mpz_dig_t list \<Rightarrow> mpz_dbl_dig_t \<Rightarrow> mpz_dbl_dig_t \<Rightarrow>
   (mpz_dig_t list \<times> mpz_dbl_dig_t) option" where
  "mpn_div_fix norm_shift den num quo borrow =
     (if borrow = 0 then Some (num, quo)
      else mpn_div_fix norm_shift den (fst (mpn_div_addback norm_shift num den 0 0)) (quo - 1)
             (borrow - snd (mpn_div_addback norm_shift num den 0 0)))"

text \<open>One round of the main loop, on the window below the digit \<open>top\<close> that \<open>num_dig\<close> points to.\<close>

definition mpn_div_step ::
  "nat \<Rightarrow> mpz_dig_t list \<Rightarrow> mpz_dbl_dig_t \<Rightarrow> mpz_dig_t list \<Rightarrow> mpz_dig_t \<Rightarrow>
   (mpz_dig_t list \<times> mpz_dbl_dig_t) option" where
  "mpn_div_step norm_shift den lead_den_digit num ntop =
     (let quo = (push_bit DIG_SIZE (ucast ntop) OR ucast (last num)) div lead_den_digit;
          (num, borrow) = mpn_div_mulsub norm_shift quo num den 0 0
      in mpn_div_fix norm_shift den num quo (borrow - ucast ntop))"

text \<open>
  \<open>while (*num_len > den_len)\<close>: \<open>low\<close> are the digits below the window, highest first; the
  quotient digits are stored from the top, so the list collects them in the end's order.
\<close>

fun mpn_div_loop ::
  "nat \<Rightarrow> mpz_dig_t list \<Rightarrow> mpz_dbl_dig_t \<Rightarrow> mpz_dig_t list \<Rightarrow> mpz_dig_t list \<Rightarrow> mpz_dig_t \<Rightarrow>
   mpz_dig_t list \<Rightarrow> (mpz_dig_t list \<times> mpz_dig_t list) option" where
  "mpn_div_loop norm_shift den lead_den_digit low num ntop quos =
     (case mpn_div_step norm_shift den lead_den_digit num ntop of
        None \<Rightarrow> None
      | Some (num', quo) \<Rightarrow>
          (case low of
             [] \<Rightarrow> Some (num', dig_of quo # quos)
           | l # low' \<Rightarrow>
               mpn_div_loop norm_shift den lead_den_digit low' (l # butlast num') (last num') (dig_of quo # quos)))"

definition mpn_div_lead :: "nat \<Rightarrow> mpz_dig_t list \<Rightarrow> mpz_dbl_dig_t" where
  "mpn_div_lead norm_shift den =
     (let lead = push_bit norm_shift (ucast (last den))
      in if 2 \<le> length den
         then lead OR drop_bit (DIG_SIZE - norm_shift) (ucast (den ! (length den - 2)))
         else lead)"

text \<open>\<open>mpn_div\<close> on the numerator and the denominator: the remainder and the quotient.\<close>

definition mpn_div :: "mpz_dig_t list \<Rightarrow> mpz_dig_t list \<Rightarrow> (mpz_dig_t list \<times> mpz_dig_t list) option" where
  "mpn_div num den =
     (let cmp = mpn_cmp num den
      in if cmp = 0 then Some ([], [1])
         else if cmp < 0 then Some (num, [])
         else case mpn_div_lead_shift (last den) 0 of
                None \<Rightarrow> None
              | Some norm_shift \<Rightarrow>
                  let num = mpn_div_norm_num norm_shift (num @ [0]) 0;
                      low = take (length num - 1 - length den) num;
                      window = drop (length num - 1 - length den) (butlast num)
                  in case mpn_div_loop norm_shift den (mpn_div_lead norm_shift den)
                            (rev low) window (last num) [] of
                       None \<Rightarrow> None
                     | Some (rem, quo) \<Rightarrow>
                         Some (mpn_remove_trailing_zeros (rev (mpn_div_unnorm norm_shift (rev rem) 0)),
                               mpn_remove_trailing_zeros quo))"

section \<open>The normalised denominator\<close>

text \<open>The digits \<open>d_norm & DIG_MASK\<close> that the loops read.\<close>

fun den_norm :: "nat \<Rightarrow> mpz_dig_t list \<Rightarrow> mpz_dbl_dig_t \<Rightarrow> mpz_dig_t list" where
  "den_norm s [] d_norm = []"
| "den_norm s (d # den) d_norm = (let d_norm = d_norm_step s d d_norm in dig_of d_norm # den_norm s den d_norm)"

lemma length_den_norm [simp]: "length (den_norm s den x) = length den"
  by (induction den arbitrary: x) (simp_all add: Let_def)

lemma unat_d_norm_step:
  assumes "s < 16" and "unat d_norm div 65536 < 2 ^ s"
  shows "unat (d_norm_step s d d_norm) = unat d * 2 ^ s + unat d_norm div 65536"
    and "unat (d_norm_step s d d_norm) div 65536 < 2 ^ s"
proof -
  have hi: "bit (drop_bit 16 d_norm) i \<Longrightarrow> i < s" for i
  proof -
    assume b: "bit (drop_bit 16 d_norm) i"
    have "unat (drop_bit 16 d_norm) < 2 ^ s" using assms(2) by (simp only: unat_drop_bit_div) simp
    then have "take_bit s (unat (drop_bit 16 d_norm)) = unat (drop_bit 16 d_norm)"
      by (simp only: take_bit_nat_eq_self_iff)
    then have "take_bit s (drop_bit 16 d_norm) = drop_bit 16 d_norm"
      by (simp only: word_unat_eq_iff unsigned_take_bit_eq)
    with b show "i < s" by (metis bit_take_bit_iff)
  qed
  then have "push_bit s (ucast d :: u32) AND drop_bit 16 d_norm = 0"
    by (intro bit_word_eqI) (auto simp: bit_push_bit_iff bit_and_iff dest!: hi)
  then have e: "d_norm_step s d d_norm = push_bit s (ucast d) + drop_bit 16 d_norm"
    unfolding d_norm_step_def DIG_SIZE_def by (rule disjunctive_add_eq_or [symmetric])
  have b: "unat d * 2 ^ s + 2 ^ s \<le> 65536 * 2 ^ s"
    using unat_u16_lt [of d] by (simp flip: mult_Suc add: add.commute) 
  have p: "(2::nat) ^ s \<le> 32768" using assms(1) power_increasing [of s 15 "2::nat"] by simp
  have m: "unat (push_bit s (ucast d :: u32)) = unat d * 2 ^ s"
  proof -
    have "unat d * 2 ^ s < 4294967296" using b p by linarith
    then show ?thesis
      by (subst unsigned_push_bit_eq) (simp add: push_bit_eq_mult take_bit_nat_eq_self_iff)
  qed
  show u: "unat (d_norm_step s d d_norm) = unat d * 2 ^ s + unat d_norm div 65536"
  proof -
    have "unat d * 2 ^ s + unat d_norm div 65536 < 4294967296" using b p assms(2) by linarith
    then show ?thesis
      unfolding e by (subst unat_plus_simple) (simp_all only: m unat_drop_bit_div, simp_all)
  qed
  show "unat (d_norm_step s d d_norm) div 65536 < 2 ^ s"
    unfolding u using b assms(2) by (subst div_less_iff_less_mult) (simp, linarith)
qed

lemma den_norm_val_carry:
  assumes "s < 16"
  shows "unat x div 65536 < 2 ^ s \<Longrightarrow>
    \<exists>c. mpn_val (den_norm s den x) + 65536 ^ length den * c = mpn_val den * 2 ^ s + unat x div 65536"
proof (induction den arbitrary: x)
  case (Cons d den)
  let ?y = "d_norm_step s d x"
  note y = unat_d_norm_step [OF assms Cons.prems, of d]
  from Cons.IH [OF y(2)] obtain c where
    c: "mpn_val (den_norm s den ?y) + 65536 ^ length den * c = mpn_val den * 2 ^ s + unat ?y div 65536"
    by blast
  have "mpn_val (den_norm s (d # den) x) + 65536 ^ length (d # den) * c
      = unat ?y mod 65536 + 65536 * (mpn_val (den_norm s den ?y) + 65536 ^ length den * c)"
    by (simp add: unat_dig_of Let_def algebra_simps)
  also have "\<dots> = unat ?y + 65536 * (mpn_val den * 2 ^ s)"
    unfolding c by (simp add: algebra_simps)
  also have "\<dots> = mpn_val (d # den) * 2 ^ s + unat x div 65536"
    unfolding y(1) by (simp add: algebra_simps)
  finally show ?case by blast
qed simp

lemma den_norm_val:
  assumes "s < 16" and "mpn_val den * 2 ^ s < 65536 ^ length den"
  shows "mpn_val (den_norm s den 0) = mpn_val den * 2 ^ s"
proof -
  obtain c where c: "mpn_val (den_norm s den 0) + 65536 ^ length den * c = mpn_val den * 2 ^ s"
    using den_norm_val_carry [OF assms(1), of 0 den] by auto
  have "c = 0"
  proof (rule ccontr)
    assume "c \<noteq> 0"
    then have "65536 ^ length den * 1 \<le> 65536 ^ length den * c" by (intro mult_le_mono) auto
    with c assms(2) show False by linarith
  qed
  with c show ?thesis by simp
qed

lemma den_norm_append:
  "den_norm s (xs @ ys) x = den_norm s xs x @ den_norm s ys (fold (d_norm_step s) xs x)"
  by (induction xs arbitrary: x) (simp_all add: Let_def)

lemma fold_d_norm_bound:
  "s < 16 \<Longrightarrow> unat x div 65536 < 2 ^ s \<Longrightarrow> unat (fold (d_norm_step s) xs x) div 65536 < 2 ^ s"
  by (induction xs arbitrary: x) (simp_all add: unat_d_norm_step(2))

lemma drop_d_norm_step:
  assumes "s < 16" and "unat x div 65536 < 2 ^ s"
  shows "unat (d_norm_step s d x) div 65536 = unat d div 2 ^ (16 - s)"
proof -
  have "(65536 :: nat) = 2 ^ s * 2 ^ (16 - s)" using assms(1) by (simp flip: power_add)
  then have "unat (d_norm_step s d x) div 65536 = unat (d_norm_step s d x) div 2 ^ s div 2 ^ (16 - s)"
    by (simp only: div_mult2_eq)
  also have "unat (d_norm_step s d x) div 2 ^ s = unat d"
    using assms by (simp add: unat_d_norm_step(1))
  finally show ?thesis .
qed

lemma unat_mpn_div_lead:
  assumes "s < 16" and "den \<noteq> []" and "mpn_val den * 2 ^ s < 65536 ^ length den"
  shows "unat (mpn_div_lead s den) = unat (last (den_norm s den 0))"
proof -
  obtain xs d where den: "den = xs @ [d]" using assms(2) by (metis rev_exhaust)
  let ?y = "fold (d_norm_step s) xs 0"
  have y: "unat ?y div 65536 < 2 ^ s" by (rule fold_d_norm_bound) (simp_all add: assms(1))
  have "drop_bit 16 ?y = (if xs = [] then 0 else drop_bit (16 - s) (ucast (last xs)))"
  proof (cases xs rule: rev_cases)
    case (snoc zs p)
    let ?z = "fold (d_norm_step s) zs 0"
    have "unat ?z div 65536 < 2 ^ s" by (rule fold_d_norm_bound) (simp_all add: assms(1))
    from drop_d_norm_step [OF assms(1) this, of p] snoc show ?thesis
      by (simp add: word_unat_eq_iff unat_drop_bit_div del: drop_bit_eq_div)
  qed simp
  then have lead: "mpn_div_lead s den = d_norm_step s d ?y"
    by (cases xs rule: rev_cases)
      (simp_all add: mpn_div_lead_def d_norm_step_def den nth_append DIG_SIZE_def Let_def)
  have "unat d * 2 ^ s + unat ?y div 65536 < 65536"
  proof -
    have "mpn_val xs + 65536 ^ length xs * unat d = mpn_val den" by (simp add: den mpn_val_append)
    then have "65536 ^ length xs * (unat d * 2 ^ s) \<le> mpn_val den * 2 ^ s"
      by (metis le_add2 mult.assoc mult_le_mono1)
    from le_less_trans [OF this assms(3)]
    have "65536 ^ length xs * (unat d * 2 ^ s) < 65536 ^ length xs * 65536"
      by (simp only: den length_append list.size power_add) simp
    then have "unat d * 2 ^ s < 2 ^ s * 2 ^ (16 - s)"
      using assms(1) by (simp flip: power_add)
    then have "unat d < 2 ^ (16 - s)" by simp
    then have "Suc (unat d) * 2 ^ s \<le> 2 ^ (16 - s) * 2 ^ s" by (intro mult_le_mono1) simp
    then have "Suc (unat d) * 2 ^ s \<le> 65536" using assms(1) by (simp flip: power_add)
    with y show ?thesis by simp
  qed
  then have "unat (dig_of (d_norm_step s d ?y)) = unat (d_norm_step s d ?y)"
    using unat_d_norm_step(1) [OF assms(1) y, of d] by (simp add: unat_dig_of)
  with lead show ?thesis by (simp add: den den_norm_append Let_def)
qed

section \<open>One round of the division\<close>

lemma uint_u32_diff: "uint b \<le> uint (a :: u32) \<Longrightarrow> uint (a - b) = uint a - uint b"
  by (simp add: uint_sub_lem)

lemma drop_DIG_uint: "uint (drop_bit DIG_SIZE (c :: u32)) = uint c div 65536"
proof -
  have "int (unat (drop_bit DIG_SIZE c)) = int (unat c) div 65536"
    by (simp only: unat_drop_bit_div DIG_SIZE_def of_nat_div) simp
  then show ?thesis by simp
qed

text \<open>
  One digit of the subtraction: with \<open>x = quo * d\<close> and no overflow of \<open>borrow + x\<close>, the new digit
  and the new borrow represent \<open>n - x - borrow\<close>.
\<close>

lemma sub_digit_val:
  assumes "uint (borrow :: u32) + uint x < 4294967296"
    and "mpn_div_sub_digit n x borrow = (n', b')"
  shows "uint n' - 65536 * uint b' = uint n - uint x - uint borrow"
proof -
  have n: "0 \<le> uint n" "uint n < 65536" by (simp_all add: uint_u16_lt)
  have nn: "0 \<le> uint borrow" "0 \<le> uint x" by simp_all
  show ?thesis
  proof (cases "uint n \<le> uint x + uint borrow")
    case True
    define b where "b = borrow + (x - ucast n)"
    have "uint b = (uint borrow + (uint x - uint n)) mod 4294967296"
      by (simp add: b_def uint_word_ariths mod_simps)
    then have ub: "uint b = uint borrow + uint x - uint n"
      using True n nn assms(1) by (simp add: mod_pos_pos_trivial)
    have "ucast n \<le> x \<or> ucast n - x \<le> borrow"
      using True by (cases "uint n \<le> uint x") (simp_all add: word_le_def uint_u32_diff)
    with assms(2) have n': "n' = dig_of (- b)"
      and b': "b' = drop_bit DIG_SIZE b + (if b AND DIG_MASK = 0 then 0 else 1)"
      by (simp_all add: mpn_div_sub_digit_def Let_def b_def)
    have un: "uint n' = (- uint b) mod 65536"
      by (simp add: n' uint_dig_of_mod uint_word_ariths mod_mod_cancel)
    have z: "b AND DIG_MASK = 0 \<longleftrightarrow> uint b mod 65536 = 0"
      by (simp add: word_uint_eq_iff uint_and_DIG_MASK)
    have "uint b < 4294967296" using unsigned_less [of b] by simp
    then have "uint b div 65536 < 65536" by linarith
    then have "uint b' = uint b div 65536 + (if uint b mod 65536 = 0 then 0 else 1)"
      unfolding b' z
      by (subst uint_u32_add) (simp_all add: drop_DIG_uint)
    then have "uint n' - 65536 * uint b' = - uint b"
      unfolding un by (simp add: zmod_zminus1_eq_if minus_mod_eq_mult_div [symmetric])
    with ub show ?thesis by linarith
  next
    case False
    then have "uint x < uint n" using nn by linarith
    then have "\<not> (ucast n \<le> x \<or> ucast n - x \<le> borrow)"
      using False by (auto simp: word_le_def uint_u32_diff)
    with assms(2) have n': "n' = dig_of (ucast n - x - borrow)" and b': "b' = 0"
      by (simp_all add: mpn_div_sub_digit_def)
    have d: "uint (ucast n - x) = uint n - uint x"
      using \<open>uint x < uint n\<close> by (subst uint_u32_diff) simp_all
    have "uint (ucast n - x - borrow) = uint n - uint x - uint borrow"
      using False by (subst uint_u32_diff) (simp_all add: d)
    moreover have "0 \<le> uint n - uint x - uint borrow" "uint n - uint x - uint borrow < 65536"
      using False n nn by linarith+
    ultimately show ?thesis by (simp add: n' b' uint_dig_of_mod)
  qed
qed

text \<open>The digits of \<open>quo * den\<close> fit in \<open>mpz_dbl_dig_t\<close> with the borrow added.\<close>

definition quo_fits :: "mpz_dbl_dig_t \<Rightarrow> mpz_dig_t list \<Rightarrow> bool" where
  "quo_fits quo ds \<longleftrightarrow> (\<forall>d \<in> set ds. uint quo * (uint d + 1) < 4294967296)"

lemma quo_fitsI:
  assumes "uint quo \<le> a" and "\<And>d. d \<in> set ds \<Longrightarrow> uint d + 1 \<le> b" and "a * b < 4294967296" and "0 \<le> b"
  shows "quo_fits quo ds"
  unfolding quo_fits_def
proof
  fix d
  assume "d \<in> set ds"
  then have "uint quo * (uint d + 1) \<le> a * b"
    using assms(1,2,4) by (intro mult_mono) (auto intro: order_trans [of 0 "uint quo"])
  with assms(3) show "uint quo * (uint d + 1) < 4294967296" by simp
qed

lemma uint_u32_mult: "uint (a :: u32) * uint b < 4294967296 \<Longrightarrow> uint (a * b) = uint a * uint b"
  by (simp add: uint_word_ariths)

lemma mpn_div_mulsub_val:
  assumes "mpn_div_mulsub s quo num den d_norm borrow = (num', borrow')"
    and "length den = length num" and "quo_fits quo (den_norm s den d_norm)" and "uint borrow \<le> uint quo"
  shows "length num' = length num \<and>
    int (mpn_val num') - 65536 ^ length num * uint borrow'
      = int (mpn_val num) - uint quo * int (mpn_val (den_norm s den d_norm)) - uint borrow"
  using assms
proof (induction num arbitrary: den d_norm borrow num' borrow')
  case (Cons n num)
  then obtain d ds where den: "den = d # ds" and len: "length ds = length num" by (cases den) auto
  define y where "y = d_norm_step s d d_norm"
  define x where "x = quo * (y AND DIG_MASK)"
  obtain n1 b1 num1 where nb: "mpn_div_sub_digit n x borrow = (n1, b1)"
    and num1: "mpn_div_mulsub s quo num ds y b1 = (num1, borrow')" and num': "num' = n1 # num1"
    using Cons.prems(1) by (auto simp: den Let_def x_def y_def split: prod.splits)
  have fit: "uint quo * (uint (dig_of y) + 1) < 4294967296" and fits: "quo_fits quo (den_norm s ds y)"
    using Cons.prems(3) by (simp_all add: quo_fits_def Let_def y_def den)
  have q: "0 \<le> uint quo" by simp
  have "uint x = uint quo * uint (dig_of y)"
  proof -
    have "uint quo * uint (y AND DIG_MASK) < 4294967296"
      unfolding uint_and_DIG_MASK uint_dig_of_mod [symmetric] using fit q
      by (simp only: distrib_left mult_1_right)
    from uint_u32_mult [OF this] show ?thesis
      by (simp only: x_def uint_and_DIG_MASK uint_dig_of_mod)
  qed
  then have x: "uint borrow + uint x \<le> uint quo * (uint (dig_of y) + 1)" and ux: "uint x = uint quo * uint (dig_of y)"
    using Cons.prems(4) by (simp_all add: algebra_simps)
  have d: "uint n1 - 65536 * uint b1 = uint n - uint x - uint borrow"
    by (rule sub_digit_val [OF _ nb]) (use x fit in linarith)
  have b1: "uint b1 \<le> uint quo"
  proof (rule ccontr)
    assume "\<not> ?thesis"
    then have "65536 * (uint quo + 1) \<le> 65536 * uint b1" by simp
    moreover have "uint quo * (uint (dig_of y) + 1) \<le> uint quo * 65536"
      using uint_u16_lt [of "dig_of y"] q by (intro mult_left_mono) auto
    ultimately have "65536 * uint b1 < 65536 * uint b1"
      using d x uint_u16_lt [of n1] uint_u16_ge [of n] by (smt (verit))
    then show False by simp
  qed
  from Cons.IH [OF num1 len fits b1]
  have "length num1 = length num" and v: "int (mpn_val num1) - 65536 ^ length num * uint borrow'
      = int (mpn_val num) - uint quo * int (mpn_val (den_norm s ds y)) - uint b1" by simp_all
  moreover have "int (mpn_val num') - 65536 ^ length (n # num) * uint borrow'
      = uint n1 + 65536 * (int (mpn_val num1) - 65536 ^ length num * uint borrow')"
    by (simp add: num' algebra_simps)
  moreover have "int (mpn_val (den_norm s den d_norm)) = uint (dig_of y) + 65536 * int (mpn_val (den_norm s ds y))"
    by (simp add: den y_def Let_def)
  ultimately show ?case
    using d ux by (simp add: num' algebra_simps)
qed simp

text \<open>Adding the denominator back; the carry is at most one.\<close>

lemma mpn_div_addback_val:
  assumes "mpn_div_addback s num den d_norm carry = (num', c)"
    and "length den = length num" and "uint carry \<le> 1"
  shows "length num' = length num \<and> uint c \<le> 1 \<and>
    int (mpn_val num') + 65536 ^ length num * uint c
      = int (mpn_val num) + int (mpn_val (den_norm s den d_norm)) + uint carry"
  using assms
proof (induction num arbitrary: den d_norm carry num')
  case (Cons n num)
  then obtain d ds where den: "den = d # ds" and len: "length ds = length num" by (cases den) auto
  define y where "y = d_norm_step s d d_norm"
  define a where "a = carry + (ucast n + (y AND DIG_MASK))"
  obtain num1 where num1: "mpn_div_addback s num ds y (carry_of a) = (num1, c)" and num': "num' = dig_of a # num1"
    using Cons.prems(1) by (auto simp: den Let_def a_def y_def split: prod.splits)
  have bnd: "uint n + uint (dig_of y) < 131072" "0 \<le> uint n" "0 \<le> uint (dig_of y)"
    using uint_u16_lt [of n] uint_u16_lt [of "dig_of y"] by simp_all
  have ym: "uint (y AND DIG_MASK) = uint (dig_of y)" by (simp only: uint_and_DIG_MASK uint_dig_of_mod)
  have e: "uint (ucast n + (y AND DIG_MASK)) = uint n + uint (dig_of y)"
  proof -
    have "uint (ucast n :: u32) + uint (y AND DIG_MASK) < 4294967296"
      unfolding ym uint_ucast_16_32 using bnd by linarith
    from uint_u32_add [OF this] show ?thesis by (simp only: ym uint_ucast_16_32)
  qed
  have a: "uint a = uint carry + (uint n + uint (dig_of y))"
  proof -
    have "uint carry + uint (ucast n + (y AND DIG_MASK)) < 4294967296"
      unfolding e using bnd Cons.prems(3) by linarith
    from uint_u32_add [OF this] show ?thesis by (simp only: e a_def)
  qed
  have "uint a < 131072" using a uint_u16_lt [of n] uint_u16_lt [of "dig_of y"] Cons.prems(3) by linarith
  then have "uint (carry_of a) \<le> 1" unfolding uint_carry_of by linarith
  from Cons.IH [OF num1 len this]
  have "length num1 = length num" "uint c \<le> 1" and v: "int (mpn_val num1) + 65536 ^ length num * uint c
      = int (mpn_val num) + int (mpn_val (den_norm s ds y)) + uint a div 65536"
    by (simp_all add: uint_carry_of)
  moreover have "int (mpn_val num') + 65536 ^ length (n # num) * uint c
      = uint a mod 65536 + 65536 * (int (mpn_val num1) + 65536 ^ length num * uint c)"
    by (simp add: num' uint_dig_of_mod algebra_simps)
  moreover have "int (mpn_val (den_norm s den d_norm)) = uint (dig_of y) + 65536 * int (mpn_val (den_norm s ds y))"
    by (simp add: den y_def Let_def)
  ultimately show ?case
    using a mult_div_mod_eq [of 65536 "uint a"] by (simp add: num' algebra_simps)
qed simp

text \<open>
  The add-back loop ends, and with the exact quotient digit and remainder: each round adds the
  denominator to a negative remainder.
\<close>

lemma mpn_div_fix_val:
  assumes "length num = length den" and "0 < D" and "D = int (mpn_val (den_norm s den 0))" and "0 \<le> N"
    and "int (mpn_val num) - 65536 ^ length den * uint borrow = N - uint quo * D"
    and "N - uint quo * D < D"
  shows "\<exists>num' quo'. mpn_div_fix s den num quo borrow = Some (num', quo') \<and>
    length num' = length den \<and> int (mpn_val num') = N mod D \<and> uint quo' = N div D"
  using assms
proof (induction "unat quo" arbitrary: num quo borrow rule: less_induct)
  case less
  show ?case
  proof (cases "borrow = 0")
    case True
    then have v: "int (mpn_val num) = N - uint quo * D" using less.prems(5) by simp
    have "N div D = uint quo"
      by (rule int_div_pos_eq [where r = "int (mpn_val num)"]) (use v less.prems in \<open>simp_all add: mult.commute\<close>)
    moreover have "N mod D = int (mpn_val num)"
      by (rule int_mod_pos_eq [where q = "uint quo"]) (use v less.prems in \<open>simp_all add: mult.commute\<close>)
    ultimately show ?thesis
      using True less.prems(1) by (subst mpn_div_fix.simps) simp
  next
    case False
    let ?M = "65536 ^ length den :: int"
    obtain num1 c where ab: "mpn_div_addback s num den 0 0 = (num1, c)" by fastforce
    have l: "length den = length num" using less.prems(1) by simp
    have "uint (0::u32) \<le> 1" by simp
    note a = mpn_div_addback_val [OF ab l this]
    have b: "1 \<le> uint borrow"
    proof -
      have "uint borrow \<noteq> 0" "0 \<le> uint borrow" using False by (simp_all add: word_uint_eq_iff)
      then show ?thesis by linarith
    qed
    have "int (mpn_val num) < ?M"
      using mpn_val_lt [of num] less.prems(1) by (metis of_nat_less_iff of_nat_numeral of_nat_power)
    moreover have "?M * 1 \<le> ?M * uint borrow" using b by (intro mult_left_mono) auto
    ultimately have neg: "N - uint quo * D < 0" using less.prems(5) by linarith
    have q1: "1 \<le> uint quo"
    proof (rule ccontr)
      assume "\<not> ?thesis"
      moreover have "0 \<le> uint quo" by simp
      ultimately have "uint quo = 0" by linarith
      with neg less.prems(4) show False by simp
    qed
    have q: "uint (quo - 1) = uint quo - 1" using q1 by (subst uint_u32_diff) simp_all
    have bc: "uint (borrow - c) = uint borrow - uint c" using a b by (subst uint_u32_diff) simp_all
    have "quo \<noteq> 0" using q1 by auto
    then have "unat (quo - 1) < unat quo" by (simp add: unat_minus_one unat_gt_0)
    moreover have "int (mpn_val num1) - ?M * uint (borrow - c) = N - uint (quo - 1) * D"
      using a less.prems(3,5) less.prems(1) unfolding bc q by (simp add: algebra_simps)
    moreover have "N - uint (quo - 1) * D < D" using neg unfolding q by (simp add: algebra_simps)
    moreover have "length num1 = length den" using a less.prems(1) by simp
    ultimately have "\<exists>num' quo'. mpn_div_fix s den num1 (quo - 1) (borrow - c) = Some (num', quo') \<and>
        length num' = length den \<and> int (mpn_val num') = N mod D \<and> uint quo' = N div D"
      using less.hyps [of "quo - 1" num1 "borrow - c"] less.prems(2-4) by blast
    with False show ?thesis by (subst mpn_div_fix.simps) (simp add: ab)
  qed
qed

lemma int_le_div: "0 < (p :: int) \<Longrightarrow> k * p \<le> n \<Longrightarrow> k \<le> n div p"
  using zdiv_mono1 [of "k * p" n p] by simp

lemma int_div_less:
  assumes "0 < (p :: int)" and "n < k * p"
  shows "n div p < k"
proof (rule ccontr)
  assume "\<not> ?thesis"
  then have "k * p \<le> n div p * p" using assms(1) by (intro mult_right_mono) auto
  also have "\<dots> \<le> n" using div_mult_mod_eq [of n p] pos_mod_sign [OF assms(1), of n] by linarith
  finally show False using assms(2) by simp
qed

text \<open>The trial quotient is at least the true one and at most \<open>DIG_BASE + 1\<close>.\<close>

lemma trial_quotient:
  fixes N D L P :: int
  assumes "0 < P" and "L * P \<le> D" and "D < (L + 1) * P" and "32768 \<le> L" and "L < 65536"
    and "0 \<le> N" and "N < D * 65536"
  shows "N div D \<le> N div P div L" and "N div P div L \<le> 65537"
proof -
  have D: "0 < D" using assms(1,2,4) by (metis less_le_trans mult_pos_pos zero_less_numeral)
  have "(N div D) * (L * P) \<le> (N div D) * D"
    using assms(2,6) D by (intro mult_left_mono) (auto simp: pos_imp_zdiv_nonneg_iff)
  also have "\<dots> \<le> N" using D by (metis div_mult_mod_eq le_add_same_cancel1 pos_mod_sign)
  finally have "(N div D * L) * P \<le> N" by (simp add: ac_simps)
  from int_le_div [OF assms(1) this] show "N div D \<le> N div P div L"
    using assms(4) by (metis int_le_div less_le_trans zero_less_numeral)
  have "D * 65536 < (L + 1) * P * 65536" using assms(3) by simp
  with assms(7) have "N < (L + 1) * P * 65536" by linarith
  then have "N < (L + 1) * 65536 * P" by (simp only: ac_simps)
  from int_div_less [OF assms(1) this] have "N div P < (L + 1) * 65536" .
  also have "\<dots> \<le> 65538 * L" using assms(4) by simp
  finally have "N div P div L < 65538" using assms(4) by (rule_tac int_div_less) simp_all
  then show "N div P div L \<le> 65537" by simp
qed

lemma mpn_val_last: "ds \<noteq> [] \<Longrightarrow> mpn_val ds = mpn_val (butlast ds) + 65536 ^ (length ds - 1) * unat (last ds)"
  by (cases ds rule: rev_cases) (simp_all add: mpn_val_append)

lemma int_mpn_val_lt: "int (mpn_val ds) < 65536 ^ length ds"
  using mpn_val_lt [of ds] by (metis of_nat_less_iff of_nat_numeral of_nat_power)

text \<open>What the loop needs of the denominator, once normalised.\<close>

definition den_ok :: "nat \<Rightarrow> mpz_dig_t list \<Rightarrow> bool" where
  "den_ok s den \<longleftrightarrow> den \<noteq> [] \<and> s < 16 \<and> mpn_val (den_norm s den 0) = mpn_val den * 2 ^ s \<and>
     uint (mpn_div_lead s den) = uint (last (den_norm s den 0)) \<and>
     32768 \<le> uint (last (den_norm s den 0)) \<and>
     (length den = 1 \<or> 0xFFFF \<notin> set (den_norm s den 0))"

lemma mpn_div_step_val:
  assumes "den_ok s den" and len: "length num = length den"
    and "D = int (mpn_val (den_norm s den 0))"
    and "N = int (mpn_val num) + 65536 ^ length den * uint t" and "N < D * 65536"
  shows "\<exists>num' quo. mpn_div_step s den (mpn_div_lead s den) num t = Some (num', quo) \<and>
    length num' = length den \<and> int (mpn_val num') = N mod D \<and> uint quo = N div D"
proof -
  let ?dn = "den_norm s den 0"
  define m where "m = length den - 1"
  define P L where "P = (65536 ^ m :: int)" and "L = uint (last ?dn)"
  have ne: "den \<noteq> []" "num \<noteq> []" "?dn \<noteq> []" and lead: "uint (mpn_div_lead s den) = L"
    and L: "32768 \<le> L" "L < 65536"
  proof -
    show "den \<noteq> []" "uint (mpn_div_lead s den) = L" "32768 \<le> L" "L < 65536"
      using assms(1) uint_u16_lt [of "last ?dn"] by (simp_all add: den_ok_def L_def)
    then show "num \<noteq> []" "?dn \<noteq> []" using len by (metis length_den_norm length_0_conv)+
  qed
  have Suc_m: "length den = Suc m" using ne by (cases den) (simp_all add: m_def)
  have P: "0 < P" by (simp add: P_def)
  have D: "D = int (mpn_val (butlast ?dn)) + P * L"
    using mpn_val_last [OF ne(3)] by (simp add: assms(3) P_def L_def m_def)
  have "int (mpn_val (butlast ?dn)) < P"
    using int_mpn_val_lt [of "butlast ?dn"] by (simp add: P_def m_def)
  then have DL: "L * P \<le> D" "D < (L + 1) * P" unfolding D by (simp_all add: algebra_simps)
  have "0 < L * P" using L P by (intro mult_pos_pos) auto
  with DL have D0: "0 < D" by linarith
  have "N = int (mpn_val (butlast num)) + P * (uint (last num) + 65536 * uint t)"
    using mpn_val_last [OF ne(2)] by (simp add: assms(4) Suc_m len P_def algebra_simps)
  moreover have "int (mpn_val (butlast num)) < P"
    using int_mpn_val_lt [of "butlast num"] by (simp add: P_def len m_def)
  ultimately have NP: "N div P = uint (last num) + 65536 * uint t" using P by simp
  have N0: "0 \<le> N" by (simp add: assms(4))
  define quo where "quo = (push_bit DIG_SIZE (ucast t) OR ucast (last num)) div mpn_div_lead s den"
  have "int (unat (push_bit 16 (ucast t :: u32) OR ucast (last num))) = N div P"
    by (simp only: unat_or_push NP) simp
  then have quo: "uint quo = N div P div L"
    by (simp add: quo_def uint_div lead DIG_SIZE_def)
  note tq = trial_quotient [OF P DL L N0 assms(5)]
  have fits: "quo_fits quo ?dn"
  proof (cases "length den = 1")
    case True
    then have "m = 0" by (simp add: m_def)
    have "butlast ?dn = []" using True by (metis length_butlast length_den_norm diff_self_eq_0 length_0_conv)
    with \<open>m = 0\<close> have "P = 1" "D = L" by (simp_all add: P_def D)
    then have "uint quo < 65536" unfolding quo using assms(5) L by (simp add: int_div_less mult.commute)
    moreover have "uint d + 1 \<le> 65536" for d :: u16 using uint_u16_lt [of d] by simp
    ultimately show ?thesis by (intro quo_fitsI [of _ 65535 _ 65536]) simp_all
  next
    case False
    have "uint d + 1 \<le> 65535" if "d \<in> set ?dn" for d
    proof -
      have "d \<noteq> 0xFFFF" using that False assms(1) by (auto simp: den_ok_def)
      then have "uint d \<noteq> 65535" by (auto simp: word_uint_eq_iff)
      with uint_u16_lt [of d] show ?thesis by linarith
    qed
    then show ?thesis by (intro quo_fitsI [of _ 65537 _ 65535]) (simp_all add: quo tq(2))
  qed
  obtain num1 b where ms: "mpn_div_mulsub s quo num den 0 0 = (num1, b)" by fastforce
  have "uint (0 :: u32) \<le> uint quo" by simp
  note v = mpn_div_mulsub_val [OF ms len [symmetric] fits this]
  then have "int (mpn_val num1) - 65536 ^ length den * (uint b - uint t) = N - uint quo * D"
    by (simp add: assms(3,4) len algebra_simps)
  moreover have "N - uint quo * D < D"
  proof -
    have "D * (N div D) \<le> D * uint quo" using tq(1) D0 unfolding quo
      by (intro mult_left_mono) auto
    moreover have "N mod D < D" using D0 by (rule pos_mod_bound)
    ultimately show ?thesis
      unfolding mult.commute [of "uint quo" D] using mult_div_mod_eq [of D N] by linarith
  qed
  moreover have "D < 65536 ^ length den"
    using int_mpn_val_lt [of ?dn] by (simp add: assms(3))
  moreover have tb: "uint t \<le> uint b"
  proof (rule ccontr)
    assume "\<not> ?thesis"
    then have "65536 ^ length den * (1 :: int) \<le> 65536 ^ length den * (uint t - uint b)"
      by (intro mult_left_mono) auto
    with calculation show False by (simp add: right_diff_distrib)
  qed
  moreover have "uint (b - ucast t) = uint b - uint t" using tb by (subst uint_u32_diff) simp_all
  ultimately show ?thesis
    using mpn_div_fix_val [of num1 den D s N "b - ucast t" quo] v N0 D0 assms(3) len
    by (simp add: mpn_div_step_def Let_def quo_def [symmetric] ms)
qed

section \<open>The whole division\<close>

lemma long_division_step:
  fixes n d q r x lo p l b :: int
  assumes "n = d * q + r" and "x = lo + p * l + (b * p) * n"
  shows "x = (lo + p * (l + b * r)) + d * ((b * p) * q)"
  unfolding assms(2) by (subst assms(1)) (simp add: algebra_simps)

text \<open>The main loop on what is left of the numerator: long division by the normalised denominator.\<close>

lemma mpn_div_loop_val:
  assumes "den_ok s den" and D: "D = int (mpn_val (den_norm s den 0))" and D0: "0 < D"
  shows "length num = length den \<Longrightarrow> N = int (mpn_val num) + 65536 ^ length den * uint t \<Longrightarrow>
    N < D * 65536 \<Longrightarrow> X = int (mpn_val (rev low)) + 65536 ^ length low * N \<Longrightarrow>
    \<exists>rem qs. mpn_div_loop s den (mpn_div_lead s den) low num t quos = Some (rem, qs @ quos) \<and>
      length rem = length den \<and> length qs = Suc (length low) \<and>
      int (mpn_val rem) = X mod D \<and> int (mpn_val qs) = X div D"
proof (induction low arbitrary: num t quos N X)
  case Nil
  obtain num' quo where st: "mpn_div_step s den (mpn_div_lead s den) num t = Some (num', quo)"
    "length num' = length den" "int (mpn_val num') = N mod D" "uint quo = N div D"
    using mpn_div_step_val [OF assms(1) Nil.prems(1) D Nil.prems(2,3)] by blast
  have "N div D < 65536" using int_div_less [OF D0, of N 65536] Nil.prems(3) by (simp add: mult.commute)
  moreover have "0 \<le> N div D" using D0 Nil.prems(2) by (simp add: pos_imp_zdiv_nonneg_iff)
  ultimately have "uint (dig_of quo) = N div D" by (simp add: uint_dig_of_mod st(4))
  then show ?case using st Nil.prems(4) by (intro exI [of _ num'] exI [of _ "[dig_of quo]"]) simp
next
  case (Cons l low)
  obtain num' quo where st: "mpn_div_step s den (mpn_div_lead s den) num t = Some (num', quo)"
    "length num' = length den" "int (mpn_val num') = N mod D" "uint quo = N div D"
    using mpn_div_step_val [OF assms(1) Cons.prems(1) D Cons.prems(2,3)] by blast
  have "N div D < 65536" using int_div_less [OF D0, of N 65536] Cons.prems(3) by (simp add: mult.commute)
  moreover have "0 \<le> N div D" using D0 Cons.prems(2) by (simp add: pos_imp_zdiv_nonneg_iff)
  ultimately have q: "uint (dig_of quo) = N div D" by (simp add: uint_dig_of_mod st(4))
  have ne: "num' \<noteq> []" using assms(1) st(2) by (auto simp: den_ok_def)
  then have Suc_m: "length den = Suc (length num' - 1)" using st(2) by (cases num') simp_all
  define R where "R = uint l + 65536 * (N mod D)"
  define X' where "X' = int (mpn_val (rev low)) + 65536 ^ length low * R"
  have "R = int (mpn_val (l # butlast num')) + 65536 ^ length den * uint (last num')"
    using mpn_val_last [OF ne] by (subst Suc_m) (simp add: R_def st(3) [symmetric] algebra_simps)
  moreover have "R < D * 65536"
    using pos_mod_bound [OF D0, of N] uint_u16_lt [of l] unfolding R_def by linarith
  moreover have "length (l # butlast num') = length den" using Suc_m by simp
  ultimately obtain rem qs where IH:
    "mpn_div_loop s den (mpn_div_lead s den) low (l # butlast num') (last num') (dig_of quo # quos)
       = Some (rem, qs @ dig_of quo # quos)"
    "length rem = length den" "length qs = Suc (length low)"
    "int (mpn_val rem) = X' mod D" "int (mpn_val qs) = X' div D"
    using Cons.IH [of "l # butlast num'" R "last num'" X' "dig_of quo # quos"] X'_def by blast
  have "N = D * (N div D) + N mod D" by simp
  then have "X = X' + D * (65536 * 65536 ^ length low * (N div D))"
    unfolding X'_def R_def
    by (rule long_division_step) (simp add: Cons.prems(4) mpn_val_append)
  then have "X mod D = X' mod D" "X div D = X' div D + 65536 ^ length (l # low) * (N div D)"
    using D0 by simp_all
  then show ?case
    using st(1) IH q by (intro exI [of _ rem] exI [of _ "qs @ [dig_of quo]"]) (simp add: mpn_val_append)
qed

text \<open>Shifting the numerator up is the same as normalising the denominator's digits.\<close>

lemma mpn_div_norm_num_eq:
  assumes "s < 16"
  shows "unat x div 65536 < 2 ^ s \<Longrightarrow> mpn_div_norm_num s num (dig_of (drop_bit 16 x)) = den_norm s num x"
proof (induction num arbitrary: x)
  case (Cons n num)
  have "unat (drop_bit 16 x) < 65536"
    using unat_u32_lt [of x] by (simp add: unat_drop_bit_div less_mult_imp_div_less del: drop_bit_eq_div)
  then have c: "ucast (dig_of (drop_bit 16 x)) = drop_bit 16 x"
    by (simp add: word_unat_eq_iff unat_dig_of)
  have "unat (drop_bit 16 (d_norm_step s n x)) = unat (drop_bit (DIG_SIZE - s) (ucast n :: u32))"
    unfolding unat_drop_bit_div using drop_d_norm_step [OF assms Cons.prems, of n] by (simp add: DIG_SIZE_def)
  then have "drop_bit (DIG_SIZE - s) (ucast n) = drop_bit 16 (d_norm_step s n x)"
    by (simp only: word_unat_eq_iff)
  with Cons.IH [OF unat_d_norm_step(2) [OF assms Cons.prems], of n] show ?case
    by (simp add: c Let_def d_norm_step_def DIG_SIZE_def)
qed simp

lemma unnorm_digit:
  assumes "s < 16"
  shows "dig_of (drop_bit s (ucast d) OR ucast (dig_of (push_bit (DIG_SIZE - s) (ucast n))))
       = dig_of (drop_bit s (ucast d OR push_bit DIG_SIZE (ucast n)))"
  unfolding dig_of_def DIG_SIZE_def DIG_MASK_mask
  by (rule bit_word_eqI) (use assms in \<open>auto simp: bit_simps add.commute\<close>)

lemma mpn_div_unnorm_shr:
  assumes "s < 16"
  shows "rev (mpn_div_unnorm s (rev ds) (dig_of (push_bit (DIG_SIZE - s) (ucast n)))) @ mpn_shr_loop s (n # ns)
       = mpn_shr_loop s (ds @ n # ns)"
proof (induction ds arbitrary: n ns rule: rev_induct)
  case (snoc d ds)
  from snoc.IH [of d "n # ns"] show ?case by (simp add: unnorm_digit [OF assms])
qed simp

lemma mpn_div_unnorm_val:
  assumes "s < 16"
  shows "mpn_val (rev (mpn_div_unnorm s (rev ds) 0)) = mpn_val ds div 2 ^ s"
proof (cases ds rule: rev_cases)
  case (snoc es n)
  have "rev (mpn_div_unnorm s (rev ds) 0) = mpn_shr_loop s ds"
    using mpn_div_unnorm_shr [OF assms, of es n "[]"] by (simp add: snoc)
  then show ?thesis by (simp add: mpn_shr_loop_val [OF assms])
qed simp

text \<open>Counting the leading zeros ends for a digit that is not zero.\<close>

lemma DIG_MSB_iff: "d AND DIG_MSB \<noteq> 0 \<longleftrightarrow> 32768 \<le> unat d"
proof -
  have "d AND DIG_MSB = 0 \<longleftrightarrow> \<not> bit d 15"
    using and_exp_eq_0_iff_not_bit [of d 15] by (simp add: DIG_MSB_def)
  also have "bit d 15 \<longleftrightarrow> odd (unat d div 32768)"
  proof -
    have "bit d 15 \<longleftrightarrow> bit (unat d) 15" by (simp add: bit_unsigned_iff)
    also have "\<dots> \<longleftrightarrow> odd (unat d div 2 ^ 15)" by (rule bit_iff_odd)
    finally show ?thesis by simp
  qed
  also have "\<dots> \<longleftrightarrow> 32768 \<le> unat d"
  proof -
    have "unat d div 32768 = 0 \<or> unat d div 32768 = 1" using unat_u16_lt [of d] by linarith
    then show ?thesis by auto
  qed
  finally show ?thesis by simp
qed

lemma mpn_div_lead_shift_val:
  assumes "d \<noteq> 0"
  shows "\<exists>s < 16. mpn_div_lead_shift d n = Some (n + s) \<and> 32768 \<le> unat d * 2 ^ s \<and> unat d * 2 ^ s < 65536"
proof -
  have "\<exists>s. mpn_div_lead_shift d n = Some (n + s) \<and> 32768 \<le> unat d * 2 ^ s \<and> unat d * 2 ^ s < 65536"
    using assms
  proof (induction "65536 - unat d" arbitrary: d n rule: less_induct)
    case less
    show ?case
    proof (cases "d AND DIG_MSB = 0")
      case False
      then have "32768 \<le> unat d" using DIG_MSB_iff [of d] by blast
      then show ?thesis
        using False unat_u16_lt [of d] by (subst mpn_div_lead_shift.simps) (auto intro!: exI [of _ 0])
    next
      case True
      then have "unat d < 32768" using DIG_MSB_iff [of d] by simp
      then have p: "unat (push_bit 1 d) = 2 * unat d"
        by (simp add: push_bit_eq_mult unat_mult_simple mult.commute)
      have d: "0 < unat d" using less.prems by (simp add: unat_gt_0)
      then have "push_bit 1 d \<noteq> 0" using p by auto
      moreover have "65536 - unat (push_bit 1 d) < 65536 - unat d" using p d \<open>unat d < 32768\<close> by simp
      ultimately obtain s where "mpn_div_lead_shift (push_bit 1 d) (Suc n) = Some (Suc n + s)"
        "32768 \<le> 2 * unat d * 2 ^ s" "2 * unat d * 2 ^ s < 65536"
        using less.hyps [of "push_bit 1 d" "Suc n"] p by auto
      with True show ?thesis
        by (subst mpn_div_lead_shift.simps) (auto intro!: exI [of _ "Suc s"])
    qed
  qed
  then obtain s where s: "mpn_div_lead_shift d n = Some (n + s)" "32768 \<le> unat d * 2 ^ s" "unat d * 2 ^ s < 65536"
    by blast
  moreover have "s < 16"
  proof (rule ccontr)
    assume "\<not> s < 16"
    then have "(2::nat) ^ 16 \<le> 2 ^ s" by (intro power_increasing) auto
    also have "\<dots> \<le> unat d * 2 ^ s" using assms by (simp add: Suc_leI unat_gt_0)
    finally show False using s(3) by simp
  qed
  ultimately show ?thesis by blast
qed

text \<open>
  \<open>mpn_div\<close> divides. The last hypothesis keeps the products of a trial quotient that is too
  large inside \<open>mpz_dbl_dig_t\<close>; \<open>den_safe\<close> holds of every one-digit denominator.
\<close>

definition den_safe :: "mpz_dig_t list \<Rightarrow> bool" where
  "den_safe den \<longleftrightarrow> length den = 1 \<or>
     (case mpn_div_lead_shift (last den) 0 of None \<Rightarrow> False | Some s \<Rightarrow> 0xFFFF \<notin> set (den_norm s den 0))"

lemma den_ok_lead_shift:
  assumes "mpn_norm den" and "den \<noteq> []" and "den_safe den"
  shows "\<exists>s. mpn_div_lead_shift (last den) 0 = Some s \<and> den_ok s den"
proof -
  have "last den \<noteq> 0" using assms(1,2) by (simp add: mpn_norm_def)
  from mpn_div_lead_shift_val [OF this, of 0] obtain s where s: "s < 16"
    "mpn_div_lead_shift (last den) 0 = Some s" "32768 \<le> unat (last den) * 2 ^ s" "unat (last den) * 2 ^ s < 65536"
    by auto
  let ?P = "65536 ^ (length den - 1) :: nat"
  have len: "65536 ^ length den = ?P * 65536" using assms(2) by (cases den) simp_all
  have bl: "mpn_val (butlast den) < ?P" using mpn_val_lt [of "butlast den"] by simp
  have v: "mpn_val den = mpn_val (butlast den) + ?P * unat (last den)" by (rule mpn_val_last [OF assms(2)])
  have "unat (last den) + 1 \<le> 2 ^ (16 - s)"
  proof -
    have "unat (last den) * 2 ^ s < 2 ^ (16 - s) * 2 ^ s" using s(1,4) by (simp flip: power_add)
    then show ?thesis by simp
  qed
  then have "?P * (unat (last den) + 1) * 2 ^ s \<le> ?P * 2 ^ (16 - s) * 2 ^ s" by (intro mult_le_mono) auto
  also have "\<dots> = 65536 ^ length den" using s(1) by (simp add: len mult.assoc flip: power_add)
  finally have "?P * (unat (last den) + 1) * 2 ^ s \<le> 65536 ^ length den" .
  moreover have "mpn_val den * 2 ^ s < ?P * (unat (last den) + 1) * 2 ^ s" using bl v by simp
  ultimately have small: "mpn_val den * 2 ^ s < 65536 ^ length den" by linarith
  note dn = den_norm_val [OF s(1) small]
  have ne: "den_norm s den 0 \<noteq> []" using assms(2) by (metis length_den_norm length_0_conv)
  let ?l = "last (den_norm s den 0)"
  have "?P * 32768 \<le> ?P * (unat (last den) * 2 ^ s)" using s(3) by simp
  also have "\<dots> \<le> mpn_val den * 2 ^ s" unfolding v by (simp add: algebra_simps)
  also have "\<dots> < ?P * (unat ?l + 1)"
    using mpn_val_last [OF ne] mpn_val_lt [of "butlast (den_norm s den 0)"] unfolding dn by simp
  finally have "32768 < unat ?l + 1" by simp
  then have "32768 \<le> int (unat ?l)" by linarith
  moreover have "int (unat (mpn_div_lead s den)) = int (unat ?l)"
    by (simp only: unat_mpn_div_lead [OF s(1) assms(2) small])
  ultimately have "den_ok s den"
    using assms s(1) dn by (auto simp: den_ok_def den_safe_def s(2))
  with s(2) show ?thesis by blast
qed

lemma length_mpn_div_unnorm [simp]: "length (mpn_div_unnorm s ds c) = length ds"
  by (induction ds arbitrary: c) simp_all

text \<open>The shifted numerator, and how the main loop starts on it.\<close>

lemma mpn_div_num1:
  assumes "s < 16"
  shows "length (mpn_div_norm_num s (num @ [0]) 0) = Suc (length num)"
    and "mpn_val (mpn_div_norm_num s (num @ [0]) 0) = mpn_val num * 2 ^ s"
proof -
  have e: "mpn_div_norm_num s ds 0 = den_norm s ds 0" for ds
    using mpn_div_norm_num_eq [OF assms, of 0 ds] by (simp add: dig_of_def)
  show "length (mpn_div_norm_num s (num @ [0]) 0) = Suc (length num)" by (simp add: e)
  have "mpn_val num * 2 ^ s < 65536 ^ length num * 65536"
    using assms mpn_val_lt [of num] power_strict_increasing [of s 16 "2 :: nat"]
    by (intro mult_strict_mono) auto
  then show "mpn_val (mpn_div_norm_num s (num @ [0]) 0) = mpn_val num * 2 ^ s"
    unfolding e by (subst den_norm_val [OF assms]) (simp_all add: mpn_val_append mult.commute)
qed

lemma mpn_div_window:
  assumes "length den \<le> length num" and "length ds = Suc (length num)"
  defines "k \<equiv> length num - length den"
  shows "length (drop k (butlast ds)) = length den" and "length (take k ds) = k"
    and "int (mpn_val ds) = int (mpn_val (take k ds))
           + 65536 ^ k * (int (mpn_val (drop k (butlast ds))) + 65536 ^ length den * uint (last ds))"
proof -
  show l: "length (drop k (butlast ds)) = length den" and t: "length (take k ds) = k"
    using assms by simp_all
  have "take k ds = take k (butlast ds)" using assms by (simp add: take_butlast)
  moreover have "ds \<noteq> []" using assms(2) by auto
  ultimately have ds: "ds = take k ds @ (drop k (butlast ds) @ [last ds])"
    by (metis append.assoc append_butlast_last_id append_take_drop_id)
  have "int (mpn_val ds) = int (mpn_val (take k ds @ (drop k (butlast ds) @ [last ds])))"
    by (simp only: ds [symmetric])
  then show "int (mpn_val ds) = int (mpn_val (take k ds))
           + 65536 ^ k * (int (mpn_val (drop k (butlast ds))) + 65536 ^ length den * uint (last ds))"
    by (simp only: mpn_val_append l t) simp
qed

lemma mpn_div_start:
  fixes N :: int
  assumes "mpn_norm den" and "den \<noteq> []" and "length den \<le> length num" and "0 \<le> lo"
    and X: "int (mpn_val num * 2 ^ s) = lo + 65536 ^ (length num - length den) * N"
  shows "N < int (mpn_val den * 2 ^ s) * 65536"
proof -
  let ?k = "length num - length den"
  have "65536 ^ ?k * N \<le> int (mpn_val num * 2 ^ s)" using X assms(4) by linarith
  also have "\<dots> < 65536 ^ length num * 2 ^ s"
    using int_mpn_val_lt [of num] by simp
  also have "\<dots> = 65536 ^ ?k * (65536 ^ length den * 2 ^ s)"
    using assms(3) by (simp flip: power_add mult.assoc)
  finally have "N < 65536 ^ length den * 2 ^ s" by simp
  also have "\<dots> = 65536 ^ (length den - 1) * 2 ^ s * 65536"
    using assms(2) by (cases den) simp_all
  also have "\<dots> \<le> int (mpn_val den) * 2 ^ s * 65536"
  proof -
    have "65536 ^ (length den - 1) \<le> mpn_val den" by (rule mpn_val_ge [OF assms(1,2)])
    then have "(65536 :: int) ^ (length den - 1) \<le> int (mpn_val den)"
      by (metis of_nat_le_iff of_nat_numeral of_nat_power)
    then show ?thesis by (intro mult_right_mono) auto
  qed
  finally show ?thesis by simp
qed

theorem mpn_div_val:
  assumes "mpn_norm num" and "mpn_norm den" and "den \<noteq> []" and "den_safe den"
  shows "\<exists>rem quo. mpn_div num den = Some (rem, quo) \<and> mpn_norm rem \<and> mpn_norm quo \<and>
    mpn_val rem = mpn_val num mod mpn_val den \<and> mpn_val quo = mpn_val num div mpn_val den \<and>
    length rem \<le> length num \<and> length quo \<le> max 1 (length num)"
proof -
  consider (eq) "mpn_cmp num den = 0" | (lt) "mpn_cmp num den < 0" | (gt) "0 < mpn_cmp num den" by linarith
  then show ?thesis
  proof cases
    case eq
    have "mpn_val den \<noteq> 0" using assms mpn_norm_val_0 by blast
    with eq assms show ?thesis by (simp add: mpn_div_def mpn_cmp_eq_iff mpn_norm_def)
  next
    case lt
    then show ?thesis using assms mpn_cmp_less_iff [OF assms(1,2)] by (simp add: mpn_div_def Let_def)
  next
    case gt
    obtain s where sh: "mpn_div_lead_shift (last den) 0 = Some s" and ok: "den_ok s den"
      using den_ok_lead_shift [OF assms(2-4)] by blast
    have s: "s < 16" and dn: "mpn_val (den_norm s den 0) = mpn_val den * 2 ^ s" using ok by (simp_all add: den_ok_def)
    have vd: "0 < mpn_val den" using assms mpn_norm_val_0 by (metis gr0I)
    have "mpn_val den < mpn_val num"
      using gt mpn_cmp_correct [OF assms(1,2)] by (auto simp: sgn_if split: if_splits)
    then have ll: "length den \<le> length num"
      using mpn_val_less_length [OF assms(2), of num] by (metis not_le less_asym)
    have D0: "0 < int (mpn_val den * 2 ^ s)" using vd by simp
    define num1 k where "num1 = mpn_div_norm_num s (num @ [0]) 0" and "k = length num - length den"
    note num1 = mpn_div_num1 [OF s, of num, folded num1_def]
    note w = mpn_div_window [OF ll num1(1), folded k_def]
    define N where "N = int (mpn_val (drop k (butlast num1))) + 65536 ^ length den * uint (last num1)"
    have X: "int (mpn_val num * 2 ^ s) = int (mpn_val (take k num1)) + 65536 ^ k * N"
      using w(3) by (simp add: N_def num1(2) [symmetric])
    have "N < int (mpn_val den * 2 ^ s) * 65536"
      by (rule mpn_div_start [OF assms(2,3) ll _ X [unfolded k_def]]) simp
    then have N: "N < int (mpn_val (den_norm s den 0)) * 65536" by (simp only: dn)
    have X': "int (mpn_val num * 2 ^ s) = int (mpn_val (rev (rev (take k num1)))) + 65536 ^ length (rev (take k num1)) * N"
      by (simp only: rev_rev_ident length_rev w(2) X)
    obtain rem qs where loop: "mpn_div_loop s den (mpn_div_lead s den) (rev (take k num1))
        (drop k (butlast num1)) (last num1) [] = Some (rem, qs)"
      "length rem = length den" "length qs = Suc k"
      "int (mpn_val rem) = int (mpn_val num * 2 ^ s) mod int (mpn_val den * 2 ^ s)"
      "int (mpn_val qs) = int (mpn_val num * 2 ^ s) div int (mpn_val den * 2 ^ s)"
      using mpn_div_loop_val [OF ok refl _ w(1) N_def N X', of "[]"] D0
      unfolding dn length_rev w(2) append_Nil2 by blast
    have "mpn_val rem = mpn_val num * 2 ^ s mod (mpn_val den * 2 ^ s)"
      and "mpn_val qs = mpn_val num * 2 ^ s div (mpn_val den * 2 ^ s)"
      using loop(4,5) by (simp_all only: of_nat_mod [symmetric] of_nat_div [symmetric] of_nat_eq_iff)
    then have vals: "mpn_val rem div 2 ^ s = mpn_val num mod mpn_val den" "mpn_val qs = mpn_val num div mpn_val den"
      by (simp_all add: mult_mod_left [symmetric])
    have kk: "length num1 - Suc (length den) = k" using num1(1) by (simp add: k_def)
    let ?r = "mpn_remove_trailing_zeros (rev (mpn_div_unnorm s (rev rem) 0))"
    have "mpn_div num den = Some (?r, mpn_remove_trailing_zeros qs)"
      using gt loop(1) kk
      by (simp add: mpn_div_def sh Let_def num1_def [symmetric] del: mpn_div_loop.simps)
    moreover have "length ?r \<le> length num" "length (mpn_remove_trailing_zeros qs) \<le> max 1 (length num)"
    proof -
      have "1 \<le> length den" using assms(3) by (cases den) simp_all
      then show "length ?r \<le> length num" "length (mpn_remove_trailing_zeros qs) \<le> max 1 (length num)"
        using length_remove_zeros [of "rev (mpn_div_unnorm s (rev rem) 0)"] length_remove_zeros [of qs]
          loop(2,3) ll unfolding k_def length_rev length_mpn_div_unnorm by linarith+
    qed
    ultimately show ?thesis
      using vals by (simp add: mpn_div_unnorm_val [OF s])
  qed
qed

end
