(* ===== verification/Mpz.thy ===== *)
theory Mpz
  imports MpnBits MpnDiv "HOL-Library.Monad_Syntax"
begin

text \<open>
  The arbitrary-precision integers of \<open>py/mpz.c\<close>: the \<open>mpz_t\<close> structure, its storage, and the
  operations on it. An operation that ends in a failed assertion is \<open>None\<close>; every operation takes
  the structure it writes to as its first argument, as in the source, and returns it updated.
\<close>

section \<open>The structure and its storage\<close>

text \<open>
  \<open>dig\<close> is the \<open>len\<close> digits in use, so \<open>len\<close> is the length of the list; \<open>alloc\<close> is the number of
  digits the buffer has room for, and \<open>z->dig == NULL\<close> is an empty buffer with \<open>alloc\<close> zero.
\<close>

record mpz =
  neg :: bool
  fixed_dig :: bool
  alloc :: nat
  dig :: "mpz_dig_t list"

abbreviation len :: "mpz \<Rightarrow> nat" where
  "len z \<equiv> length (dig z)"

definition MIN_ALLOC :: nat where
  "MIN_ALLOC = 2"

definition MPZ_NUM_DIG_FOR_INT :: nat where
  "MPZ_NUM_DIG_FOR_INT = (64 + DIG_SIZE - 1) div DIG_SIZE"

definition mpz_init_zero :: mpz where
  "mpz_init_zero = \<lparr> neg = False, fixed_dig = False, alloc = 0, dig = [] \<rparr>"

text \<open>
  \<open>mpz_need_dig\<close>: a fixed buffer that is too small fails the assertion. \<open>mem\<close> says of which sizes the
  allocator has a buffer at that moment; where it has none, \<open>m_renew\<close> raises \<open>MemoryError\<close>, and \<open>Inl\<close> is the
  structure that is left then. The operations below use the run in which the memory does not run out.
\<close>

definition mpz_need_dig_mem :: "(nat \<Rightarrow> bool) \<Rightarrow> mpz \<Rightarrow> nat \<Rightarrow> mpz + mpz option" where
  "mpz_need_dig_mem mem z need =
     (let need = (if need < MIN_ALLOC then MIN_ALLOC else need)
      in if alloc z < need then
           (if fixed_dig z then Inr None else if \<not> mem need then Inl z else Inr (Some (z\<lparr>alloc := need\<rparr>)))
         else Inr (Some z))"

definition mpz_need_dig :: "mpz \<Rightarrow> nat \<Rightarrow> mpz option" where
  "mpz_need_dig z need = (case mpz_need_dig_mem (\<lambda>_. True) z need of Inl z \<Rightarrow> None | Inr r \<Rightarrow> r)"

lemma mpz_need_dig_run:
  "mpz_need_dig z need =
     (let need = (if need < MIN_ALLOC then MIN_ALLOC else need)
      in if alloc z < need then (if fixed_dig z then None else Some (z\<lparr>alloc := need\<rparr>)) else Some z)"
  by (simp add: mpz_need_dig_def mpz_need_dig_mem_def Let_def)

text \<open>Running out of memory leaves the number as it was, and nothing else depends on the memory.\<close>

lemma mpz_need_dig_mem_cases:
  "mpz_need_dig_mem mem z need = Inl z \<or> mpz_need_dig_mem mem z need = Inr (mpz_need_dig z need)"
  by (simp add: mpz_need_dig_mem_def mpz_need_dig_run Let_def)

definition mpz_clone :: "mpz \<Rightarrow> mpz option" where
  "mpz_clone src = (if alloc src = 0 then None else Some (src\<lparr>fixed_dig := False\<rparr>))"

definition mpz_set :: "mpz \<Rightarrow> mpz \<Rightarrow> mpz option" where
  "mpz_set dest src = do {
     dest \<leftarrow> mpz_need_dig dest (len src);
     Some (dest\<lparr>neg := neg src, dig := dig src\<rparr>) }"

text \<open>\<open>while (uval > 0)\<close>: the digits of a machine word, lowest first.\<close>

function mpz_uint_digs :: "64 word \<Rightarrow> mpz_dig_t list" where
  "mpz_uint_digs uval =
     (if uval = 0 then [] else ucast (uval AND ucast DIG_MASK) # mpz_uint_digs (drop_bit DIG_SIZE uval))"
  by auto
termination
proof (relation "measure unat")
  fix uval :: "64 word"
  assume "uval \<noteq> 0"
  then have "0 < unat uval" by (simp add: unat_gt_0)
  then have "unat uval div 2 ^ 16 < unat uval" by (intro div_less_dividend) simp_all
  then show "(drop_bit DIG_SIZE uval, uval) \<in> measure unat"
    by (simp only: in_measure unat_drop_bit_div DIG_SIZE_def)
qed simp

declare mpz_uint_digs.simps [simp del]

text \<open>\<open>mpz_set_from_int\<close>: for zero only \<open>len\<close> is written, the sign stays what it was.\<close>

definition mpz_set_from_int :: "mpz \<Rightarrow> mp_int_t \<Rightarrow> mpz option" where
  "mpz_set_from_int z val =
     (if val = 0 then Some (z\<lparr>dig := []\<rparr>)
      else do {
        z \<leftarrow> mpz_need_dig z MPZ_NUM_DIG_FOR_INT;
        let uval = (if sint val < 0 then - val else val);
        Some (z\<lparr>neg := sint val < 0, dig := mpz_uint_digs uval\<rparr>) })"

definition mpz_set_from_ll :: "mpz \<Rightarrow> 64 word \<Rightarrow> bool \<Rightarrow> mpz option" where
  "mpz_set_from_ll z val is_signed = do {
     z \<leftarrow> mpz_need_dig z MPZ_NUM_DIG_FOR_INT;
     let n = (is_signed \<and> sint val < 0);
     Some (z\<lparr>neg := n, dig := mpz_uint_digs (if n then - val else val)\<rparr>) }"

definition mpz_init_from_int :: "mp_int_t \<Rightarrow> mpz option" where
  "mpz_init_from_int val = mpz_set_from_int mpz_init_zero val"

definition mpz_init_fixed_from_int :: "nat \<Rightarrow> mp_int_t \<Rightarrow> mpz option" where
  "mpz_init_fixed_from_int a val =
     mpz_set_from_int \<lparr> neg = False, fixed_dig = True, alloc = a, dig = [] \<rparr> val"

section \<open>Comparison and sign\<close>

definition mpz_is_zero :: "mpz \<Rightarrow> bool" where
  "mpz_is_zero z \<longleftrightarrow> len z = 0"

definition mpz_is_neg :: "mpz \<Rightarrow> bool" where
  "mpz_is_neg z \<longleftrightarrow> len z \<noteq> 0 \<and> neg z"

definition mpz_cmp :: "mpz \<Rightarrow> mpz \<Rightarrow> int" where
  "mpz_cmp z1 z2 =
     (if len z1 = 0 \<and> len z2 = 0 then 0
      else let cmp = of_bool (neg z2) - of_bool (neg z1)
           in if cmp \<noteq> 0 then cmp
              else let cmp = mpn_cmp (dig z1) (dig z2) in if neg z1 then - cmp else cmp)"

text \<open>
  \<open>dest != z\<close> decides whether the digits are copied first: \<open>same\<close> is the aliased call, in which
  \<open>dest\<close> and \<open>z\<close> are one structure.
\<close>

definition mpz_abs_inpl :: "bool \<Rightarrow> mpz \<Rightarrow> mpz \<Rightarrow> mpz option" where
  "mpz_abs_inpl same dest z = do {
     dest \<leftarrow> (if same then Some z else mpz_set dest z);
     Some (dest\<lparr>neg := False\<rparr>) }"

definition mpz_neg_inpl :: "bool \<Rightarrow> mpz \<Rightarrow> mpz \<Rightarrow> mpz option" where
  "mpz_neg_inpl same dest z = do {
     dest \<leftarrow> (if same then Some z else mpz_set dest z);
     Some (dest\<lparr>neg := \<not> neg dest\<rparr>) }"

definition mpz_not_inpl :: "bool \<Rightarrow> mpz \<Rightarrow> mpz \<Rightarrow> mpz option" where
  "mpz_not_inpl same dest z = do {
     dest \<leftarrow> (if same then Some z else mpz_set dest z);
     if len dest = 0 then do {
       dest \<leftarrow> mpz_need_dig dest 1;
       Some (dest\<lparr>dig := [1], neg := True\<rparr>) }
     else if neg dest then Some (dest\<lparr>neg := False, dig := mpn_sub (dig dest) [1]\<rparr>)
     else do {
       dest \<leftarrow> mpz_need_dig dest (len dest + 1);
       Some (dest\<lparr>dig := mpn_add (dig dest) [1], neg := True\<rparr>) } }"

section \<open>Shifts, sums and products\<close>

definition mpz_shl_inpl :: "mpz \<Rightarrow> mpz \<Rightarrow> nat \<Rightarrow> mpz option" where
  "mpz_shl_inpl dest lhs rhs =
     (if len lhs = 0 \<or> rhs = 0 then mpz_set dest lhs
      else do {
        dest \<leftarrow> mpz_need_dig dest (len lhs + (rhs + DIG_SIZE - 1) div DIG_SIZE);
        Some (dest\<lparr>dig := mpn_shl (dig lhs) rhs, neg := neg lhs\<rparr>) })"

text \<open>The bits that a right shift drops, \<open>round_up\<close> in the source.\<close>

definition mpz_shr_round_up :: "mpz_dig_t list \<Rightarrow> nat \<Rightarrow> bool" where
  "mpz_shr_round_up ds rhs =
     (let n_whole = rhs div DIG_SIZE; n_part = rhs mod DIG_SIZE
      in (\<exists>d \<in> set (take n_whole ds). d \<noteq> 0) \<or>
         (n_whole < length ds \<and> ds ! n_whole AND mask n_part \<noteq> 0))"

text \<open>\<open>mpz_shr_inpl\<close> when \<open>dest\<close> and \<open>lhs\<close> are two structures.\<close>

definition mpz_shr_inpl :: "mpz \<Rightarrow> mpz \<Rightarrow> nat \<Rightarrow> mpz option" where
  "mpz_shr_inpl dest lhs rhs =
     (if len lhs = 0 \<or> rhs = 0 then mpz_set dest lhs
      else do {
        dest \<leftarrow> mpz_need_dig dest (len lhs);
        let dest = dest\<lparr>dig := mpn_shr (dig lhs) rhs, neg := neg lhs\<rparr>;
        Some (if neg dest \<and> mpz_shr_round_up (dig lhs) rhs then
                (if len dest = 0 then dest\<lparr>dig := [1]\<rparr> else dest\<lparr>dig := mpn_add (dig dest) [1]\<rparr>)
              else dest) })"

text \<open>
  The same function called with \<open>dest\<close> and \<open>lhs\<close> one structure: by the time the loop looks for
  dropped bits, \<open>lhs->len\<close> and \<open>lhs->dig\<close> are those of the shifted number.
\<close>

definition mpz_shr_inpl_same :: "mpz \<Rightarrow> nat \<Rightarrow> mpz option" where
  "mpz_shr_inpl_same z rhs =
     (if len z = 0 \<or> rhs = 0 then mpz_set z z
      else do {
        z \<leftarrow> mpz_need_dig z (len z);
        let z = z\<lparr>dig := mpn_shr (dig z) rhs\<rparr>;
        Some (if neg z \<and> mpz_shr_round_up (dig z) rhs then
                (if len z = 0 then z\<lparr>dig := [1]\<rparr> else z\<lparr>dig := mpn_add (dig z) [1]\<rparr>)
              else z) })"

definition mpz_add_inpl :: "mpz \<Rightarrow> mpz \<Rightarrow> mpz \<Rightarrow> mpz option" where
  "mpz_add_inpl dest lhs rhs =
     (let (lhs, rhs) = (if mpn_cmp (dig lhs) (dig rhs) < 0 then (rhs, lhs) else (lhs, rhs))
      in if neg lhs = neg rhs then do {
           dest \<leftarrow> mpz_need_dig dest (len lhs + 1);
           Some (dest\<lparr>dig := mpn_add (dig lhs) (dig rhs), neg := neg lhs\<rparr>) }
         else do {
           dest \<leftarrow> mpz_need_dig dest (len lhs);
           Some (dest\<lparr>dig := mpn_sub (dig lhs) (dig rhs), neg := neg lhs\<rparr>) })"

definition mpz_sub_inpl :: "mpz \<Rightarrow> mpz \<Rightarrow> mpz \<Rightarrow> mpz option" where
  "mpz_sub_inpl dest lhs rhs =
     (let n = mpn_cmp (dig lhs) (dig rhs) < 0;
          (lhs, rhs) = (if n then (rhs, lhs) else (lhs, rhs));
          sgn = (if n then \<not> neg lhs else neg lhs)
      in if neg lhs \<noteq> neg rhs then do {
           dest \<leftarrow> mpz_need_dig dest (len lhs + 1);
           Some (dest\<lparr>dig := mpn_add (dig lhs) (dig rhs), neg := sgn\<rparr>) }
         else do {
           dest \<leftarrow> mpz_need_dig dest (len lhs);
           Some (dest\<lparr>dig := mpn_sub (dig lhs) (dig rhs), neg := sgn\<rparr>) })"

text \<open>
  An operand that is \<open>dest\<close> itself is cloned first, so its digits are those of before the
  buffer is cleared.
\<close>

definition mpz_mul_inpl :: "mpz \<Rightarrow> mpz \<Rightarrow> mpz \<Rightarrow> mpz option" where
  "mpz_mul_inpl dest lhs rhs =
     (if len lhs = 0 \<or> len rhs = 0 then mpz_set_from_int dest 0
      else do {
        dest \<leftarrow> mpz_need_dig dest (len lhs + len rhs);
        Some (dest\<lparr>dig := mpn_mul (replicate (alloc dest) 0) (dig lhs) (dig rhs),
                   neg := neg lhs \<noteq> neg rhs\<rparr>) })"

section \<open>The integer a structure stands for\<close>

definition mpz_val :: "mpz \<Rightarrow> int" where
  "mpz_val z = signed_val (neg z) (mpn_val (dig z))"

text \<open>Well-formed: no leading zero digit, and the digits fit in the buffer.\<close>

definition mpz_wf :: "mpz \<Rightarrow> bool" where
  "mpz_wf z \<longleftrightarrow> mpn_norm (dig z) \<and> len z \<le> alloc z"

text \<open>An operation returns a well-formed, growable structure that stands for \<open>v\<close>.\<close>

definition mpz_yields :: "mpz option \<Rightarrow> int \<Rightarrow> bool" where
  "mpz_yields r v \<longleftrightarrow> (\<exists>z. r = Some z \<and> mpz_wf z \<and> \<not> fixed_dig z \<and> mpz_val z = v)"

lemma mpz_yieldsI:
  "r = Some z \<Longrightarrow> mpz_wf z \<Longrightarrow> \<not> fixed_dig z \<Longrightarrow> mpz_val z = v \<Longrightarrow> mpz_yields r v"
  by (auto simp: mpz_yields_def)

lemma mpz_yieldsE:
  assumes "mpz_yields r v"
  obtains z where "r = Some z" and "mpz_wf z" and "\<not> fixed_dig z" and "mpz_val z = v"
  using assms by (auto simp: mpz_yields_def)

lemma signed_val_simps [simp]:
  "signed_val True v = - int v" "signed_val False v = int v" "signed_val n 0 = 0"
  by (simp_all add: signed_val_def)

lemma signed_val_not: "signed_val (\<not> n) v = - signed_val n v"
  by (cases n) simp_all

lemma mpz_need_dig_eq:
  "mpz_need_dig z need =
     (if alloc z < max 2 need \<and> fixed_dig z then None
      else Some (z\<lparr>alloc := max (alloc z) (max 2 need)\<rparr>))"
  by (auto simp: mpz_need_dig_run MIN_ALLOC_def Let_def max_def)

lemma mpz_need_dig_Some:
  "\<not> fixed_dig z \<Longrightarrow> mpz_need_dig z need = Some (z\<lparr>alloc := max (alloc z) (max 2 need)\<rparr>)"
  by (simp add: mpz_need_dig_eq)

text \<open>The assertion fails exactly for a fixed buffer that is too small.\<close>

lemma mpz_need_dig_None_iff: "mpz_need_dig z need = None \<longleftrightarrow> fixed_dig z \<and> alloc z < max 2 need"
  by (auto simp: mpz_need_dig_eq)

lemma mpz_wf_norm: "mpz_wf z \<Longrightarrow> mpn_norm (dig z)"
  by (simp add: mpz_wf_def)

lemma mpz_wf_init_zero: "mpz_wf mpz_init_zero" "mpz_val mpz_init_zero = 0" "\<not> fixed_dig mpz_init_zero"
  by (simp_all add: mpz_init_zero_def mpz_wf_def mpz_val_def)

lemma mpz_val_0_iff: "mpz_wf z \<Longrightarrow> mpz_val z = 0 \<longleftrightarrow> dig z = []"
  using mpn_norm_val_0 [of "dig z"] by (auto simp: mpz_wf_def mpz_val_def signed_val_def)

lemma abs_mpz_val: "\<bar>mpz_val z\<bar> = int (mpn_val (dig z))"
  by (simp add: mpz_val_def signed_val_def)

lemma mpz_yields_set:
  "\<not> fixed_dig dest \<Longrightarrow> mpz_wf src \<Longrightarrow> mpz_yields (mpz_set dest src) (mpz_val src)"
  by (auto simp: mpz_yields_def mpz_set_def mpz_need_dig_Some mpz_wf_def mpz_val_def)

lemma unat_uint_dig: "unat (ucast (w AND ucast DIG_MASK) :: mpz_dig_t) = unat (w :: 64 word) mod 65536"
proof -
  have "w AND ucast DIG_MASK = take_bit 16 w" by (simp add: DIG_MASK_def take_bit_eq_mask mask_eq_exp_minus_1)
  then show ?thesis
    by (simp only: unsigned_ucast_eq unsigned_take_bit_eq) (simp add: take_bit_eq_mod)
qed

lemma mpz_uint_digs_spec:
  "mpn_val (mpz_uint_digs w) = unat w \<and> mpn_norm (mpz_uint_digs w)"
proof (induction w rule: mpz_uint_digs.induct)
  case (1 w)
  show ?case
  proof (cases "w = 0")
    case False
    note IH = 1 [OF False]
    have d: "unat (drop_bit DIG_SIZE w) = unat w div 65536"
      by (simp only: unat_drop_bit_div DIG_SIZE_def) simp
    have v: "mpn_val (mpz_uint_digs w) = unat w"
      by (subst mpz_uint_digs.simps) (simp add: False IH d unat_uint_dig)
    moreover have "mpn_norm (mpz_uint_digs w)"
    proof (cases "mpz_uint_digs (drop_bit DIG_SIZE w) = []")
      case True
      with v False show ?thesis
        by (subst (asm) mpz_uint_digs.simps, subst mpz_uint_digs.simps) (auto simp: mpn_norm_Cons unat_gt_0 [symmetric])
    next
      case False2: False
      then show ?thesis using IH by (subst mpz_uint_digs.simps) (simp add: False mpn_norm_Cons)
    qed
    ultimately show ?thesis by blast
  qed (simp add: mpz_uint_digs.simps)
qed

lemma mpn_norm_length_le: "mpn_norm ds \<Longrightarrow> mpn_val ds < 65536 ^ n \<Longrightarrow> length ds \<le> n"
proof (rule ccontr)
  assume "mpn_norm ds" "mpn_val ds < 65536 ^ n" "\<not> length ds \<le> n"
  then have "ds \<noteq> []" and "65536 ^ n \<le> (65536 :: nat) ^ (length ds - 1)" by (auto intro: power_increasing)
  with mpn_val_ge [OF \<open>mpn_norm ds\<close>] \<open>mpn_val ds < 65536 ^ n\<close> show False by fastforce
qed

lemma length_mpz_uint_digs: "length (mpz_uint_digs w) \<le> 4"
  using mpz_uint_digs_spec [of w] unat_lt_2p [of w] by (intro mpn_norm_length_le) simp_all

lemma uint_sint_abs: "uint (if sint w < 0 then - w else w) = \<bar>sint (w :: 64 word)\<bar>"
proof -
  have "w = 0 \<longleftrightarrow> uint w = 0" by (simp add: word_uint_eq_iff)
  then show ?thesis using uint_64_lt [of w] by (auto simp: sint_64 uint_neg_64)
qed

lemma mpn_val_uint_digs: "int (mpn_val (mpz_uint_digs w)) = uint w"
  using mpz_uint_digs_spec [of w] by simp

lemma mpz_yields_set_from_int:
  assumes "\<not> fixed_dig z"
  shows "mpz_yields (mpz_set_from_int z val) (sint val)"
proof (cases "val = 0")
  case False
  have "int (mpn_val (mpz_uint_digs (if sint val < 0 then - val else val))) = \<bar>sint val\<bar>"
    by (simp only: mpn_val_uint_digs uint_sint_abs)
  moreover have "signed_val (sint val < 0) v = sint val" if "int v = \<bar>sint val\<bar>" for v
    using that by (simp add: signed_val_def)
  ultimately show ?thesis
    using False assms mpz_uint_digs_spec le_trans [OF length_mpz_uint_digs]
    by (auto simp: mpz_set_from_int_def mpz_need_dig_Some MPZ_NUM_DIG_FOR_INT_def DIG_SIZE_def Let_def
        mpz_yields_def mpz_wf_def mpz_val_def simp del: if_split intro!: exI)
qed (use assms in \<open>simp add: mpz_set_from_int_def mpz_yields_def mpz_wf_def mpz_val_def\<close>)

lemma mpz_yields_set_from_ll:
  assumes "\<not> fixed_dig z"
  shows "mpz_yields (mpz_set_from_ll z val is_signed) (if is_signed then sint val else uint val)"
proof -
  let ?n = "is_signed \<and> sint val < 0"
  have "signed_val ?n (mpn_val (mpz_uint_digs (if ?n then - val else val)))
      = (if is_signed then sint val else uint val)"
    using mpn_val_uint_digs [of val] mpn_val_uint_digs [of "- val"] uint_sint_abs [of val]
    by (auto simp: signed_val_def)
  then show ?thesis
    using assms mpz_uint_digs_spec le_trans [OF length_mpz_uint_digs]
    by (auto simp: mpz_set_from_ll_def mpz_need_dig_Some MPZ_NUM_DIG_FOR_INT_def DIG_SIZE_def Let_def
        mpz_yields_def mpz_wf_def mpz_val_def simp del: if_split intro!: exI)
qed

section \<open>The operations compute what their comments say\<close>

lemma mpz_store:
  assumes "\<not> fixed_dig dest" and "mpn_norm ds" and "length ds \<le> max 2 need"
    and "signed_val n (mpn_val ds) = v"
  shows "mpz_yields (mpz_need_dig dest need \<bind> (\<lambda>dest. Some (dest\<lparr>dig := ds, neg := n\<rparr>))) v"
  using assms by (auto simp: mpz_need_dig_Some mpz_yields_def mpz_wf_def mpz_val_def)

lemma mpn_cmp_length:
  assumes "mpn_norm xs" and "\<not> mpn_cmp xs ys < 0" and "mpn_norm ys"
  shows "length ys \<le> length xs" and "mpn_val ys \<le> mpn_val xs"
proof -
  show v: "mpn_val ys \<le> mpn_val xs" using assms mpn_cmp_less_iff by auto
  show "length ys \<le> length xs" using v mpn_val_less_length [OF assms(3), of xs] by (metis not_le)
qed

lemma mpn_cmp_length':
  assumes "mpn_norm xs" and "mpn_cmp xs ys < 0" and "mpn_norm ys"
  shows "length xs \<le> length ys" and "mpn_val xs \<le> mpn_val ys"
proof -
  show v: "mpn_val xs \<le> mpn_val ys" using assms mpn_cmp_less_iff by auto
  show "length xs \<le> length ys" using assms mpn_cmp_less_iff mpn_val_less_length [OF assms(1), of ys]
    by (metis not_le less_asym)
qed

lemma mpz_add_same_sign:
  assumes "\<not> fixed_dig dest" and "mpz_wf a" and "length (dig b) \<le> length (dig a)"
    and "signed_val n (mpn_val (dig a) + mpn_val (dig b)) = v"
  shows "mpz_yields (mpz_need_dig dest (Suc (len a)) \<bind>
           (\<lambda>dest. Some (dest\<lparr>dig := mpn_add (dig a) (dig b), neg := n\<rparr>))) v"
  using assms length_mpn_add [OF assms(3)] norm_mpn_add [OF _ assms(3)]
  by (intro mpz_store) (simp_all add: mpz_wf_def mpn_add_val max.coboundedI2)

lemma mpz_sub_same_sign:
  assumes "\<not> fixed_dig dest" and "length (dig b) \<le> length (dig a)" and "mpn_val (dig b) \<le> mpn_val (dig a)"
    and "signed_val n (mpn_val (dig a) - mpn_val (dig b)) = v"
  shows "mpz_yields (mpz_need_dig dest (len a) \<bind>
           (\<lambda>dest. Some (dest\<lparr>dig := mpn_sub (dig a) (dig b), neg := n\<rparr>))) v"
  using assms length_mpn_sub [OF assms(2)] norm_mpn_sub
  by (intro mpz_store) (simp_all add: mpn_sub_val max.coboundedI2)

lemma mpz_yields_add:
  assumes "\<not> fixed_dig dest" and "mpz_wf lhs" and "mpz_wf rhs"
  shows "mpz_yields (mpz_add_inpl dest lhs rhs) (mpz_val lhs + mpz_val rhs)"
proof (cases "mpn_cmp (dig lhs) (dig rhs) < 0")
  case True
  note l = mpn_cmp_length' [OF mpz_wf_norm [OF assms(2)] True mpz_wf_norm [OF assms(3)]]
  with True assms show ?thesis
    by (cases "neg lhs"; cases "neg rhs")
      (simp_all add: mpz_add_inpl_def mpz_val_def mpz_add_same_sign mpz_sub_same_sign)
next
  case False
  note l = mpn_cmp_length [OF mpz_wf_norm [OF assms(2)] False mpz_wf_norm [OF assms(3)]]
  with False assms show ?thesis
    by (cases "neg lhs"; cases "neg rhs")
      (simp_all add: mpz_add_inpl_def mpz_val_def mpz_add_same_sign mpz_sub_same_sign)
qed

lemma mpz_yields_sub:
  assumes "\<not> fixed_dig dest" and "mpz_wf lhs" and "mpz_wf rhs"
  shows "mpz_yields (mpz_sub_inpl dest lhs rhs) (mpz_val lhs - mpz_val rhs)"
proof (cases "mpn_cmp (dig lhs) (dig rhs) < 0")
  case True
  note l = mpn_cmp_length' [OF mpz_wf_norm [OF assms(2)] True mpz_wf_norm [OF assms(3)]]
  with True assms show ?thesis
    by (cases "neg lhs"; cases "neg rhs")
      (simp_all add: mpz_sub_inpl_def mpz_val_def mpz_add_same_sign mpz_sub_same_sign)
next
  case False
  note l = mpn_cmp_length [OF mpz_wf_norm [OF assms(2)] False mpz_wf_norm [OF assms(3)]]
  with False assms show ?thesis
    by (cases "neg lhs"; cases "neg rhs")
      (simp_all add: mpz_sub_inpl_def mpz_val_def mpz_add_same_sign mpz_sub_same_sign)
qed

lemma mpz_yields_mul:
  assumes "\<not> fixed_dig dest" and "mpz_wf lhs" and "mpz_wf rhs"
  shows "mpz_yields (mpz_mul_inpl dest lhs rhs) (mpz_val lhs * mpz_val rhs)"
proof (cases "len lhs = 0 \<or> len rhs = 0")
  case True
  then have z: "mpz_val lhs * mpz_val rhs = 0" using assms mpz_val_0_iff by auto
  from True mpz_yields_set_from_int [OF assms(1), of 0] show ?thesis
    unfolding z by (simp add: mpz_mul_inpl_def)
next
  case False
  let ?a = "max (alloc dest) (max 2 (len lhs + len rhs))"
  let ?d = "mpn_mul (replicate ?a 0) (dig lhs) (dig rhs)"
  have n: "mpn_norm (dig lhs)" "mpn_norm (dig rhs)" "dig lhs \<noteq> []" "dig rhs \<noteq> []"
    using assms False by (auto simp: mpz_wf_def)
  have v: "mpn_val ?d = mpn_val (dig lhs) * mpn_val (dig rhs)"
    by (rule mpn_mul_val) (use n in auto)
  have "mpn_norm ?d" "length ?d \<le> ?a"
  proof -
    have a: "len lhs + len rhs \<le> ?a" by simp
    show "mpn_norm ?d" by (rule norm_mpn_mul [OF a n(3,4,1,2)])
    show "length ?d \<le> ?a" by (rule le_trans [OF length_mpn_mul [OF a n(3,4)] a])
  qed
  moreover have "signed_val (neg lhs \<noteq> neg rhs) (mpn_val ?d) = mpz_val lhs * mpz_val rhs"
    by (simp add: v mpz_val_def signed_val_def)
  ultimately show ?thesis
    using False assms(1) unfolding mpz_yields_def mpz_mul_inpl_def
    by (simp add: mpz_need_dig_Some mpz_wf_def mpz_val_def)
qed

lemma mpz_cmp_sgn:
  assumes "mpz_wf z1" and "mpz_wf z2"
  shows "mpz_cmp z1 z2 = sgn (mpz_val z1 - mpz_val z2)"
proof (cases "len z1 = 0 \<and> len z2 = 0")
  case False
  then have nz: "0 < mpn_val (dig z1) \<or> 0 < mpn_val (dig z2)"
    using assms mpn_norm_val_0 by (auto simp: mpz_wf_def)
  have c: "mpn_cmp (dig z1) (dig z2) = sgn (int (mpn_val (dig z1)) - int (mpn_val (dig z2)))"
    using assms by (intro mpn_cmp_correct) (simp_all add: mpz_wf_def)
  show ?thesis using False nz unfolding mpz_cmp_def c
    by (cases "neg z1"; cases "neg z2") (auto simp: mpz_val_def sgn_if)
qed (simp add: mpz_cmp_def mpz_val_def)

lemma mpz_yields_abs:
  assumes "mpz_wf z" and "\<not> fixed_dig (if same then z else dest)"
  shows "mpz_yields (mpz_abs_inpl same dest z) \<bar>mpz_val z\<bar>"
  using assms
  by (auto simp: mpz_abs_inpl_def mpz_yields_def mpz_set_def mpz_need_dig_Some mpz_wf_def abs_mpz_val
      mpz_val_def [of "z\<lparr>neg := False\<rparr>"] mpz_val_def [of "d\<lparr>alloc := a, neg := n, dig := ds\<rparr>" for d a n ds]
      mpz_val_def [of "d\<lparr>alloc := a, dig := ds, neg := n\<rparr>" for d a n ds])

lemma mpz_yields_neg:
  assumes "mpz_wf z" and "\<not> fixed_dig (if same then z else dest)"
  shows "mpz_yields (mpz_neg_inpl same dest z) (- mpz_val z)"
  using assms
  by (cases same; cases "neg z")
    (simp_all add: mpz_neg_inpl_def mpz_yields_def mpz_set_def mpz_need_dig_Some mpz_wf_def mpz_val_def)

lemma mpn_val_one [simp]: "mpn_val [1] = 1"
  by simp

lemma mpz_yields_not:
  assumes "mpz_wf z" and "\<not> fixed_dig (if same then z else dest)"
  shows "mpz_yields (mpz_not_inpl same dest z) (- mpz_val z - 1)"
proof -
  obtain d where d: "(if same then Some z else mpz_set dest z) = Some d" "dig d = dig z" "neg d = neg z"
    "\<not> fixed_dig d" "mpz_wf d"
    using assms by (cases same) (auto simp: mpz_set_def mpz_need_dig_Some mpz_wf_def)
  show ?thesis
  proof (cases "dig z = []")
    case True
    with d show ?thesis
      by (simp add: mpz_not_inpl_def mpz_need_dig_Some mpz_yields_def mpz_wf_def mpz_val_def mpn_norm_def)
  next
    case ne: False
    then have len1: "length [1 :: mpz_dig_t] \<le> len z" by (cases "dig z") simp_all
    have "mpn_val (dig z) \<noteq> 0" using ne assms(1) mpn_norm_val_0 by (auto simp: mpz_wf_def)
    then have one: "mpn_val [1] \<le> mpn_val (dig z)" by simp
    show ?thesis
    proof (cases "neg z")
      case True
      have "length (mpn_sub (dig z) [1]) \<le> alloc d"
        using length_mpn_sub [OF len1] d by (simp add: mpz_wf_def)
      with True ne d one mpn_sub_val [OF len1 one] norm_mpn_sub [of "dig z" "[1]"] show ?thesis
        by (simp add: mpz_not_inpl_def mpz_yields_def mpz_wf_def mpz_val_def of_nat_diff)
    next
      case False
      have "mpz_yields (mpz_need_dig d (len z + 1) \<bind> (\<lambda>d. Some (d\<lparr>dig := mpn_add (dig z) [1], neg := True\<rparr>)))
          (- mpz_val z - 1)"
        using d False assms(1) length_mpn_add [OF len1] norm_mpn_add [OF _ len1] mpn_add_val [OF len1]
        by (intro mpz_store) (simp_all add: mpz_val_def mpz_wf_def max.coboundedI2)
      with d False ne show ?thesis by (simp add: mpz_not_inpl_def mpz_need_dig_Some)
    qed
  qed
qed

lemma mpz_yields_shl:
  assumes "\<not> fixed_dig dest" and "mpz_wf lhs"
  shows "mpz_yields (mpz_shl_inpl dest lhs n) (mpz_val lhs * 2 ^ n)"
proof (cases "len lhs = 0 \<or> n = 0")
  case True
  have "mpz_val lhs = 0" if "dig lhs = []" using that by (simp add: mpz_val_def)
  then have e: "mpz_val lhs * 2 ^ n = mpz_val lhs" using True by auto
  from True mpz_yields_set [OF assms] show ?thesis unfolding e by (simp add: mpz_shl_inpl_def)
next
  case False
  then have "0 < n" by simp
  then have "mpz_yields (mpz_need_dig dest (len lhs + (n + DIG_SIZE - 1) div DIG_SIZE) \<bind>
      (\<lambda>dest. Some (dest\<lparr>dig := mpn_shl (dig lhs) n, neg := neg lhs\<rparr>))) (mpz_val lhs * 2 ^ n)"
    using assms length_mpn_shl [of n "dig lhs"]
    by (intro mpz_store) (simp_all add: norm_mpn_shl mpn_shl_val mpz_val_def signed_val_def max.coboundedI2)
  with False show ?thesis by (simp add: mpz_shl_inpl_def)
qed

text \<open>The bits dropped by a right shift are the remainder by the power of two.\<close>

lemma mpn_val_set_0: "(\<forall>d \<in> set ds. d = 0) \<longleftrightarrow> mpn_val ds = 0"
  by (induction ds) (auto simp: unat_eq_0)

lemma mpz_shr_round_up_iff: "mpz_shr_round_up ds n \<longleftrightarrow> mpn_val ds mod 2 ^ n \<noteq> 0"
proof -
  define w p where "w = n div DIG_SIZE" and "p = n mod DIG_SIZE"
  have n: "n = 16 * w + p" and p: "p < 16" by (simp_all add: w_def p_def DIG_SIZE_def)
  have pow: "(2 :: nat) ^ n = 65536 ^ w * 2 ^ p" by (simp add: n power_add power_mult)
  have split: "mpn_val ds = mpn_val (take w ds) + 65536 ^ w * mpn_val (drop w ds)"
  proof (cases "w \<le> length ds")
    case True
    then show ?thesis using mpn_val_append [of "take w ds" "drop w ds"] by simp
  qed simp
  have lt: "mpn_val (take w ds) < 65536 ^ w"
    using mpn_val_lt [of "take w ds"] by (rule less_le_trans) (simp add: power_increasing)
  have "mpn_val ds mod 2 ^ n = mpn_val (take w ds) + 65536 ^ w * (mpn_val (drop w ds) mod 2 ^ p)"
    unfolding split pow mod_mult2_eq using lt by simp
  moreover have "mpn_val (drop w ds) mod 2 ^ p \<noteq> 0 \<longleftrightarrow> w < length ds \<and> ds ! w AND mask p \<noteq> 0"
  proof (cases "w < length ds")
    case True
    have "mpn_val (drop w ds) = unat (ds ! w) + 65536 * mpn_val (drop (Suc w) ds)"
      using True by (simp add: Cons_nth_drop_Suc [symmetric])
    moreover have "(65536 :: nat) = 2 ^ p * 2 ^ (16 - p)" using p by (simp flip: power_add)
    ultimately have "mpn_val (drop w ds) mod 2 ^ p = unat (ds ! w) mod 2 ^ p"
      by (metis mod_mult_self2 mult.assoc)
    also have "\<dots> = unat (ds ! w AND mask p)" by (simp only: unat_and_mask)
    finally show ?thesis using True by (simp add: unat_eq_0)
  qed simp
  ultimately show ?thesis
    unfolding mpz_shr_round_up_def Let_def w_def [symmetric] p_def [symmetric]
    using mpn_val_set_0 [of "take w ds"] by auto
qed

lemma neg_div_pow2: "(- int v) div 2 ^ n = (if v mod 2 ^ n = 0 then - int (v div 2 ^ n) else - int (v div 2 ^ n + 1))"
  by (simp add: zdiv_zminus1_eq_if of_nat_div flip: of_nat_mod [of v "2 ^ n", simplified])

lemma mpz_yields_shr:
  assumes "\<not> fixed_dig dest" and "mpz_wf lhs"
  shows "mpz_yields (mpz_shr_inpl dest lhs n) (mpz_val lhs div 2 ^ n)"
proof (cases "len lhs = 0 \<or> n = 0")
  case True
  have "mpz_val lhs = 0" if "dig lhs = []" using that by (simp add: mpz_val_def)
  then have e: "mpz_val lhs div 2 ^ n = mpz_val lhs" using True by auto
  from True mpz_yields_set [OF assms] show ?thesis unfolding e by (simp add: mpz_shr_inpl_def)
next
  case False
  let ?r = "mpn_shr (dig lhs) n"
  have r: "mpn_norm ?r" "length ?r \<le> len lhs" "mpn_val ?r = mpn_val (dig lhs) div 2 ^ n"
    using assms by (auto simp: mpz_wf_def norm_mpn_shr length_mpn_shr mpn_shr_val)
  show ?thesis
  proof (cases "neg lhs \<and> mpz_shr_round_up (dig lhs) n")
    case up: True
    then have v: "mpz_val lhs div 2 ^ n = - int (mpn_val ?r + 1)"
      by (simp only: mpz_val_def signed_val_simps mpz_shr_round_up_iff neg_div_pow2 r(3) if_False)
    show ?thesis
    proof (cases "?r = []")
      case True
      with False up v assms show ?thesis
        by (simp add: mpz_shr_inpl_def Let_def mpz_need_dig_Some mpz_yields_def mpz_wf_def mpz_val_def mpn_norm_def)
    next
      case ne: False
      then have len1: "length [1 :: mpz_dig_t] \<le> length ?r" by (cases ?r) simp_all
      have "mpn_val (dig lhs) div 2 ^ n \<le> mpn_val (dig lhs) div 2"
        using False power_increasing [of 1 n "2 :: nat"] by (intro div_le_mono2) auto
      moreover have "mpn_val (dig lhs) \<noteq> 0" using up by (intro notI) (simp add: mpz_shr_round_up_iff)
      ultimately have "mpn_val ?r + 1 < 65536 ^ len lhs" using mpn_val_lt [of "dig lhs"] r(3) by linarith
      then have "length (mpn_add ?r [1]) \<le> len lhs"
        using mpn_add_val [OF len1] norm_mpn_add [OF r(1) len1] by (intro mpn_norm_length_le) simp_all
      with False up v assms ne mpn_add_val [OF len1] norm_mpn_add [OF r(1) len1] show ?thesis
        by (simp add: mpz_shr_inpl_def Let_def mpz_need_dig_Some mpz_yields_def mpz_wf_def mpz_val_def)
    qed
  next
    case no: False
    have "signed_val (neg lhs) (mpn_val ?r) = mpz_val lhs div 2 ^ n"
      using no neg_div_pow2 [of "mpn_val (dig lhs)" n]
      by (auto simp: mpz_val_def signed_val_def r(3) mpz_shr_round_up_iff of_nat_div)
    with False no r assms show ?thesis
      by (cases "neg lhs") (simp_all add: mpz_shr_inpl_def Let_def mpz_need_dig_Some mpz_yields_def
          mpz_wf_def mpz_val_def max.coboundedI2)
  qed
qed

end
