(* ===== verification/MpzArith.thy ===== *)
theory MpzArith
  imports Mpz
begin

text \<open>
  The bitwise operations on two's complement, division and the powers of \<open>py/mpz.c\<close>, with the
  loop of the powers proved once in a locale and used for both.
\<close>

section \<open>Bitwise operations\<close>

text \<open>\<open>make sure lhs has the most digits\<close>\<close>

definition most_digits :: "mpz \<Rightarrow> mpz \<Rightarrow> mpz \<times> mpz" where
  "most_digits lhs rhs = (if len lhs < len rhs then (rhs, lhs) else (lhs, rhs))"

text \<open>Each operation is split where the source has swapped its operands.\<close>

definition mpz_and_ordered :: "mpz \<Rightarrow> mpz \<Rightarrow> mpz \<Rightarrow> mpz option" where
  "mpz_and_ordered dest lhs rhs =
     (if \<not> neg lhs \<and> \<not> neg rhs then do {
           dest \<leftarrow> mpz_need_dig dest (len lhs);
           Some (dest\<lparr>dig := mpn_and (dig lhs) (dig rhs), neg := False\<rparr>) }
         else do {
           dest \<leftarrow> mpz_need_dig dest (len lhs + 1);
           Some (dest\<lparr>dig := mpn_and_neg (dig lhs) (dig rhs)
                        (of_bool (neg lhs = neg rhs)) (of_bool (neg lhs)) (of_bool (neg rhs)),
                      neg := neg lhs \<and> neg rhs\<rparr>) })"

definition mpz_and_inpl :: "mpz \<Rightarrow> mpz \<Rightarrow> mpz \<Rightarrow> mpz option" where
  "mpz_and_inpl dest lhs rhs = (case most_digits lhs rhs of (lhs, rhs) \<Rightarrow> mpz_and_ordered dest lhs rhs)"

definition mpz_or_ordered :: "mpz \<Rightarrow> mpz \<Rightarrow> mpz \<Rightarrow> mpz option" where
  "mpz_or_ordered dest lhs rhs =
     (if \<not> neg lhs \<and> \<not> neg rhs then do {
           dest \<leftarrow> mpz_need_dig dest (len lhs);
           Some (dest\<lparr>dig := mpn_or (dig lhs) (dig rhs), neg := False\<rparr>) }
         else do {
           dest \<leftarrow> mpz_need_dig dest (len lhs + 1);
           ds \<leftarrow> mpn_or_neg (dig lhs) (dig rhs) (of_bool (neg lhs)) (of_bool (neg rhs));
           Some (dest\<lparr>dig := ds, neg := True\<rparr>) })"

definition mpz_or_inpl :: "mpz \<Rightarrow> mpz \<Rightarrow> mpz \<Rightarrow> mpz option" where
  "mpz_or_inpl dest lhs rhs = (case most_digits lhs rhs of (lhs, rhs) \<Rightarrow> mpz_or_ordered dest lhs rhs)"

definition mpz_xor_ordered :: "mpz \<Rightarrow> mpz \<Rightarrow> mpz \<Rightarrow> mpz option" where
  "mpz_xor_ordered dest lhs rhs =
     (if neg lhs = neg rhs then do {
           dest \<leftarrow> mpz_need_dig dest (len lhs);
           Some (dest\<lparr>dig := (if \<not> neg lhs then mpn_xor (dig lhs) (dig rhs)
                              else mpn_xor_neg (dig lhs) (dig rhs) 0 0 0),
                      neg := False\<rparr>) }
         else do {
           dest \<leftarrow> mpz_need_dig dest (len lhs + 1);
           Some (dest\<lparr>dig := mpn_xor_neg (dig lhs) (dig rhs) 1
                        (of_bool (\<not> neg lhs)) (of_bool (\<not> neg rhs)),
                      neg := True\<rparr>) })"

definition mpz_xor_inpl :: "mpz \<Rightarrow> mpz \<Rightarrow> mpz \<Rightarrow> mpz option" where
  "mpz_xor_inpl dest lhs rhs = (case most_digits lhs rhs of (lhs, rhs) \<Rightarrow> mpz_xor_ordered dest lhs rhs)"

text \<open>
  What the bitwise operations need beyond \<open>mpz_wf\<close>: zero is not negative. \<open>mpz_neg_inpl\<close>, the
  sums and the remainder do not keep this.
\<close>

definition mpz_no_neg_zero :: "mpz \<Rightarrow> bool" where
  "mpz_no_neg_zero z \<longleftrightarrow> (neg z \<longrightarrow> dig z \<noteq> [])"

lemma no_neg_zero_pos: "mpz_wf z \<Longrightarrow> mpz_no_neg_zero z \<Longrightarrow> neg z \<Longrightarrow> 0 < mpn_val (dig z)"
  using mpn_norm_val_0 [of "dig z"] by (auto simp: mpz_wf_def mpz_no_neg_zero_def)

lemma most_digits_cases:
  assumes "mpz_wf lhs" "mpz_wf rhs" and "mpz_no_neg_zero lhs" "mpz_no_neg_zero rhs"
    and "len lhs < 2 ^ 64" "len rhs < 2 ^ 64"
  obtains a b where "most_digits lhs rhs = (a, b)" and "(a, b) = (lhs, rhs) \<or> (a, b) = (rhs, lhs)"
    and "len b \<le> len a" and "mpz_wf a" and "len a < 2 ^ 64"
    and "neg a \<Longrightarrow> 0 < mpn_val (dig a)" and "neg b \<Longrightarrow> 0 < mpn_val (dig b)" and "mpz_wf b"
  using assms no_neg_zero_pos unfolding most_digits_def by (cases "len lhs < len rhs") auto

lemma length_bound_max: "n \<le> Suc m \<Longrightarrow> n \<le> max 2 (m + 1)"
  by simp

lemma mpz_yields_and:
  assumes "\<not> fixed_dig dest" and "mpz_wf lhs" "mpz_wf rhs" and "mpz_no_neg_zero lhs" "mpz_no_neg_zero rhs"
    and "len lhs < 2 ^ 64" "len rhs < 2 ^ 64"
  shows "mpz_yields (mpz_and_inpl dest lhs rhs) (mpz_val lhs AND mpz_val rhs)"
proof -
  obtain a b where md: "most_digits lhs rhs = (a, b)" and ab: "(a, b) = (lhs, rhs) \<or> (a, b) = (rhs, lhs)"
    and l: "len b \<le> len a" and la: "len a < 2 ^ 64"
    and pos: "neg a \<Longrightarrow> 0 < mpn_val (dig a)" "neg b \<Longrightarrow> 0 < mpn_val (dig b)"
    using most_digits_cases [OF assms(2-)] by metis
  have v: "mpz_val lhs AND mpz_val rhs = mpz_val a AND mpz_val b" using ab by (auto simp: and.commute)
  have "mpz_yields (mpz_and_ordered dest a b) (mpz_val a AND mpz_val b)"
  proof (cases "neg a \<or> neg b")
    case False
    have "mpz_yields (mpz_need_dig dest (len a) \<bind>
        (\<lambda>dest. Some (dest\<lparr>dig := mpn_and (dig a) (dig b), neg := False\<rparr>))) (mpz_val a AND mpz_val b)"
      by (rule mpz_store)
        (use False assms(1) l mpn_and_val [OF l] length_mpn_and [of "dig a" "dig b"] in
          \<open>simp_all add: mpz_val_def\<close>)
    with False show ?thesis by (simp add: mpz_and_ordered_def)
  next
    case True
    then have n: "(neg a = neg b) = (neg a \<and> neg b)" and c: "(\<not> neg a \<and> \<not> neg b) = False" by auto
    show ?thesis
      unfolding mpz_and_ordered_def n c if_False
    proof (rule mpz_store [OF assms(1) norm_mpn_bits(3) length_bound_max [OF length_mpn_and_neg]])
      show "signed_val (neg a \<and> neg b) (mpn_val (mpn_and_neg (dig a) (dig b)
          (of_bool (neg a \<and> neg b)) (of_bool (neg a)) (of_bool (neg b)))) = mpz_val a AND mpz_val b"
        unfolding mpz_val_def by (rule mpn_and_neg_val [OF l la True pos])
    qed
  qed
  then show ?thesis by (simp add: mpz_and_inpl_def md v)
qed

lemma mpz_yields_or:
  assumes "\<not> fixed_dig dest" and "mpz_wf lhs" "mpz_wf rhs" and "mpz_no_neg_zero lhs" "mpz_no_neg_zero rhs"
    and "len lhs < 2 ^ 64" "len rhs < 2 ^ 64"
  shows "mpz_yields (mpz_or_inpl dest lhs rhs) (mpz_val lhs OR mpz_val rhs)"
proof -
  obtain a b where md: "most_digits lhs rhs = (a, b)" and ab: "(a, b) = (lhs, rhs) \<or> (a, b) = (rhs, lhs)"
    and l: "len b \<le> len a" and la: "len a < 2 ^ 64" and wf: "mpz_wf a" "mpz_wf b"
    and pos: "neg a \<Longrightarrow> 0 < mpn_val (dig a)" "neg b \<Longrightarrow> 0 < mpn_val (dig b)"
    using most_digits_cases [OF assms(2-)] by metis
  have v: "mpz_val lhs OR mpz_val rhs = mpz_val a OR mpz_val b" using ab by (auto simp: or.commute)
  have "mpz_yields (mpz_or_ordered dest a b) (mpz_val a OR mpz_val b)"
  proof (cases "neg a \<or> neg b")
    case False
    have "mpz_yields (mpz_need_dig dest (len a) \<bind>
        (\<lambda>dest. Some (dest\<lparr>dig := mpn_or (dig a) (dig b), neg := False\<rparr>))) (mpz_val a OR mpz_val b)"
      by (rule mpz_store)
        (use False assms(1) l wf mpn_or_val [OF l] length_mpn_or [OF l] in
          \<open>simp_all add: mpz_val_def mpz_wf_def norm_mpn_or\<close>)
    with False show ?thesis by (simp add: mpz_or_ordered_def)
  next
    case True
    obtain ds where ds: "mpn_or_neg (dig a) (dig b) (of_bool (neg a)) (of_bool (neg b)) = Some ds"
      and d: "mpn_norm ds" "length ds \<le> len a"
        "signed_val True (mpn_val ds) = signed_val (neg a) (mpn_val (dig a)) OR signed_val (neg b) (mpn_val (dig b))"
      by (rule mpn_or_neg_val [OF l la True pos])
    have "mpz_yields (mpz_need_dig dest (len a + 1) \<bind> (\<lambda>dest. Some (dest\<lparr>dig := ds, neg := True\<rparr>)))
        (mpz_val a OR mpz_val b)"
      unfolding mpz_val_def by (rule mpz_store [OF assms(1) d(1) length_bound_max [OF le_SucI [OF d(2)]] d(3)])
    with True ds show ?thesis by (auto simp: mpz_or_ordered_def)
  qed
  then show ?thesis by (simp add: mpz_or_inpl_def md v)
qed

lemma mpz_yields_xor:
  assumes "\<not> fixed_dig dest" and "mpz_wf lhs" "mpz_wf rhs" and "mpz_no_neg_zero lhs" "mpz_no_neg_zero rhs"
    and "len lhs < 2 ^ 64" "len rhs < 2 ^ 64"
  shows "mpz_yields (mpz_xor_inpl dest lhs rhs) (mpz_val lhs XOR mpz_val rhs)"
proof -
  obtain a b where md: "most_digits lhs rhs = (a, b)" and ab: "(a, b) = (lhs, rhs) \<or> (a, b) = (rhs, lhs)"
    and l: "len b \<le> len a" and la: "len a < 2 ^ 64"
    and pos: "neg a \<Longrightarrow> 0 < mpn_val (dig a)" "neg b \<Longrightarrow> 0 < mpn_val (dig b)"
    using most_digits_cases [OF assms(2-)] by metis
  have v: "mpz_val lhs XOR mpz_val rhs = mpz_val a XOR mpz_val b" using ab by (auto simp: xor.commute)
  note neg = mpn_xor_neg_val [OF l la, of "neg a" "neg b", OF _ pos]
  have "mpz_yields (mpz_xor_ordered dest a b) (mpz_val a XOR mpz_val b)"
  proof (cases "neg a = neg b")
    case same: True
    show ?thesis
    proof (cases "neg a")
      case True
      then have nn: "neg a" "neg b" using same by simp_all
      let ?d = "mpn_xor_neg (dig a) (dig b) 0 0 0"
      have d: "int (mpn_val ?d) = mpz_val a XOR mpz_val b"
        using neg nn by (simp add: mpz_val_def)
      also have "\<dots> = (int (mpn_val (dig a)) - 1) XOR (int (mpn_val (dig b)) - 1)"
      proof -
        have "x - 1 = NOT (- x)" for x :: int by (simp add: not_int_def)
        then show ?thesis using nn by (simp only: mpz_val_def signed_val_simps) simp
      qed
      also have "\<dots> < 2 ^ (16 * len a)"
      proof (rule XOR_upper)
        show "int (mpn_val (dig a)) - 1 < 2 ^ (16 * len a)" "int (mpn_val (dig b)) - 1 < 2 ^ (16 * len a)"
          using int_val_bound [OF order_refl, of "dig a"] int_val_bound [OF l] unfolding pow_65536 by linarith+
      qed (use pos nn in simp)
      finally have "int (mpn_val ?d) < 65536 ^ len a" unfolding pow_65536 .
      then have "mpn_val ?d < 65536 ^ len a" by (metis of_nat_less_iff of_nat_numeral of_nat_power)
      then have "length ?d \<le> len a" by (intro mpn_norm_length_le) auto
      then have "mpz_yields (mpz_need_dig dest (len a) \<bind> (\<lambda>dest. Some (dest\<lparr>dig := ?d, neg := False\<rparr>)))
          (mpz_val a XOR mpz_val b)"
        by (intro mpz_store) (use assms(1) d in \<open>auto simp: max.coboundedI2\<close>)
      with nn show ?thesis by (simp add: mpz_xor_ordered_def)
    next
      case False
      have "mpz_yields (mpz_need_dig dest (len a) \<bind>
          (\<lambda>dest. Some (dest\<lparr>dig := mpn_xor (dig a) (dig b), neg := False\<rparr>))) (mpz_val a XOR mpz_val b)"
        by (rule mpz_store)
          (use False same assms(1) l mpn_xor_val [OF l] length_mpn_xor [OF l] in
            \<open>simp_all add: mpz_val_def max.coboundedI2\<close>)
      with False same show ?thesis by (simp add: mpz_xor_ordered_def)
    qed
  next
    case False
    have "mpz_yields (mpz_need_dig dest (len a + 1) \<bind> (\<lambda>dest. Some (dest\<lparr>dig := mpn_xor_neg (dig a) (dig b)
        (of_bool (neg a \<noteq> neg b)) (of_bool (\<not> neg a)) (of_bool (\<not> neg b)), neg := neg a \<noteq> neg b\<rparr>)))
        (mpz_val a XOR mpz_val b)"
      unfolding mpz_val_def
      by (rule mpz_store [OF assms(1) norm_mpn_bits(4) length_bound_max [OF length_mpn_xor_neg] neg]) (use False in auto)
    with False show ?thesis by (simp add: mpz_xor_ordered_def)
  qed
  then show ?thesis by (simp add: mpz_xor_inpl_def md v)
qed

section \<open>Division\<close>

text \<open>
  \<open>mpz_divmod_inpl\<close> clears the digits of \<open>dest_quo\<close> but not its sign: the sign is written only
  when those of the operands differ.
\<close>

definition mpz_divmod_inpl :: "mpz \<Rightarrow> mpz \<Rightarrow> mpz \<Rightarrow> mpz \<Rightarrow> (mpz \<times> mpz) option" where
  "mpz_divmod_inpl dest_quo dest_rem lhs rhs =
     (if mpz_is_zero rhs then None
      else do {
        dest_quo \<leftarrow> mpz_need_dig dest_quo (len lhs + 1);
        dest_rem \<leftarrow> mpz_need_dig dest_rem (len lhs + 1);
        dest_rem \<leftarrow> mpz_set dest_rem lhs;
        (rem, quo) \<leftarrow> mpn_div (dig dest_rem) (dig rhs);
        let dest_rem = dest_rem\<lparr>dig := rem\<rparr>;
        let dest_quo = dest_quo\<lparr>dig := quo\<rparr>;
        if neg lhs \<noteq> neg rhs then
          (let dest_quo = dest_quo\<lparr>neg := True\<rparr>
           in if \<not> mpz_is_zero dest_rem then do {
                mpzone \<leftarrow> mpz_init_from_int (- 1);
                dest_quo \<leftarrow> mpz_add_inpl dest_quo dest_quo mpzone;
                dest_rem \<leftarrow> mpz_add_inpl dest_rem dest_rem rhs;
                Some (dest_quo, dest_rem) }
              else Some (dest_quo, dest_rem))
        else Some (dest_quo, dest_rem) })"

definition mpz_ok :: "mpz \<Rightarrow> bool" where
  "mpz_ok z \<longleftrightarrow> mpz_wf z \<and> \<not> fixed_dig z"

lemma mpz_yields_ok: "mpz_yields r v \<longleftrightarrow> (\<exists>z. r = Some z \<and> mpz_ok z \<and> mpz_val z = v)"
  by (auto simp: mpz_yields_def mpz_ok_def)

text \<open>Floor division of integers given by their signs and magnitudes.\<close>

lemma signed_div_mod:
  fixes a b :: nat
  assumes "0 < b"
  shows "m = n \<Longrightarrow> signed_val m a div signed_val n b = int (a div b)"
    and "m = n \<Longrightarrow> signed_val m a mod signed_val n b = signed_val m (a mod b)"
    and "m \<noteq> n \<Longrightarrow> signed_val m a div signed_val n b = - int (a div b) - (if a mod b = 0 then 0 else 1)"
    and "m \<noteq> n \<Longrightarrow> signed_val m a mod signed_val n b
           = (if a mod b = 0 then 0 else signed_val m (a mod b) + signed_val n b)"
proof -
  have i: "int a div int b = int (a div b)" "int a mod int b = int (a mod b)"
    by (simp_all add: of_nat_div of_nat_mod)
  show "m = n \<Longrightarrow> signed_val m a div signed_val n b = int (a div b)"
    and "m = n \<Longrightarrow> signed_val m a mod signed_val n b = signed_val m (a mod b)"
    by (cases n; simp add: i)+
  show "m \<noteq> n \<Longrightarrow> signed_val m a div signed_val n b = - int (a div b) - (if a mod b = 0 then 0 else 1)"
    and "m \<noteq> n \<Longrightarrow> signed_val m a mod signed_val n b
           = (if a mod b = 0 then 0 else signed_val m (a mod b) + signed_val n b)"
    using assms by (cases n; simp add: zdiv_zminus1_eq_if zdiv_zminus2_eq_if zmod_zminus1_eq_if zmod_zminus2_eq_if i)+
qed

lemma sint_minus_one: "sint (- 1 :: 64 word) = - 1"
  by simp

theorem mpz_divmod_val:
  assumes "\<not> fixed_dig dest_quo" "\<not> fixed_dig dest_rem" and "mpz_wf lhs" "mpz_wf rhs"
    and "mpz_val rhs \<noteq> 0" and "den_safe (dig rhs)"
  obtains q r where "mpz_divmod_inpl dest_quo dest_rem lhs rhs = Some (q, r)" and "mpz_ok q" and "mpz_ok r"
    and "mpz_val r = mpz_val lhs mod mpz_val rhs"
    and "\<not> neg dest_quo \<Longrightarrow> mpz_val q = mpz_val lhs div mpz_val rhs"
proof -
  have ne: "dig rhs \<noteq> []" using mpz_val_0_iff [OF assms(4)] assms(5) by simp
  let ?a = "mpn_val (dig lhs)" and ?b = "mpn_val (dig rhs)"
  have b: "0 < ?b" using ne assms(4) mpn_norm_val_0 [of "dig rhs"] by (auto simp: mpz_wf_def)
  obtain rem quo where d: "mpn_div (dig lhs) (dig rhs) = Some (rem, quo)" "mpn_norm rem" "mpn_norm quo"
    "mpn_val rem = ?a mod ?b" "mpn_val quo = ?a div ?b" "length rem \<le> len lhs" "length quo \<le> max 1 (len lhs)"
    using mpn_div_val [OF mpz_wf_norm [OF assms(3)] mpz_wf_norm [OF assms(4)] ne assms(6)] by blast
  define q where "q = dest_quo\<lparr>alloc := max (alloc dest_quo) (max 2 (len lhs + 1)), dig := quo\<rparr>"
  define ar where "ar = max (max (alloc dest_rem) (max 2 (len lhs + 1))) (max 2 (len lhs))"
  then have ar: "len lhs \<le> ar" by simp
  define r where "r = dest_rem\<lparr>alloc := ar, neg := neg lhs, dig := rem\<rparr>"
  have r: "mpz_ok r" "mpz_val r = signed_val (neg lhs) (?a mod ?b)" "mpz_is_zero r \<longleftrightarrow> ?a mod ?b = 0"
    using d ar assms mpn_norm_val_0 [OF d(2)]
    by (auto simp: r_def mpz_ok_def mpz_wf_def mpz_val_def mpz_is_zero_def)
  have q: "mpz_ok q" "mpz_ok (q\<lparr>neg := True\<rparr>)" "mpz_val (q\<lparr>neg := True\<rparr>) = - int (?a div ?b)"
    "\<not> neg dest_quo \<Longrightarrow> mpz_val q = int (?a div ?b)"
    using d assms by (auto simp: q_def mpz_ok_def mpz_wf_def mpz_val_def)
  have code: "mpz_divmod_inpl dest_quo dest_rem lhs rhs =
     (if neg lhs = neg rhs then Some (q, r)
      else if mpz_is_zero r then Some (q\<lparr>neg := True\<rparr>, r)
      else do {
        mpzone \<leftarrow> mpz_init_from_int (- 1);
        dest_quo \<leftarrow> mpz_add_inpl (q\<lparr>neg := True\<rparr>) (q\<lparr>neg := True\<rparr>) mpzone;
        dest_rem \<leftarrow> mpz_add_inpl r r rhs;
        Some (dest_quo, dest_rem) })"
    using assms(1,2) ne d(1)
    by (auto simp: ar_def mpz_divmod_inpl_def mpz_is_zero_def mpz_need_dig_Some mpz_set_def q_def r_def Let_def)
  show ?thesis
  proof (cases "neg lhs = neg rhs")
    case True
    note sd = signed_div_mod(1,2) [OF b True, of ?a]
    from True code r q sd show ?thesis
      by (intro that [of q r]) (simp_all add: mpz_val_def [of lhs] mpz_val_def [of rhs])
  next
    case neq: False
    note sd = signed_div_mod(3,4) [OF b neq, of ?a]
    show ?thesis
    proof (cases "?a mod ?b = 0")
      case True
      with neq code r q sd show ?thesis
        by (intro that [of "q\<lparr>neg := True\<rparr>" r]) (simp_all add: mpz_val_def [of lhs] mpz_val_def [of rhs])
    next
      case False
      obtain one where one: "mpz_init_from_int (- 1) = Some one" "mpz_wf one" "mpz_val one = -1"
        using mpz_yields_set_from_int [of mpz_init_zero "-1"] mpz_wf_init_zero
        by (auto simp: mpz_init_from_int_def mpz_yields_def)
      obtain q' where q': "mpz_add_inpl (q\<lparr>neg := True\<rparr>) (q\<lparr>neg := True\<rparr>) one = Some q'" "mpz_ok q'"
        "mpz_val q' = - int (?a div ?b) - 1"
        using mpz_yields_add [of "q\<lparr>neg := True\<rparr>" "q\<lparr>neg := True\<rparr>" one] q one
        by (auto simp: mpz_yields_ok mpz_ok_def)
      obtain r' where r': "mpz_add_inpl r r rhs = Some r'" "mpz_ok r'" "mpz_val r' = mpz_val r + mpz_val rhs"
        using mpz_yields_add [of r r rhs] r assms(4) by (auto simp: mpz_yields_ok mpz_ok_def)
      from neq False code r q' r' one sd show ?thesis
        by (intro that [of q' r']) (simp_all add: mpz_val_def [of lhs] mpz_val_def [of rhs])
    qed
  qed
qed

section \<open>Powers\<close>

text \<open>
  The loop of \<open>mpz_pow_inpl\<close> and \<open>mpz_pow3_inpl\<close>; \<open>mul\<close> is what they multiply with, with the state
  it keeps from call to call (the \<open>quo\<close> of \<open>mpz_pow3_inpl\<close>). A pass over the exponent's digits ends
  because the shift makes the number smaller or, on digits that are all zero, the array shorter.
\<close>

lemma mpn_shr_1_decreases: "n \<noteq> [] \<Longrightarrow> mpn_val (mpn_shr n 1) + length (mpn_shr n 1) < mpn_val n + length n"
proof -
  assume ne: "n \<noteq> []"
  show ?thesis
  proof (cases "mpn_val n = 0")
    case False
    then have "mpn_val (mpn_shr n 1) < mpn_val n" by (simp add: mpn_shr_val)
    with length_mpn_shr [of n 1] show ?thesis by linarith
  next
    case True
    then have "mpn_val (mpn_shr_loop 1 n) = 0" by (simp add: mpn_shr_loop_val)
    then have "last (mpn_shr_loop 1 n) = 0"
      using mpn_norm_val_0 [of "mpn_shr_loop 1 n"] ne length_mpn_shr_loop [of 1 n]
      unfolding mpn_norm_def by (metis length_0_conv)
    then have "length (mpn_shr n 1) < length n"
      using ne by (simp add: mpn_shr_def DIG_SIZE_def Let_def)
    moreover have "mpn_val (mpn_shr n 1) = 0" using True by (simp add: mpn_shr_val)
    ultimately show ?thesis using True by simp
  qed
qed

function mpz_pow_loop ::
  "('s \<Rightarrow> mpz \<Rightarrow> mpz \<Rightarrow> ('s \<times> mpz) option) \<Rightarrow> 's \<Rightarrow> mpz \<Rightarrow> mpz \<Rightarrow> mpz_dig_t list \<Rightarrow> ('s \<times> mpz) option" where
  "mpz_pow_loop mul st dest x n =
     (if n = [] then Some (st, dest)
      else do {
        (st, dest) \<leftarrow> (if hd n AND 1 \<noteq> 0 then mul st dest x else Some (st, dest));
        let n' = mpn_shr n 1;
        if n' = [] then Some (st, dest)
        else do {
          (st, x) \<leftarrow> mul st x x;
          mpz_pow_loop mul st dest x n' } })"
  by auto
termination
  by (relation "measure (\<lambda>(mul, st, dest, x, n). mpn_val n + length n)") (simp_all add: mpn_shr_1_decreases [unfolded One_nat_def])

declare mpz_pow_loop.simps [simp del]

definition mpz_pow_inpl :: "mpz \<Rightarrow> mpz \<Rightarrow> mpz \<Rightarrow> mpz option" where
  "mpz_pow_inpl dest lhs rhs =
     (if len lhs = 0 \<or> neg rhs then mpz_set_from_int dest 0
      else if len rhs = 0 then mpz_set_from_int dest 1
      else do {
        x \<leftarrow> mpz_clone lhs;
        n \<leftarrow> mpz_clone rhs;
        dest \<leftarrow> mpz_set_from_int dest 1;
        (_, dest) \<leftarrow> mpz_pow_loop (\<lambda>_ d x. map_option (Pair ()) (mpz_mul_inpl d d x)) () dest x (dig n);
        Some dest })"

text \<open>A product reduced by \<open>mod\<close>, as both multiplications of \<open>mpz_pow3_inpl\<close> do it.\<close>

definition mpz_mulmod :: "mpz \<Rightarrow> mpz \<Rightarrow> mpz \<Rightarrow> mpz \<Rightarrow> (mpz \<times> mpz) option" where
  "mpz_mulmod md quo d x = do {
     d \<leftarrow> mpz_mul_inpl d d x;
     mpz_divmod_inpl quo d d md }"

text \<open>
  The flags say which of the operands is the object \<open>dest\<close> itself: such an operand is 1 from the moment at
  which \<open>dest\<close> is set to 1, in front of the second test and of the two copies.
\<close>

definition mpz_pow3_inpl :: "bool \<Rightarrow> bool \<Rightarrow> mpz \<Rightarrow> mpz \<Rightarrow> mpz \<Rightarrow> mpz \<Rightarrow> mpz option" where
  "mpz_pow3_inpl lhs_is_dest rhs_is_dest dest lhs rhs md =
     (let lhs = (if lhs_is_dest then dest else lhs); rhs = (if rhs_is_dest then dest else rhs)
      in if len lhs = 0 \<or> neg rhs \<or> (len md = 1 \<and> hd (dig md) = 1) then mpz_set_from_int dest 0
      else do {
        dest \<leftarrow> mpz_set_from_int dest 1;
        let lhs = (if lhs_is_dest then dest else lhs); rhs = (if rhs_is_dest then dest else rhs)
        in if len rhs = 0 then Some dest
        else do {
          x \<leftarrow> mpz_clone lhs;
          n \<leftarrow> mpz_clone rhs;
          (_, dest) \<leftarrow> mpz_pow_loop (mpz_mulmod md) mpz_init_zero dest x (dig n);
          Some dest } })"

text \<open>What the loop needs of the multiplication: it is exact up to a reduction of the result.\<close>

locale pow_multiplier =
  fixes mul :: "'s \<Rightarrow> mpz \<Rightarrow> mpz \<Rightarrow> ('s \<times> mpz) option"
    and st_ok :: "'s \<Rightarrow> bool"
    and red :: "int \<Rightarrow> int"
  assumes mul_red: "st_ok st \<Longrightarrow> mpz_ok d \<Longrightarrow> mpz_ok x \<Longrightarrow>
      \<exists>st' z. mul st d x = Some (st', z) \<and> st_ok st' \<and> mpz_ok z \<and> mpz_val z = red (mpz_val d * mpz_val x)"
    and red_mult_left: "red (red a * b) = red (a * b)"
begin

lemma red_power: "red (a * red b ^ k) = red (a * b ^ k)"
proof (induction k arbitrary: a)
  case (Suc k)
  have "red (a * red b ^ Suc k) = red (red b * (a * red b ^ k))" by (simp add: ac_simps)
  also have "\<dots> = red (b * (a * red b ^ k))" by (rule red_mult_left)
  also have "\<dots> = red ((b * a) * red b ^ k)" by (simp add: ac_simps)
  also have "\<dots> = red ((b * a) * b ^ k)" by (rule Suc.IH)
  finally show ?case by (simp add: ac_simps)
qed simp

lemma pow_loop:
  "n \<noteq> [] \<Longrightarrow> mpn_norm n \<Longrightarrow> st_ok st \<Longrightarrow> mpz_ok dest \<Longrightarrow> mpz_ok x \<Longrightarrow>
    \<exists>st' z. mpz_pow_loop mul st dest x n = Some (st', z) \<and> mpz_ok z \<and>
      mpz_val z = red (mpz_val dest * mpz_val x ^ mpn_val n)"
proof (induction "mpn_val n + length n" arbitrary: n st dest x rule: less_induct)
  case less
  have odd: "hd n AND 1 \<noteq> 0 \<longleftrightarrow> odd (mpn_val n)"
  proof -
    obtain d ds where n: "n = d # ds" using less.prems(1) by (cases n) auto
    have "unat (d AND 1) = (unat d AND 1)" by (simp only: unsigned_and_eq unsigned_1)
    also have "\<dots> = unat d mod 2" by (rule and_one_eq)
    finally have "d AND 1 = 0 \<longleftrightarrow> even (unat d)" by (metis unat_eq_0 even_iff_mod_2_eq_zero)
    then show ?thesis by (simp add: n)
  qed
  define n' where "n' = mpn_shr n 1"
  have v: "mpn_val n' = mpn_val n div 2" and norm: "mpn_norm n'"
    using less.prems(2) by (simp_all add: n'_def mpn_shr_val norm_mpn_shr)
  have n'0: "n' = [] \<longleftrightarrow> mpn_val n div 2 = 0" using mpn_norm_val_0 [OF norm] v by auto
  obtain st1 d1 where d1: "(if hd n AND 1 \<noteq> 0 then mul st dest x else Some (st, dest)) = Some (st1, d1)"
    "st_ok st1" "mpz_ok d1"
    "mpz_val d1 = (if odd (mpn_val n) then red (mpz_val dest * mpz_val x) else mpz_val dest)"
    using mul_red [OF less.prems(3-5)] less.prems(3,4) by (cases "odd (mpn_val n)") (auto simp: odd)
  show ?case
  proof (cases "n' = []")
    case True
    have "mpn_val n \<noteq> 0" using less.prems(1,2) mpn_norm_val_0 by blast
    then have "mpn_val n = 1" using True n'0 by auto
    with True d1 less.prems(1) show ?thesis
      by (subst mpz_pow_loop.simps) (simp add: n'_def Let_def)
  next
    case False
    obtain st2 x2 where x2: "mul st1 x x = Some (st2, x2)" "st_ok st2" "mpz_ok x2"
      "mpz_val x2 = red (mpz_val x * mpz_val x)"
      using mul_red [OF d1(2) less.prems(5,5)] by blast
    have "mpn_val n' + length n' < mpn_val n + length n"
      unfolding n'_def by (rule mpn_shr_1_decreases [OF less.prems(1)])
    from less.hyps [OF this False norm x2(2) d1(3) x2(3)]
    obtain st' z where z: "mpz_pow_loop mul st2 d1 x2 n' = Some (st', z)" "mpz_ok z"
      "mpz_val z = red (mpz_val d1 * mpz_val x2 ^ mpn_val n')" by blast
    have "mpz_pow_loop mul st dest x n = Some (st', z)"
      using False d1(1) x2(1) z(1) less.prems(1)
      by (subst mpz_pow_loop.simps) (simp add: n'_def Let_def)
    moreover have "red (mpz_val d1 * mpz_val x2 ^ mpn_val n') = red (mpz_val dest * mpz_val x ^ mpn_val n)"
    proof -
      have pow: "mpz_val x ^ mpn_val n = mpz_val x ^ (mpn_val n mod 2) * (mpz_val x * mpz_val x) ^ (mpn_val n div 2)"
        by (metis mod_mult_div_eq power2_eq_square power_add power_mult)
      show ?thesis
        unfolding x2(4) red_power v pow
        by (cases "odd (mpn_val n)") (simp_all add: d1(4) red_mult_left mult.assoc odd_iff_mod_2_eq_one)
    qed
    ultimately show ?thesis using z by auto
  qed
qed

end

text \<open>Both multiplications satisfy it: the exact product, and the product reduced by \<open>mod\<close>.\<close>

interpretation pow_mul: pow_multiplier "\<lambda>_ d x. map_option (Pair ()) (mpz_mul_inpl d d x)" "\<lambda>_. True" "\<lambda>v. v"
proof unfold_locales
  fix st :: unit and d x
  assume "mpz_ok d" "mpz_ok x"
  then have "mpz_yields (mpz_mul_inpl d d x) (mpz_val d * mpz_val x)"
    by (intro mpz_yields_mul) (simp_all add: mpz_ok_def)
  then show "\<exists>st' z. map_option (Pair ()) (mpz_mul_inpl d d x) = Some (st', z) \<and> True \<and> mpz_ok z \<and>
      mpz_val z = mpz_val d * mpz_val x"
    by (auto simp: mpz_yields_ok)
qed simp

lemma pow_mulmod:
  assumes "mpz_wf md" and "mpz_val md \<noteq> 0" and "den_safe (dig md)"
  shows "pow_multiplier (mpz_mulmod md) (\<lambda>quo. \<not> fixed_dig quo) (\<lambda>v. v mod mpz_val md)"
proof unfold_locales
  fix quo d x :: mpz
  assume "\<not> fixed_dig quo" "mpz_ok d" "mpz_ok x"
  then obtain p where p: "mpz_mul_inpl d d x = Some p" "mpz_ok p" "mpz_val p = mpz_val d * mpz_val x"
    using mpz_yields_mul [of d d x] by (auto simp: mpz_yields_ok mpz_ok_def)
  obtain q r where "mpz_divmod_inpl quo p p md = Some (q, r)" "mpz_ok q" "mpz_ok r" "mpz_val r = mpz_val p mod mpz_val md"
    using mpz_divmod_val [of quo p p md] p(2) \<open>\<not> fixed_dig quo\<close> assms unfolding mpz_ok_def by metis
  with p show "\<exists>st' z. mpz_mulmod md quo d x = Some (st', z) \<and> \<not> fixed_dig st' \<and> mpz_ok z \<and>
      mpz_val z = mpz_val d * mpz_val x mod mpz_val md"
    by (auto simp: mpz_mulmod_def mpz_ok_def)
qed (simp add: mod_mult_left_eq)

lemma mpz_clone_ok: "mpz_wf z \<Longrightarrow> dig z \<noteq> [] \<Longrightarrow> mpz_clone z = Some (z\<lparr>fixed_dig := False\<rparr>)"
  by (cases "dig z") (auto simp: mpz_clone_def mpz_wf_def)

lemma mpz_ok_clone: "mpz_wf z \<Longrightarrow> mpz_ok (z\<lparr>fixed_dig := False\<rparr>)" "mpz_val (z\<lparr>fixed_dig := b\<rparr>) = mpz_val z"
  by (simp_all add: mpz_ok_def mpz_wf_def mpz_val_def)

text \<open>
  A power, for an exponent that is not negative; \<open>0 ** 0\<close> is left out because the code answers 0
  for it.
\<close>

lemma mpz_yields_pow:
  assumes "\<not> fixed_dig dest" and "mpz_wf lhs" "mpz_wf rhs" and "\<not> neg rhs"
    and "mpz_val lhs \<noteq> 0 \<or> mpz_val rhs \<noteq> 0"
  shows "mpz_yields (mpz_pow_inpl dest lhs rhs) (mpz_val lhs ^ nat (mpz_val rhs))"
proof -
  have e: "nat (mpz_val rhs) = mpn_val (dig rhs)" using assms(4) by (simp add: mpz_val_def)
  consider (l0) "dig lhs = []" | (r0) "dig lhs \<noteq> []" "dig rhs = []" | (pow) "dig lhs \<noteq> []" "dig rhs \<noteq> []" by blast
  then show ?thesis
  proof cases
    case l0
    then have "mpz_val lhs = 0" "mpn_val (dig rhs) \<noteq> 0"
      using assms by (auto simp: mpz_val_def)
    with l0 mpz_yields_set_from_int [OF assms(1), of 0] show ?thesis
      unfolding e by (simp add: mpz_pow_inpl_def power_0_left)
  next
    case r0
    with assms(4) mpz_yields_set_from_int [OF assms(1), of 1] show ?thesis
      unfolding e by (simp add: mpz_pow_inpl_def)
  next
    case pow
    obtain d where d: "mpz_set_from_int dest 1 = Some d" "mpz_ok d" "mpz_val d = 1"
      using mpz_yields_set_from_int [OF assms(1), of 1] by (auto simp: mpz_yields_ok)
    obtain st z where "mpz_pow_loop (\<lambda>_ d x. map_option (Pair ()) (mpz_mul_inpl d d x)) () d
        (lhs\<lparr>fixed_dig := False\<rparr>) (dig rhs) = Some (st, z)" "mpz_ok z" "mpz_val z = 1 * mpz_val lhs ^ mpn_val (dig rhs)"
      using pow_mul.pow_loop [OF pow(2) mpz_wf_norm [OF assms(3)] TrueI d(2) mpz_ok_clone(1) [OF assms(2)]]
      by (auto simp: d(3) mpz_ok_clone(2))
    with pow d assms(2-4) show ?thesis
      unfolding e by (auto simp: mpz_pow_inpl_def mpz_clone_ok mpz_yields_ok)
  qed
qed

text \<open>The two copies and the loop, whatever the operands are by then.\<close>

lemma mpz_pow3_loop:
  assumes "mpz_ok d" "mpz_val d = 1" and "mpz_wf lhs" "dig lhs \<noteq> []" and "mpz_wf rhs" "dig rhs \<noteq> []"
    and "mpz_wf md" "mpz_val md \<noteq> 0" "den_safe (dig md)"
  obtains st z where "mpz_clone lhs = Some (lhs\<lparr>fixed_dig := False\<rparr>)" "mpz_clone rhs = Some (rhs\<lparr>fixed_dig := False\<rparr>)"
    and "mpz_pow_loop (mpz_mulmod md) mpz_init_zero d (lhs\<lparr>fixed_dig := False\<rparr>) (dig rhs) = Some (st, z)"
    and "mpz_ok z" "mpz_val z = mpz_val lhs ^ mpn_val (dig rhs) mod mpz_val md"
proof -
  have "\<not> fixed_dig mpz_init_zero" by (rule mpz_wf_init_zero)
  from pow_multiplier.pow_loop [OF pow_mulmod [OF assms(7-9)] assms(6) mpz_wf_norm [OF assms(5)] this assms(1)
      mpz_ok_clone(1) [OF assms(3)]]
  obtain st z where "mpz_pow_loop (mpz_mulmod md) mpz_init_zero d (lhs\<lparr>fixed_dig := False\<rparr>) (dig rhs) = Some (st, z)"
    "mpz_ok z" "mpz_val z = mpz_val lhs ^ mpn_val (dig rhs) mod mpz_val md"
    by (auto simp: assms(2) mpz_ok_clone(2))
  with mpz_clone_ok [OF assms(3,4)] mpz_clone_ok [OF assms(5,6)] show thesis by (rule that)
qed

lemma mpz_unit_dig:
  assumes "mpz_wf md"
  shows "len md = Suc 0 \<and> hd (dig md) = 1 \<longleftrightarrow> \<bar>mpz_val md\<bar> = 1"
proof -
  have abs: "\<bar>mpz_val md\<bar> = 1 \<longleftrightarrow> mpn_val (dig md) = 1" by (simp add: mpz_val_def signed_val_def)
  have one: "unat d = Suc 0 \<longleftrightarrow> d = 1" for d :: mpz_dig_t by (metis One_nat_def unsigned_1 unsigned_word_eqI)
  show ?thesis
  proof (cases "len md \<le> 1")
    case True
    then consider "dig md = []" | d where "dig md = [d]" by (cases "dig md") auto
    then show ?thesis by cases (simp_all add: abs one)
  next
    case False
    then have "(65536 :: nat) ^ 1 \<le> 65536 ^ (len md - 1)" by (intro power_increasing) simp_all
    also have "\<dots> \<le> mpn_val (dig md)" using False assms by (intro mpn_val_ge) (auto simp: mpz_wf_def)
    finally show ?thesis using False unfolding abs by simp
  qed
qed

lemma mpz_yields_pow3:
  assumes "\<not> fixed_dig dest" and "mpz_wf lhs" "mpz_wf rhs" "mpz_wf md" and "\<not> neg rhs"
    and "mpz_val md \<noteq> 0" and "den_safe (dig md)"
  shows "mpz_yields (mpz_pow3_inpl False False dest lhs rhs md)
    (if mpz_val rhs = 0 then if mpz_val lhs = 0 \<or> \<bar>mpz_val md\<bar> = 1 then 0 else 1
     else mpz_val lhs ^ nat (mpz_val rhs) mod mpz_val md)"
proof -
  have e: "nat (mpz_val rhs) = mpn_val (dig rhs)" using assms(5) by (simp add: mpz_val_def)
  have r0: "mpz_val rhs = 0 \<longleftrightarrow> dig rhs = []" and l0: "mpz_val lhs = 0 \<longleftrightarrow> dig lhs = []"
    using mpz_val_0_iff assms(2,3) by auto
  note unit = mpz_unit_dig [OF assms(4)]
  note zero = mpz_yields_set_from_int [OF assms(1), of 0]
  show ?thesis
  proof (cases "mpz_val lhs = 0 \<or> \<bar>mpz_val md\<bar> = 1")
    case True
    have "mpz_val lhs ^ mpn_val (dig rhs) mod mpz_val md = 0" if "mpz_val rhs \<noteq> 0"
    proof (cases "mpz_val lhs = 0")
      case True
      from that have "mpn_val (dig rhs) \<noteq> 0" using assms(5) by (simp add: mpz_val_def)
      with True show ?thesis by (simp add: power_0_left)
    next
      case False
      with True have "mpz_val md = 1 \<or> mpz_val md = -1" by auto
      then show ?thesis by auto
    qed
    with True zero show ?thesis unfolding e by (auto simp: mpz_pow3_inpl_def l0 unit)
  next
    case False
    obtain d where d: "mpz_set_from_int dest 1 = Some d" "mpz_ok d" "mpz_val d = 1"
      using mpz_yields_set_from_int [OF assms(1), of 1] by (auto simp: mpz_yields_ok)
    show ?thesis
    proof (cases "dig rhs = []")
      case True
      with False d assms(5) show ?thesis by (auto simp: mpz_pow3_inpl_def Let_def l0 r0 unit mpz_yields_ok)
    next
      case rhs: False
      from False l0 have "dig lhs \<noteq> []" by simp
      from mpz_pow3_loop [OF d(2,3) assms(2) this assms(3) rhs assms(4,6,7)] obtain st z
        where "mpz_clone lhs = Some (lhs\<lparr>fixed_dig := False\<rparr>)" "mpz_clone rhs = Some (rhs\<lparr>fixed_dig := False\<rparr>)"
          "mpz_pow_loop (mpz_mulmod md) mpz_init_zero d (lhs\<lparr>fixed_dig := False\<rparr>) (dig rhs) = Some (st, z)"
          "mpz_ok z" "mpz_val z = mpz_val lhs ^ mpn_val (dig rhs) mod mpz_val md" by blast
      with False rhs d(1) assms(5) show ?thesis
        unfolding e by (simp add: mpz_pow3_inpl_def Let_def l0 r0 unit mpz_yields_ok)
    qed
  qed
qed

text \<open>Where the base is \<open>dest\<close>, its value is lost and the result is the power of 1.\<close>

lemma mpz_pow3_alias:
  assumes "\<not> fixed_dig dest" and "mpz_wf dest" "mpz_wf rhs" "mpz_wf md" and "0 < mpz_val rhs"
    and "mpz_val dest \<noteq> 0" and "\<bar>mpz_val md\<bar> \<noteq> 1" and "mpz_val md \<noteq> 0" and "den_safe (dig md)"
  shows "mpz_yields (mpz_pow3_inpl True False dest dest rhs md) (1 mod mpz_val md)"
proof -
  have r: "dig rhs \<noteq> []" "\<not> neg rhs" using assms(5) by (auto simp: mpz_val_def signed_val_def split: if_splits)
  have l0: "dig dest \<noteq> []" using mpz_val_0_iff [OF assms(2)] assms(6) by auto
  obtain d where d: "mpz_set_from_int dest 1 = Some d" "mpz_ok d" "mpz_val d = 1"
    using mpz_yields_set_from_int [OF assms(1), of 1] by (auto simp: mpz_yields_ok)
  then have "mpz_wf d" "dig d \<noteq> []" by (auto simp: mpz_ok_def mpz_val_def)
  from mpz_pow3_loop [OF d(2,3) this assms(3) r(1) assms(4,8,9)] obtain st z
    where "mpz_clone d = Some (d\<lparr>fixed_dig := False\<rparr>)" "mpz_clone rhs = Some (rhs\<lparr>fixed_dig := False\<rparr>)"
      "mpz_pow_loop (mpz_mulmod md) mpz_init_zero d (d\<lparr>fixed_dig := False\<rparr>) (dig rhs) = Some (st, z)"
      "mpz_ok z" "mpz_val z = mpz_val d ^ mpn_val (dig rhs) mod mpz_val md" by blast
  with l0 r d(1,3) mpz_unit_dig [OF assms(4)] assms(7) show ?thesis
    by (auto simp: mpz_pow3_inpl_def Let_def mpz_yields_ok)
qed

end
