(* ===== verification/MpzConv.thy ===== *)
theory MpzConv
  imports MpzArith
begin

text \<open>
  Conversions between \<open>mpz_t\<close> and machine integers, byte arrays and strings (\<open>py/mpz.c\<close>).
  Strings and buffers are byte lists. A write outside the caller's buffer and a failed assertion
  are \<open>None\<close>.
\<close>

section \<open>Machine integers\<close>

text \<open>\<open>while (d-- > z->dig)\<close> runs from the top digit, which is the order of \<open>foldr\<close>.\<close>

definition mpz_hash :: "mpz \<Rightarrow> mp_int_t" where
  "mpz_hash z =
     (let val = foldr (\<lambda>d val. push_bit DIG_SIZE val OR ucast d) (dig z) 0
      in if neg z then - val else val)"

definition WORD_MSBIT_HIGH :: "64 word" where
  "WORD_MSBIT_HIGH = 0x8000000000000000"

text \<open>The loop of the checked conversions, on the digits from the top; \<open>None\<close> is \<open>return false\<close>.\<close>

fun mpz_checked_loop :: "64 word \<Rightarrow> mpz_dig_t list \<Rightarrow> 64 word \<Rightarrow> 64 word option" where
  "mpz_checked_loop limit [] val = Some val"
| "mpz_checked_loop limit (d # ds) val =
     (if limit < val then None
      else mpz_checked_loop limit ds (push_bit DIG_SIZE val OR ucast d))"

definition mpz_as_int_checked :: "mpz \<Rightarrow> mp_int_t option" where
  "mpz_as_int_checked i = do {
     val \<leftarrow> mpz_checked_loop (drop_bit DIG_SIZE (NOT WORD_MSBIT_HIGH)) (rev (dig i)) 0;
     Some (if neg i then - val else val) }"

definition mpz_as_uint_checked :: "mpz \<Rightarrow> mp_uint_t option" where
  "mpz_as_uint_checked i =
     (if neg i then None
      else mpz_checked_loop (drop_bit (DIG_SIZE - 1) (NOT WORD_MSBIT_HIGH)) (rev (dig i)) 0)"

section \<open>Byte arrays\<close>

text \<open>
  One digit is gathered from the buffer: \<open>while (len && num_bits < DIG_SIZE)\<close>. The bytes come in
  the order they are read, which \<open>delta\<close> decides.
\<close>

fun mpz_gather_dig :: "mpz_dig_t \<Rightarrow> nat \<Rightarrow> byte list \<Rightarrow> mpz_dig_t \<times> byte list" where
  "mpz_gather_dig d num_bits [] = (d, [])"
| "mpz_gather_dig d num_bits (b # buf) =
     (if num_bits < DIG_SIZE then mpz_gather_dig (d OR push_bit num_bits (ucast b)) (num_bits + 8) buf
      else (d, b # buf))"

lemma length_gather: "length (snd (mpz_gather_dig d n buf)) \<le> length buf"
  by (induction d n buf rule: mpz_gather_dig.induct) auto

function mpz_bytes_digs :: "byte list \<Rightarrow> mpz_dig_t list" where
  "mpz_bytes_digs [] = []"
| "mpz_bytes_digs (b # buf) =
     (let (d, rest) = mpz_gather_dig 0 0 (b # buf) in d # mpz_bytes_digs rest)"
  by pat_completeness auto
termination
proof (relation "measure length")
  fix b buf x d rest
  assume "x = mpz_gather_dig 0 0 (b # buf)" "(d, rest) = x"
  then have "rest = snd (mpz_gather_dig (0 OR push_bit 0 (ucast b)) (0 + 8) buf)"
    by (simp add: DIG_SIZE_def) (metis snd_conv)
  then show "(rest, b # buf) \<in> measure length"
    using length_gather [of "0 OR push_bit 0 (ucast b)" "0 + 8" buf] by simp
qed simp

definition mpz_set_from_bytes :: "mpz \<Rightarrow> bool \<Rightarrow> byte list \<Rightarrow> mpz option" where
  "mpz_set_from_bytes z big_endian buf = do {
     z \<leftarrow> mpz_need_dig z ((length buf * 8 + DIG_SIZE - 1) div DIG_SIZE);
     Some (z\<lparr>neg := False,
             dig := mpn_remove_trailing_zeros (mpz_bytes_digs (if big_endian then rev buf else buf))\<rparr>) }"

text \<open>
  The bytes \<open>mpz_as_bytes\<close> produces, lowest first: \<open>bits\<close> counts what is left in \<open>d\<close>, and a negative
  number is complemented with a carry.
\<close>

definition mpz_out_byte :: "bool \<Rightarrow> mpz_dbl_dig_t \<Rightarrow> mpz_dbl_dig_t \<Rightarrow> byte \<times> mpz_dbl_dig_t" where
  "mpz_out_byte n d carry =
     (let val = ucast d :: mpz_dig_t
      in if n then (let val = ucast (ucast (NOT val AND 0xFF) + carry) :: mpz_dig_t
                    in (ucast val, ucast (drop_bit 8 val)))
         else (ucast val, carry))"

fun mpz_out_dig :: "bool \<Rightarrow> nat \<Rightarrow> mpz_dbl_dig_t \<Rightarrow> mpz_dbl_dig_t \<Rightarrow> byte list \<times> mpz_dbl_dig_t" where
  "mpz_out_dig n 0 d carry = ([], carry)"
| "mpz_out_dig n (Suc k) d carry =
     (let (b, carry) = mpz_out_byte n d carry;
          (bs, carry) = mpz_out_dig n k (drop_bit 8 d) carry
      in (b # bs, carry))"

fun mpz_out_bytes :: "bool \<Rightarrow> mpz_dig_t list \<Rightarrow> mpz_dbl_dig_t \<Rightarrow> byte list" where
  "mpz_out_bytes n [] carry = []"
| "mpz_out_bytes n (z # zs) carry =
     (let (bs, carry) = mpz_out_dig n (DIG_SIZE div 8) (ucast z) carry
      in bs @ mpz_out_bytes n zs carry)"

text \<open>
  The bytes are stored from one end of \<open>buf\<close> until it is full. The test for a full buffer comes
  after the store, so a buffer of length zero is written out of its bounds: \<open>None\<close>.
\<close>

definition mpz_as_bytes :: "mpz \<Rightarrow> bool \<Rightarrow> byte list \<Rightarrow> byte list option" where
  "mpz_as_bytes z big_endian buf =
     (let out = mpz_out_bytes (neg z) (dig z) 1
      in if buf = [] \<and> out \<noteq> [] then None
         else let bs = take (length buf) out
              in Some (if big_endian then take (length buf - length bs) buf @ rev bs
                       else bs @ drop (length bs) buf))"

section \<open>Strings\<close>

text \<open>The value of a digit character, \<open>None\<close> where the loop breaks.\<close>

definition mpz_char_num :: "byte \<Rightarrow> mp_uint_t option" where
  "mpz_char_num c =
     (let v = ucast c :: mp_uint_t
      in if 0x30 \<le> v \<and> v \<le> 0x39 then Some (v - 0x30)
         else if 0x41 \<le> v \<and> v \<le> 0x5A then Some (v - (0x41 - 10))
         else if 0x61 \<le> v \<and> v \<le> 0x7A then Some (v - (0x61 - 10))
         else None)"

definition mpz_char_val :: "byte \<Rightarrow> mp_uint_t \<Rightarrow> mp_uint_t option" where
  "mpz_char_val c base =
     (case mpz_char_num c of None \<Rightarrow> None | Some v \<Rightarrow> if base \<le> v then None else Some v)"

fun mpz_str_digs :: "mp_uint_t \<Rightarrow> byte list \<Rightarrow> mpz_dig_t list \<Rightarrow> nat \<Rightarrow> mpz_dig_t list \<times> nat" where
  "mpz_str_digs base [] ds n = (ds, n)"
| "mpz_str_digs base (c # cs) ds n =
     (case mpz_char_val c base of
        None \<Rightarrow> (ds, n)
      | Some v \<Rightarrow> mpz_str_digs base cs (mpn_mul_dig_add_dig ds (ucast base) (ucast v)) (n + 1))"

text \<open>\<open>mpz_set_from_str\<close> with the number of bytes it has processed.\<close>

definition mpz_set_from_str :: "mpz \<Rightarrow> byte list \<Rightarrow> bool \<Rightarrow> mp_uint_t \<Rightarrow> (mpz \<times> nat) option" where
  "mpz_set_from_str z str n base =
     (if 36 < base then None
      else do {
        z \<leftarrow> mpz_need_dig z (length str * 8 div DIG_SIZE + 1);
        let (ds, cnt) = mpz_str_digs base str [] 0;
        Some (z\<lparr>neg := n, dig := ds\<rparr>, cnt) })"

text \<open>\<open>compute next remainder\<close>: the digits are divided by \<open>base\<close> from the top.\<close>

fun mpz_str_divide :: "mpz_dbl_dig_t \<Rightarrow> mpz_dig_t list \<Rightarrow> mpz_dbl_dig_t \<Rightarrow> mpz_dig_t list \<times> mpz_dbl_dig_t" where
  "mpz_str_divide base [] a = ([], a)"
| "mpz_str_divide base (d # ds) a =
     (let a = push_bit DIG_SIZE a OR ucast d;
          (qs, r) = mpz_str_divide base ds (a mod base)
      in (ucast (a div base) # qs, r))"

definition mpz_digit_char :: "byte \<Rightarrow> mpz_dbl_dig_t \<Rightarrow> byte" where
  "mpz_digit_char base_char a =
     (let a = a + 0x30 in ucast (if 0x39 < a then a + (ucast base_char - 0x39 - 1) else a))"

text \<open>
  \<open>do ... while (!done)\<close>: the characters so far, and how many of them came after the last comma.
  \<open>comma\<close> zero is no separator.
\<close>

partial_function (option) mpz_str_loop ::
  "mpz_dbl_dig_t \<Rightarrow> byte \<Rightarrow> byte \<Rightarrow> mpz_dig_t list \<Rightarrow> byte list \<Rightarrow> nat \<Rightarrow> byte list option" where
  "mpz_str_loop base base_char comma ds s last_comma =
     (let (qs, a) = mpz_str_divide base (rev ds) 0;
          ds = rev qs;
          s = s @ [mpz_digit_char base_char a];
          last_comma = last_comma + 1;
          fin = list_all (\<lambda>d. d = 0) ds;
          (s, last_comma) = (if comma \<noteq> 0 \<and> last_comma = 3 then (s @ [comma], 0) else (s, last_comma))
      in if fin then Some s else mpz_str_loop base base_char comma ds s last_comma)"

text \<open>\<open>prefix\<close> is \<open>None\<close> for a null pointer.\<close>

definition mpz_as_str_inpl :: "mpz \<Rightarrow> mpz_dbl_dig_t \<Rightarrow> byte list option \<Rightarrow> byte \<Rightarrow> byte \<Rightarrow> byte list option" where
  "mpz_as_str_inpl i base prefix base_char comma =
     (if \<not> (2 \<le> base \<and> base \<le> 32) then None
      else if len i = 0 then Some ((case prefix of None \<Rightarrow> [] | Some p \<Rightarrow> p) @ [0x30])
      else do {
        s \<leftarrow> mpz_str_loop base base_char comma (dig i) [] 0;
        let s = (case prefix of None \<Rightarrow> s | Some p \<Rightarrow> s @ rev p);
        let s = (if neg i then s @ [0x2D] else s);
        Some (rev s) })"

section \<open>Machine integers: what the conversions return\<close>

lemma push_or_ucast: "push_bit DIG_SIZE (w :: 64 word) OR ucast (d :: mpz_dig_t) = w * 65536 + ucast d"
proof -
  have "push_bit 16 w AND ucast d = 0"
    by (rule bit_word_eqI) (auto simp: bit_simps dest: bit_imp_le_length)
  then have "push_bit 16 w OR ucast d = push_bit 16 w + ucast d"
    by (rule disjunctive_add_eq_or [symmetric])
  then show ?thesis by (simp add: DIG_SIZE_def push_bit_eq_mult)
qed

lemma foldr_digits: "foldr (\<lambda>d val. push_bit DIG_SIZE val OR ucast d) ds (0 :: 64 word) = of_nat (mpn_val ds)"
  by (induction ds) (simp_all only: push_or_ucast foldr.simps o_apply id_apply mpn_val.simps, simp_all)

lemma mpz_hash_val: "mpz_hash z = of_int (mpz_val z)"
  by (simp add: mpz_hash_def foldr_digits mpz_val_def signed_val_def)

lemma sint_of_int_64: "- 9223372036854775808 \<le> k \<Longrightarrow> k < 9223372036854775808 \<Longrightarrow> sint (of_int k :: 64 word) = k"
  by (simp add: signed_of_int signed_take_bit_int_eq_self)

lemma mpz_checked_loop_val:
  assumes "(unat limit + 1) * 65536 \<le> 18446744073709551616"
  shows "unat val < (unat limit + 1) * 65536 \<Longrightarrow>
    mpz_checked_loop limit ds val =
      (let v = unat val * 65536 ^ length ds + mpn_val (rev ds)
       in if v < (unat limit + 1) * 65536 then Some (of_nat v) else None)"
proof (induction ds arbitrary: val)
  case (Cons d ds)
  let ?v = "unat val * 65536 ^ length (d # ds) + mpn_val (rev (d # ds))"
  show ?case
  proof (cases "limit < val")
    case True
    then have "unat limit + 1 \<le> unat val" by (simp add: word_less_nat_alt)
    then have "(unat limit + 1) * 65536 \<le> unat val * (65536 * 65536 ^ length ds)"
      by (intro mult_le_mono) simp_all
    then have "\<not> ?v < (unat limit + 1) * 65536" by simp
    with True show ?thesis by (simp add: Let_def)
  next
    case False
    then have "unat val * 65536 + unat d < (unat limit + 1) * 65536"
      using unat_u16_lt [of d] by (simp add: word_less_nat_alt)
    moreover from this assms have "unat (val * 65536 + ucast d) = unat val * 65536 + unat d"
      by (simp add: unat_word_ariths)
    ultimately show ?thesis
      using False Cons.IH [of "val * 65536 + ucast d"]
      by (simp add: push_or_ucast mpn_val_append algebra_simps)
  qed
qed (use assms in \<open>simp add: Let_def\<close>)

lemma mpz_as_int_checked_val:
  "mpz_as_int_checked z = (if \<bar>mpz_val z\<bar> < 9223372036854775808 then Some (of_int (mpz_val z)) else None)"
proof -
  have l: "unat (drop_bit DIG_SIZE (NOT WORD_MSBIT_HIGH)) = 140737488355327"
    by (simp add: WORD_MSBIT_HIGH_def DIG_SIZE_def unsigned_drop_bit_eq)
  have "mpz_checked_loop (drop_bit DIG_SIZE (NOT WORD_MSBIT_HIGH)) (rev (dig z)) 0 =
      (if mpn_val (dig z) < 9223372036854775808 then Some (of_nat (mpn_val (dig z))) else None)"
    by (subst mpz_checked_loop_val) (simp_all add: l [unfolded One_nat_def] Let_def)
  then show ?thesis
    by (simp add: mpz_as_int_checked_def abs_mpz_val mpz_val_def signed_val_def)
qed

lemma mpz_as_uint_checked_val:
  assumes "\<not> neg z"
  shows "mpz_as_uint_checked z = (if mpz_val z < 18446744073709551616 then Some (of_int (mpz_val z)) else None)"
proof -
  have l: "unat (drop_bit (DIG_SIZE - 1) (NOT WORD_MSBIT_HIGH)) = 281474976710655"
    by (simp add: WORD_MSBIT_HIGH_def DIG_SIZE_def unsigned_drop_bit_eq)
  have "mpz_checked_loop (drop_bit (DIG_SIZE - 1) (NOT WORD_MSBIT_HIGH)) (rev (dig z)) 0 =
      (if mpn_val (dig z) < 18446744073709551616 then Some (of_nat (mpn_val (dig z))) else None)"
    by (subst mpz_checked_loop_val) (simp_all add: l [unfolded One_nat_def] Let_def)
  then show ?thesis
    using assms by (simp add: mpz_as_uint_checked_def mpz_val_def)
qed

section \<open>Byte arrays: what is read and written\<close>

lemma bytes_val_append [val_simps]: "bytes_val (xs @ ys) = bytes_val xs + 256 ^ length xs * bytes_val ys"
  by (induction xs) (simp_all add: algebra_simps)

lemma bytes_val_zeros [val_simps, simp]: "bytes_val (replicate n 0) = 0"
  by (induction n) simp_all

lemma bytes_val_lt: "bytes_val bs < 256 ^ length bs"
proof (induction bs)
  case (Cons b bs)
  then show ?case using unat_byte_lt [of b] by simp
qed simp

lemma bytes_val_take: "bytes_val (take n bs) = bytes_val bs mod 256 ^ n"
proof (cases "n \<le> length bs")
  case True
  have "bytes_val bs = bytes_val (take n bs) + 256 ^ n * bytes_val (drop n bs)"
    using bytes_val_append [of "take n bs" "drop n bs"] True by simp
  moreover have "bytes_val (take n bs) < 256 ^ n" using bytes_val_lt [of "take n bs"] True by simp
  ultimately show ?thesis by simp
next
  case False
  then have "bytes_val bs < 256 ^ n"
    by (intro less_le_trans [OF bytes_val_lt] power_increasing) simp_all
  with False show ?thesis by simp
qed

lemma bytes_digs_simps [simp]:
  "mpz_bytes_digs [b] = [ucast b]"
  "mpz_bytes_digs (b0 # b1 # bs) = (ucast b0 OR push_bit 8 (ucast b1)) # mpz_bytes_digs bs"
  by (simp_all add: DIG_SIZE_def, cases bs) (simp_all add: DIG_SIZE_def)

declare mpz_bytes_digs.simps(2) [simp del]

lemma unat_two_bytes: "unat (ucast (b0 :: byte) OR push_bit 8 (ucast (b1 :: byte)) :: u16) = unat b0 + 256 * unat b1"
proof -
  have "ucast b0 AND push_bit 8 (ucast b1 :: u16) = 0"
    by (rule bit_word_eqI) (auto simp: bit_simps dest: bit_imp_le_length)
  then have "ucast b0 OR push_bit 8 (ucast b1 :: u16) = ucast b0 + push_bit 8 (ucast b1)"
    by (rule disjunctive_add_eq_or [symmetric])
  then show ?thesis
    using unat_byte_lt [of b0] unat_byte_lt [of b1]
    by (simp add: push_bit_eq_mult unat_word_ariths)
qed

lemma mpz_bytes_digs_val: "mpn_val (mpz_bytes_digs bs) = bytes_val bs"
  and length_bytes_digs: "length (mpz_bytes_digs bs) = (length bs + 1) div 2"
  by (induction bs rule: induct_list012) (simp_all add: unat_two_bytes)

lemma mpz_yields_set_from_bytes:
  assumes "\<not> fixed_dig z"
  shows "mpz_yields (mpz_set_from_bytes z big_endian buf) (int (bytes_val (if big_endian then rev buf else buf)))"
proof -
  have "length (mpn_remove_trailing_zeros (mpz_bytes_digs (if big_endian then rev buf else buf)))
      \<le> (length buf * 8 + DIG_SIZE - 1) div DIG_SIZE"
    by (rule le_trans [OF length_remove_zeros]) (simp add: length_bytes_digs DIG_SIZE_def)
  then show ?thesis
    using assms
    by (simp add: mpz_set_from_bytes_def mpz_need_dig_Some mpz_yields_def mpz_wf_def mpz_val_def
        mpz_bytes_digs_val max.coboundedI2)
qed

text \<open>Each digit gives two bytes; those of a negative number are complemented.\<close>

lemma mpz_out_byte_pos: "mpz_out_byte False d c = (ucast d, c)"
proof -
  have "(ucast (ucast d :: u16) :: byte) = ucast d" by (rule bit_word_eqI) (auto simp: bit_simps)
  then show ?thesis by (simp add: mpz_out_byte_def)
qed

lemma unat_ucast_byte: "unat (ucast (w :: 'a::len word) :: byte) = unat w mod 256"
  by (simp add: unsigned_ucast_eq take_bit_eq_mod)

lemma mpz_out_byte_neg:
  assumes "mpz_out_byte True d c = (b, c')" and "unat c \<le> 1"
  shows "unat b + 256 * unat c' = 255 - unat d mod 256 + unat c" and "unat c' \<le> 1"
proof -
  define x :: u16 where "x = NOT (ucast d) AND 0xFF"
  define y :: u16 where "y = ucast (ucast x + c)"
  have b: "b = ucast y" "c' = ucast (drop_bit 8 y)"
    using assms(1) by (simp_all add: mpz_out_byte_def Let_def x_def y_def)
  have "x = take_bit 8 (NOT (ucast d))" by (simp add: x_def take_bit_eq_mask mask_eq_exp_minus_1)
  then have "uint x = take_bit 8 (uint (NOT (ucast d :: u16)))" by (simp only: unsigned_take_bit_eq)
  also have "\<dots> = take_bit 8 (NOT (uint (ucast d :: u16)))" by (simp add: unsigned_not_eq)
  also have "\<dots> = 255 - uint d mod 256"
    by (simp add: take_bit_not_eq_mask_diff mask_eq_exp_minus_1 unsigned_ucast_eq) (simp add: take_bit_eq_mod)
  finally have "int (unat x) = 255 - int (unat d) mod 256" by simp
  moreover have "int (unat d) mod 256 = int (unat d mod 256)" by (simp only: of_nat_mod of_nat_numeral)
  moreover have "unat d mod 256 < 256" by simp
  ultimately have x: "unat x = 255 - unat d mod 256" by linarith
  then have "unat (ucast x + c) = 255 - unat d mod 256 + unat c"
    using assms(2) by (subst unat_plus_simple) simp_all
  then have y: "unat y = 255 - unat d mod 256 + unat c"
    using assms(2) by (simp add: y_def unat_ucast_32_16)
  have "unat c' = unat y div 256" by (simp add: b unat_drop_bit_div del: drop_bit_eq_div)
  then show "unat b + 256 * unat c' = 255 - unat d mod 256 + unat c" "unat c' \<le> 1"
    using y assms(2) by (simp_all add: b unat_ucast_byte)
qed

lemma mpz_out_dig_pos:
  "mpz_out_dig False (DIG_SIZE div 8) (ucast (z :: u16)) c = ([ucast z, ucast (drop_bit 8 z)], c)"
proof -
  have "(ucast (ucast z :: u32) :: byte) = ucast z" "(ucast (drop_bit 8 (ucast z :: u32)) :: byte) = ucast (drop_bit 8 z)"
    by (rule bit_word_eqI; simp add: bit_simps)+
  then show ?thesis by (simp add: DIG_SIZE_def mpz_out_byte_pos numeral_2_eq_2 del: drop_bit_eq_div)
qed

lemma mpz_out_dig_neg:
  assumes "mpz_out_dig True (DIG_SIZE div 8) (ucast (z :: u16)) c = (bs, c')" and "unat c \<le> 1"
  shows "length bs = 2" and "bytes_val bs + 65536 * unat c' = 65535 - unat z + unat c" and "unat c' \<le> 1"
proof -
  obtain b0 c0 where 0: "mpz_out_byte True (ucast z) c = (b0, c0)" by fastforce
  obtain b1 c1 where 1: "mpz_out_byte True (drop_bit 8 (ucast z)) c0 = (b1, c1)" by fastforce
  have bs: "bs = [b0, b1]" "c' = c1"
    using assms(1) by (simp_all add: DIG_SIZE_def numeral_2_eq_2 0 1 del: drop_bit_eq_div)
  note v0 = mpz_out_byte_neg [OF 0 assms(2)]
  note v1 = mpz_out_byte_neg [OF 1 v0(2)]
  have d: "unat (drop_bit 8 (ucast z :: u32)) mod 256 = unat z div 256"
    using unat_u16_lt [of z] by (simp add: unat_drop_bit_div div_less_iff_less_mult del: drop_bit_eq_div)
  have "unat z = unat z mod 256 + 256 * (unat z div 256)" by simp
  moreover have "unat z div 256 \<le> 255" using unat_u16_lt [of z] by linarith
  moreover have "unat z mod 256 \<le> 255" by simp
  ultimately have "unat b0 + 256 * unat b1 + 65536 * unat c1 = 65535 - unat z + unat c"
    using v0 v1 unfolding d unat_ucast_16_32 by linarith
  then show "length bs = 2" "bytes_val bs + 65536 * unat c' = 65535 - unat z + unat c" "unat c' \<le> 1"
    using v1(2) by (simp_all add: bs)
qed

lemma mpz_out_bytes_pos: "bytes_val (mpz_out_bytes False ds c) = mpn_val ds"
proof (induction ds arbitrary: c)
  case (Cons z ds)
  have "unat z mod 256 + 256 * (unat z div 256) = unat z" by simp
  moreover have "unat z div 256 mod 256 = unat z div 256"
    using unat_u16_lt [of z] by (simp add: div_less_iff_less_mult)
  ultimately show ?case
    using Cons [of c]
    by (simp add: mpz_out_dig_pos bytes_val_append unat_ucast_byte unat_drop_bit_div del: drop_bit_eq_div)
qed simp

lemma length_out_bytes: "length (mpz_out_bytes n ds c) = 2 * length ds"
proof (induction ds arbitrary: c)
  case (Cons z ds)
  obtain bs c' where z: "mpz_out_dig n (DIG_SIZE div 8) (ucast z) c = (bs, c')" by fastforce
  then have "length bs = 2"
    by (auto simp: DIG_SIZE_def numeral_2_eq_2 split: prod.splits)
  with Cons show ?case by (simp add: z)
qed simp

lemma nat_mod_digit: "(b :: nat) < 65536 \<Longrightarrow> (b + 65536 * x) mod (65536 * m) = b + 65536 * (x mod m)"
  by (simp add: mod_mult2_eq)

lemma mpz_out_bytes_neg:
  "unat c \<le> 1 \<Longrightarrow>
   bytes_val (mpz_out_bytes True ds c) = (65536 ^ length ds - 1 - mpn_val ds + unat c) mod 65536 ^ length ds"
proof (induction ds arbitrary: c)
  case (Cons z ds)
  obtain bs c' where z: "mpz_out_dig True (DIG_SIZE div 8) (ucast z) c = (bs, c')" by fastforce
  note v = mpz_out_dig_neg [OF z Cons.prems]
  let ?M = "65536 ^ length ds :: nat"
  have M: "mpn_val ds < ?M" by (rule mpn_val_lt)
  have zb: "unat z \<le> 65535" by (rule unat_u16_le)
  have "(65536 * ?M - 1 - (unat z + 65536 * mpn_val ds) + unat c)
      = bytes_val bs + 65536 * (?M - 1 - mpn_val ds + unat c')"
    using v(2) M zb by (simp add: algebra_simps)
  also have "\<dots> mod (65536 * ?M) = bytes_val bs + 65536 * ((?M - 1 - mpn_val ds + unat c') mod ?M)"
  proof -
    have "bytes_val bs < 65536" using bytes_val_lt [of bs] v(1) by simp
    then show ?thesis by (rule nat_mod_digit)
  qed
  finally show ?case using Cons.IH [OF v(3)] v(1) by (simp add: z bytes_val_append)
qed simp

theorem mpz_as_bytes_val:
  assumes "buf \<noteq> [] \<or> dig z = []"
  obtains out where "mpz_as_bytes z False (replicate (length buf) 0) = Some out" and "length out = length buf"
    and "int (bytes_val out) = mpz_val z mod 256 ^ min (length buf) (2 * len z)"
proof -
  let ?o = "mpz_out_bytes (neg z) (dig z) 1" and ?n = "length buf"
  define out where "out = take ?n ?o @ drop (length (take ?n ?o)) (replicate ?n (0 :: byte))"
  have l: "length ?o = 2 * len z" by (rule length_out_bytes)
  have "mpz_as_bytes z False (replicate ?n 0) = Some out"
    using assms l by (auto simp: mpz_as_bytes_def out_def Let_def)
  moreover have "length out = ?n" by (simp add: out_def l)
  moreover have "int (bytes_val out) = mpz_val z mod 256 ^ min ?n (2 * len z)"
  proof -
    have o: "int (bytes_val ?o) = mpz_val z mod 256 ^ (2 * len z)"
    proof (cases "neg z")
      case True
      have "int (bytes_val ?o) = int (65536 ^ len z - mpn_val (dig z)) mod 65536 ^ len z"
        using True mpz_out_bytes_neg [of 1 "dig z"] mpn_val_lt [of "dig z"] by (simp add: of_nat_mod)
      also have "\<dots> = (- int (mpn_val (dig z)) + 65536 ^ len z) mod 65536 ^ len z"
        using mpn_val_lt [of "dig z"] by (simp add: of_nat_diff)
      also have "\<dots> = (- int (mpn_val (dig z))) mod 65536 ^ len z" by (rule mod_add_self2)
      finally show ?thesis using True by (simp add: mpz_val_def power_mult)
    next
      case False
      then show ?thesis
        using mpz_out_bytes_pos [of "dig z" 1] int_mpn_val_lt [of "dig z"] by (simp add: mpz_val_def power_mult)
    qed
    have "bytes_val out = bytes_val ?o mod 256 ^ min ?n (2 * len z)"
    proof -
      have "bytes_val out = bytes_val (take (min ?n (2 * len z)) ?o)"
        by (simp add: out_def bytes_val_append l min_def)
      then show ?thesis by (simp only: bytes_val_take)
    qed
    then show ?thesis
      by (simp only: of_nat_mod o of_nat_power of_nat_numeral) (simp add: mod_mod_cancel le_imp_power_dvd)
  qed
  ultimately show ?thesis by (rule that)
qed

section \<open>Strings: printing and parsing\<close>

lemma push_or_ucast_32: "push_bit DIG_SIZE (w :: u32) OR ucast (d :: mpz_dig_t) = w * 65536 + ucast d"
proof -
  have "push_bit 16 w AND ucast d = 0"
    by (rule bit_word_eqI) (auto simp: bit_simps dest: bit_imp_le_length)
  then have "push_bit 16 w OR ucast d = push_bit 16 w + ucast d"
    by (rule disjunctive_add_eq_or [symmetric])
  then show ?thesis by (simp add: DIG_SIZE_def push_bit_eq_mult)
qed

lemma mult_mod_split: "(x :: nat) * p + w = (x mod b * p + w) + b * (x div b * p)"
proof -
  have "x * p = (x mod b + b * (x div b)) * p" by (simp only: mod_mult_div_eq)
  then show ?thesis by (simp only: distrib_right mult.assoc add.assoc add.left_commute add.commute)
qed

lemma mpz_str_divide_val:
  assumes "0 < unat base" and "unat base \<le> 32"
  shows "unat a < unat base \<Longrightarrow> mpz_str_divide base ds a = (qs, r) \<Longrightarrow>
    length qs = length ds \<and>
    mpn_val (rev qs) = (unat a * 65536 ^ length ds + mpn_val (rev ds)) div unat base \<and>
    unat r = (unat a * 65536 ^ length ds + mpn_val (rev ds)) mod unat base"
proof (induction ds arbitrary: a qs)
  case (Cons d ds)
  define a1 where "a1 = push_bit DIG_SIZE a OR ucast d"
  obtain qs1 where qs1: "mpz_str_divide base ds (a1 mod base) = (qs1, r)"
    and qs: "qs = ucast (a1 div base) # qs1"
    using Cons.prems(2) by (auto simp: Let_def a1_def split: prod.splits)
  have a32: "unat a < 32" using Cons.prems(1) assms(2) by simp
  have a1: "unat a1 = unat a * 65536 + unat d"
    using a32 unat_u16_lt [of d] by (simp add: a1_def push_or_ucast_32 unat_word_ariths)
  have "unat a * 65536 + unat d < unat base * 65536"
    using Cons.prems(1) unat_u16_lt [of d] by linarith
  then have "unat a1 div unat base < 65536" using assms(1) by (simp add: a1 div_less_iff_less_mult mult.commute)
  then have q: "unat (ucast (a1 div base) :: mpz_dig_t) = unat a1 div unat base"
    by (simp add: unat_ucast_32_16 unat_div)
  have r1: "unat (a1 mod base) = unat a1 mod unat base" by (simp add: unat_mod)
  have "unat (a1 mod base) < unat base" using assms(1) by (simp add: r1)
  from Cons.IH [OF this qs1] have IH: "length qs1 = length ds"
    "mpn_val (rev qs1) = (unat a1 mod unat base * 65536 ^ length ds + mpn_val (rev ds)) div unat base"
    "unat r = (unat a1 mod unat base * 65536 ^ length ds + mpn_val (rev ds)) mod unat base"
    by (simp_all add: r1)
  let ?P = "65536 ^ length ds :: nat" and ?b = "unat base"
  have "unat a * 65536 ^ length (d # ds) + mpn_val (rev (d # ds)) = unat a1 * ?P + mpn_val (rev ds)"
    by (simp add: a1 mpn_val_append algebra_simps)
  also have "\<dots> = (unat a1 mod ?b * ?P + mpn_val (rev ds)) + ?b * (unat a1 div ?b * ?P)"
    by (rule mult_mod_split)
  finally have e: "unat a * 65536 ^ length (d # ds) + mpn_val (rev (d # ds))
      = (unat a1 mod ?b * ?P + mpn_val (rev ds)) + ?b * (unat a1 div ?b * ?P)" .
  show ?case
    unfolding e using assms(1) IH by (simp add: qs q mpn_val_append)
qed simp

text \<open>The digits of a number in a base, lowest first, at least one.\<close>

function base_digits :: "nat \<Rightarrow> nat \<Rightarrow> nat list" where
  "base_digits b v = (if v < b \<or> b < 2 then [v] else v mod b # base_digits b (v div b))"
  by auto
termination
  by (relation "measure snd") auto

declare base_digits.simps [simp del]

lemma mpn_val_0_list: "list_all (\<lambda>d. d = 0) ds \<longleftrightarrow> mpn_val ds = 0"
  using mpn_val_set_0 [of ds] by (simp add: list_all_iff)

text \<open>The loop ends for every number, with or without a separator.\<close>

lemma mpz_str_loop_ends:
  assumes "2 \<le> unat base" and "unat base \<le> 32"
  shows "\<exists>t. mpz_str_loop base bc comma ds s n = Some t"
proof (induction "mpn_val ds" arbitrary: ds s n rule: less_induct)
  case less
  obtain qs r where qr: "mpz_str_divide base (rev ds) 0 = (qs, r)" by fastforce
  have b: "0 < unat base" "unat (0 :: u32) < unat base" using assms(1) by simp_all
  have v: "mpn_val (rev qs) = mpn_val ds div unat base"
    using mpz_str_divide_val [OF b(1) assms(2) b(2) qr] by simp
  show ?case
  proof (cases "mpn_val (rev qs) = 0")
    case True
    then show ?thesis by (subst mpz_str_loop.simps) (simp add: qr mpn_val_0_list Let_def split: prod.splits)
  next
    case False
    then have "mpn_val (rev qs) < mpn_val ds"
      unfolding v using assms(1) by (intro div_less_dividend) (auto intro: gr0I)
    from less [OF this] False show ?thesis
      by (subst mpz_str_loop.simps) (auto simp: qr mpn_val_0_list Let_def split: prod.splits)
  qed
qed

lemma mpz_str_loop_val:
  assumes "2 \<le> unat base" and "unat base \<le> 32"
  shows "mpz_str_loop base bc 0 ds s n
       = Some (s @ map (\<lambda>k. mpz_digit_char bc (of_nat k)) (base_digits (unat base) (mpn_val ds)))"
proof (induction "mpn_val ds" arbitrary: ds s n rule: less_induct)
  case less
  obtain qs r where qr: "mpz_str_divide base (rev ds) 0 = (qs, r)" by fastforce
  have b: "0 < unat base" "unat (0 :: u32) < unat base" using assms(1) by simp_all
  have v: "mpn_val (rev qs) = mpn_val ds div unat base" "unat r = mpn_val ds mod unat base"
    using mpz_str_divide_val [OF b(1) assms(2) b(2) qr] by simp_all
  then have r: "r = of_nat (mpn_val ds mod unat base)" by (metis of_nat_unat ucast_id)
  have zero: "mpn_val (rev qs) = 0 \<longleftrightarrow> mpn_val ds < unat base"
    using v(1) b(1) by (simp add: div_eq_0_iff)
  show ?case
  proof (cases "mpn_val ds < unat base")
    case True
    then have "base_digits (unat base) (mpn_val ds) = [mpn_val ds]" by (simp add: base_digits.simps)
    with True zero show ?thesis
      by (subst mpz_str_loop.simps) (simp add: qr mpn_val_0_list Let_def r)
  next
    case False
    then have "mpn_val (rev qs) < mpn_val ds"
      unfolding v using assms(1) by (intro div_less_dividend) linarith+
    from less [OF this] False zero assms(1) show ?thesis
      by (subst mpz_str_loop.simps, subst base_digits.simps) (simp add: qr mpn_val_0_list Let_def r v(1))
  qed
qed

lemma base_digits_ne [simp]: "base_digits b v \<noteq> []"
  by (subst base_digits.simps) simp

lemma base_digits_lt: "2 \<le> b \<Longrightarrow> k \<in> set (base_digits b v) \<Longrightarrow> k < b"
proof (induction b v rule: base_digits.induct)
  case (1 b v)
  from 1(3) show ?case
    using 1(1) [OF _ 1(2)] 1(2) by (subst (asm) base_digits.simps) (auto split: if_splits)
qed

lemma base_digits_val: "2 \<le> b \<Longrightarrow> foldr (\<lambda>k v. k + b * v) (base_digits b v) 0 = v"
proof (induction b v rule: base_digits.induct)
  case (1 b v)
  then show ?case by (subst base_digits.simps) simp
qed

text \<open>What \<open>mpz_set_from_str\<close> reads: the longest prefix of digits of the base, in Horner's scheme.\<close>

definition str_prefix :: "mp_uint_t \<Rightarrow> byte list \<Rightarrow> byte list" where
  "str_prefix base = takeWhile (\<lambda>c. mpz_char_val c base \<noteq> None)"

definition horner :: "mp_uint_t \<Rightarrow> nat \<Rightarrow> byte list \<Rightarrow> nat" where
  "horner base v cs = foldl (\<lambda>v c. v * unat base + unat (the (mpz_char_val c base))) v cs"

lemma mpz_char_val_lt: "mpz_char_val c base = Some v \<Longrightarrow> v < base"
  by (auto simp: mpz_char_val_def split: option.splits if_splits)

lemma unat_ucast_small: "unat (w :: 64 word) < 65536 \<Longrightarrow> unat (ucast w :: mpz_dig_t) = unat w"
  by (simp add: unsigned_ucast_eq take_bit_nat_eq_self_iff)

lemma mpz_str_digs_val:
  assumes "unat base \<le> 36"
  shows "mpn_norm ds \<Longrightarrow>
    (\<exists>ds'. mpz_str_digs base str ds n = (ds', n + length (str_prefix base str)) \<and>
      mpn_norm ds' \<and> mpn_val ds' = horner base (mpn_val ds) (str_prefix base str))"
proof (induction str arbitrary: ds n)
  case (Cons c cs)
  show ?case
  proof (cases "mpz_char_val c base")
    case None
    then show ?thesis using Cons.prems by (simp add: str_prefix_def horner_def)
  next
    case (Some v)
    have v: "unat v < unat base" using mpz_char_val_lt [OF Some] by (simp add: word_less_nat_alt)
    have d: "unat (ucast base :: mpz_dig_t) = unat base" "unat (ucast v :: mpz_dig_t) = unat v"
      using assms v by (simp_all add: unat_ucast_small)
    have "(ucast base :: mpz_dig_t) \<noteq> 0" using v d(1) by (metis unat_0 not_less_zero)
    then have "mpn_norm (mpn_mul_dig_add_dig ds (ucast base) (ucast v))"
      using Cons.prems by (rule norm_mpn_mul_dig_add_dig [rotated])
    from Cons.IH [OF this, of "n + 1"] Some d show ?thesis
      by (auto simp: str_prefix_def horner_def mpn_mul_dig_add_dig_val)
  qed
qed (simp add: str_prefix_def horner_def)

lemma horner_bound:
  assumes "unat base \<le> 256"
  shows "horner base 0 (str_prefix base str) < 256 ^ length (str_prefix base str)"
proof -
  have fold: "(\<forall>c \<in> set cs. mpz_char_val c base \<noteq> None) \<Longrightarrow> v < 256 ^ k \<Longrightarrow>
      foldl (\<lambda>v c. v * unat base + unat (the (mpz_char_val c base))) v cs < 256 ^ (k + length cs)" for v k cs
  proof (induction cs arbitrary: v k)
    case (Cons c cs)
    then obtain w where w: "mpz_char_val c base = Some w" by auto
    have wb: "unat w + 1 \<le> unat base" using mpz_char_val_lt [OF w] by (simp add: word_less_nat_alt)
    have "v * unat base + unat w + 1 \<le> (v + 1) * unat base" using wb by (simp add: algebra_simps)
    also have "\<dots> \<le> 256 ^ k * 256" using Cons.prems(2) assms by (intro mult_le_mono) auto
    finally have "v * unat base + unat w < 256 ^ Suc k" by simp
    from Cons.IH [OF _ this] Cons.prems(1) w show ?case by simp
  qed simp
  have "\<forall>c \<in> set (str_prefix base str). mpz_char_val c base \<noteq> None"
    unfolding str_prefix_def by (blast dest: set_takeWhileD)
  from fold [OF this, of 0 0] show ?thesis unfolding horner_def by simp
qed

text \<open>The parser stays inside the buffer it has asked for.\<close>

theorem mpz_set_from_str_val:
  assumes "\<not> fixed_dig z" and "unat base \<le> 36"
  shows "\<exists>z'. mpz_set_from_str z str n base = Some (z', length (str_prefix base str)) \<and> mpz_ok z' \<and>
    mpz_val z' = signed_val n (horner base 0 (str_prefix base str))"
proof -
  let ?p = "str_prefix base str"
  obtain ds where ds: "mpz_str_digs base str [] 0 = (ds, length ?p)" "mpn_norm ds" "mpn_val ds = horner base 0 ?p"
    using mpz_str_digs_val [OF assms(2), of "[]" str 0] by auto
  have "length ?p \<le> length str" by (simp add: str_prefix_def length_takeWhile_le)
  have "length ds \<le> length str * 8 div DIG_SIZE + 1"
  proof (rule mpn_norm_length_le [OF ds(2)])
    have "mpn_val ds < 256 ^ length ?p" using horner_bound [of base str] assms(2) ds(3) by simp
    also have "\<dots> \<le> 256 ^ (2 * (length str * 8 div DIG_SIZE + 1))"
      using \<open>length ?p \<le> length str\<close> by (intro power_increasing) (simp_all add: DIG_SIZE_def)
    finally show "mpn_val ds < 65536 ^ (length str * 8 div DIG_SIZE + 1)" by (simp only: power_mult) simp
  qed
  moreover have "\<not> 36 < base" using assms(2) by (simp add: word_less_nat_alt)
  ultimately show ?thesis
    using assms(1) ds by (simp add: mpz_set_from_str_def mpz_need_dig_Some mpz_ok_def mpz_wf_def mpz_val_def)
qed

text \<open>The characters that \<open>mpz_as_str_inpl\<close> writes are read back as the digits they stand for.\<close>

lemma mpz_char_num_digit: "k < 32 \<Longrightarrow> mpz_char_num (mpz_digit_char 0x61 (of_nat k)) = Some (of_nat k)"
proof -
  have "\<forall>k \<in> set [0..<32]. mpz_char_num (mpz_digit_char 0x61 (of_nat k)) = Some (of_nat k)"
    by (simp add: upt_rec mpz_char_num_def mpz_digit_char_def)
  then show "k < 32 \<Longrightarrow> ?thesis" by simp
qed

lemma mpz_char_val_digit:
  assumes "k < unat base" and "unat base \<le> 32"
  shows "mpz_char_val (mpz_digit_char 0x61 (of_nat k)) base = Some (of_nat k)" and "unat (of_nat k :: mp_uint_t) = k"
proof -
  show u: "unat (of_nat k :: mp_uint_t) = k" using assms by (simp add: unat_of_nat)
  then have "\<not> base \<le> of_nat k" using assms(1) by (simp add: word_le_nat_alt)
  then show "mpz_char_val (mpz_digit_char 0x61 (of_nat k)) base = Some (of_nat k)"
    using assms by (simp add: mpz_char_val_def mpz_char_num_digit)
qed

lemma str_prefix_digits:
  assumes "unat base \<le> 32" and "\<And>k. k \<in> set ks \<Longrightarrow> k < unat base"
  shows "str_prefix base (map (\<lambda>k. mpz_digit_char 0x61 (of_nat k)) ks)
      = map (\<lambda>k. mpz_digit_char 0x61 (of_nat k)) ks"
    and "horner base v (map (\<lambda>k. mpz_digit_char 0x61 (of_nat k)) ks)
      = foldl (\<lambda>v k. v * unat base + k) v ks"
proof -
  show "str_prefix base (map (\<lambda>k. mpz_digit_char 0x61 (of_nat k)) ks)
      = map (\<lambda>k. mpz_digit_char 0x61 (of_nat k)) ks"
    using assms by (induction ks) (simp_all add: str_prefix_def mpz_char_val_digit(1))
  show "horner base v (map (\<lambda>k. mpz_digit_char 0x61 (of_nat k)) ks)
      = foldl (\<lambda>v k. v * unat base + k) v ks"
    using assms(2)
  proof (induction ks arbitrary: v)
    case (Cons k ks)
    then have "k < unat base" by simp
    note d = mpz_char_val_digit [OF this assms(1)]
    from Cons show ?case by (simp add: horner_def d)
  qed (simp add: horner_def)
qed

theorem mpz_str_roundtrip:
  assumes "mpz_wf i" and "\<not> fixed_dig z" and "2 \<le> unat base" and "unat base \<le> 32"
  shows "\<exists>t z'. mpz_as_str_inpl i (ucast base) None 0x61 0 = Some ((if neg i \<and> dig i \<noteq> [] then [0x2D] else []) @ t) \<and>
    mpz_set_from_str z t (neg i) base = Some (z', length t) \<and> mpz_ok z' \<and> mpz_val z' = mpz_val i"
proof -
  let ?ch = "\<lambda>k. mpz_digit_char 0x61 (of_nat k)" and ?b = "unat base"
  define ks where "ks = base_digits ?b (mpn_val (dig i))"
  define t where "t = map ?ch (rev ks)"
  have b32: "unat (ucast base :: u32) = ?b"
    using assms(4) by (simp add: unsigned_ucast_eq take_bit_nat_eq_self_iff)
  have base: "2 \<le> (ucast base :: u32)" "(ucast base :: u32) \<le> 32"
    using assms(3,4) b32 by (simp_all add: word_le_nat_alt)
  have lt: "k \<in> set (rev ks) \<Longrightarrow> k < ?b" for k using base_digits_lt [OF assms(3)] by (simp add: ks_def)
  have pre: "str_prefix base t = t" unfolding t_def by (rule str_prefix_digits [OF assms(4) lt])
  have "horner base 0 t = foldl (\<lambda>v k. v * ?b + k) 0 (rev ks)"
    unfolding t_def by (rule str_prefix_digits(2) [OF assms(4) lt])
  also have "\<dots> = foldr (\<lambda>k v. k + ?b * v) ks 0" by (simp add: foldl_conv_foldr ac_simps)
  finally have val: "horner base 0 t = mpn_val (dig i)" by (simp add: ks_def base_digits_val [OF assms(3)])
  have parse: "\<exists>z'. mpz_set_from_str z t (neg i) base = Some (z', length t) \<and> mpz_ok z' \<and> mpz_val z' = mpz_val i"
    using mpz_set_from_str_val [OF assms(2), where base = base and str = t and n = "neg i"] assms(4) unfolding pre val by (simp add: mpz_val_def)
  have print: "mpz_as_str_inpl i (ucast base) None 0x61 0 = Some ((if neg i \<and> dig i \<noteq> [] then [0x2D] else []) @ t)"
  proof (cases "dig i = []")
    case True
    then have "ks = [0]" using assms(3) by (simp add: ks_def base_digits.simps)
    with True base show ?thesis by (simp add: mpz_as_str_inpl_def t_def mpz_digit_char_def)
  next
    case False
    have "mpz_str_loop (ucast base) 0x61 0 (dig i) [] 0 = Some ([] @ map ?ch ks)"
      using mpz_str_loop_val [where base = "ucast base" and bc = "0x61" and ds = "dig i" and s = "[]" and n = 0] b32 assms(3,4) by (simp add: ks_def)
    with False base show ?thesis by (simp add: mpz_as_str_inpl_def t_def rev_map)
  qed
  from parse print show ?thesis by blast
qed

end
