(* ===== verification/HashProbe.thy ===== *)
theory HashProbe
  imports Prelude
begin

text \<open>
  The open-addressing table that \<open>mp_map_lookup\<close> and \<open>mp_set_lookup\<close> of \<open>py/map.c\<close> share: slots
  that are empty, deleted or hold a key, the search that wraps around the table, the sizes a
  table grows through, and the invariant that makes the search find every key.
\<close>

section \<open>Slots and table sizes\<close>

text \<open>\<open>MP_OBJ_NULL\<close> is an empty slot and \<open>MP_OBJ_SENTINEL\<close> a deleted one.\<close>

datatype 'k slot = SlotNull | SlotSentinel | Key 'k

definition slot_is_filled :: "'k slot \<Rightarrow> bool" where
  "slot_is_filled s \<longleftrightarrow> s \<noteq> SlotNull \<and> s \<noteq> SlotSentinel"

definition hash_allocation_sizes :: "nat list" where
  "hash_allocation_sizes =
     [0, 2, 4, 6, 8, 10, 12,
      17, 23, 29, 37, 47, 59, 73,
      97, 127, 167, 223, 293, 389, 521, 691, 919, 1223, 1627, 2161,
      3229, 4831, 7243, 10861, 16273, 24407, 36607, 54907]"

definition get_hash_alloc_greater_or_equal_to :: "nat \<Rightarrow> nat" where
  "get_hash_alloc_greater_or_equal_to x =
     (case List.find (\<lambda>s. x \<le> s) hash_allocation_sizes of
        Some s \<Rightarrow> s
      | None \<Rightarrow> (x + x div 2) OR 1)"

lemma get_hash_alloc_ge: "x \<le> get_hash_alloc_greater_or_equal_to x"
proof (cases "List.find (\<lambda>s. x \<le> s) hash_allocation_sizes")
  case None
  have "x + x div 2 \<le> (x + x div 2) OR 1"
    using or_greater_eq [of "1 :: int" "int (x + x div 2)"]
    by (metis of_nat_1 of_nat_le_iff of_nat_or_eq zero_le_one)
  with None show ?thesis by (simp add: get_hash_alloc_greater_or_equal_to_def)
next
  case (Some s)
  then have "x \<le> s" by (auto simp: find_Some_iff)
  with Some show ?thesis by (simp add: get_hash_alloc_greater_or_equal_to_def)
qed

section \<open>The search\<close>

text \<open>
  \<open>for (;;)\<close> of the lookups until the search is back at the start, which is after as many steps
  as there are slots. \<open>avail_slot\<close> is the first deleted slot on the way.
\<close>

datatype probe_result = Found nat | Empty nat | Wrapped "nat option"

fun probe :: "('k \<Rightarrow> bool) \<Rightarrow> 'k slot list \<Rightarrow> nat \<Rightarrow> nat \<Rightarrow> nat option \<Rightarrow> probe_result" where
  "probe matches slots pos 0 avail = Wrapped avail"
| "probe matches slots pos (Suc left) avail =
     (case slots ! pos of
        SlotNull \<Rightarrow> Empty (case avail of None \<Rightarrow> pos | Some a \<Rightarrow> a)
      | SlotSentinel \<Rightarrow>
          probe matches slots ((pos + 1) mod length slots) left (case avail of None \<Rightarrow> Some pos | Some a \<Rightarrow> Some a)
      | Key q \<Rightarrow>
          if matches q then Found pos
          else probe matches slots ((pos + 1) mod length slots) left avail)"

text \<open>\<open>optimisation if next slot is empty\<close>: what a deleted key leaves in its slot.\<close>

definition deleted_slot :: "'k slot list \<Rightarrow> nat \<Rightarrow> 'k slot" where
  "deleted_slot slots pos =
     (if slots ! ((pos + 1) mod length slots) = SlotNull then SlotNull else SlotSentinel)"

section \<open>The invariant of the slots\<close>

text \<open>The keys of a table, and the number of them.\<close>

definition keys_of :: "'k slot list \<Rightarrow> 'k set" where
  "keys_of slots = {q. Key q \<in> set slots}"

definition n_keys :: "'k slot list \<Rightarrow> nat" where
  "n_keys slots = length (filter slot_is_filled slots)"

text \<open>
  \<open>on_path\<close>: the search for hash \<open>h\<close> reaches slot \<open>p\<close> without meeting an empty slot before it.
\<close>

definition on_path :: "'k slot list \<Rightarrow> nat \<Rightarrow> nat \<Rightarrow> bool" where
  "on_path slots h p \<longleftrightarrow>
     (\<exists>j < length slots. p = (h + j) mod length slots \<and>
        (\<forall>i < j. slots ! ((h + i) mod length slots) \<noteq> SlotNull))"

text \<open>
  No two slots hold equal keys, and the search for a key's hash reaches its slot: \<open>eq\<close> is
  \<open>mp_obj_equal\<close> and \<open>hash\<close> the value of \<open>MP_UNARY_OP_HASH\<close>.
\<close>

definition slots_inv :: "('k \<Rightarrow> 'k \<Rightarrow> bool) \<Rightarrow> ('k \<Rightarrow> nat) \<Rightarrow> 'k slot list \<Rightarrow> bool" where
  "slots_inv eq hash slots \<longleftrightarrow>
     (\<forall>p < length slots. \<forall>q < length slots. \<forall>a b.
        slots ! p = Key a \<longrightarrow> slots ! q = Key b \<longrightarrow> eq a b \<longrightarrow> p = q) \<and>
     (\<forall>p < length slots. \<forall>a. slots ! p = Key a \<longrightarrow> on_path slots (hash a) p)"

text \<open>
  What the objects used as keys must satisfy.
\<close>

locale hash_keys =
  fixes eq :: "'k \<Rightarrow> 'k \<Rightarrow> bool" and hash :: "'k \<Rightarrow> nat"
  assumes eq_refl [simp]: "eq a a"
    and eq_sym: "eq a b \<Longrightarrow> eq b a"
    and eq_trans: "eq a b \<Longrightarrow> eq b c \<Longrightarrow> eq a c"
    and hash_eq: "eq a b \<Longrightarrow> hash a = hash b"
begin

text \<open>A search of \<open>left\<close> more steps that has come to step \<open>i\<close>, without finding its key so far.\<close>

lemma probe_from:
  assumes "slots_inv eq hash slots" and "\<And>q. Key q \<in> set slots \<Longrightarrow> matches q \<longleftrightarrow> eq q k"
    and "i + left = length slots" and "pos = (hash k + i) mod length slots" and "0 < length slots"
    and "\<forall>j < i. slots ! ((hash k + j) mod length slots) \<noteq> SlotNull"
    and "\<forall>j < i. \<forall>q. slots ! ((hash k + j) mod length slots) = Key q \<longrightarrow> \<not> eq q k"
    and "case avail of
           None \<Rightarrow> \<forall>j < i. slots ! ((hash k + j) mod length slots) \<noteq> SlotSentinel
         | Some a \<Rightarrow> slots ! a = SlotSentinel \<and> on_path slots (hash k) a \<and> a < length slots"
  shows "case probe matches slots pos left avail of
      Found p \<Rightarrow> p < length slots \<and> (\<exists>q. slots ! p = Key q \<and> eq q k)
    | Empty a \<Rightarrow> a < length slots \<and> \<not> slot_is_filled (slots ! a) \<and> on_path slots (hash k) a \<and>
        (\<forall>q \<in> keys_of slots. \<not> eq q k)
    | Wrapped (Some a) \<Rightarrow> a < length slots \<and> \<not> slot_is_filled (slots ! a) \<and> on_path slots (hash k) a \<and>
        (\<forall>q \<in> keys_of slots. \<not> eq q k)
    | Wrapped None \<Rightarrow> (\<forall>s \<in> set slots. slot_is_filled s) \<and> (\<forall>q \<in> keys_of slots. \<not> eq q k)"
  using assms(3-)
proof (induction left arbitrary: i pos avail)
  case 0
  then have i: "i = length slots" by simp
  have cover: "\<exists>j < length slots. p = (hash k + j) mod length slots" if "p < length slots" for p
  proof -
    let ?n = "length slots" and ?h = "hash k mod length slots"
    have "p = (hash k + ((p + (?n - ?h)) mod ?n)) mod ?n"
    proof -
      have "?h < ?n" using that by (intro mod_less_divisor) auto
      have "(hash k + ((p + (?n - ?h)) mod ?n)) mod ?n = (?h + (p + (?n - ?h))) mod ?n"
        by (simp add: mod_simps)
      also have "\<dots> = (p + ?n) mod ?n" using \<open>?h < ?n\<close> by (simp add: add.commute)
      finally show ?thesis using that by simp
    qed
    moreover have "(p + (?n - ?h)) mod ?n < ?n" by (rule mod_less_divisor [OF assms(5)])
    ultimately show ?thesis by blast
  qed
  have no: "\<forall>q \<in> keys_of slots. \<not> eq q k"
    using cover 0(5) unfolding i keys_of_def by (fastforce simp: in_set_conv_nth)
  show ?case
  proof (cases avail)
    case None
    have "slot_is_filled s" if "s \<in> set slots" for s
      using that cover 0(4,6) None unfolding i slot_is_filled_def by (fastforce simp: in_set_conv_nth)
    with None no show ?thesis by simp
  next
    case (Some a)
    with 0(6) no show ?thesis by (simp add: slot_is_filled_def)
  qed
next
  case (Suc left)
  let ?n = "length slots"
  have pos: "pos < ?n" using Suc.prems by simp
  have next_pos: "(pos + 1) mod ?n = (hash k + Suc i) mod ?n" using Suc.prems(2) by (simp add: mod_simps)
  have path: "on_path slots (hash k) pos"
    unfolding on_path_def using Suc.prems by (intro exI [of _ i]) auto
  show ?case
  proof (cases "slots ! pos")
    case SlotNull
    have no: "\<forall>q \<in> keys_of slots. \<not> eq q k"
    proof (intro ballI notI)
      fix q
      assume "q \<in> keys_of slots" "eq q k"
      then obtain p where p: "p < ?n" "slots ! p = Key q" by (auto simp: keys_of_def in_set_conv_nth)
      then obtain j where j: "j < ?n" "p = (hash q + j) mod ?n" "\<forall>i < j. slots ! ((hash q + i) mod ?n) \<noteq> SlotNull"
        using assms(1) unfolding slots_inv_def on_path_def by blast
      have h: "hash q = hash k" by (rule hash_eq [OF \<open>eq q k\<close>])
      have "j < i" using j(2,3) p(2) SlotNull Suc.prems(2) h by (metis slot.distinct(3) nat_neq_iff)
      with Suc.prems(5) j(2) p(2) h \<open>eq q k\<close> show False by auto
    qed
    show ?thesis
    proof (cases avail)
      case None
      with SlotNull no path pos show ?thesis by (simp add: slot_is_filled_def)
    next
      case (Some a)
      with SlotNull no Suc.prems(6) show ?thesis by (simp add: slot_is_filled_def)
    qed
  next
    case SlotSentinel
    have "case probe matches slots ((pos + 1) mod ?n) left (case avail of None \<Rightarrow> Some pos | Some a \<Rightarrow> Some a) of
      Found p \<Rightarrow> p < length slots \<and> (\<exists>q. slots ! p = Key q \<and> eq q k)
    | Empty a \<Rightarrow> a < length slots \<and> \<not> slot_is_filled (slots ! a) \<and> on_path slots (hash k) a \<and>
        (\<forall>q \<in> keys_of slots. \<not> eq q k)
    | Wrapped (Some a) \<Rightarrow> a < length slots \<and> \<not> slot_is_filled (slots ! a) \<and> on_path slots (hash k) a \<and>
        (\<forall>q \<in> keys_of slots. \<not> eq q k)
    | Wrapped None \<Rightarrow> (\<forall>s \<in> set slots. slot_is_filled s) \<and> (\<forall>q \<in> keys_of slots. \<not> eq q k)"
      by (rule Suc.IH [OF _ next_pos])
        (use Suc.prems SlotSentinel path pos in \<open>auto simp: less_Suc_eq split: option.splits\<close>)
    with SlotSentinel show ?thesis by simp
  next
    case (Key q)
    have m: "matches q \<longleftrightarrow> eq q k" using assms(2) Key pos by (metis nth_mem)
    show ?thesis
    proof (cases "matches q")
      case True
      with Key m pos show ?thesis by simp
    next
      case False
      have "case probe matches slots ((pos + 1) mod ?n) left avail of
      Found p \<Rightarrow> p < length slots \<and> (\<exists>q. slots ! p = Key q \<and> eq q k)
    | Empty a \<Rightarrow> a < length slots \<and> \<not> slot_is_filled (slots ! a) \<and> on_path slots (hash k) a \<and>
        (\<forall>q \<in> keys_of slots. \<not> eq q k)
    | Wrapped (Some a) \<Rightarrow> a < length slots \<and> \<not> slot_is_filled (slots ! a) \<and> on_path slots (hash k) a \<and>
        (\<forall>q \<in> keys_of slots. \<not> eq q k)
    | Wrapped None \<Rightarrow> (\<forall>s \<in> set slots. slot_is_filled s) \<and> (\<forall>q \<in> keys_of slots. \<not> eq q k)"
        by (rule Suc.IH [OF _ next_pos])
          (use Suc.prems Key False m in \<open>auto simp: less_Suc_eq split: option.splits\<close>)
      with Key False show ?thesis by simp
    qed
  qed
qed

text \<open>The whole search, from the slot of the hash.\<close>

lemma probe_spec:
  assumes "slots_inv eq hash slots" and "\<And>q. Key q \<in> set slots \<Longrightarrow> matches q \<longleftrightarrow> eq q k" and "0 < length slots"
  shows "case probe matches slots (hash k mod length slots) (length slots) None of
      Found p \<Rightarrow> p < length slots \<and> (\<exists>q. slots ! p = Key q \<and> eq q k)
    | Empty a \<Rightarrow> a < length slots \<and> \<not> slot_is_filled (slots ! a) \<and> on_path slots (hash k) a \<and>
        (\<forall>q \<in> keys_of slots. \<not> eq q k)
    | Wrapped (Some a) \<Rightarrow> a < length slots \<and> \<not> slot_is_filled (slots ! a) \<and> on_path slots (hash k) a \<and>
        (\<forall>q \<in> keys_of slots. \<not> eq q k)
    | Wrapped None \<Rightarrow> (\<forall>s \<in> set slots. slot_is_filled s) \<and> (\<forall>q \<in> keys_of slots. \<not> eq q k)"
  by (rule probe_from [where i = 0]) (use assms in simp_all)

lemma slots_inv_fresh: "slots_inv eq hash (replicate n SlotNull)"
  by (simp add: slots_inv_def)

text \<open>A key that is not in the table is stored in a free slot of its path.\<close>

lemma slots_inv_insert:
  assumes "slots_inv eq hash slots" and "a < length slots" and "\<not> slot_is_filled (slots ! a)"
    and "on_path slots (hash k) a" and "\<forall>q \<in> keys_of slots. \<not> eq q k"
  shows "slots_inv eq hash (slots[a := Key k])"
proof -
  have no: "\<not> eq q k \<and> \<not> eq k q" if "slots ! p = Key q" "p < length slots" for p q
    using assms(5) that eq_sym unfolding keys_of_def by (metis mem_Collect_eq nth_mem)
  have path: "on_path (slots[a := Key k]) h p" if "on_path slots h p" for h p
    using that assms(2) unfolding on_path_def by (auto simp: nth_list_update)
  show ?thesis
    unfolding slots_inv_def length_list_update
  proof (intro conjI allI impI)
    fix p q c d
    assume pq: "p < length slots" "q < length slots" "slots[a := Key k] ! p = Key c" "slots[a := Key k] ! q = Key d" "eq c d"
    then show "p = q"
      using assms(1,2) no [of p c] no [of q d] unfolding slots_inv_def by (auto simp: nth_list_update split: if_splits)
  next
    fix p c
    assume "p < length slots" "slots[a := Key k] ! p = Key c"
    then show "on_path (slots[a := Key k]) (hash c) p"
      using assms(1,2,4) path unfolding slots_inv_def by (auto simp: nth_list_update split: if_splits)
  qed
qed

text \<open>A key is deleted: an empty slot may replace it only where no path goes on behind it.\<close>

lemma slots_inv_delete:
  assumes "slots_inv eq hash slots" and "p < length slots" and "slots ! p = Key k"
  shows "slots_inv eq hash (slots[p := deleted_slot slots p])"
proof -
  let ?n = "length slots" and ?s = "deleted_slot slots p"
  have upd: "x \<noteq> p \<and> slots ! x = Key c" if "x < ?n" "slots[p := ?s] ! x = Key c" for x c
    using that by (cases "x = p") (simp_all add: deleted_slot_def split: if_splits)
  have path: "on_path (slots[p := ?s]) (hash c) q"
    if q: "q < ?n" "slots ! q = Key c" "q \<noteq> p" for q c
  proof -
    obtain j where j: "j < ?n" "q = (hash c + j) mod ?n" "\<forall>i < j. slots ! ((hash c + i) mod ?n) \<noteq> SlotNull"
      using assms(1) q unfolding slots_inv_def on_path_def by blast
    have "slots[p := ?s] ! ((hash c + i) mod ?n) \<noteq> SlotNull" if "i < j" for i
    proof (cases "(hash c + i) mod ?n = p")
      case True
      have "(p + 1) mod ?n = (hash c + Suc i) mod ?n" using True by (simp flip: True add: mod_simps)
      moreover have "slots ! ((hash c + Suc i) mod ?n) \<noteq> SlotNull"
      proof (cases "Suc i = j")
        case True
        with j(2) q(2) show ?thesis by simp
      next
        case False
        with that have "Suc i < j" by simp
        with j(3) show ?thesis by blast
      qed
      ultimately show ?thesis using True assms(2) by (simp add: deleted_slot_def)
    next
      case False
      with j that show ?thesis by simp
    qed
    with j show ?thesis unfolding on_path_def by auto
  qed
  show ?thesis
    unfolding slots_inv_def length_list_update
  proof (intro conjI allI impI)
    fix x y c d
    assume "x < ?n" "y < ?n" "slots[p := ?s] ! x = Key c" "slots[p := ?s] ! y = Key d" "eq c d"
    with upd have "slots ! x = Key c" "slots ! y = Key d" by blast+
    then show "x = y"
      using assms(1) \<open>x < ?n\<close> \<open>y < ?n\<close> \<open>eq c d\<close> unfolding slots_inv_def by blast
  next
    fix x c
    assume "x < ?n" "slots[p := ?s] ! x = Key c"
    with upd path show "on_path (slots[p := ?s]) (hash c) x" by blast
  qed
qed

text \<open>A key is marked as deleted: every path goes on as before.\<close>

lemma slots_inv_sentinel:
  assumes "slots_inv eq hash slots" and "p < length slots"
  shows "slots_inv eq hash (slots[p := SlotSentinel])"
proof -
  have upd: "x \<noteq> p \<and> slots ! x = Key c" if "x < length slots" "slots[p := SlotSentinel] ! x = Key c" for x c
    using that by (cases "x = p") simp_all
  have path: "on_path (slots[p := SlotSentinel]) h q" if "on_path slots h q" for h q
    using that assms(2) unfolding on_path_def by (auto simp: nth_list_update)
  show ?thesis
    unfolding slots_inv_def length_list_update
  proof (intro conjI allI impI)
    fix x y c d
    assume xy: "x < length slots" "y < length slots" "slots[p := SlotSentinel] ! x = Key c"
      "slots[p := SlotSentinel] ! y = Key d" "eq c d"
    with upd have "slots ! x = Key c" "slots ! y = Key d" by blast+
    then show "x = y" using assms(1) xy(1,2,5) unfolding slots_inv_def by blast
  next
    fix x c
    assume x: "x < length slots" "slots[p := SlotSentinel] ! x = Key c"
    with upd have "slots ! x = Key c" by blast
    then show "on_path (slots[p := SlotSentinel]) (hash c) x"
      using assms(1) x(1) path unfolding slots_inv_def by blast
  qed
qed

end

section \<open>Keys and their number\<close>

lemma slot_is_filled_iff: "slot_is_filled s \<longleftrightarrow> (\<exists>q. s = Key q)"
  by (cases s) (auto simp: slot_is_filled_def)

lemma slot_is_filled_simps [simp]:
  "slot_is_filled (Key q)" "\<not> slot_is_filled SlotNull" "\<not> slot_is_filled SlotSentinel"
  by (simp_all add: slot_is_filled_def)

lemma deleted_slot_not_filled [simp]: "\<not> slot_is_filled (deleted_slot slots p)"
  by (simp add: deleted_slot_def)

lemma n_keys_le: "n_keys slots \<le> length slots"
  by (simp add: n_keys_def)

lemma n_keys_full: "\<forall>s \<in> set slots. slot_is_filled s \<Longrightarrow> n_keys slots = length slots"
  by (simp add: n_keys_def filter_id_conv)

lemma n_keys_fresh [simp]: "n_keys (replicate n SlotNull) = 0"
  by (simp add: n_keys_def)

lemma n_keys_update:
  "p < length slots \<Longrightarrow>
   n_keys (slots[p := s]) + of_bool (slot_is_filled (slots ! p)) = n_keys slots + of_bool (slot_is_filled s)"
proof (induction slots arbitrary: p)
  case (Cons x slots)
  then show ?case by (cases p) (auto simp: n_keys_def)
qed simp

lemma keys_of_update:
  assumes "p < length slots"
  shows "keys_of (slots[p := Key k]) \<subseteq> insert k (keys_of slots)" and "k \<in> keys_of (slots[p := Key k])"
    and "\<not> slot_is_filled (slots ! p) \<Longrightarrow> keys_of (slots[p := Key k]) = insert k (keys_of slots)"
proof -
  show s: "keys_of (slots[p := Key k]) \<subseteq> insert k (keys_of slots)"
    using set_update_subset_insert [of slots p "Key k"] by (auto simp: keys_of_def)
  show i: "k \<in> keys_of (slots[p := Key k])"
    using assms by (simp add: keys_of_def set_update_memI)
  assume nf: "\<not> slot_is_filled (slots ! p)"
  have "q \<in> keys_of (slots[p := Key k])" if "q \<in> keys_of slots" for q
  proof -
    from that have "Key q \<in> set slots" by (simp add: keys_of_def)
    then obtain x where "x < length slots" "slots ! x = Key q" unfolding in_set_conv_nth by blast
    moreover from this nf have "x \<noteq> p" by auto
    ultimately have "slots[p := Key k] ! x = Key q" "x < length (slots[p := Key k])" by simp_all
    then show ?thesis unfolding keys_of_def by (metis mem_Collect_eq nth_mem)
  qed
  with s i show "keys_of (slots[p := Key k]) = insert k (keys_of slots)" by blast
qed

lemma keys_of_fresh [simp]: "keys_of (replicate n SlotNull) = {}"
  by (auto simp: keys_of_def)

lemma keys_of_Cons: "keys_of (s # ss) = (case s of Key q \<Rightarrow> insert q (keys_of ss) | _ \<Rightarrow> keys_of ss)"
  by (auto simp: keys_of_def split: slot.split)

lemma n_keys_Cons: "n_keys (s # ss) = (case s of Key q \<Rightarrow> Suc (n_keys ss) | _ \<Rightarrow> n_keys ss)"
  by (auto simp: n_keys_def split: slot.split)

text \<open>Slots that hold no two equal keys, by position in the list.\<close>

fun uniq_slots :: "('k \<Rightarrow> 'k \<Rightarrow> bool) \<Rightarrow> 'k slot list \<Rightarrow> bool" where
  "uniq_slots eq [] \<longleftrightarrow> True"
| "uniq_slots eq (Key q # ss) \<longleftrightarrow> (\<forall>q' \<in> keys_of ss. \<not> eq q' q) \<and> uniq_slots eq ss"
| "uniq_slots eq (SlotNull # ss) \<longleftrightarrow> uniq_slots eq ss"
| "uniq_slots eq (SlotSentinel # ss) \<longleftrightarrow> uniq_slots eq ss"

context hash_keys
begin

lemma uniq_slotsI:
  "(\<And>p q a b. p < length ss \<Longrightarrow> q < length ss \<Longrightarrow> ss ! p = Key a \<Longrightarrow> ss ! q = Key b \<Longrightarrow>
     eq a b \<Longrightarrow> p = q) \<Longrightarrow> uniq_slots eq ss"
proof (induction ss)
  case (Cons s ss)
  have rest: "uniq_slots eq ss"
  proof (rule Cons.IH)
    fix x y a b
    assume "x < length ss" "y < length ss" "ss ! x = Key a" "ss ! y = Key b" "eq a b"
    then show "x = y" using Cons.prems [of "Suc x" "Suc y" a b] by simp
  qed
  show ?case
  proof (cases s)
    case (Key q)
    have "\<not> eq q' q" if "q' \<in> keys_of ss" for q'
    proof
      assume eq: "eq q' q"
      from that obtain x where "x < length ss" "ss ! x = Key q'" by (auto simp: keys_of_def in_set_conv_nth)
      then show False using Cons.prems [of "Suc x" 0 q' q] Key eq by simp
    qed
    with rest Key show ?thesis by simp
  qed (use rest in simp_all)
qed simp

lemma uniq_slots_inv: "slots_inv eq hash ss \<Longrightarrow> uniq_slots eq ss"
  by (rule uniq_slotsI) (simp add: slots_inv_def)

end

end
