(* ===== verification/MpMap.thy ===== *)
theory MpMap
  imports HashProbe "HOL-Library.Monad_Syntax"
begin

text \<open>
  \<open>mp_map_t\<close> and \<open>mp_set_t\<close> of \<open>py/map.c\<close>: hash tables and ordered arrays of key and value pairs,
  with their lookup that finds, adds or removes, and its rehashing. A pointer to a slot is the
  slot's index; \<open>None\<close> as the result of an operation is a failed assertion, the use of a marker as
  an object, or a nesting of rehashes that no table needs.
\<close>

section \<open>Objects as keys, and the table\<close>

text \<open>
  What a lookup asks of the objects it is given: the tests for interned and other strings,
  \<open>MP_UNARY_OP_HASH\<close> and \<open>mp_obj_equal\<close>. Equality of the model is identity of pointers.
\<close>

record 'k obj_ops =
  is_qstr :: "'k \<Rightarrow> bool"
  is_str :: "'k \<Rightarrow> bool"
  obj_hash :: "'k \<Rightarrow> nat"
  obj_equal :: "'k \<Rightarrow> 'k \<Rightarrow> bool"

text \<open>
  \<open>table\<close> has \<open>alloc\<close> elements, so \<open>alloc\<close> is its length. The value \<open>None\<close> is \<open>MP_OBJ_NULL\<close>.
\<close>

type_synonym ('k, 'v) mp_map_elem = "'k slot \<times> 'v option"

record ('k, 'v) mp_map =
  all_keys_are_qstrs :: bool
  is_fixed :: bool
  is_ordered :: bool
  used :: nat
  table :: "('k, 'v) mp_map_elem list"

datatype mp_map_lookup_kind =
    MP_MAP_LOOKUP
  | MP_MAP_LOOKUP_ADD_IF_NOT_FOUND
  | MP_MAP_LOOKUP_REMOVE_IF_FOUND
  | MP_MAP_LOOKUP_ADD_IF_NOT_FOUND_OR_REMOVE_IF_FOUND

definition mp_map_init :: "nat \<Rightarrow> ('k, 'v) mp_map" where
  "mp_map_init n =
     \<lparr> all_keys_are_qstrs = True, is_fixed = False, is_ordered = False, used = 0,
       table = replicate n (SlotNull, None) \<rparr>"

definition mp_map_init_fixed_table :: "('k, 'v) mp_map_elem list \<Rightarrow> ('k, 'v) mp_map" where
  "mp_map_init_fixed_table t =
     \<lparr> all_keys_are_qstrs = True, is_fixed = True, is_ordered = True, used = length t, table = t \<rparr>"

definition mp_map_deinit :: "('k, 'v) mp_map \<Rightarrow> ('k, 'v) mp_map" where
  "mp_map_deinit m = m\<lparr>used := 0, table := []\<rparr>"

definition mp_map_clear :: "('k, 'v) mp_map \<Rightarrow> ('k, 'v) mp_map" where
  "mp_map_clear m = m\<lparr>used := 0, all_keys_are_qstrs := True, is_fixed := False, table := []\<rparr>"

text \<open>\<open>elem->value = v\<close> for the element at \<open>pos\<close>.\<close>

definition mp_map_set_value :: "('k, 'v) mp_map \<Rightarrow> nat \<Rightarrow> 'v option \<Rightarrow> ('k, 'v) mp_map" where
  "mp_map_set_value m pos v = m\<lparr>table := (table m)[pos := (fst (table m ! pos), v)]\<rparr>"

section \<open>Lookup in an ordered array\<close>

text \<open>
  The search over the elements in use. Comparing a marker by \<open>mp_obj_equal\<close> would follow it as a
  pointer: \<open>None\<close>.
\<close>

fun mp_map_ordered_find ::
  "'k obj_ops \<Rightarrow> bool \<Rightarrow> 'k \<Rightarrow> ('k, 'v) mp_map_elem list \<Rightarrow> nat \<Rightarrow> nat option option" where
  "mp_map_ordered_find ops only_ptrs index [] i = Some None"
| "mp_map_ordered_find ops only_ptrs index ((Key q, v) # es) i =
     (if q = index \<or> (\<not> only_ptrs \<and> obj_equal ops q index) then Some (Some i)
      else mp_map_ordered_find ops only_ptrs index es (i + 1))"
| "mp_map_ordered_find ops only_ptrs index ((s, v) # es) i =
     (if only_ptrs then mp_map_ordered_find ops only_ptrs index es (i + 1) else None)"

text \<open>The element at \<open>i\<close> is removed and put behind the elements that are left, with an empty key.\<close>

definition mp_map_ordered_remove :: "('k, 'v) mp_map \<Rightarrow> nat \<Rightarrow> ('k, 'v) mp_map" where
  "mp_map_ordered_remove m i =
     (let n = used m - 1; t = table m
      in m\<lparr>used := n,
           table := take i t @ take (n - i) (drop (i + 1) t) @ [(SlotNull, snd (t ! i))] @ drop (n + 1) t\<rparr>)"

text \<open>The new element keeps the value its slot had.\<close>

definition mp_map_ordered_add :: "'k obj_ops \<Rightarrow> ('k, 'v) mp_map \<Rightarrow> 'k \<Rightarrow> ('k, 'v) mp_map" where
  "mp_map_ordered_add ops m index =
     (let t = (if used m = length (table m) then table m @ replicate 4 (SlotNull, None) else table m)
      in m\<lparr>used := used m + 1, table := t[used m := (Key index, snd (t ! used m))],
           all_keys_are_qstrs := all_keys_are_qstrs m \<and> is_qstr ops index\<rparr>)"

definition mp_map_ordered_lookup ::
  "'k obj_ops \<Rightarrow> bool \<Rightarrow> ('k, 'v) mp_map \<Rightarrow> 'k \<Rightarrow> mp_map_lookup_kind \<Rightarrow> (('k, 'v) mp_map \<times> nat option) option" where
  "mp_map_ordered_lookup ops only_ptrs m index kind = do {
     found \<leftarrow> mp_map_ordered_find ops only_ptrs index (take (used m) (table m)) 0;
     case found of
       Some i \<Rightarrow>
         (if kind = MP_MAP_LOOKUP_REMOVE_IF_FOUND
          then Some (mp_map_ordered_remove m i, Some (used m - 1))
          else Some (m, Some i))
     | None \<Rightarrow>
         (if kind \<noteq> MP_MAP_LOOKUP_ADD_IF_NOT_FOUND then Some (m, None)
          else Some (mp_map_ordered_add ops m index, Some (used m))) }"

section \<open>Lookup in a hash table\<close>

definition mp_map_add_at :: "'k obj_ops \<Rightarrow> ('k, 'v) mp_map \<Rightarrow> nat \<Rightarrow> 'k \<Rightarrow> ('k, 'v) mp_map" where
  "mp_map_add_at ops m pos index =
     m\<lparr>used := used m + 1, table := (table m)[pos := (Key index, None)],
       all_keys_are_qstrs := all_keys_are_qstrs m \<and> is_qstr ops index\<rparr>"

definition mp_map_remove_at :: "('k, 'v) mp_map \<Rightarrow> nat \<Rightarrow> ('k, 'v) mp_map" where
  "mp_map_remove_at m pos =
     m\<lparr>used := used m - 1,
       table := (table m)[pos := (deleted_slot (map fst (table m)) pos, snd (table m ! pos))]\<rparr>"

text \<open>
  The search with what it does where it ends; \<open>rehash\<close> is called when the table is full, and the
  search starts again in the new one. The count bounds how often.
\<close>

fun mp_map_search ::
  "nat \<Rightarrow> (('k, 'v) mp_map \<Rightarrow> ('k, 'v) mp_map option) \<Rightarrow> 'k obj_ops \<Rightarrow> bool \<Rightarrow> ('k, 'v) mp_map \<Rightarrow> 'k \<Rightarrow>
   mp_map_lookup_kind \<Rightarrow> (('k, 'v) mp_map \<times> nat option) option" where
  "mp_map_search 0 rehash ops only_ptrs m index kind = None"
| "mp_map_search (Suc n) rehash ops only_ptrs m index kind =
     (case probe (\<lambda>q. q = index \<or> (\<not> only_ptrs \<and> obj_equal ops q index)) (map fst (table m))
              (obj_hash ops index mod length (table m)) (length (table m)) None of
        Found pos \<Rightarrow>
          Some (if kind = MP_MAP_LOOKUP_REMOVE_IF_FOUND then mp_map_remove_at m pos else m, Some pos)
      | Empty a \<Rightarrow>
          (if kind = MP_MAP_LOOKUP_ADD_IF_NOT_FOUND then Some (mp_map_add_at ops m a index, Some a)
           else Some (m, None))
      | Wrapped avail \<Rightarrow>
          (if kind = MP_MAP_LOOKUP_ADD_IF_NOT_FOUND then
             (case avail of
                Some a \<Rightarrow> Some (mp_map_add_at ops m a index, Some a)
              | None \<Rightarrow> rehash m \<bind> (\<lambda>m. mp_map_search n rehash ops only_ptrs m index kind))
           else Some (m, None)))"

text \<open>\<open>mp_map_rehash\<close>, with the lookup that adds an element to the new table as a parameter.\<close>

definition mp_map_rehash_elem ::
  "(('k, 'v) mp_map \<Rightarrow> 'k \<Rightarrow> (('k, 'v) mp_map \<times> nat option) option) \<Rightarrow> ('k, 'v) mp_map_elem \<Rightarrow>
   ('k, 'v) mp_map option \<Rightarrow> ('k, 'v) mp_map option" where
  "mp_map_rehash_elem add e r =
     (case fst e of
        Key q \<Rightarrow> do {
          m \<leftarrow> r;
          (m, slot) \<leftarrow> add m q;
          pos \<leftarrow> slot;
          Some (mp_map_set_value m pos (snd e)) }
      | _ \<Rightarrow> r)"

text \<open>
  \<open>mem\<close> says of which sizes the allocator has a table; where it has none, \<open>m_new0\<close> raises \<open>MemoryError\<close>
  and \<open>Inl\<close> is the map that is left: nothing has been written yet.
\<close>

definition mp_map_rehash_mem ::
  "(nat \<Rightarrow> bool) \<Rightarrow> (('k, 'v) mp_map \<Rightarrow> 'k \<Rightarrow> (('k, 'v) mp_map \<times> nat option) option) \<Rightarrow> ('k, 'v) mp_map \<Rightarrow>
   ('k, 'v) mp_map + ('k, 'v) mp_map option" where
  "mp_map_rehash_mem mem add m =
     (let new_alloc = get_hash_alloc_greater_or_equal_to (length (table m) + 1)
      in if \<not> mem new_alloc then Inl m
         else Inr (fold (mp_map_rehash_elem add) (table m)
           (Some (m\<lparr>used := 0, all_keys_are_qstrs := True, table := replicate new_alloc (SlotNull, None)\<rparr>))))"

text \<open>The run in which the memory does not run out, which the lookups below use.\<close>

definition mp_map_rehash ::
  "(('k, 'v) mp_map \<Rightarrow> 'k \<Rightarrow> (('k, 'v) mp_map \<times> nat option) option) \<Rightarrow> ('k, 'v) mp_map \<Rightarrow>
   ('k, 'v) mp_map option" where
  "mp_map_rehash add m = (case mp_map_rehash_mem (\<lambda>_. True) add m of Inl m \<Rightarrow> None | Inr r \<Rightarrow> r)"

lemma mp_map_rehash_mem_cases:
  "mp_map_rehash_mem mem add m = Inl m \<or> mp_map_rehash_mem mem add m = Inr (mp_map_rehash add m)"
  by (simp add: mp_map_rehash_mem_def mp_map_rehash_def Let_def)

text \<open>
  \<open>mp_map_lookup\<close>: the first argument bounds the nesting of the lookups that rehashing makes; 2 is
  enough, since the new table has a free slot for every element.
\<close>

fun mp_map_lookup_n ::
  "nat \<Rightarrow> 'k obj_ops \<Rightarrow> ('k, 'v) mp_map \<Rightarrow> 'k \<Rightarrow> mp_map_lookup_kind \<Rightarrow> (('k, 'v) mp_map \<times> nat option) option" where
  "mp_map_lookup_n 0 ops m index kind = None"
| "mp_map_lookup_n (Suc n) ops m index kind =
     (let rehash = mp_map_rehash (\<lambda>m k. mp_map_lookup_n n ops m k MP_MAP_LOOKUP_ADD_IF_NOT_FOUND);
          only_ptrs = all_keys_are_qstrs m \<and> \<not> (\<not> is_qstr ops index \<and> is_str ops index)
      in if \<not> (\<not> is_fixed m \<or> kind = MP_MAP_LOOKUP) then None
         else if all_keys_are_qstrs m \<and> \<not> is_qstr ops index \<and> \<not> is_str ops index
           \<and> kind \<noteq> MP_MAP_LOOKUP_ADD_IF_NOT_FOUND then Some (m, None)
         else if is_ordered m then mp_map_ordered_lookup ops only_ptrs m index kind
         else if table m = [] then
           (if kind = MP_MAP_LOOKUP_ADD_IF_NOT_FOUND
            then rehash m \<bind> (\<lambda>m. mp_map_search 2 rehash ops only_ptrs m index kind)
            else Some (m, None))
         else mp_map_search 2 rehash ops only_ptrs m index kind)"

definition mp_map_lookup ::
  "'k obj_ops \<Rightarrow> ('k, 'v) mp_map \<Rightarrow> 'k \<Rightarrow> mp_map_lookup_kind \<Rightarrow> (('k, 'v) mp_map \<times> nat option) option" where
  "mp_map_lookup ops m index kind = mp_map_lookup_n 2 ops m index kind"

section \<open>Sets\<close>

text \<open>A set is a table of keys; the result of a lookup is the element or \<open>None\<close> for \<open>MP_OBJ_NULL\<close>.\<close>

record 'k mp_set =
  set_used :: nat
  set_table :: "'k slot list"

definition kind_adds :: "mp_map_lookup_kind \<Rightarrow> bool" where
  "kind_adds kind \<longleftrightarrow>
     kind = MP_MAP_LOOKUP_ADD_IF_NOT_FOUND \<or> kind = MP_MAP_LOOKUP_ADD_IF_NOT_FOUND_OR_REMOVE_IF_FOUND"

definition kind_removes :: "mp_map_lookup_kind \<Rightarrow> bool" where
  "kind_removes kind \<longleftrightarrow>
     kind = MP_MAP_LOOKUP_REMOVE_IF_FOUND \<or> kind = MP_MAP_LOOKUP_ADD_IF_NOT_FOUND_OR_REMOVE_IF_FOUND"

definition mp_set_init :: "nat \<Rightarrow> 'k mp_set" where
  "mp_set_init n = \<lparr> set_used = 0, set_table = replicate n SlotNull \<rparr>"

definition mp_set_add_at :: "'k mp_set \<Rightarrow> nat \<Rightarrow> 'k \<Rightarrow> 'k mp_set" where
  "mp_set_add_at s pos index = s\<lparr>set_used := set_used s + 1, set_table := (set_table s)[pos := Key index]\<rparr>"

definition mp_set_remove_at :: "'k mp_set \<Rightarrow> nat \<Rightarrow> 'k mp_set" where
  "mp_set_remove_at s pos =
     s\<lparr>set_used := set_used s - 1, set_table := (set_table s)[pos := deleted_slot (set_table s) pos]\<rparr>"

fun slot_key :: "'k slot \<Rightarrow> 'k option" where
  "slot_key (Key q) = Some q"
| "slot_key _ = None"

fun mp_set_search ::
  "nat \<Rightarrow> ('k mp_set \<Rightarrow> 'k mp_set option) \<Rightarrow> 'k obj_ops \<Rightarrow> 'k mp_set \<Rightarrow> 'k \<Rightarrow> mp_map_lookup_kind \<Rightarrow>
   ('k mp_set \<times> 'k option) option" where
  "mp_set_search 0 rehash ops s index kind = None"
| "mp_set_search (Suc n) rehash ops s index kind =
     (case probe (\<lambda>q. obj_equal ops q index) (set_table s)
              (obj_hash ops index mod length (set_table s)) (length (set_table s)) None of
        Found pos \<Rightarrow> Some (if kind_removes kind then mp_set_remove_at s pos else s, slot_key (set_table s ! pos))
      | Empty a \<Rightarrow>
          (if kind_adds kind then Some (mp_set_add_at s a index, Some index) else Some (s, None))
      | Wrapped avail \<Rightarrow>
          (if kind_adds kind then
             (case avail of
                Some a \<Rightarrow> Some (mp_set_add_at s a index, Some index)
              | None \<Rightarrow> rehash s \<bind> (\<lambda>s. mp_set_search n rehash ops s index kind))
           else Some (s, None)))"

definition mp_set_rehash_elem ::
  "('k mp_set \<Rightarrow> 'k \<Rightarrow> ('k mp_set \<times> 'k option) option) \<Rightarrow> 'k slot \<Rightarrow> 'k mp_set option \<Rightarrow> 'k mp_set option" where
  "mp_set_rehash_elem add e r =
     (case e of Key q \<Rightarrow> r \<bind> (\<lambda>s. map_option fst (add s q)) | _ \<Rightarrow> r)"

text \<open>
  The fields of a set as they are while \<open>mp_set_rehash\<close> asks for memory: \<open>alloc\<close> and \<open>used\<close> are those of the
  new table already. Where \<open>mem\<close> has no table of that size, \<open>MemoryError\<close> leaves this behind.
\<close>

record 'k mp_set_raised =
  raised_alloc :: nat
  raised_used :: nat
  raised_table :: "'k slot list"

definition mp_set_rehash_mem ::
  "(nat \<Rightarrow> bool) \<Rightarrow> ('k mp_set \<Rightarrow> 'k \<Rightarrow> ('k mp_set \<times> 'k option) option) \<Rightarrow> 'k mp_set \<Rightarrow>
   'k mp_set_raised + 'k mp_set option" where
  "mp_set_rehash_mem mem add s =
     (let new_alloc = get_hash_alloc_greater_or_equal_to (length (set_table s) + 1)
      in if \<not> mem new_alloc then Inl \<lparr> raised_alloc = new_alloc, raised_used = 0, raised_table = set_table s \<rparr>
         else Inr (fold (mp_set_rehash_elem add) (set_table s) (Some (mp_set_init new_alloc))))"

definition mp_set_rehash ::
  "('k mp_set \<Rightarrow> 'k \<Rightarrow> ('k mp_set \<times> 'k option) option) \<Rightarrow> 'k mp_set \<Rightarrow> 'k mp_set option" where
  "mp_set_rehash add s = (case mp_set_rehash_mem (\<lambda>_. True) add s of Inl r \<Rightarrow> None | Inr r \<Rightarrow> r)"

text \<open>
  Unlike a map, a set that meets a \<open>MemoryError\<close> is broken: it counts as empty, and its \<open>alloc\<close> goes beyond
  the end of its table.
\<close>

lemma mp_set_rehash_mem_cases:
  "case mp_set_rehash_mem mem add s of
     Inl r \<Rightarrow> raised_used r = 0 \<and> raised_table r = set_table s \<and> length (set_table s) < raised_alloc r
   | Inr r \<Rightarrow> r = mp_set_rehash add s"
  using get_hash_alloc_ge [of "length (set_table s) + 1"]
  by (simp add: mp_set_rehash_mem_def mp_set_rehash_def Let_def)

fun mp_set_lookup_n ::
  "nat \<Rightarrow> 'k obj_ops \<Rightarrow> 'k mp_set \<Rightarrow> 'k \<Rightarrow> mp_map_lookup_kind \<Rightarrow> ('k mp_set \<times> 'k option) option" where
  "mp_set_lookup_n 0 ops s index kind = None"
| "mp_set_lookup_n (Suc n) ops s index kind =
     (let rehash = mp_set_rehash (\<lambda>s k. mp_set_lookup_n n ops s k MP_MAP_LOOKUP_ADD_IF_NOT_FOUND)
      in if set_table s = [] then
           (if kind_adds kind then rehash s \<bind> (\<lambda>s. mp_set_search 2 rehash ops s index kind)
            else Some (s, None))
         else mp_set_search 2 rehash ops s index kind)"

definition mp_set_lookup :: "'k obj_ops \<Rightarrow> 'k mp_set \<Rightarrow> 'k \<Rightarrow> mp_map_lookup_kind \<Rightarrow> ('k mp_set \<times> 'k option) option" where
  "mp_set_lookup ops s index kind = mp_set_lookup_n 2 ops s index kind"

fun mp_set_first :: "'k slot list \<Rightarrow> nat \<Rightarrow> nat option" where
  "mp_set_first [] pos = None"
| "mp_set_first (e # es) pos = (if slot_is_filled e then Some pos else mp_set_first es (pos + 1))"

definition mp_set_remove_first :: "'k mp_set \<Rightarrow> 'k mp_set \<times> 'k option" where
  "mp_set_remove_first s =
     (case mp_set_first (set_table s) 0 of
        Some pos \<Rightarrow> (mp_set_remove_at s pos, slot_key (set_table s ! pos))
      | None \<Rightarrow> (s, None))"

definition mp_set_clear :: "'k mp_set \<Rightarrow> 'k mp_set" where
  "mp_set_clear s = \<lparr> set_used = 0, set_table = [] \<rparr>"

end
