(* ===== verification/MapLaws.thy ===== *)
theory MapLaws
  imports MpMap
begin

text \<open>
  What \<open>mp_map_lookup\<close> promises of a hash table: it is a partial map up to \<open>mp_obj_equal\<close>, every lookup
  returns, and every lookup keeps the invariant of the table.
\<close>

section \<open>The table as a partial map\<close>

text \<open>The value of the element whose key equals \<open>k\<close>; an element may hold \<open>MP_OBJ_NULL\<close> as its value.\<close>

definition elem_of :: "('k \<Rightarrow> 'k \<Rightarrow> bool) \<Rightarrow> ('k, 'v) mp_map_elem list \<Rightarrow> 'k \<Rightarrow> 'v option option" where
  "elem_of eq t k =
     map_option snd (List.find (\<lambda>e. case fst e of Key q \<Rightarrow> eq q k | _ \<Rightarrow> False) t)"

definition map_abs :: "'k obj_ops \<Rightarrow> ('k, 'v) mp_map \<Rightarrow> 'k \<Rightarrow> 'v option option" where
  "map_abs ops m = elem_of (obj_equal ops) (table m)"

definition map_inv :: "'k obj_ops \<Rightarrow> ('k, 'v) mp_map \<Rightarrow> bool" where
  "map_inv ops m \<longleftrightarrow>
     \<not> is_ordered m \<and> \<not> is_fixed m \<and>
     slots_inv (obj_equal ops) (obj_hash ops) (map fst (table m)) \<and>
     used m = n_keys (map fst (table m)) \<and>
     (all_keys_are_qstrs m \<longrightarrow> (\<forall>q \<in> keys_of (map fst (table m)). is_qstr ops q))"

text \<open>
  The contract of a lookup: what it returns, what is left in the table, and what the table means
  afterwards.
\<close>

definition map_outcome ::
  "'k obj_ops \<Rightarrow> ('k, 'v) mp_map \<Rightarrow> 'k \<Rightarrow> mp_map_lookup_kind \<Rightarrow> ('k, 'v) mp_map \<Rightarrow> nat option \<Rightarrow> bool" where
  "map_outcome ops m k kind m' r \<longleftrightarrow>
     map_inv ops m' \<and>
     (case map_abs ops m k of
        Some v \<Rightarrow>
          (\<exists>p q. r = Some p \<and> p < length (table m') \<and> obj_equal ops q k \<and> snd (table m' ! p) = v \<and>
             (if kind = MP_MAP_LOOKUP_REMOVE_IF_FOUND
              then \<not> slot_is_filled (fst (table m' ! p)) \<and> used m' + 1 = used m \<and>
                map_abs ops m' = (\<lambda>j. if obj_equal ops k j then None else map_abs ops m j)
              else m' = m \<and> fst (table m' ! p) = Key q))
      | None \<Rightarrow>
          (if kind = MP_MAP_LOOKUP_ADD_IF_NOT_FOUND
           then \<exists>p. r = Some p \<and> p < length (table m') \<and> table m' ! p = (Key k, None) \<and>
             used m' = used m + 1 \<and>
             map_abs ops m' = (\<lambda>j. if obj_equal ops k j then Some None else map_abs ops m j)
           else m' = m \<and> r = None))"

text \<open>What a set asks of its keys: equality is an equivalence that the hash respects.\<close>

locale set_objs = hash_keys "obj_equal ops" "obj_hash ops" for ops :: "'k obj_ops"

text \<open>
  What a map asks of its keys beyond what a set does: interned strings that are equal are the same
  object, and only strings equal an interned string.
\<close>

locale map_objs = set_objs ops for ops :: "'k obj_ops" +
  assumes qstr_unique: "is_qstr ops a \<Longrightarrow> is_qstr ops b \<Longrightarrow> obj_equal ops a b \<Longrightarrow> a = b"
    and qstr_equal_str: "is_qstr ops a \<Longrightarrow> obj_equal ops a b \<Longrightarrow> is_qstr ops b \<or> is_str ops b"
begin

lemma inv_unique:
  assumes "slots_inv (obj_equal ops) (obj_hash ops) (map fst t)"
    and "p < length t" "fst (t ! p) = Key a" "p' < length t" "fst (t ! p') = Key b"
    and "obj_equal ops a k" "obj_equal ops b k"
  shows "p = p'"
proof -
  have "obj_equal ops a b" using assms(6,7) eq_sym eq_trans by blast
  with assms(1-5) show ?thesis unfolding slots_inv_def by (metis length_map nth_map)
qed

lemma elem_of_at:
  assumes "slots_inv (obj_equal ops) (obj_hash ops) (map fst t)"
    and "p < length t" "fst (t ! p) = Key q" "obj_equal ops q k"
  shows "elem_of (obj_equal ops) t k = Some (snd (t ! p))"
proof -
  let ?P = "\<lambda>e :: ('k, 'v) mp_map_elem. case fst e of Key q \<Rightarrow> obj_equal ops q k | _ \<Rightarrow> False"
  have "?P (t ! p)" using assms(3,4) by simp
  then have "List.find ?P t \<noteq> None" using assms(2) by (metis find_None_iff nth_mem)
  then obtain e where e: "List.find ?P t = Some e" by blast
  then obtain p' where p': "p' < length t" "?P (t ! p')" "e = t ! p'" unfolding find_Some_iff by blast
  from p'(2) obtain b where b: "fst (t ! p') = Key b" "obj_equal ops b k" by (auto split: slot.splits)
  have "p = p'" by (rule inv_unique [OF assms(1-3) p'(1) b(1) assms(4) b(2)])
  with e p'(3) show ?thesis by (simp add: elem_of_def)
qed

lemma elem_of_None:
  "elem_of (obj_equal ops) t k = None \<longleftrightarrow> (\<forall>q \<in> keys_of (map fst t). \<not> obj_equal ops q k)"
  by (fastforce simp: elem_of_def find_None_iff keys_of_def image_iff split: slot.splits)

lemma elem_of_SomeE:
  assumes "elem_of (obj_equal ops) t k = Some v"
  obtains p q where "p < length t" "t ! p = (Key q, v)" "obj_equal ops q k"
proof -
  from assms obtain e where e: "List.find (\<lambda>e. case fst e of Key q \<Rightarrow> obj_equal ops q k | _ \<Rightarrow> False) t = Some e"
    "v = snd e" by (auto simp: elem_of_def)
  then obtain p where p: "p < length t" "e = t ! p" "case fst e of Key q \<Rightarrow> obj_equal ops q k | _ \<Rightarrow> False"
    unfolding find_Some_iff by blast
  from p(3) obtain q where q: "fst e = Key q" "obj_equal ops q k" by (auto split: slot.splits)
  with e(2) p have "t ! p = (Key q, v)" by (metis prod.collapse)
  from p(1) this q(2) show thesis by (rule that)
qed

lemma elem_of_cong:
  "obj_equal ops k j \<Longrightarrow> elem_of (obj_equal ops) t k = elem_of (obj_equal ops) t j"
proof -
  assume kj: "obj_equal ops k j"
  then have "obj_equal ops q k \<longleftrightarrow> obj_equal ops q j" for q using eq_sym eq_trans by blast
  then have "(case s of Key q \<Rightarrow> obj_equal ops q k | _ \<Rightarrow> False) = (case s of Key q \<Rightarrow> obj_equal ops q j | _ \<Rightarrow> False)"
    for s by (cases s) simp_all
  then show ?thesis unfolding elem_of_def by presburger
qed

text \<open>How the partial map changes when an element is replaced.\<close>

lemma elem_of_insert:
  assumes "slots_inv (obj_equal ops) (obj_hash ops) (map fst t)"
    and "slots_inv (obj_equal ops) (obj_hash ops) (map fst (t[p := (Key k, v)]))"
    and "p < length t" and "\<And>q. fst (t ! p) = Key q \<Longrightarrow> obj_equal ops q k"
  shows "elem_of (obj_equal ops) (t[p := (Key k, v)]) =
    (\<lambda>j. if obj_equal ops k j then Some v else elem_of (obj_equal ops) t j)"
proof
  fix j
  let ?t = "t[p := (Key k, v)]"
  show "elem_of (obj_equal ops) ?t j = (if obj_equal ops k j then Some v else elem_of (obj_equal ops) t j)"
  proof (cases "obj_equal ops k j")
    case True
    with elem_of_at [OF assms(2), of p k j] assms(3) show ?thesis by simp
  next
    case False
    have old: "q' \<noteq> p" if "q' < length t" "fst (t ! q') = Key b" "obj_equal ops b j" for q' b
      using that False assms(4) eq_trans eq_sym by metis
    show ?thesis
    proof (cases "elem_of (obj_equal ops) ?t j")
      case None
      have "\<not> obj_equal ops b j" if "b \<in> keys_of (map fst t)" for b
      proof
        assume bj: "obj_equal ops b j"
        from that have "Key b \<in> set (map fst t)" by (simp add: keys_of_def)
        then obtain q' where "q' < length (map fst t)" "map fst t ! q' = Key b" unfolding in_set_conv_nth by blast
        then have q': "q' < length t" "fst (t ! q') = Key b" by simp_all
        with old bj have "q' \<noteq> p" by blast
        with elem_of_at [OF assms(2), of q' b j] q' bj None show False by simp
      qed
      then have "elem_of (obj_equal ops) t j = None" by (simp add: elem_of_None)
      with None False show ?thesis by simp
    next
      case (Some w)
      then obtain q' b where q': "q' < length ?t" "?t ! q' = (Key b, w)" "obj_equal ops b j" by (rule elem_of_SomeE)
      with False have "q' \<noteq> p" by (auto simp: nth_list_update split: if_splits)
      with q' have "t ! q' = (Key b, w)" "q' < length t" by simp_all
      with elem_of_at [OF assms(1), of q' b j] q'(3) Some False show ?thesis by simp
    qed
  qed
qed

lemma elem_of_delete:
  assumes "slots_inv (obj_equal ops) (obj_hash ops) (map fst t)"
    and "slots_inv (obj_equal ops) (obj_hash ops) (map fst (t[p := (s, v)]))"
    and "p < length t" and "fst (t ! p) = Key k" and "\<not> slot_is_filled s"
  shows "elem_of (obj_equal ops) (t[p := (s, v)]) =
    (\<lambda>j. if obj_equal ops k j then None else elem_of (obj_equal ops) t j)"
proof
  fix j
  let ?t = "t[p := (s, v)]"
  have at: "q \<noteq> p \<and> t ! q = (Key b, w) \<and> q < length t" if "q < length ?t" "?t ! q = (Key b, w)" for q b w
    using that assms(5) by (cases "q = p") auto
  show "elem_of (obj_equal ops) ?t j = (if obj_equal ops k j then None else elem_of (obj_equal ops) t j)"
  proof (cases "elem_of (obj_equal ops) ?t j")
    case (Some w)
    then obtain q b where q: "q < length ?t" "?t ! q = (Key b, w)" "obj_equal ops b j" by (rule elem_of_SomeE)
    note q' = at [OF q(1,2)]
    have "\<not> obj_equal ops k j" using inv_unique [OF assms(1), of q b p k j] q' q(3) assms(3,4) by auto
    with Some elem_of_at [OF assms(1), of q b j] q' q(3) show ?thesis by simp
  next
    case None
    show ?thesis
    proof (cases "obj_equal ops k j \<or> elem_of (obj_equal ops) t j = None")
      case True
      with None show ?thesis by auto
    next
      case False
      then obtain w where "elem_of (obj_equal ops) t j = Some w" by auto
      then obtain q b where q: "q < length t" "t ! q = (Key b, w)" "obj_equal ops b j" by (rule elem_of_SomeE)
      with False assms(4) have "q \<noteq> p" by auto
      with elem_of_at [OF assms(2), of q b j] q have "elem_of (obj_equal ops) ?t j \<noteq> None" by simp
      with None show ?thesis by simp
    qed
  qed
qed

section \<open>The steps of a lookup\<close>

lemma map_inv_slots: "map_inv ops m \<Longrightarrow> slots_inv (obj_equal ops) (obj_hash ops) (map fst (table m))"
  by (simp add: map_inv_def)

lemma map_abs_None: "map_abs ops m k = None \<longleftrightarrow> (\<forall>q \<in> keys_of (map fst (table m)). \<not> obj_equal ops q k)"
  by (simp add: map_abs_def elem_of_None)

lemma map_add_at:
  assumes "map_inv ops m" and "a < length (table m)" and "\<not> slot_is_filled (fst (table m ! a))"
    and "on_path (map fst (table m)) (obj_hash ops k) a" and "map_abs ops m k = None"
  shows "map_inv ops (mp_map_add_at ops m a k)"
    and "map_abs ops (mp_map_add_at ops m a k) =
      (\<lambda>j. if obj_equal ops k j then Some None else map_abs ops m j)"
    and "keys_of (map fst (table (mp_map_add_at ops m a k))) = insert k (keys_of (map fst (table m)))"
proof -
  let ?ss = "map fst (table m)" and ?t = "(table m)[a := (Key k, None)]"
  have a: "a < length ?ss" "\<not> slot_is_filled (?ss ! a)" using assms(2,3) by simp_all
  have upd: "map fst ?t = ?ss[a := Key k]" by (simp add: map_update)
  have inv: "slots_inv (obj_equal ops) (obj_hash ops) (map fst ?t)"
    unfolding upd using slots_inv_insert [OF map_inv_slots [OF assms(1)] a assms(4)] assms(5)
    by (simp add: map_abs_None)
  have keys: "keys_of (map fst ?t) = insert k (keys_of ?ss)"
    unfolding upd by (rule keys_of_update(3) [OF a])
  have n: "n_keys (map fst ?t) = n_keys ?ss + 1"
    unfolding upd using n_keys_update [OF a(1), of "Key k"] a(2) by simp
  show "map_inv ops (mp_map_add_at ops m a k)"
    using assms(1) inv keys n by (simp add: map_inv_def mp_map_add_at_def)
  show "map_abs ops (mp_map_add_at ops m a k) =
      (\<lambda>j. if obj_equal ops k j then Some None else map_abs ops m j)"
    using elem_of_insert [OF map_inv_slots [OF assms(1)] inv assms(2)] assms(3)
    unfolding map_abs_def by (simp add: mp_map_add_at_def slot_is_filled_iff)
  show "keys_of (map fst (table (mp_map_add_at ops m a k))) = insert k (keys_of ?ss)"
    using keys by (simp add: mp_map_add_at_def)
qed

lemma map_remove_at:
  assumes "map_inv ops m" and "p < length (table m)" and "table m ! p = (Key q, v)"
  shows "map_inv ops (mp_map_remove_at m p)"
    and "map_abs ops (mp_map_remove_at m p) = (\<lambda>j. if obj_equal ops q j then None else map_abs ops m j)"
    and "used (mp_map_remove_at m p) + 1 = used m"
    and "\<not> slot_is_filled (fst (table (mp_map_remove_at m p) ! p))"
    and "snd (table (mp_map_remove_at m p) ! p) = v"
proof -
  let ?ss = "map fst (table m)"
  let ?s = "deleted_slot ?ss p"
  let ?t = "(table m)[p := (?s, v)]"
  have p: "p < length ?ss" "?ss ! p = Key q" using assms(2,3) by simp_all
  have upd: "map fst ?t = ?ss[p := ?s]" by (simp add: map_update)
  have inv: "slots_inv (obj_equal ops) (obj_hash ops) (map fst ?t)"
    unfolding upd by (rule slots_inv_delete [OF map_inv_slots [OF assms(1)] p])
  have keys: "keys_of (map fst ?t) \<subseteq> keys_of ?ss"
    unfolding upd keys_of_def using set_update_subset_insert [of ?ss p ?s]
    by (auto simp: deleted_slot_def split: if_splits)
  have n: "n_keys (map fst ?t) + 1 = n_keys ?ss"
    unfolding upd using n_keys_update [OF p(1), of ?s] p(2) by simp
  show "map_inv ops (mp_map_remove_at m p)"
    using assms(1,3) inv keys n by (auto simp: map_inv_def mp_map_remove_at_def)
  show "map_abs ops (mp_map_remove_at m p) = (\<lambda>j. if obj_equal ops q j then None else map_abs ops m j)"
    using elem_of_delete [OF map_inv_slots [OF assms(1)] inv assms(2)] assms(3)
    unfolding map_abs_def by (simp add: mp_map_remove_at_def)
  show "used (mp_map_remove_at m p) + 1 = used m"
    using assms(1) n by (simp add: map_inv_def mp_map_remove_at_def)
  show "\<not> slot_is_filled (fst (table (mp_map_remove_at m p) ! p))"
    and "snd (table (mp_map_remove_at m p) ! p) = v"
    using assms(2,3) by (simp_all add: mp_map_remove_at_def)
qed

lemma map_set_value:
  assumes "map_inv ops m" and "p < length (table m)" and "fst (table m ! p) = Key q" and "obj_equal ops q k"
  shows "map_inv ops (mp_map_set_value m p v)"
    and "map_abs ops (mp_map_set_value m p v) = (\<lambda>j. if obj_equal ops k j then Some v else map_abs ops m j)"
    and "map fst (table (mp_map_set_value m p v)) = map fst (table m)"
proof -
  let ?t = "(table m)[p := (Key q, v)]"
  have upd: "map fst ?t = map fst (table m)"
    by (metis assms(2,3) fst_conv length_map list_update_id map_update nth_map)
  have inv: "slots_inv (obj_equal ops) (obj_hash ops) (map fst ?t)"
    unfolding upd by (rule map_inv_slots [OF assms(1)])
  have kj: "obj_equal ops k j \<longleftrightarrow> obj_equal ops q j" for j using assms(4) eq_sym eq_trans by blast
  show "map_inv ops (mp_map_set_value m p v)"
    using assms(1,3) upd by (simp add: map_inv_def mp_map_set_value_def)
  show "map_abs ops (mp_map_set_value m p v) = (\<lambda>j. if obj_equal ops k j then Some v else map_abs ops m j)"
    using elem_of_insert [OF map_inv_slots [OF assms(1)] inv assms(2)] assms(3)
    unfolding map_abs_def by (simp add: mp_map_set_value_def kj)
  show "map fst (table (mp_map_set_value m p v)) = map fst (table m)"
    using assms(3) upd by (simp add: mp_map_set_value_def)
qed

text \<open>
  The search in a table with room for the key, or for a key that is not added: whatever the
  rehashing would do, it is not reached.
\<close>

abbreviation matches_key :: "bool \<Rightarrow> 'k \<Rightarrow> 'k \<Rightarrow> bool" where
  "matches_key only_ptrs k q \<equiv> q = k \<or> (\<not> only_ptrs \<and> obj_equal ops q k)"

lemma map_search_room:
  assumes inv: "map_inv ops m" and ne: "table m \<noteq> []"
    and ptrs: "\<And>q. q \<in> keys_of (map fst (table m)) \<Longrightarrow> matches_key only_ptrs k q \<longleftrightarrow> obj_equal ops q k"
    and room: "kind = MP_MAP_LOOKUP_ADD_IF_NOT_FOUND \<Longrightarrow> used m < length (table m) \<or> map_abs ops m k \<noteq> None"
  obtains (result) m' r where "mp_map_search (Suc n) rehash ops only_ptrs m k kind = Some (m', r)"
    and "map_outcome ops m k kind m' r" and "length (table m') = length (table m)"
    and "map_abs ops m k = None \<Longrightarrow> kind = MP_MAP_LOOKUP_ADD_IF_NOT_FOUND \<Longrightarrow>
      keys_of (map fst (table m')) = insert k (keys_of (map fst (table m)))"
proof -
  let ?ss = "map fst (table m)"
  let ?r = "probe (matches_key only_ptrs k) ?ss (obj_hash ops k mod length ?ss) (length ?ss) None"
  have spec: "case ?r of
      Found p \<Rightarrow> p < length ?ss \<and> (\<exists>q. ?ss ! p = Key q \<and> obj_equal ops q k)
    | Empty a \<Rightarrow> a < length ?ss \<and> \<not> slot_is_filled (?ss ! a) \<and> on_path ?ss (obj_hash ops k) a \<and>
        (\<forall>q \<in> keys_of ?ss. \<not> obj_equal ops q k)
    | Wrapped (Some a) \<Rightarrow> a < length ?ss \<and> \<not> slot_is_filled (?ss ! a) \<and> on_path ?ss (obj_hash ops k) a \<and>
        (\<forall>q \<in> keys_of ?ss. \<not> obj_equal ops q k)
    | Wrapped None \<Rightarrow> (\<forall>s \<in> set ?ss. slot_is_filled s) \<and> (\<forall>q \<in> keys_of ?ss. \<not> obj_equal ops q k)"
    by (rule probe_spec [OF map_inv_slots [OF inv]]) (use ptrs ne in \<open>auto simp: keys_of_def\<close>)
  have added: thesis
    if r: "mp_map_search (Suc n) rehash ops only_ptrs m k kind =
        Some (if kind = MP_MAP_LOOKUP_ADD_IF_NOT_FOUND then (mp_map_add_at ops m a k, Some a) else (m, None))"
      and a: "a < length ?ss" "\<not> slot_is_filled (?ss ! a)" "on_path ?ss (obj_hash ops k) a"
        "\<forall>q \<in> keys_of ?ss. \<not> obj_equal ops q k" for a
  proof (cases "kind = MP_MAP_LOOKUP_ADD_IF_NOT_FOUND")
    case True
    have abs: "map_abs ops m k = None" using a(4) by (simp add: map_abs_None)
    have "a < length (table m)" "\<not> slot_is_filled (fst (table m ! a))" using a(1,2) by simp_all
    note add = map_add_at [OF inv this a(3) abs]
    show thesis
    proof (rule result)
      show "mp_map_search (Suc n) rehash ops only_ptrs m k kind = Some (mp_map_add_at ops m a k, Some a)"
        using r True by simp
      show "map_outcome ops m k kind (mp_map_add_at ops m a k) (Some a)"
        using add abs True a(1) by (simp add: map_outcome_def) (simp add: mp_map_add_at_def)
      show "length (table (mp_map_add_at ops m a k)) = length (table m)" by (simp add: mp_map_add_at_def)
    qed (rule add(3))
  next
    case False
    show thesis
      by (rule result [where m' = m and r = None]) (use r False a(4) inv in \<open>auto simp: map_outcome_def map_abs_None split: option.splits\<close>)
  qed
  show thesis
  proof (cases ?r)
    case (Found p)
    with spec obtain q where p: "p < length (table m)" "fst (table m ! p) = Key q" and q: "obj_equal ops q k" by auto
    obtain v where v: "table m ! p = (Key q, v)" using p(2) by (metis prod.collapse)
    have abs: "map_abs ops m k = Some v"
      using elem_of_at [OF map_inv_slots [OF inv] p q] v by (simp add: map_abs_def)
    show thesis
    proof (cases "kind = MP_MAP_LOOKUP_REMOVE_IF_FOUND")
      case True
      note remove = map_remove_at [OF inv p(1) v]
      have kj: "obj_equal ops k j \<longleftrightarrow> obj_equal ops q j" for j using q eq_sym eq_trans by blast
      show thesis
      proof (rule result)
        show "mp_map_search (Suc n) rehash ops only_ptrs m k kind = Some (mp_map_remove_at m p, Some p)"
          using Found True by simp
        show "map_outcome ops m k kind (mp_map_remove_at m p) (Some p)"
          unfolding map_outcome_def kj using remove abs True p q by (auto simp: mp_map_remove_at_def)
      qed (use abs in \<open>simp_all add: mp_map_remove_at_def\<close>)
    next
      case False
      show thesis
      proof (rule result)
        show "mp_map_search (Suc n) rehash ops only_ptrs m k kind = Some (m, Some p)" using Found False by simp
        show "map_outcome ops m k kind m (Some p)"
          unfolding map_outcome_def using inv abs False p q v by auto
      qed (use abs in simp_all)
    qed
  next
    case (Empty a)
    with spec show thesis by (intro added [of a]) auto
  next
    case (Wrapped avail)
    show thesis
    proof (cases avail)
      case (Some a)
      with spec Wrapped show thesis by (intro added [of a]) auto
    next
      case None
      with spec Wrapped have full: "n_keys ?ss = length ?ss" and no: "map_abs ops m k = None"
        by (simp_all add: n_keys_full map_abs_None)
      then have "kind \<noteq> MP_MAP_LOOKUP_ADD_IF_NOT_FOUND" using room inv by (auto simp: map_inv_def)
      then show thesis
        by (intro result [where m' = m and r = None]) (use no Wrapped inv in \<open>auto simp: map_outcome_def\<close>)
    qed
  qed
qed

section \<open>Rehashing\<close>

lemma elem_of_Cons:
  "elem_of eq (e # es) k = (case fst e of Key q \<Rightarrow> if eq q k then Some (snd e) else elem_of eq es k | _ \<Rightarrow> elem_of eq es k)"
  by (simp add: elem_of_def split: slot.split)

text \<open>
  What the rehashing needs of the lookup it calls: a key that is not in a table with a free slot is
  added, in the table as it is.
\<close>

definition adds_in_room ::
  "(('k, 'v) mp_map \<Rightarrow> 'k \<Rightarrow> (('k, 'v) mp_map \<times> nat option) option) \<Rightarrow> bool" where
  "adds_in_room add \<longleftrightarrow>
     (\<forall>m k. map_inv ops m \<longrightarrow> used m < length (table m) \<longrightarrow> map_abs ops m k = None \<longrightarrow>
        (\<exists>m' r. add m k = Some (m', r) \<and> map_outcome ops m k MP_MAP_LOOKUP_ADD_IF_NOT_FOUND m' r \<and>
           length (table m') = length (table m) \<and>
           keys_of (map fst (table m')) = insert k (keys_of (map fst (table m)))))"

lemma rehash_elems:
  assumes "adds_in_room add"
  shows "map_inv ops m \<Longrightarrow> used m + n_keys (map fst es) \<le> length (table m) \<Longrightarrow> uniq_slots (obj_equal ops) (map fst es) \<Longrightarrow>
    (\<And>q. q \<in> keys_of (map fst es) \<Longrightarrow> map_abs ops m q = None) \<Longrightarrow>
    \<exists>m'. fold (mp_map_rehash_elem add) es (Some m) = Some m' \<and> map_inv ops m' \<and>
      length (table m') = length (table m) \<and> used m' = used m + n_keys (map fst es) \<and>
      keys_of (map fst (table m')) = keys_of (map fst (table m)) \<union> keys_of (map fst es) \<and>
      map_abs ops m' = (\<lambda>j. case elem_of (obj_equal ops) es j of None \<Rightarrow> map_abs ops m j | Some v \<Rightarrow> Some v)"
proof (induction es arbitrary: m)
  case Nil
  then show ?case by (simp add: elem_of_def n_keys_def keys_of_def)
next
  case (Cons e es)
  show ?case
  proof (cases "fst e")
    case SlotNull
    then have "mp_map_rehash_elem add e (Some m) = Some m" by (simp add: mp_map_rehash_elem_def)
    with Cons.IH [OF Cons.prems(1)] Cons.prems(2-) SlotNull show ?thesis
      by (simp add: n_keys_Cons keys_of_Cons elem_of_Cons)
  next
    case SlotSentinel
    then have "mp_map_rehash_elem add e (Some m) = Some m" by (simp add: mp_map_rehash_elem_def)
    with Cons.IH [OF Cons.prems(1)] Cons.prems(2-) SlotSentinel show ?thesis
      by (simp add: n_keys_Cons keys_of_Cons elem_of_Cons)
  next
    case (Key q)
    obtain v where e: "e = (Key q, v)" using Key by (metis prod.collapse)
    have room: "used m < length (table m)" and abs: "map_abs ops m q = None"
      using Cons.prems(2,4) e by (simp_all add: n_keys_Cons keys_of_Cons)
    obtain m1 r where added: "add m q = Some (m1, r)" "map_outcome ops m q MP_MAP_LOOKUP_ADD_IF_NOT_FOUND m1 r"
      "length (table m1) = length (table m)" "keys_of (map fst (table m1)) = insert q (keys_of (map fst (table m)))"
      using assms Cons.prems(1) room abs unfolding adds_in_room_def by blast
    then obtain p where m1: "add m q = Some (m1, Some p)" "map_inv ops m1" "p < length (table m1)"
      "table m1 ! p = (Key q, None)" "used m1 = used m + 1" "length (table m1) = length (table m)"
      "map_abs ops m1 = (\<lambda>j. if obj_equal ops q j then Some None else map_abs ops m j)"
      "keys_of (map fst (table m1)) = insert q (keys_of (map fst (table m)))"
      using abs by (auto simp: map_outcome_def)
    let ?m2 = "mp_map_set_value m1 p v"
    have "fst (table m1 ! p) = Key q" using m1(4) by simp
    note m2 = map_set_value [OF m1(2,3) this eq_refl, of v]
    have m2': "used ?m2 = used m1" "length (table ?m2) = length (table m1)"
      by (simp_all add: mp_map_set_value_def)
    have step: "mp_map_rehash_elem add e (Some m) = Some ?m2"
      using m1(1) e by (simp add: mp_map_rehash_elem_def)
    have new: "\<not> obj_equal ops q j \<and> map_abs ops m j = None" if "j \<in> keys_of (map fst es)" for j
      using Cons.prems(3,4) that e eq_sym by (auto simp: keys_of_Cons)
    have "\<exists>m'. fold (mp_map_rehash_elem add) es (Some ?m2) = Some m' \<and> map_inv ops m' \<and>
      length (table m') = length (table ?m2) \<and> used m' = used ?m2 + n_keys (map fst es) \<and>
      keys_of (map fst (table m')) = keys_of (map fst (table ?m2)) \<union> keys_of (map fst es) \<and>
      map_abs ops m' = (\<lambda>j. case elem_of (obj_equal ops) es j of None \<Rightarrow> map_abs ops ?m2 j | Some v \<Rightarrow> Some v)"
    proof (rule Cons.IH [OF m2(1)])
      show "used ?m2 + n_keys (map fst es) \<le> length (table ?m2)"
        using Cons.prems(2) m1(5,6) m2' e by (simp add: n_keys_Cons)
      show "uniq_slots (obj_equal ops) (map fst es)" using Cons.prems(3) e by simp
      show "map_abs ops ?m2 j = None" if "j \<in> keys_of (map fst es)" for j
        using new [OF that] by (simp add: m2(2) m1(7))
    qed
    then obtain m' where m': "fold (mp_map_rehash_elem add) es (Some ?m2) = Some m'" "map_inv ops m'"
      "length (table m') = length (table ?m2)" "used m' = used ?m2 + n_keys (map fst es)"
      "keys_of (map fst (table m')) = keys_of (map fst (table ?m2)) \<union> keys_of (map fst es)"
      "map_abs ops m' = (\<lambda>j. case elem_of (obj_equal ops) es j of None \<Rightarrow> map_abs ops ?m2 j | Some v \<Rightarrow> Some v)"
      by blast
    have none: "elem_of (obj_equal ops) es j = None" if "obj_equal ops q j" for j
      unfolding elem_of_None
    proof (intro ballI notI)
      fix b
      assume b: "b \<in> keys_of (map fst es)" "obj_equal ops b j"
      have "obj_equal ops b q" by (rule eq_trans [OF b(2) eq_sym [OF that]])
      with b(1) Cons.prems(3) e show False by simp
    qed
    have "map_abs ops m' = (\<lambda>j. case elem_of (obj_equal ops) (e # es) j of None \<Rightarrow> map_abs ops m j | Some v \<Rightarrow> Some v)"
      unfolding m'(6) m2(2) m1(7) by (rule ext) (use none e in \<open>auto simp: elem_of_Cons split: option.splits\<close>)
    moreover have "fold (mp_map_rehash_elem add) (e # es) (Some m) = Some m'" using step m'(1) by simp
    moreover have "length (table m') = length (table m)" using m'(3) m2'(2) m1(6) by simp
    moreover have "used m' = used m + n_keys (map fst (e # es))" using m'(4) m2'(1) m1(5) e by (simp add: n_keys_Cons)
    moreover have "keys_of (map fst (table m')) = keys_of (map fst (table m)) \<union> keys_of (map fst (e # es))"
      unfolding m'(5) m2(3) m1(8) using e by (simp add: keys_of_Cons)
    ultimately show ?thesis using m'(2) by blast
  qed
qed

lemma map_rehash:
  assumes "adds_in_room add" and "map_inv ops m"
  obtains m' where "mp_map_rehash add m = Some m'" and "map_inv ops m'" and "used m' = used m"
    and "length (table m) < length (table m')" and "map_abs ops m' = map_abs ops m"
    and "keys_of (map fst (table m')) = keys_of (map fst (table m))"
proof -
  let ?n = "get_hash_alloc_greater_or_equal_to (length (table m) + 1)"
  let ?m0 = "m\<lparr>used := 0, all_keys_are_qstrs := True, table := replicate ?n (SlotNull, None)\<rparr>"
  have n: "length (table m) < ?n" using get_hash_alloc_ge [of "length (table m) + 1"] by simp
  have inv: "map_inv ops ?m0" using assms(2) by (simp add: map_inv_def slots_inv_fresh)
  have none: "map_abs ops ?m0 j = None" for j by (simp add: map_abs_None)
  have used: "used m = n_keys (map fst (table m))" using assms(2) by (simp add: map_inv_def)
  have "\<exists>m'. fold (mp_map_rehash_elem add) (table m) (Some ?m0) = Some m' \<and> map_inv ops m' \<and>
      length (table m') = length (table ?m0) \<and> used m' = used ?m0 + n_keys (map fst (table m)) \<and>
      keys_of (map fst (table m')) = keys_of (map fst (table ?m0)) \<union> keys_of (map fst (table m)) \<and>
      map_abs ops m' = (\<lambda>j. case elem_of (obj_equal ops) (table m) j of None \<Rightarrow> map_abs ops ?m0 j | Some v \<Rightarrow> Some v)"
    by (rule rehash_elems [OF assms(1) inv])
      (use n n_keys_le [of "map fst (table m)"] none in \<open>simp_all add: uniq_slots_inv map_inv_slots [OF assms(2)]\<close>)
  then obtain m' where m': "fold (mp_map_rehash_elem add) (table m) (Some ?m0) = Some m'" "map_inv ops m'"
    "length (table m') = ?n" "used m' = used m" "keys_of (map fst (table m')) = keys_of (map fst (table m))"
    "map_abs ops m' = (\<lambda>j. case elem_of (obj_equal ops) (table m) j of None \<Rightarrow> None | Some v \<Rightarrow> Some v)"
    unfolding none used by auto
  show thesis
  proof (rule that)
    show "mp_map_rehash add m = Some m'" using m'(1) by (simp add: mp_map_rehash_def mp_map_rehash_mem_def)
    show "map_abs ops m' = map_abs ops m"
      unfolding m'(6) by (auto simp: map_abs_def split: option.splits)
  qed (use m' n in simp_all)
qed

section \<open>The lookup\<close>

lemma only_ptrs_matches:
  assumes "map_inv ops m" and "q \<in> keys_of (map fst (table m))"
  shows "matches_key (all_keys_are_qstrs m \<and> \<not> (\<not> is_qstr ops k \<and> is_str ops k)) k q \<longleftrightarrow> obj_equal ops q k"
proof (cases "all_keys_are_qstrs m \<and> \<not> (\<not> is_qstr ops k \<and> is_str ops k)")
  case True
  with assms have q: "is_qstr ops q" by (simp add: map_inv_def)
  have "q = k" if "obj_equal ops q k"
    using qstr_equal_str [OF q that] qstr_unique [OF q _ that] True by blast
  with True show ?thesis by auto
next
  case False
  then show ?thesis by auto
qed

text \<open>
  The lookup when it adds to a table with room: the depth that is left for rehashing is not used.
\<close>

lemma lookup_adds_in_room:
  "adds_in_room (\<lambda>m k. mp_map_lookup_n (Suc n) ops m k MP_MAP_LOOKUP_ADD_IF_NOT_FOUND)"
  unfolding adds_in_room_def
proof (intro allI impI)
  fix m :: "('k, 'v) mp_map" and k
  let ?add = "MP_MAP_LOOKUP_ADD_IF_NOT_FOUND"
  let ?only = "all_keys_are_qstrs m \<and> \<not> (\<not> is_qstr ops k \<and> is_str ops k)"
  let ?rehash = "mp_map_rehash (\<lambda>m k. mp_map_lookup_n n ops m k ?add)"
  assume inv: "map_inv ops m" and room: "used m < length (table m)" and abs: "map_abs ops m k = None"
  from room have ne: "table m \<noteq> []" by auto
  show "\<exists>m' r. mp_map_lookup_n (Suc n) ops m k ?add = Some (m', r) \<and> map_outcome ops m k ?add m' r \<and>
    length (table m') = length (table m) \<and> keys_of (map fst (table m')) = insert k (keys_of (map fst (table m)))"
  proof (rule map_search_room [where k = k and kind = ?add and n = 1 and rehash = ?rehash, OF inv ne only_ptrs_matches [OF inv]])
    show "used m < length (table m) \<or> map_abs ops m k \<noteq> None" using room by simp
    fix m' r
    assume "mp_map_search (Suc 1) ?rehash ops ?only m k ?add = Some (m', r)"
    then have "mp_map_lookup_n (Suc n) ops m k ?add = Some (m', r)"
      using inv ne by (simp add: map_inv_def Let_def numeral_2_eq_2 del: mp_map_search.simps)
    moreover assume "map_outcome ops m k ?add m' r" "length (table m') = length (table m)"
    moreover assume "map_abs ops m k = None \<Longrightarrow> ?add = ?add \<Longrightarrow>
      keys_of (map fst (table m')) = insert k (keys_of (map fst (table m)))"
    ultimately show ?thesis using abs by blast
  qed
qed

lemma map_outcome_rehash:
  assumes "map_outcome ops m1 k MP_MAP_LOOKUP_ADD_IF_NOT_FOUND m' r" and "map_abs ops m1 = map_abs ops m"
    and "used m1 = used m" and "map_abs ops m k = None"
  shows "map_outcome ops m k MP_MAP_LOOKUP_ADD_IF_NOT_FOUND m' r"
  using assms(1) unfolding map_outcome_def assms(2,3) by (simp add: assms(4))

text \<open>The search in a full table that does not have the key comes back to its start.\<close>

lemma probe_full:
  assumes "map_inv ops m" and "used m = length (table m)" and "table m \<noteq> []" and "map_abs ops m k = None"
    and "\<And>q. q \<in> keys_of (map fst (table m)) \<Longrightarrow> matches q \<longleftrightarrow> obj_equal ops q k"
  shows "probe matches (map fst (table m)) (obj_hash ops k mod length (table m)) (length (table m)) None = Wrapped None"
proof -
  let ?ss = "map fst (table m)"
  have "n_keys ?ss = length ?ss" using assms(1,2) by (simp add: map_inv_def)
  then have filled: "slot_is_filled (?ss ! a)" if "a < length ?ss" for a
    using that by (metis length_filter_less n_keys_def nth_mem order_less_irrefl)
  have no: "\<not> obj_equal ops q k" if "?ss ! p = Key q" "p < length ?ss" for p q
    using assms(4) that unfolding map_abs_None keys_of_def by (metis mem_Collect_eq nth_mem)
  have "case probe matches ?ss (obj_hash ops k mod length ?ss) (length ?ss) None of
      Found p \<Rightarrow> p < length ?ss \<and> (\<exists>q. ?ss ! p = Key q \<and> obj_equal ops q k)
    | Empty a \<Rightarrow> a < length ?ss \<and> \<not> slot_is_filled (?ss ! a) \<and> on_path ?ss (obj_hash ops k) a \<and>
        (\<forall>q \<in> keys_of ?ss. \<not> obj_equal ops q k)
    | Wrapped (Some a) \<Rightarrow> a < length ?ss \<and> \<not> slot_is_filled (?ss ! a) \<and> on_path ?ss (obj_hash ops k) a \<and>
        (\<forall>q \<in> keys_of ?ss. \<not> obj_equal ops q k)
    | Wrapped None \<Rightarrow> (\<forall>s \<in> set ?ss. slot_is_filled s) \<and> (\<forall>q \<in> keys_of ?ss. \<not> obj_equal ops q k)"
    by (rule probe_spec [OF map_inv_slots [OF assms(1)]]) (use assms(3,5) in \<open>auto simp: keys_of_def\<close>)
  then show ?thesis using filled no by (auto split: probe_result.splits option.splits)
qed

text \<open>Every lookup in a hash table returns, with the result its contract promises.\<close>

lemma map_lookup:
  assumes "map_inv ops m"
  obtains m' r where "mp_map_lookup ops m k kind = Some (m', r)" and "map_outcome ops m k kind m' r"
proof -
  let ?add = "MP_MAP_LOOKUP_ADD_IF_NOT_FOUND"
  let ?only = "all_keys_are_qstrs m \<and> \<not> (\<not> is_qstr ops k \<and> is_str ops k)"
  let ?rehash = "mp_map_rehash (\<lambda>m k. mp_map_lookup_n 1 ops m k ?add)"
  have depth: "mp_map_lookup ops m k kind = mp_map_lookup_n (Suc 1) ops m k kind"
    by (simp add: mp_map_lookup_def numeral_2_eq_2)
  have nf: "\<not> is_fixed m" "\<not> is_ordered m" using assms by (simp_all add: map_inv_def)
  note ptrs = only_ptrs_matches [OF assms]
  have rehashed: "\<exists>m1. ?rehash m = Some m1 \<and> table m1 \<noteq> [] \<and>
      (\<exists>m' r. mp_map_search (Suc n) ?rehash ops ?only m1 k ?add = Some (m', r) \<and> map_outcome ops m k ?add m' r)"
    if no: "map_abs ops m k = None" for n
  proof (rule map_rehash [OF lookup_adds_in_room [of 0] assms])
    fix m1
    assume m1: "mp_map_rehash (\<lambda>m k. mp_map_lookup_n (Suc 0) ops m k ?add) m = Some m1" "map_inv ops m1"
      "used m1 = used m" "length (table m) < length (table m1)" "map_abs ops m1 = map_abs ops m"
      "keys_of (map fst (table m1)) = keys_of (map fst (table m))"
    have "used m \<le> length (table m)"
      using assms n_keys_le [of "map fst (table m)"] by (simp add: map_inv_def)
    with m1 have room: "used m1 < length (table m1) \<or> map_abs ops m1 k \<noteq> None" by simp
    have ne: "table m1 \<noteq> []" using m1(4) by auto
    have p1: "matches_key ?only k q \<longleftrightarrow> obj_equal ops q k" if "q \<in> keys_of (map fst (table m1))" for q
      using ptrs that m1(6) by blast
    show ?thesis
      using map_search_room [where rehash = ?rehash and n = n, OF m1(2) ne p1 room]
        map_outcome_rehash [OF _ m1(5,3) no] m1(1) ne
      by (metis One_nat_def)
  qed
  show thesis
  proof (cases "all_keys_are_qstrs m \<and> \<not> is_qstr ops k \<and> \<not> is_str ops k \<and> kind \<noteq> ?add")
    case True
    have "\<not> obj_equal ops q k" if "q \<in> keys_of (map fst (table m))" for q
      using True assms that qstr_equal_str [of q k] by (auto simp: map_inv_def)
    then have no: "map_abs ops m k = None" by (simp add: map_abs_None)
    show thesis
      by (rule that [of m None]) (use True nf no assms in \<open>simp_all add: depth Let_def map_outcome_def\<close>)
  next
    case False
    have run: "mp_map_lookup ops m k kind =
      (if table m = [] then (if kind = ?add then ?rehash m \<bind> (\<lambda>m. mp_map_search 2 ?rehash ops ?only m k kind) else Some (m, None))
       else mp_map_search 2 ?rehash ops ?only m k kind)"
      unfolding depth mp_map_lookup_n.simps Let_def using False nf by auto
    show thesis
    proof (cases "table m = []")
      case True
      then have no: "map_abs ops m k = None" by (simp add: map_abs_def elem_of_def)
      show thesis
      proof (cases "kind = ?add")
        case add: True
        from rehashed [OF no, of 1] obtain m1 m' r where "?rehash m = Some m1"
          "mp_map_search 2 ?rehash ops ?only m1 k ?add = Some (m', r)" "map_outcome ops m k ?add m' r"
          by (auto simp: numeral_2_eq_2)
        with add True run show thesis by (intro that [of m' r]) simp_all
      next
        case False
        with True run no assms show thesis by (intro that [of m None]) (simp_all add: map_outcome_def)
      qed
    next
      case ne: False
      show thesis
      proof (cases "kind = ?add \<longrightarrow> used m < length (table m) \<or> map_abs ops m k \<noteq> None")
        case True
        then show thesis
          using map_search_room [where rehash = ?rehash and n = 1 and kind = kind and k = k, OF assms ne ptrs] run ne that
          by (metis Suc_1)
      next
        case full: False
        then have no: "map_abs ops m k = None" and kind: "kind = ?add" by auto
        have "used m = length (table m)"
          using full assms n_keys_le [of "map fst (table m)"] by (simp add: map_inv_def)
        have "probe (matches_key ?only k) (map fst (table m)) (obj_hash ops k mod length (table m)) (length (table m)) None
          = Wrapped None"
          by (rule probe_full [OF assms _ ne no ptrs]) (rule \<open>used m = length (table m)\<close>)
        with rehashed [OF no, of 0] ne run kind show thesis
          by (auto simp: numeral_2_eq_2 intro: that)
      qed
    qed
  qed
qed

end

end
