(* ===== verification/Dict.thy ===== *)
theory Dict
  imports MapLaws
begin

text \<open>
  The methods of \<open>dict\<close> and \<open>OrderedDict\<close> of \<open>py/objdict.c\<close> on top of \<open>mp_map_lookup\<close>, and their
  refinement of a partial map for the hash tables. Python exceptions are values; \<open>MapFault\<close> stands
  for a failed assertion or the use of a marker as an object inside \<open>mp_map_lookup\<close>.
\<close>

section \<open>The object and its exceptions\<close>

record ('k, 'v) dict =
  ordereddict_type :: bool
  dmap :: "('k, 'v) mp_map"

datatype 'k dict_error = KeyError 'k | KeyErrorEmpty | TypeErrorFixed | ValueErrorLength | MapFault

definition mp_obj_new_dict :: "nat \<Rightarrow> ('k, 'v) dict" where
  "mp_obj_new_dict n = \<lparr> ordereddict_type = False, dmap = mp_map_init n \<rparr>"

definition mp_obj_dict_len :: "('k, 'v) dict \<Rightarrow> nat" where
  "mp_obj_dict_len d = used (dmap d)"

text \<open>\<open>dict_iter_next\<close>: the next filled slot from \<open>cur\<close> on, and the place to go on from.\<close>

function dict_iter_next :: "('k, 'v) mp_map_elem list \<Rightarrow> nat \<Rightarrow> (nat \<times> nat) option" where
  "dict_iter_next t i =
     (if i < length t then (if slot_is_filled (fst (t ! i)) then Some (i, i + 1) else dict_iter_next t (i + 1))
      else None)"
  by auto
termination by (relation "measure (\<lambda>(t, i). length t - i)") auto

declare dict_iter_next.simps [simp del]

lemma dict_iter_next_Some:
  "dict_iter_next t i = Some (p, j) \<Longrightarrow> i \<le> p \<and> p < length t \<and> j = p + 1 \<and> slot_is_filled (fst (t ! p))"
proof (induction t i rule: dict_iter_next.induct)
  case (1 t i)
  from "1.prems" "1.IH" show ?case
    by (subst (asm) dict_iter_next.simps) (force split: if_splits)
qed

text \<open>The iteration of a view or of the dictionary itself: all elements, from \<open>cur\<close> on.\<close>

function dict_elems :: "('k, 'v) mp_map_elem list \<Rightarrow> nat \<Rightarrow> ('k, 'v) mp_map_elem list" where
  "dict_elems t cur =
     (case dict_iter_next t cur of
        None \<Rightarrow> []
      | Some (p, cur) \<Rightarrow> t ! p # dict_elems t cur)"
  by auto
termination
  by (relation "measure (\<lambda>(t, i). length t - i)") (auto dest!: dict_iter_next_Some)

declare dict_elems.simps [simp del]

section \<open>Methods\<close>

definition dict_contains :: "'k obj_ops \<Rightarrow> ('k, 'v) dict \<Rightarrow> 'k \<Rightarrow> 'k dict_error + bool" where
  "dict_contains ops d k =
     (case mp_map_lookup ops (dmap d) k MP_MAP_LOOKUP of
        None \<Rightarrow> Inl MapFault
      | Some (m, elem) \<Rightarrow> Inr (elem \<noteq> None))"

text \<open>\<open>mp_obj_dict_get\<close>, and the load of \<open>dict_subscr\<close>.\<close>

definition mp_obj_dict_get :: "'k obj_ops \<Rightarrow> ('k, 'v) dict \<Rightarrow> 'k \<Rightarrow> 'k dict_error + 'v option" where
  "mp_obj_dict_get ops d k =
     (case mp_map_lookup ops (dmap d) k MP_MAP_LOOKUP of
        None \<Rightarrow> Inl MapFault
      | Some (m, None) \<Rightarrow> Inl (KeyError k)
      | Some (m, Some p) \<Rightarrow> Inr (snd (table m ! p)))"

text \<open>\<open>mp_map_lookup(..., MP_MAP_LOOKUP_ADD_IF_NOT_FOUND)->value = value\<close>.\<close>

definition map_store :: "'k obj_ops \<Rightarrow> ('k, 'v) mp_map \<Rightarrow> 'k \<Rightarrow> 'v option \<Rightarrow> ('k, 'v) mp_map option" where
  "map_store ops m k v =
     (case mp_map_lookup ops m k MP_MAP_LOOKUP_ADD_IF_NOT_FOUND of
        Some (m, Some p) \<Rightarrow> Some (mp_map_set_value m p v)
      | _ \<Rightarrow> None)"

definition mp_obj_dict_store ::
  "'k obj_ops \<Rightarrow> ('k, 'v) dict \<Rightarrow> 'k \<Rightarrow> 'v \<Rightarrow> ('k, 'v) dict \<times> ('k dict_error + unit)" where
  "mp_obj_dict_store ops d k v =
     (if is_fixed (dmap d) then (d, Inl TypeErrorFixed)
      else case map_store ops (dmap d) k (Some v) of
        None \<Rightarrow> (d, Inl MapFault)
      | Some m \<Rightarrow> (d\<lparr>dmap := m\<rparr>, Inr ()))"

text \<open>
  \<open>dict_get_helper\<close> with the default \<open>args[2]\<close> where it is given; \<open>none\<close> is \<open>mp_const_none\<close>.
\<close>

definition dict_get_helper ::
  "'v \<Rightarrow> 'k obj_ops \<Rightarrow> ('k, 'v) dict \<Rightarrow> 'k \<Rightarrow> 'v option \<Rightarrow> mp_map_lookup_kind \<Rightarrow>
   ('k, 'v) dict \<times> ('k dict_error + 'v)" where
  "dict_get_helper none ops d k deflt kind =
     (if kind \<noteq> MP_MAP_LOOKUP \<and> is_fixed (dmap d) then (d, Inl TypeErrorFixed)
      else case mp_map_lookup ops (dmap d) k kind of
        None \<Rightarrow> (d, Inl MapFault)
      | Some (m, elem) \<Rightarrow>
          (case elem of
             Some p \<Rightarrow>
               (case snd (table m ! p) of
                  Some value \<Rightarrow>
                    (d\<lparr>dmap := if kind = MP_MAP_LOOKUP_REMOVE_IF_FOUND then mp_map_set_value m p None else m\<rparr>, Inr value)
                | None \<Rightarrow>
                    (if deflt = None \<and> kind = MP_MAP_LOOKUP_REMOVE_IF_FOUND then (d\<lparr>dmap := m\<rparr>, Inl (KeyError k))
                     else
                       let value = (case deflt of None \<Rightarrow> none | Some v \<Rightarrow> v)
                       in (d\<lparr>dmap := if kind = MP_MAP_LOOKUP_ADD_IF_NOT_FOUND then mp_map_set_value m p (Some value) else m\<rparr>,
                           Inr value)))
           | None \<Rightarrow>
               (if deflt = None \<and> kind = MP_MAP_LOOKUP_REMOVE_IF_FOUND then (d\<lparr>dmap := m\<rparr>, Inl (KeyError k))
                else if kind = MP_MAP_LOOKUP_ADD_IF_NOT_FOUND then (d\<lparr>dmap := m\<rparr>, Inl MapFault)
                else (d\<lparr>dmap := m\<rparr>, Inr (case deflt of None \<Rightarrow> none | Some v \<Rightarrow> v)))))"

definition dict_get :: "'v \<Rightarrow> 'k obj_ops \<Rightarrow> ('k, 'v) dict \<Rightarrow> 'k \<Rightarrow> 'v option \<Rightarrow> ('k, 'v) dict \<times> ('k dict_error + 'v)" where
  "dict_get none ops d k deflt = dict_get_helper none ops d k deflt MP_MAP_LOOKUP"

definition dict_pop :: "'v \<Rightarrow> 'k obj_ops \<Rightarrow> ('k, 'v) dict \<Rightarrow> 'k \<Rightarrow> 'v option \<Rightarrow> ('k, 'v) dict \<times> ('k dict_error + 'v)" where
  "dict_pop none ops d k deflt = dict_get_helper none ops d k deflt MP_MAP_LOOKUP_REMOVE_IF_FOUND"

definition dict_setdefault ::
  "'v \<Rightarrow> 'k obj_ops \<Rightarrow> ('k, 'v) dict \<Rightarrow> 'k \<Rightarrow> 'v option \<Rightarrow> ('k, 'v) dict \<times> ('k dict_error + 'v)" where
  "dict_setdefault none ops d k deflt = dict_get_helper none ops d k deflt MP_MAP_LOOKUP_ADD_IF_NOT_FOUND"

definition mp_obj_dict_delete ::
  "'v \<Rightarrow> 'k obj_ops \<Rightarrow> ('k, 'v) dict \<Rightarrow> 'k \<Rightarrow> ('k, 'v) dict \<times> ('k dict_error + 'v)" where
  "mp_obj_dict_delete none ops d k = dict_get_helper none ops d k None MP_MAP_LOOKUP_REMOVE_IF_FOUND"

definition dict_popitem :: "('k, 'v) dict \<Rightarrow> ('k, 'v) dict \<times> ('k dict_error + ('k, 'v) mp_map_elem)" where
  "dict_popitem d =
     (if is_fixed (dmap d) then (d, Inl TypeErrorFixed)
      else case dict_iter_next (table (dmap d)) 0 of
        None \<Rightarrow> (d, Inl KeyErrorEmpty)
      | Some (p, _) \<Rightarrow>
          (d\<lparr>dmap := (dmap d)\<lparr>used := used (dmap d) - 1, table := (table (dmap d))[p := (SlotSentinel, None)]\<rparr>\<rparr>,
           Inr (table (dmap d) ! p)))"

definition dict_clear :: "('k, 'v) dict \<Rightarrow> ('k, 'v) dict \<times> ('k dict_error + unit)" where
  "dict_clear d =
     (if is_fixed (dmap d) then (d, Inl TypeErrorFixed) else (d\<lparr>dmap := mp_map_clear (dmap d)\<rparr>, Inr ()))"

definition dict_copy :: "('k, 'v) dict \<Rightarrow> ('k, 'v) dict" where
  "dict_copy d =
     \<lparr> ordereddict_type = ordereddict_type d,
       dmap = \<lparr> all_keys_are_qstrs = all_keys_are_qstrs (dmap d), is_fixed = False,
         is_ordered = is_ordered (dmap d), used = used (dmap d), table = table (dmap d) \<rparr> \<rparr>"

text \<open>The iterable is the list of the objects it gives; \<open>n\<close> is its length where it has one.\<close>

definition dict_fromkeys :: "'k obj_ops \<Rightarrow> nat option \<Rightarrow> 'k list \<Rightarrow> 'v \<Rightarrow> 'k dict_error + ('k, 'v) dict" where
  "dict_fromkeys ops n ks value =
     (case fold (\<lambda>k r. case r of None \<Rightarrow> None | Some m \<Rightarrow> map_store ops m k (Some value)) ks
             (Some (mp_map_init (case n of None \<Rightarrow> 0 | Some n \<Rightarrow> n))) of
        None \<Rightarrow> Inl MapFault
      | Some m \<Rightarrow> Inr \<lparr> ordereddict_type = False, dmap = m \<rparr>)"

text \<open>
  \<open>dict_update\<close> from a dictionary (\<open>None\<close> when it is the same object), and from an iterable of pairs;
  keyword arguments come last, from the filled slots of \<open>kwargs\<close>.
\<close>

fun map_store_elems :: "'k obj_ops \<Rightarrow> ('k, 'v) mp_map_elem list \<Rightarrow> ('k, 'v) mp_map \<Rightarrow> ('k, 'v) mp_map option" where
  "map_store_elems ops [] m = Some m"
| "map_store_elems ops ((Key k, v) # es) m =
     (case map_store ops m k v of None \<Rightarrow> None | Some m \<Rightarrow> map_store_elems ops es m)"
| "map_store_elems ops (_ # es) m = map_store_elems ops es m"

fun dict_update_pairs ::
  "'k obj_ops \<Rightarrow> ('k \<times> 'v) option list \<Rightarrow> ('k, 'v) mp_map \<Rightarrow> ('k, 'v) mp_map \<times> ('k dict_error + unit)" where
  "dict_update_pairs ops [] m = (m, Inr ())"
| "dict_update_pairs ops (None # ps) m = (m, Inl ValueErrorLength)"
| "dict_update_pairs ops (Some (k, v) # ps) m =
     (case map_store ops m k (Some v) of None \<Rightarrow> (m, Inl MapFault) | Some m \<Rightarrow> dict_update_pairs ops ps m)"

datatype ('k, 'v) update_arg = NoArg | Self | FromDict "('k, 'v) dict" | FromPairs "('k \<times> 'v) option list"

definition dict_update_arg ::
  "'k obj_ops \<Rightarrow> ('k, 'v) mp_map \<Rightarrow> ('k, 'v) update_arg \<Rightarrow> ('k, 'v) mp_map \<times> ('k dict_error + unit)" where
  "dict_update_arg ops m arg =
     (case arg of
        NoArg \<Rightarrow> (m, Inr ())
      | Self \<Rightarrow> (m, Inr ())
      | FromDict other \<Rightarrow>
          (case map_store_elems ops (dict_elems (table (dmap other)) 0) m of
             None \<Rightarrow> (m, Inl MapFault) | Some m \<Rightarrow> (m, Inr ()))
      | FromPairs ps \<Rightarrow> dict_update_pairs ops ps m)"

definition dict_update ::
  "'k obj_ops \<Rightarrow> ('k, 'v) dict \<Rightarrow> ('k, 'v) update_arg \<Rightarrow> ('k, 'v) mp_map \<Rightarrow> ('k, 'v) dict \<times> ('k dict_error + unit)" where
  "dict_update ops d arg kwargs =
     (if is_fixed (dmap d) then (d, Inl TypeErrorFixed)
      else case dict_update_arg ops (dmap d) arg of
        (m, Inl e) \<Rightarrow> (d\<lparr>dmap := m\<rparr>, Inl e)
      | (m, Inr _) \<Rightarrow>
          (case map_store_elems ops (filter (\<lambda>e. slot_is_filled (fst e)) (table kwargs)) m of
             None \<Rightarrow> (d\<lparr>dmap := m\<rparr>, Inl MapFault)
           | Some m \<Rightarrow> (d\<lparr>dmap := m\<rparr>, Inr ())))"

text \<open>\<open>dict_make_new\<close> for \<open>dict\<close> and \<open>OrderedDict\<close>; \<open>kwargs\<close> are the key and value pairs behind the arguments.\<close>

definition dict_make_new ::
  "'k obj_ops \<Rightarrow> bool \<Rightarrow> ('k, 'v) update_arg \<Rightarrow> ('k, 'v) mp_map_elem list \<Rightarrow> ('k, 'v) dict \<times> ('k dict_error + unit)" where
  "dict_make_new ops ordereddict arg kw =
     (let d = \<lparr> ordereddict_type = ordereddict, dmap = (mp_map_init 0)\<lparr>is_ordered := ordereddict\<rparr> \<rparr>
      in if arg \<noteq> NoArg \<or> kw \<noteq> [] then dict_update ops d arg (mp_map_init_fixed_table kw) else (d, Inr ()))"

section \<open>Comparison\<close>

text \<open>\<open>veq\<close> is \<open>mp_obj_equal\<close> on the values; a filled slot whose value is \<open>MP_OBJ_NULL\<close> is a fault.\<close>

fun dict_equal_ordered ::
  "('v \<Rightarrow> 'v \<Rightarrow> bool) \<Rightarrow> 'k obj_ops \<Rightarrow> ('k, 'v) mp_map_elem list \<Rightarrow> ('k, 'v) mp_map_elem list \<Rightarrow> bool option" where
  "dict_equal_ordered veq ops ((Key k1, Some v1) # e1) ((Key k2, Some v2) # e2) =
     (if \<not> obj_equal ops k1 k2 \<or> \<not> veq v1 v2 then Some False else dict_equal_ordered veq ops e1 e2)"
| "dict_equal_ordered veq ops [] [] = Some True"
| "dict_equal_ordered veq ops [] (_ # _) = Some False"
| "dict_equal_ordered veq ops (_ # _) [] = Some False"
| "dict_equal_ordered veq ops _ _ = None"

fun dict_equal_elems ::
  "('v \<Rightarrow> 'v \<Rightarrow> bool) \<Rightarrow> 'k obj_ops \<Rightarrow> ('k, 'v) mp_map_elem list \<Rightarrow> ('k, 'v) mp_map \<Rightarrow> bool option" where
  "dict_equal_elems veq ops [] rhs = Some True"
| "dict_equal_elems veq ops ((Key k, Some v) # es) rhs =
     (case mp_map_lookup ops rhs k MP_MAP_LOOKUP of
        None \<Rightarrow> None
      | Some (m, None) \<Rightarrow> Some False
      | Some (m, Some p) \<Rightarrow>
          (case snd (table m ! p) of
             None \<Rightarrow> None
           | Some w \<Rightarrow> if \<not> veq v w then Some False else dict_equal_elems veq ops es rhs))"
| "dict_equal_elems veq ops (_ # es) rhs = None"

definition dict_equal ::
  "('v \<Rightarrow> 'v \<Rightarrow> bool) \<Rightarrow> 'k obj_ops \<Rightarrow> ('k, 'v) dict \<Rightarrow> ('k, 'v) dict \<Rightarrow> bool option" where
  "dict_equal veq ops lhs rhs =
     (if ordereddict_type lhs \<and> ordereddict_type rhs
      then dict_equal_ordered veq ops (dict_elems (table (dmap lhs)) 0) (dict_elems (table (dmap rhs)) 0)
      else if \<not> ordereddict_type rhs then
        (if used (dmap lhs) \<noteq> used (dmap rhs) then Some False
         else dict_equal_elems veq ops (dict_elems (table (dmap lhs)) 0) (dmap rhs))
      else Some False)"

end
