(* ===== verification/DictLaws.thy ===== *)
theory DictLaws
  imports Dict
begin

text \<open>
  The dictionaries that are hash tables refine partial maps up to \<open>mp_obj_equal\<close>: every method, its
  result and its exception, and the comparison of two dictionaries.
\<close>

section \<open>The abstract dictionary\<close>

definition dict_abs :: "'k obj_ops \<Rightarrow> ('k, 'v) dict \<Rightarrow> 'k \<Rightarrow> 'v option" where
  "dict_abs ops d k = (case map_abs ops (dmap d) k of Some v \<Rightarrow> v | None \<Rightarrow> None)"

text \<open>No element is left without a value between two operations.\<close>

definition dict_inv :: "'k obj_ops \<Rightarrow> ('k, 'v) dict \<Rightarrow> bool" where
  "dict_inv ops d \<longleftrightarrow> map_inv ops (dmap d) \<and> (\<forall>k. map_abs ops (dmap d) k \<noteq> Some None)"

lemma dict_iter_next_None: "dict_iter_next t i = None \<Longrightarrow> i \<le> j \<Longrightarrow> j < length t \<Longrightarrow> \<not> slot_is_filled (fst (t ! j))"
proof (induction t i rule: dict_iter_next.induct)
  case (1 t i)
  from "1.prems" have "i < length t" by simp
  with "1.prems"(1) have "\<not> slot_is_filled (fst (t ! i))" "dict_iter_next t (i + 1) = None"
    by (simp_all add: dict_iter_next.simps [of t i] split: if_splits)
  with 1 \<open>i < length t\<close> show ?case by (cases "i = j") simp_all
qed

lemma dict_iter_next_first:
  "dict_iter_next t i = Some (p, c) \<Longrightarrow> i \<le> j \<Longrightarrow> j < p \<Longrightarrow> \<not> slot_is_filled (fst (t ! j))"
proof (induction t i rule: dict_iter_next.induct)
  case (1 t i)
  have i: "i < length t" using "1.prems"(1) by (simp add: dict_iter_next.simps [of t i] split: if_splits)
  have "\<not> slot_is_filled (fst (t ! i))"
    using "1.prems" i by (auto simp: dict_iter_next.simps [of t i] split: if_splits)
  with "1.prems"(1) i have "dict_iter_next t (i + 1) = Some (p, c)" by (simp add: dict_iter_next.simps [of t i])
  with 1 i \<open>\<not> slot_is_filled (fst (t ! i))\<close> show ?case by (cases "i = j") simp_all
qed

text \<open>The iteration gives the filled slots in the order of the table.\<close>

lemma dict_elems_filter: "dict_elems t i = filter (\<lambda>e. slot_is_filled (fst e)) (drop i t)"
proof (induction t i rule: dict_elems.induct)
  case (1 t i)
  show ?case
  proof (cases "dict_iter_next t i")
    case None
    then have "\<not> slot_is_filled (fst e)" if "e \<in> set (drop i t)" for e
      using that dict_iter_next_None [OF None] by (auto simp: in_set_conv_nth)
    then have "filter (\<lambda>e. slot_is_filled (fst e)) (drop i t) = []" by (simp add: filter_empty_conv)
    with None show ?thesis by (simp add: dict_elems.simps [of t i])
  next
    case (Some pc)
    obtain p c where pc: "pc = (p, c)" by (cases pc)
    note n = dict_iter_next_Some [OF Some [unfolded pc]]
    have "drop i t = take (p - i) (drop i t) @ drop p t"
      using n by (metis append_take_drop_id drop_drop le_add_diff_inverse2)
    moreover have "drop p t = t ! p # drop (p + 1) t" using n by (simp add: Cons_nth_drop_Suc)
    moreover have "filter (\<lambda>e. slot_is_filled (fst e)) (take (p - i) (drop i t)) = []"
    proof -
      have "\<not> slot_is_filled (fst (take (p - i) (drop i t) ! k))" if "k < length (take (p - i) (drop i t))" for k
      proof -
        have k: "i + k < p" "i \<le> length t" using that n by auto
        then have "\<not> slot_is_filled (fst (t ! (i + k)))"
          using dict_iter_next_first [OF Some [unfolded pc], of "i + k"] by simp
        with that k n show ?thesis by simp
      qed
      then show ?thesis by (metis filter_empty_conv in_set_conv_nth)
    qed
    ultimately have "filter (\<lambda>e. slot_is_filled (fst e)) (drop i t)
      = t ! p # filter (\<lambda>e. slot_is_filled (fst e)) (drop (p + 1) t)"
      using n by (metis (no_types, lifting) append_Nil filter.simps(2) filter_append)
    with 1 [OF Some pc [symmetric]] Some pc n show ?thesis by (simp add: dict_elems.simps [of t i])
  qed
qed

context map_objs
begin

lemma map_store:
  assumes "map_inv ops m"
  obtains m' where "map_store ops m k v = Some m'" and "map_inv ops m'"
    and "map_abs ops m' = (\<lambda>j. if obj_equal ops k j then Some v else map_abs ops m j)"
proof -
  let ?add = "MP_MAP_LOOKUP_ADD_IF_NOT_FOUND"
  obtain m1 r where run: "mp_map_lookup ops m k ?add = Some (m1, r)" and out: "map_outcome ops m k ?add m1 r"
    by (rule map_lookup [OF assms])
  have inv: "map_inv ops m1" using out by (simp add: map_outcome_def)
  show thesis
  proof (cases "map_abs ops m k")
    case None
    with out obtain p where p: "r = Some p" "p < length (table m1)" "table m1 ! p = (Key k, None)"
      "map_abs ops m1 = (\<lambda>j. if obj_equal ops k j then Some None else map_abs ops m j)"
      by (auto simp: map_outcome_def)
    have "fst (table m1 ! p) = Key k" using p(3) by simp
    note set = map_set_value [OF inv p(2) this eq_refl, of v]
    show thesis
      by (rule that [of "mp_map_set_value m1 p v"])
        (use run p(1) set in \<open>auto simp: map_store_def p(4)\<close>)
  next
    case (Some w)
    with out obtain p q where p: "r = Some p" "p < length (table m1)" "obj_equal ops q k" "m1 = m"
      "fst (table m1 ! p) = Key q"
      by (auto simp: map_outcome_def)
    note set = map_set_value [OF inv p(2,5,3), of v]
    show thesis
      by (rule that [of "mp_map_set_value m1 p v"]) (use run p(1,4) set in \<open>auto simp: map_store_def\<close>)
  qed
qed

lemma dict_inv_abs:
  assumes "dict_inv ops d"
  shows "map_abs ops (dmap d) k = map_option Some (dict_abs ops d k)"
proof (cases "map_abs ops (dmap d) k")
  case (Some v)
  with assms obtain w where "v = Some w" by (cases v) (auto simp: dict_inv_def)
  with Some show ?thesis by (simp add: dict_abs_def)
qed (simp add: dict_abs_def)

lemma dict_invD: "dict_inv ops d \<Longrightarrow> map_inv ops (dmap d)"
  by (simp add: dict_inv_def)

lemma dict_not_fixed: "dict_inv ops d \<Longrightarrow> \<not> is_fixed (dmap d)"
  by (simp add: dict_inv_def map_inv_def)

lemma dict_storeE:
  assumes "dict_inv ops d"
  obtains d' where "mp_obj_dict_store ops d k v = (d', Inr ())" and "dict_inv ops d'"
    and "dict_abs ops d' = (\<lambda>j. if obj_equal ops k j then Some v else dict_abs ops d j)"
proof -
  have "map_inv ops (dmap d)" using assms by (simp add: dict_inv_def)
  then obtain m' where m': "map_store ops (dmap d) k (Some v) = Some m'" "map_inv ops m'"
    "map_abs ops m' = (\<lambda>j. if obj_equal ops k j then Some (Some v) else map_abs ops (dmap d) j)"
    by (rule map_store [where k = k and v = "Some v"])
  show thesis
    by (rule that [of "d\<lparr>dmap := m'\<rparr>"])
      (use m' assms dict_not_fixed [OF assms] in
        \<open>auto simp: mp_obj_dict_store_def dict_inv_def dict_abs_def fun_eq_iff\<close>)
qed

lemma dict_getE:
  assumes "dict_inv ops d"
  shows "mp_obj_dict_get ops d k = (case dict_abs ops d k of None \<Rightarrow> Inl (KeyError k) | Some v \<Rightarrow> Inr (Some v))"
    and "dict_contains ops d k = Inr (dict_abs ops d k \<noteq> None)"
proof -
  have "map_inv ops (dmap d)" using assms by (simp add: dict_inv_def)
  then obtain m r where run: "mp_map_lookup ops (dmap d) k MP_MAP_LOOKUP = Some (m, r)"
    and out: "map_outcome ops (dmap d) k MP_MAP_LOOKUP m r"
    by (rule map_lookup)
  have abs: "map_abs ops (dmap d) k = map_option Some (dict_abs ops d k)" by (rule dict_inv_abs [OF assms])
  show "mp_obj_dict_get ops d k = (case dict_abs ops d k of None \<Rightarrow> Inl (KeyError k) | Some v \<Rightarrow> Inr (Some v))"
    and "dict_contains ops d k = Inr (dict_abs ops d k \<noteq> None)"
    using run out abs
    by (auto simp: mp_obj_dict_get_def dict_contains_def map_outcome_def split: option.splits)
qed

text \<open>\<open>get\<close> leaves the dictionary as it is; a missing key gives the default or \<open>None\<close>.\<close>

lemma dict_get_val:
  assumes "dict_inv ops d"
  shows "dict_get none ops d k deflt =
    (d, Inr (case dict_abs ops d k of Some v \<Rightarrow> v | None \<Rightarrow> (case deflt of None \<Rightarrow> none | Some v \<Rightarrow> v)))"
proof -
  have "map_inv ops (dmap d)" using assms by (simp add: dict_inv_def)
  then obtain m r where run: "mp_map_lookup ops (dmap d) k MP_MAP_LOOKUP = Some (m, r)"
    and out: "map_outcome ops (dmap d) k MP_MAP_LOOKUP m r"
    by (rule map_lookup)
  have abs: "map_abs ops (dmap d) k = map_option Some (dict_abs ops d k)" by (rule dict_inv_abs [OF assms])
  show ?thesis
    using run out abs
    by (auto simp: dict_get_def dict_get_helper_def map_outcome_def Let_def split: option.splits)
qed

text \<open>The value of a slot that holds no key does not matter.\<close>

lemma elem_of_unfilled:
  "p < length t \<Longrightarrow> \<not> slot_is_filled (fst (t ! p)) \<Longrightarrow> elem_of eq (t[p := (fst (t ! p), v)]) = elem_of eq t"
proof (induction t arbitrary: p)
  case (Cons e t)
  show ?case
  proof (cases p)
    case 0
    with Cons.prems have "fst e = SlotNull \<or> fst e = SlotSentinel" by (simp add: slot_is_filled_def)
    with 0 show ?thesis by (auto simp: elem_of_Cons fun_eq_iff)
  next
    case (Suc n)
    with Cons have "elem_of eq (t[n := (fst (t ! n), v)]) = elem_of eq t" by simp
    with Suc show ?thesis by (auto simp: elem_of_Cons fun_eq_iff split: slot.split)
  qed
qed simp

lemma map_set_value_unfilled:
  assumes "map_inv ops m" and "p < length (table m)" and "\<not> slot_is_filled (fst (table m ! p))"
  shows "map_inv ops (mp_map_set_value m p v)" and "map_abs ops (mp_map_set_value m p v) = map_abs ops m"
proof -
  have "map fst ((table m)[p := (fst (table m ! p), v)]) = map fst (table m)"
    by (metis assms(2) fst_conv length_map list_update_id map_update nth_map)
  with assms show "map_inv ops (mp_map_set_value m p v)" by (simp add: map_inv_def mp_map_set_value_def)
  show "map_abs ops (mp_map_set_value m p v) = map_abs ops m"
    using assms by (simp add: map_abs_def mp_map_set_value_def elem_of_unfilled)
qed

text \<open>\<open>pop\<close> removes the key, or raises \<open>KeyError\<close> when there is no default.\<close>

lemma dict_pop_val:
  assumes "dict_inv ops d" and "dict_pop none ops d k deflt = (d', r)"
  shows "dict_inv ops d'"
    and "dict_abs ops d' = (\<lambda>j. if obj_equal ops k j then None else dict_abs ops d j)"
    and "r = (case dict_abs ops d k of Some v \<Rightarrow> Inr v
      | None \<Rightarrow> (case deflt of None \<Rightarrow> Inl (KeyError k) | Some v \<Rightarrow> Inr v))"
proof -
  let ?rm = "MP_MAP_LOOKUP_REMOVE_IF_FOUND"
  obtain m1 e where run: "mp_map_lookup ops (dmap d) k ?rm = Some (m1, e)"
    and out: "map_outcome ops (dmap d) k ?rm m1 e"
    by (rule map_lookup [OF dict_invD [OF assms(1)]])
  have abs: "map_abs ops (dmap d) k = map_option Some (dict_abs ops d k)" by (rule dict_inv_abs [OF assms(1)])
  have inv: "map_inv ops m1" using out by (simp add: map_outcome_def)
  have goal: "dict_inv ops d' \<and> dict_abs ops d' = (\<lambda>j. if obj_equal ops k j then None else dict_abs ops d j) \<and>
    r = (case dict_abs ops d k of Some v \<Rightarrow> Inr v | None \<Rightarrow> (case deflt of None \<Rightarrow> Inl (KeyError k) | Some v \<Rightarrow> Inr v))"
  proof (cases "dict_abs ops d k")
    case None
    have same: "(if obj_equal ops k j then None else dict_abs ops d j) = dict_abs ops d j" for j
      using None elem_of_cong [of k j "table (dmap d)"] by (auto simp: dict_abs_def map_abs_def)
    from None abs out have "m1 = dmap d" "e = None" by (simp_all add: map_outcome_def)
    with assms run None dict_not_fixed [OF assms(1)] have "d' = d"
      "r = (case deflt of None \<Rightarrow> Inl (KeyError k) | Some v \<Rightarrow> Inr v)"
      by (auto simp: dict_pop_def dict_get_helper_def split: option.splits if_splits)
    with None same assms(1) show ?thesis by simp
  next
    case (Some w)
    with abs out obtain p where p: "e = Some p" "p < length (table m1)" "snd (table m1 ! p) = Some w"
      "\<not> slot_is_filled (fst (table m1 ! p))"
      "map_abs ops m1 = (\<lambda>j. if obj_equal ops k j then None else map_abs ops (dmap d) j)"
      by (auto simp: map_outcome_def)
    note set = map_set_value_unfilled [OF inv p(2,4), of None]
    have d': "d' = d\<lparr>dmap := mp_map_set_value m1 p None\<rparr>" "r = Inr w"
      using assms(2) run p(1,3) dict_not_fixed [OF assms(1)] by (auto simp: dict_pop_def dict_get_helper_def)
    with set assms(1) p(5) Some show ?thesis by (auto simp: dict_inv_def dict_abs_def fun_eq_iff)
  qed
  then show "dict_inv ops d'"
    and "dict_abs ops d' = (\<lambda>j. if obj_equal ops k j then None else dict_abs ops d j)"
    and "r = (case dict_abs ops d k of Some v \<Rightarrow> Inr v
      | None \<Rightarrow> (case deflt of None \<Rightarrow> Inl (KeyError k) | Some v \<Rightarrow> Inr v))"
    by blast+
qed

text \<open>\<open>setdefault\<close> gives the value that is there, or stores the default.\<close>

lemma dict_setdefault_val:
  assumes "dict_inv ops d" and "dict_setdefault none ops d k deflt = (d', r)"
  defines "dv \<equiv> case deflt of None \<Rightarrow> none | Some v \<Rightarrow> v"
  shows "dict_inv ops d'"
    and "r = Inr (case dict_abs ops d k of Some v \<Rightarrow> v | None \<Rightarrow> dv)"
    and "dict_abs ops d' = (if dict_abs ops d k = None
      then (\<lambda>j. if obj_equal ops k j then Some dv else dict_abs ops d j) else dict_abs ops d)"
proof -
  let ?add = "MP_MAP_LOOKUP_ADD_IF_NOT_FOUND"
  obtain m1 e where run: "mp_map_lookup ops (dmap d) k ?add = Some (m1, e)"
    and out: "map_outcome ops (dmap d) k ?add m1 e"
    by (rule map_lookup [OF dict_invD [OF assms(1)]])
  have abs: "map_abs ops (dmap d) k = map_option Some (dict_abs ops d k)" by (rule dict_inv_abs [OF assms(1)])
  have inv: "map_inv ops m1" using out by (simp add: map_outcome_def)
  have goal: "dict_inv ops d' \<and> r = Inr (case dict_abs ops d k of Some v \<Rightarrow> v | None \<Rightarrow> dv) \<and>
    dict_abs ops d' = (if dict_abs ops d k = None
      then (\<lambda>j. if obj_equal ops k j then Some dv else dict_abs ops d j) else dict_abs ops d)"
  proof (cases "dict_abs ops d k")
    case None
    with abs out obtain p where p: "e = Some p" "p < length (table m1)" "table m1 ! p = (Key k, None)"
      "map_abs ops m1 = (\<lambda>j. if obj_equal ops k j then Some None else map_abs ops (dmap d) j)"
      by (auto simp: map_outcome_def)
    have "fst (table m1 ! p) = Key k" using p(3) by simp
    note set = map_set_value [OF inv p(2) this eq_refl, of "Some dv"]
    have d': "d' = d\<lparr>dmap := mp_map_set_value m1 p (Some dv)\<rparr>" "r = Inr dv"
      using assms(2) run p(1,3) dict_not_fixed [OF assms(1)]
      by (auto simp: dict_setdefault_def dict_get_helper_def Let_def dv_def)
    with set assms(1) p(4) None show ?thesis by (auto simp: dict_inv_def dict_abs_def fun_eq_iff)
  next
    case (Some w)
    with abs out obtain p where p: "e = Some p" "snd (table m1 ! p) = Some w" "m1 = dmap d"
      by (auto simp: map_outcome_def)
    then have "d' = d" "r = Inr w"
      using assms(2) run dict_not_fixed [OF assms(1)]
      by (auto simp: dict_setdefault_def dict_get_helper_def Let_def)
    with Some assms(1) show ?thesis by simp
  qed
  then show "dict_inv ops d'"
    and "r = Inr (case dict_abs ops d k of Some v \<Rightarrow> v | None \<Rightarrow> dv)"
    and "dict_abs ops d' = (if dict_abs ops d k = None
      then (\<lambda>j. if obj_equal ops k j then Some dv else dict_abs ops d j) else dict_abs ops d)"
    by blast+
qed

text \<open>\<open>popitem\<close> takes some element out, or raises \<open>KeyError\<close> when there is none.\<close>

lemma dict_popitem_val:
  assumes "dict_inv ops d" and "dict_popitem d = (d', r)"
  shows "case r of
      Inl e \<Rightarrow> e = KeyErrorEmpty \<and> d' = d \<and> (\<forall>k. dict_abs ops d k = None)
    | Inr (s, v) \<Rightarrow> dict_inv ops d' \<and> used (dmap d') + 1 = used (dmap d) \<and>
        (\<exists>k. s = Key k \<and> v \<noteq> None \<and> dict_abs ops d k = v \<and>
          dict_abs ops d' = (\<lambda>j. if obj_equal ops k j then None else dict_abs ops d j))"
proof (cases "dict_iter_next (table (dmap d)) 0")
  case None
  have "\<not> slot_is_filled (fst (table (dmap d) ! j))" if "j < length (table (dmap d))" for j
    using dict_iter_next_None [OF None, of j] that by simp
  then have "keys_of (map fst (table (dmap d))) = {}"
    by (fastforce simp: keys_of_def in_set_conv_nth)
  then have "map_abs ops (dmap d) k = None" for k by (simp add: map_abs_None)
  with None assms(2) dict_not_fixed [OF assms(1)] show ?thesis
    by (auto simp: dict_popitem_def dict_abs_def)
next
  case (Some pc)
  obtain p c where pc: "pc = (p, c)" by (cases pc)
  let ?t = "table (dmap d)" and ?ss = "map fst (table (dmap d))"
  have p: "p < length ?t" "slot_is_filled (fst (?t ! p))"
    using dict_iter_next_Some [OF Some [unfolded pc]] by simp_all
  then obtain k where k: "fst (?t ! p) = Key k" by (auto simp: slot_is_filled_iff)
  have inv: "slots_inv (obj_equal ops) (obj_hash ops) ?ss" by (rule map_inv_slots [OF dict_invD [OF assms(1)]])
  have upd: "map fst (?t[p := (SlotSentinel, None)]) = ?ss[p := SlotSentinel]" by (simp add: map_update)
  have inv': "slots_inv (obj_equal ops) (obj_hash ops) (map fst (?t[p := (SlotSentinel, None)]))"
    unfolding upd by (rule slots_inv_sentinel [OF inv]) (simp add: p(1))
  have n: "n_keys (?ss[p := SlotSentinel]) + 1 = n_keys ?ss"
    using n_keys_update [of p ?ss SlotSentinel] p k by simp
  have keys: "keys_of (?ss[p := SlotSentinel]) \<subseteq> keys_of ?ss"
    using set_update_subset_insert [of ?ss p SlotSentinel] by (auto simp: keys_of_def)
  have d': "d' = d\<lparr>dmap := (dmap d)\<lparr>used := used (dmap d) - 1, table := ?t[p := (SlotSentinel, None)]\<rparr>\<rparr>"
    and r: "r = Inr (?t ! p)"
    using assms(2) Some pc dict_not_fixed [OF assms(1)] by (auto simp: dict_popitem_def)
  have abs': "map_abs ops (dmap d') = (\<lambda>j. if obj_equal ops k j then None else map_abs ops (dmap d) j)"
    using elem_of_delete [OF inv inv' p(1) k] unfolding d' map_abs_def by simp
  have abs: "map_abs ops (dmap d) k = Some (snd (?t ! p))"
    unfolding map_abs_def by (rule elem_of_at [OF inv p(1) k eq_refl])
  have mi: "map_inv ops (dmap d')"
    using dict_invD [OF assms(1)] inv' n keys unfolding d' by (auto simp: map_inv_def map_update)
  have u: "used (dmap d') + 1 = used (dmap d)"
    using dict_invD [OF assms(1)] n unfolding d' by (simp add: map_inv_def)
  have "snd (?t ! p) \<noteq> None" using abs assms(1) unfolding dict_inv_def by metis
  moreover have "dict_abs ops d k = snd (?t ! p)" using abs by (simp add: dict_abs_def)
  moreover have "dict_abs ops d' = (\<lambda>j. if obj_equal ops k j then None else dict_abs ops d j)"
    unfolding dict_abs_def abs' by auto
  moreover have "dict_inv ops d'" using mi assms(1) unfolding dict_inv_def abs' by auto
  ultimately show ?thesis using r u k by (cases "?t ! p") simp
qed

text \<open>A copy is equal to the dictionary and is not fixed; \<open>clear\<close> empties it.\<close>

lemma dict_copy_val: "dict_inv ops d \<Longrightarrow> dict_inv ops (dict_copy d) \<and> dict_abs ops (dict_copy d) = dict_abs ops d"
  by (simp add: dict_inv_def map_inv_def dict_copy_def dict_abs_def map_abs_def fun_eq_iff)

lemma map_abs_init [simp]: "map_abs ops (mp_map_init n) k = None" "map_inv ops (mp_map_init n)"
  by (simp_all add: map_abs_None mp_map_init_def map_inv_def slots_inv_fresh)

lemma dict_new_val: "dict_inv ops (mp_obj_new_dict n)" "dict_abs ops (mp_obj_new_dict n) = (\<lambda>k. None)"
  by (simp_all add: dict_inv_def mp_obj_new_dict_def dict_abs_def fun_eq_iff)

lemma dict_clear_val:
  assumes "dict_inv ops d"
  obtains d' where "dict_clear d = (d', Inr ())" and "dict_inv ops d'" and "dict_abs ops d' = (\<lambda>k. None)"
proof (rule that)
  have m: "map_inv ops (mp_map_clear (dmap d))" "map_abs ops (mp_map_clear (dmap d)) k = None" for k
    using dict_invD [OF assms] by (simp_all add: map_inv_def mp_map_clear_def slots_inv_def n_keys_def map_abs_None keys_of_def)
  show "dict_clear d = (d\<lparr>dmap := mp_map_clear (dmap d)\<rparr>, Inr ())"
    using dict_not_fixed [OF assms] by (simp add: dict_clear_def)
  show "dict_inv ops (d\<lparr>dmap := mp_map_clear (dmap d)\<rparr>)"
    and "dict_abs ops (d\<lparr>dmap := mp_map_clear (dmap d)\<rparr>) = (\<lambda>k. None)"
    using m by (simp_all add: dict_inv_def dict_abs_def fun_eq_iff)
qed

end

section \<open>Update\<close>

text \<open>The last of the pairs with an equal key decides.\<close>

fun last_of :: "('k \<Rightarrow> 'k \<Rightarrow> bool) \<Rightarrow> ('k \<times> 'v) list \<Rightarrow> 'k \<Rightarrow> 'v option" where
  "last_of eq [] j = None"
| "last_of eq ((k, v) # ps) j =
     (case last_of eq ps j of Some w \<Rightarrow> Some w | None \<Rightarrow> if eq k j then Some v else None)"

definition override :: "('k \<Rightarrow> 'k \<Rightarrow> bool) \<Rightarrow> ('k \<Rightarrow> 'v option) \<Rightarrow> ('k \<times> 'v) list \<Rightarrow> 'k \<Rightarrow> 'v option" where
  "override eq f ps j = (case last_of eq ps j of Some v \<Rightarrow> Some v | None \<Rightarrow> f j)"

lemma override_Cons:
  "override eq f ((k, v) # ps) = override eq (\<lambda>j. if eq k j then Some v else f j) ps"
  by (auto simp: override_def fun_eq_iff split: option.split)

lemma override_Nil [simp]: "override eq f [] = f"
  by (simp add: override_def fun_eq_iff)

lemma last_of_mem: "last_of eq ps j = Some v \<Longrightarrow> \<exists>k. (k, v) \<in> set ps"
  by (induction eq ps j rule: last_of.induct) (auto split: option.splits if_splits)

definition filled_pairs :: "('k, 'v) mp_map_elem list \<Rightarrow> ('k \<times> 'v option) list" where
  "filled_pairs t = concat (map (\<lambda>e. case fst e of Key k \<Rightarrow> [(k, snd e)] | _ \<Rightarrow> []) t)"

lemma filled_pairs_simps [simp]:
  "filled_pairs [] = []" "filled_pairs ((Key k, v) # t) = (k, v) # filled_pairs t"
  "\<not> slot_is_filled (fst e) \<Longrightarrow> filled_pairs (e # t) = filled_pairs t"
  by (auto simp: filled_pairs_def slot_is_filled_def split: slot.split)

lemma filled_pairs_filter [simp]: "filled_pairs (filter (\<lambda>e. slot_is_filled (fst e)) t) = filled_pairs t"
proof (induction t)
  case (Cons e t)
  then show ?case by (cases "fst e") (simp_all add: filled_pairs_def)
qed simp

context map_objs
begin

lemma map_store_elems_val:
  "map_inv ops m \<Longrightarrow>
   \<exists>m'. map_store_elems ops es m = Some m' \<and> map_inv ops m' \<and> map_abs ops m' = override (obj_equal ops) (map_abs ops m) (filled_pairs es)"
proof (induction es arbitrary: m)
  case (Cons e es)
  obtain s v where e: "e = (s, v)" by (cases e)
  show ?case
  proof (cases s)
    case (Key k)
    obtain m1 where m1: "map_store ops m k v = Some m1" "map_inv ops m1"
      "map_abs ops m1 = (\<lambda>j. if obj_equal ops k j then Some v else map_abs ops m j)"
      by (rule map_store [OF Cons.prems])
    from Cons.IH [OF m1(2)] show ?thesis by (simp add: e Key m1 override_Cons)
  qed (use Cons e in simp_all)
qed simp

text \<open>For the slots of a table the last pair is the only one.\<close>

lemma last_of_uniq: "uniq_slots (obj_equal ops) (map fst t) \<Longrightarrow> last_of (obj_equal ops) (filled_pairs t) = elem_of (obj_equal ops) t"
proof (induction t)
  case Nil
  then show ?case by (simp add: elem_of_def fun_eq_iff)
next
  case (Cons e t)
  show ?case
  proof (cases "fst e")
    case (Key k)
    obtain v where e: "e = (Key k, v)" using Key by (metis prod.collapse)
    have none: "elem_of (obj_equal ops) t j = None" if "obj_equal ops k j" for j
      unfolding elem_of_None
    proof (intro ballI notI)
      fix b
      assume b: "b \<in> keys_of (map fst t)" "obj_equal ops b j"
      have "obj_equal ops b k" by (rule eq_trans [OF b(2) eq_sym [OF that]])
      with b(1) Cons.prems e show False by simp
    qed
    from Cons e none show ?thesis by (auto simp: elem_of_Cons fun_eq_iff split: option.split)
  qed (use Cons in \<open>auto simp: elem_of_Cons fun_eq_iff\<close>)
qed

lemma override_table:
  "map_inv ops m \<Longrightarrow> override (obj_equal ops) f (filled_pairs (dict_elems (table m) 0)) =
     (\<lambda>j. case map_abs ops m j of Some v \<Rightarrow> Some v | None \<Rightarrow> f j)"
  by (rule ext) (simp add: override_def dict_elems_filter last_of_uniq uniq_slots_inv map_inv_slots map_abs_def)

text \<open>\<open>update\<close> from another dictionary, and then from the keyword arguments.\<close>

lemma dict_update_dict:
  assumes "dict_inv ops d" and "dict_inv ops other" and "\<And>k v. (k, v) \<in> set (filled_pairs (table kwargs)) \<Longrightarrow> v \<noteq> None"
  obtains d' where "dict_update ops d (FromDict other) kwargs = (d', Inr ())" and "dict_inv ops d'"
    and "\<And>j. dict_abs ops d' j = (case last_of (obj_equal ops) (filled_pairs (table kwargs)) j of Some v \<Rightarrow> v
      | None \<Rightarrow> (case dict_abs ops other j of Some v \<Rightarrow> Some v | None \<Rightarrow> dict_abs ops d j))"
proof -
  obtain m1 where m1: "map_store_elems ops (dict_elems (table (dmap other)) 0) (dmap d) = Some m1" "map_inv ops m1"
    "map_abs ops m1 = (\<lambda>j. case map_abs ops (dmap other) j of Some v \<Rightarrow> Some v | None \<Rightarrow> map_abs ops (dmap d) j)"
    using map_store_elems_val [OF dict_invD [OF assms(1)], of "dict_elems (table (dmap other)) 0"]
    unfolding override_table [OF dict_invD [OF assms(2)]] by blast
  obtain m2 where m2: "map_store_elems ops (filter (\<lambda>e. slot_is_filled (fst e)) (table kwargs)) m1 = Some m2"
    "map_inv ops m2" "map_abs ops m2 = override (obj_equal ops) (map_abs ops m1) (filled_pairs (table kwargs))"
    using map_store_elems_val [OF m1(2), of "filter (\<lambda>e. slot_is_filled (fst e)) (table kwargs)"]
    unfolding filled_pairs_filter by blast
  have "map_abs ops m2 k \<noteq> Some None" for k
  proof -
    have "last_of (obj_equal ops) (filled_pairs (table kwargs)) k \<noteq> Some None"
    proof
      assume "last_of (obj_equal ops) (filled_pairs (table kwargs)) k = Some None"
      from last_of_mem [OF this] obtain k' where "(k', None) \<in> set (filled_pairs (table kwargs))" ..
      with assms(3) show False by blast
    qed
    moreover have "map_abs ops (dmap d) k \<noteq> Some None" "map_abs ops (dmap other) k \<noteq> Some None"
      using assms(1,2) unfolding dict_inv_def by blast+
    ultimately show ?thesis unfolding m2(3) override_def m1(3) by (auto split: option.splits)
  qed
  with m2(2) have inv: "dict_inv ops (d\<lparr>dmap := m2\<rparr>)" by (simp add: dict_inv_def)
  show thesis
  proof (rule that [OF _ inv])
    show "dict_update ops d (FromDict other) kwargs = (d\<lparr>dmap := m2\<rparr>, Inr ())"
      using m1(1) m2(1) dict_not_fixed [OF assms(1)] by (simp add: dict_update_def dict_update_arg_def)
    show "dict_abs ops (d\<lparr>dmap := m2\<rparr>) j = (case last_of (obj_equal ops) (filled_pairs (table kwargs)) j of Some v \<Rightarrow> v
      | None \<Rightarrow> (case dict_abs ops other j of Some v \<Rightarrow> Some v | None \<Rightarrow> dict_abs ops d j))" for j
      using dict_inv_abs [OF assms(2), of j]
      by (cases "dict_abs ops other j"; cases "last_of (obj_equal ops) (filled_pairs (table kwargs)) j")
        (simp_all add: dict_abs_def [of ops d] dict_abs_def [of ops "d\<lparr>dmap := m2\<rparr>"] m2(3) override_def m1(3))
  qed
qed

text \<open>
  \<open>update\<close> from pairs: the pairs in front of a sequence of the wrong length are stored before
  \<open>ValueError\<close> is raised.
\<close>

lemma dict_update_pairs_val:
  "map_inv ops m \<Longrightarrow> rest = [] \<or> (\<exists>ps. rest = None # ps) \<Longrightarrow>
   \<exists>m'. dict_update_pairs ops (map Some ps @ rest) m = (m', if rest = [] then Inr () else Inl ValueErrorLength) \<and>
     map_inv ops m' \<and> map_abs ops m' = override (obj_equal ops) (map_abs ops m) (map (\<lambda>(k, v). (k, Some v)) ps)"
proof (induction ps arbitrary: m)
  case (Cons p ps)
  obtain k v where p: "p = (k, v)" by (cases p)
  obtain m1 where m1: "map_store ops m k (Some v) = Some m1" "map_inv ops m1"
    "map_abs ops m1 = (\<lambda>j. if obj_equal ops k j then Some (Some v) else map_abs ops m j)"
    by (rule map_store [OF Cons.prems(1)])
  from Cons.IH [OF m1(2) Cons.prems(2)] show ?case by (simp add: p m1 override_Cons)
qed auto

section \<open>Comparison\<close>

text \<open>The comparison with a table goes through the elements until one differs.\<close>

lemma dict_equal_elems_val:
  assumes "dict_inv ops r"
  shows "(\<And>e. e \<in> set es \<Longrightarrow> \<exists>k v. e = (Key k, Some v)) \<Longrightarrow>
    dict_equal_elems veq ops es (dmap r) =
      Some (\<forall>(s, v) \<in> set es. \<exists>k w. s = Key k \<and> dict_abs ops r k = Some w \<and> veq (the v) w)"
proof (induction es)
  case (Cons e es)
  obtain k v where e: "e = (Key k, Some v)" using Cons.prems [of e] by auto
  obtain m x where run: "mp_map_lookup ops (dmap r) k MP_MAP_LOOKUP = Some (m, x)"
    and out: "map_outcome ops (dmap r) k MP_MAP_LOOKUP m x"
    by (rule map_lookup [OF dict_invD [OF assms]])
  have abs: "map_abs ops (dmap r) k = map_option Some (dict_abs ops r k)" by (rule dict_inv_abs [OF assms])
  from Cons have IH: "dict_equal_elems veq ops es (dmap r) =
      Some (\<forall>(s, v) \<in> set es. \<exists>k w. s = Key k \<and> dict_abs ops r k = Some w \<and> veq (the v) w)" by simp
  show ?case
  proof (cases "dict_abs ops r k")
    case None
    with abs out have "x = None" by (simp add: map_outcome_def)
    with e run None show ?thesis by simp
  next
    case (Some w)
    with abs out obtain p where "x = Some p" "snd (table m ! p) = Some w" by (auto simp: map_outcome_def)
    with e run Some IH show ?thesis by simp
  qed
qed simp

text \<open>The keys of a table are as many as its filled slots.\<close>

lemma card_keys: "uniq_slots (obj_equal ops) ss \<Longrightarrow> finite (keys_of ss) \<and> card (keys_of ss) = n_keys ss"
proof (induction ss)
  case (Cons s ss)
  show ?case
  proof (cases s)
    case (Key q)
    with Cons.prems have "q \<notin> keys_of ss" using eq_refl by auto
    with Cons Key show ?thesis by (simp add: keys_of_Cons n_keys_Cons)
  qed (use Cons in \<open>simp_all add: keys_of_Cons n_keys_Cons\<close>)
qed (simp add: keys_of_def n_keys_def)

lemma keys_unique:
  assumes "map_inv ops m" and "a \<in> keys_of (map fst (table m))" "b \<in> keys_of (map fst (table m))" "obj_equal ops a b"
  shows "a = b"
proof -
  from assms(2,3) obtain p q where "p < length (table m)" "fst (table m ! p) = Key a"
    "q < length (table m)" "fst (table m ! q) = Key b"
    unfolding keys_of_def mem_Collect_eq in_set_conv_nth by auto
  with inv_unique [OF map_inv_slots [OF assms(1)] this, of b] assms(4) show ?thesis by auto
qed

lemma keys_le:
  assumes "map_inv ops m" and "map_inv ops n"
    and "\<forall>k \<in> keys_of (map fst (table m)). \<exists>q \<in> keys_of (map fst (table n)). obj_equal ops q k"
  shows "used m \<le> used n"
    and "used m = used n \<Longrightarrow> q \<in> keys_of (map fst (table n)) \<Longrightarrow> \<exists>k \<in> keys_of (map fst (table m)). obj_equal ops q k"
proof -
  let ?K = "keys_of (map fst (table m))" and ?Q = "keys_of (map fst (table n))"
  obtain f where f: "\<forall>k \<in> ?K. f k \<in> ?Q \<and> obj_equal ops (f k) k" using assms(3) by metis
  have "inj_on f ?K"
  proof (rule inj_onI)
    fix a b
    assume ab: "a \<in> ?K" "b \<in> ?K" "f a = f b"
    then have "obj_equal ops (f a) a" "obj_equal ops (f a) b" using f by auto
    then have "obj_equal ops a b" using eq_sym eq_trans by blast
    with keys_unique [OF assms(1)] ab show "a = b" by blast
  qed
  moreover have fin: "finite ?K" "card ?K = used m" "finite ?Q" "card ?Q = used n"
    using card_keys [OF uniq_slots_inv [OF map_inv_slots [OF assms(1)]]]
      card_keys [OF uniq_slots_inv [OF map_inv_slots [OF assms(2)]]] assms(1,2)
    by (simp_all add: map_inv_def)
  moreover have sub: "f ` ?K \<subseteq> ?Q" using f by blast
  ultimately have "card (f ` ?K) = used m" by (simp add: card_image)
  with fin sub show "used m \<le> used n" by (metis card_mono)
  assume "used m = used n" "q \<in> ?Q"
  then have "f ` ?K = ?Q" using fin sub \<open>card (f ` ?K) = used m\<close> by (metis card_subset_eq)
  with \<open>q \<in> ?Q\<close> obtain k where "k \<in> ?K" "q = f k" by blast
  with f show "\<exists>k \<in> ?K. obj_equal ops q k" by blast
qed

lemma dict_abs_keys:
  "dict_inv ops d \<Longrightarrow> dict_abs ops d k \<noteq> None \<longleftrightarrow> (\<exists>q \<in> keys_of (map fst (table (dmap d))). obj_equal ops q k)"
  using dict_inv_abs [of d k] map_abs_None [of "dmap d" k] by auto

lemma dict_abs_cong: "obj_equal ops q k \<Longrightarrow> dict_abs ops d q = dict_abs ops d k"
  using elem_of_cong [of q k "table (dmap d)"] by (simp add: dict_abs_def map_abs_def)

lemma dict_elem_abs:
  assumes "dict_inv ops d" and "(s, v) \<in> set (dict_elems (table (dmap d)) 0)"
  obtains k w where "s = Key k" and "v = Some w" and "dict_abs ops d k = Some w"
proof -
  from assms(2) have sv: "(s, v) \<in> set (table (dmap d))" "slot_is_filled s" by (auto simp: dict_elems_filter)
  then obtain k where k: "s = Key k" by (auto simp: slot_is_filled_iff)
  from sv(1) obtain p where p: "p < length (table (dmap d))" "table (dmap d) ! p = (s, v)" unfolding in_set_conv_nth by blast
  have "map_abs ops (dmap d) k = Some v"
    using elem_of_at [OF map_inv_slots [OF dict_invD [OF assms(1)]] p(1), of k k] p(2) k by (simp add: map_abs_def)
  with dict_inv_abs [OF assms(1), of k] have "v = dict_abs ops d k" "v \<noteq> None"
    by (cases "dict_abs ops d k"; simp)+
  with k show thesis by (auto intro: that)
qed

lemma dict_abs_elem:
  assumes "dict_inv ops d" and "dict_abs ops d k = Some v"
  obtains q where "(Key q, Some v) \<in> set (dict_elems (table (dmap d)) 0)" and "obj_equal ops q k"
proof -
  from dict_inv_abs [OF assms(1), of k] assms(2) have "elem_of (obj_equal ops) (table (dmap d)) k = Some (Some v)"
    by (simp add: map_abs_def)
  then obtain p q where p: "p < length (table (dmap d))" "table (dmap d) ! p = (Key q, Some v)" "obj_equal ops q k"
    by (rule elem_of_SomeE)
  then have "(Key q, Some v) \<in> set (table (dmap d))" by (metis nth_mem)
  with p(3) show thesis by (intro that [of q]) (simp_all add: dict_elems_filter)
qed

text \<open>
  Two dictionaries are equal exactly when they have equal values for equal keys: the comparison of
  the number of elements makes it enough to look the keys of one up in the other.
\<close>

lemma dict_equal_val:
  assumes l: "dict_inv ops l" and r: "dict_inv ops r" and "\<not> ordereddict_type r"
  shows "dict_equal veq ops l r = Some (\<forall>k. rel_option veq (dict_abs ops l k) (dict_abs ops r k))"
proof -
  let ?E = "dict_elems (table (dmap l)) 0"
  let ?found = "\<forall>(s, v) \<in> set ?E. \<exists>k w. s = Key k \<and> dict_abs ops r k = Some w \<and> veq (the v) w"
  have run: "dict_equal veq ops l r = Some (used (dmap l) = used (dmap r) \<and> ?found)"
  proof -
    have "\<exists>k v. e = (Key k, Some v)" if "e \<in> set ?E" for e
    proof -
      obtain s v where e: "e = (s, v)" by (metis prod.exhaust)
      from that [unfolded e] show ?thesis by (rule dict_elem_abs [OF l]) (simp add: e)
    qed
    from dict_equal_elems_val [OF r this] show ?thesis using assms(3) by (simp add: dict_equal_def)
  qed
  note le = keys_le [OF dict_invD [OF l] dict_invD [OF r]] and ge = keys_le [OF dict_invD [OF r] dict_invD [OF l]]
  have "used (dmap l) = used (dmap r) \<and> ?found" if rel: "\<forall>k. rel_option veq (dict_abs ops l k) (dict_abs ops r k)"
  proof
    have same: "dict_abs ops l k \<noteq> None \<longleftrightarrow> dict_abs ops r k \<noteq> None" for k
      using rel [rule_format, of k] by (auto simp: option_rel_Some1 option_rel_Some2)
    have "\<exists>q \<in> keys_of (map fst (table (dmap r))). obj_equal ops q k" if "k \<in> keys_of (map fst (table (dmap l)))" for k
      using that same [of k] dict_abs_keys [OF l, of k] dict_abs_keys [OF r, of k] eq_refl by blast
    moreover have "\<exists>q \<in> keys_of (map fst (table (dmap l))). obj_equal ops q k" if "k \<in> keys_of (map fst (table (dmap r)))" for k
      using that same [of k] dict_abs_keys [OF l, of k] dict_abs_keys [OF r, of k] eq_refl by blast
    ultimately show "used (dmap l) = used (dmap r)" using le(1) ge(1) by (metis le_antisym)
    show ?found
    proof (clarify)
      fix s v
      assume "(s, v) \<in> set ?E"
      then obtain k w where k: "s = Key k" "v = Some w" "dict_abs ops l k = Some w" by (rule dict_elem_abs [OF l])
      with rel [rule_format, of k] show "\<exists>k w. s = Key k \<and> dict_abs ops r k = Some w \<and> veq (the v) w"
        by (auto simp: option_rel_Some1)
    qed
  qed
  moreover have "rel_option veq (dict_abs ops l k) (dict_abs ops r k)"
    if used: "used (dmap l) = used (dmap r)" and found: ?found for k
  proof (cases "dict_abs ops l k")
    case (Some v)
    then obtain q where q: "(Key q, Some v) \<in> set ?E" "obj_equal ops q k" by (rule dict_abs_elem [OF l])
    with found obtain w where w: "dict_abs ops r q = Some w" "veq v w" by fastforce
    then have "dict_abs ops r k = Some w" by (simp only: dict_abs_cong [OF q(2)])
    with Some w(2) show ?thesis by simp
  next
    case None
    have "dict_abs ops r k = None"
    proof (rule ccontr)
      assume "dict_abs ops r k \<noteq> None"
      then obtain q where q: "q \<in> keys_of (map fst (table (dmap r)))" "obj_equal ops q k"
        using dict_abs_keys [OF r] by blast
      have "\<exists>q \<in> keys_of (map fst (table (dmap r))). obj_equal ops q b" if "b \<in> keys_of (map fst (table (dmap l)))" for b
      proof -
        have "dict_abs ops l b \<noteq> None" using that dict_abs_keys [OF l, of b] eq_refl by blast
        then obtain v where "dict_abs ops l b = Some v" by blast
        then obtain c where c: "(Key c, Some v) \<in> set ?E" "obj_equal ops c b" by (rule dict_abs_elem [OF l])
        with found have "dict_abs ops r c \<noteq> None" by fastforce
        with dict_abs_cong [OF c(2), of r] dict_abs_keys [OF r, of b] show ?thesis by simp
      qed
      with le(2) used q(1) obtain b where b: "b \<in> keys_of (map fst (table (dmap l)))" "obj_equal ops q b" by blast
      then have "obj_equal ops b k" using q(2) eq_sym eq_trans by blast
      with b(1) None dict_abs_keys [OF l, of k] show False by blast
    qed
    with None show ?thesis by simp
  qed
  ultimately show ?thesis unfolding run by blast
qed

end

end
