(* ===== verification/DictRun.thy ===== *)
theory DictRun
  imports DictLaws
begin

text \<open>
  Runs of dictionary operations (\<open>py/objdict.c\<close>): the calls a program makes on one dictionary object,
  in order, with what each returns. Every run from a new dictionary is a run of a partial map, and the
  invariant holds in every dictionary that is reached.
\<close>

section \<open>Calls and what they return\<close>

datatype ('k, 'v) dict_call =
    CallStore 'k 'v
  | CallSubscr 'k
  | CallContains 'k
  | CallGet 'k "'v option"
  | CallPop 'k "'v option"
  | CallSetDefault 'k "'v option"
  | CallDelete 'k
  | CallPopItem
  | CallCopy
  | CallClear

datatype ('k, 'v) dict_reply =
    Done
  | Answer bool
  | Value "'v option"
  | Item "'k slot" "'v option"
  | Raised "'k dict_error"

fun reply_value :: "('k dict_error + 'v) \<Rightarrow> ('k, 'v) dict_reply" where
  "reply_value (Inl e) = Raised e"
| "reply_value (Inr v) = Value (Some v)"

fun reply_unit :: "('k dict_error + 'a) \<Rightarrow> ('k, 'v) dict_reply" where
  "reply_unit (Inl e) = Raised e"
| "reply_unit (Inr u) = Done"

fun dict_exec :: "'v \<Rightarrow> 'k obj_ops \<Rightarrow> ('k, 'v) dict \<Rightarrow> ('k, 'v) dict_call \<Rightarrow> ('k, 'v) dict \<times> ('k, 'v) dict_reply" where
  "dict_exec none ops d (CallStore k v) = map_prod id reply_unit (mp_obj_dict_store ops d k v)"
| "dict_exec none ops d (CallSubscr k) =
     (d, case mp_obj_dict_get ops d k of Inl e \<Rightarrow> Raised e | Inr v \<Rightarrow> Value v)"
| "dict_exec none ops d (CallContains k) =
     (d, case dict_contains ops d k of Inl e \<Rightarrow> Raised e | Inr b \<Rightarrow> Answer b)"
| "dict_exec none ops d (CallGet k v) = map_prod id reply_value (dict_get none ops d k v)"
| "dict_exec none ops d (CallPop k v) = map_prod id reply_value (dict_pop none ops d k v)"
| "dict_exec none ops d (CallSetDefault k v) = map_prod id reply_value (dict_setdefault none ops d k v)"
| "dict_exec none ops d (CallDelete k) = map_prod id reply_unit (mp_obj_dict_delete none ops d k)"
| "dict_exec none ops d CallPopItem =
     map_prod id (case_sum Raised (\<lambda>(s, v). Item s v)) (dict_popitem d)"
| "dict_exec none ops d CallCopy = (dict_copy d, Done)"
| "dict_exec none ops d CallClear = map_prod id reply_unit (dict_clear d)"

section \<open>The same calls on a partial map\<close>

definition upd_eq :: "('k \<Rightarrow> 'k \<Rightarrow> bool) \<Rightarrow> ('k \<Rightarrow> 'v option) \<Rightarrow> 'k \<Rightarrow> 'v option \<Rightarrow> 'k \<Rightarrow> 'v option" where
  "upd_eq eq f k v = (\<lambda>j. if eq k j then v else f j)"

inductive map_step ::
  "'v \<Rightarrow> ('k \<Rightarrow> 'k \<Rightarrow> bool) \<Rightarrow> ('k \<Rightarrow> 'v option) \<Rightarrow> ('k, 'v) dict_call \<Rightarrow> ('k, 'v) dict_reply \<Rightarrow> ('k \<Rightarrow> 'v option) \<Rightarrow> bool"
  for none eq where
  store: "map_step none eq f (CallStore k v) Done (upd_eq eq f k (Some v))"
| subscr: "f k = Some v \<Longrightarrow> map_step none eq f (CallSubscr k) (Value (Some v)) f"
| subscr_missing: "f k = None \<Longrightarrow> map_step none eq f (CallSubscr k) (Raised (KeyError k)) f"
| contains: "map_step none eq f (CallContains k) (Answer (f k \<noteq> None)) f"
| get: "f k = Some v \<Longrightarrow> map_step none eq f (CallGet k w) (Value (Some v)) f"
| get_missing: "f k = None \<Longrightarrow>
    map_step none eq f (CallGet k w) (Value (Some (case w of None \<Rightarrow> none | Some v \<Rightarrow> v))) f"
| pop: "f k = Some v \<Longrightarrow> map_step none eq f (CallPop k w) (Value (Some v)) (upd_eq eq f k None)"
| pop_default: "f k = None \<Longrightarrow> map_step none eq f (CallPop k (Some v)) (Value (Some v)) f"
| pop_missing: "f k = None \<Longrightarrow> map_step none eq f (CallPop k None) (Raised (KeyError k)) f"
| setdefault: "f k = Some v \<Longrightarrow> map_step none eq f (CallSetDefault k w) (Value (Some v)) f"
| setdefault_new: "f k = None \<Longrightarrow> v = (case w of None \<Rightarrow> none | Some v \<Rightarrow> v) \<Longrightarrow>
    map_step none eq f (CallSetDefault k w) (Value (Some v)) (upd_eq eq f k (Some v))"
| delete: "f k = Some v \<Longrightarrow> map_step none eq f (CallDelete k) Done (upd_eq eq f k None)"
| delete_missing: "f k = None \<Longrightarrow> map_step none eq f (CallDelete k) (Raised (KeyError k)) f"
| popitem: "f k = Some v \<Longrightarrow> map_step none eq f CallPopItem (Item (Key k) (Some v)) (upd_eq eq f k None)"
| popitem_empty: "\<forall>k. f k = None \<Longrightarrow> map_step none eq f CallPopItem (Raised KeyErrorEmpty) f"
| copy: "map_step none eq f CallCopy Done f"
| clear: "map_step none eq f CallClear Done (\<lambda>k. None)"

inductive_cases map_step_raisedE: "map_step none eq f c (Raised e) g"

section \<open>Runs\<close>

type_synonym ('k, 'v) trace = "(('k, 'v) dict_call \<times> ('k, 'v) dict_reply) list"

inductive dict_reaches :: "'v \<Rightarrow> 'k obj_ops \<Rightarrow> ('k, 'v) dict \<Rightarrow> ('k, 'v) trace \<Rightarrow> ('k, 'v) dict \<Rightarrow> bool"
  for none ops d0 where
  start: "dict_reaches none ops d0 [] d0"
| call: "dict_reaches none ops d0 tr d \<Longrightarrow> dict_exec none ops d c = (d', r) \<Longrightarrow>
    dict_reaches none ops d0 (tr @ [(c, r)]) d'"

inductive map_reaches ::
  "'v \<Rightarrow> ('k \<Rightarrow> 'k \<Rightarrow> bool) \<Rightarrow> ('k \<Rightarrow> 'v option) \<Rightarrow> ('k, 'v) trace \<Rightarrow> ('k \<Rightarrow> 'v option) \<Rightarrow> bool"
  for none eq f0 where
  start: "map_reaches none eq f0 [] f0"
| call: "map_reaches none eq f0 tr f \<Longrightarrow> map_step none eq f c r g \<Longrightarrow> map_reaches none eq f0 (tr @ [(c, r)]) g"

fun dict_run :: "'v \<Rightarrow> 'k obj_ops \<Rightarrow> ('k, 'v) dict \<Rightarrow> ('k, 'v) dict_call list \<Rightarrow> ('k, 'v) dict \<times> ('k, 'v) dict_reply list" where
  "dict_run none ops d [] = (d, [])"
| "dict_run none ops d (c # cs) =
     (let (d, r) = dict_exec none ops d c; (d, rs) = dict_run none ops d cs in (d, r # rs))"

text \<open>A map that gives one value to equal keys.\<close>

definition eq_respects :: "('k \<Rightarrow> 'k \<Rightarrow> bool) \<Rightarrow> ('k \<Rightarrow> 'v option) \<Rightarrow> bool" where
  "eq_respects eq f \<longleftrightarrow> (\<forall>a b. eq a b \<longrightarrow> f a = f b)"

context map_objs
begin

lemma upd_eq_None: "eq_respects (obj_equal ops) f \<Longrightarrow> f k = None \<Longrightarrow> upd_eq (obj_equal ops) f k None = f"
  by (auto simp: eq_respects_def upd_eq_def fun_eq_iff)

lemma upd_eq_respects: "eq_respects (obj_equal ops) f \<Longrightarrow> eq_respects (obj_equal ops) (upd_eq (obj_equal ops) f k v)"
  unfolding eq_respects_def upd_eq_def using eq_trans eq_sym by metis

text \<open>One call on a dictionary is one step of the map.\<close>

lemma dict_exec_step:
  assumes "dict_inv ops d" and "eq_respects (obj_equal ops) (dict_abs ops d)" and "dict_exec none ops d c = (d', r)"
  shows "dict_inv ops d' \<and> map_step none (obj_equal ops) (dict_abs ops d) c r (dict_abs ops d')"
proof (cases c)
  case (CallStore k v)
  obtain d2 where "mp_obj_dict_store ops d k v = (d2, Inr ())" "dict_inv ops d2"
    "dict_abs ops d2 = upd_eq (obj_equal ops) (dict_abs ops d) k (Some v)"
    by (rule dict_storeE [OF assms(1), of k v]) (simp add: upd_eq_def)
  with assms(3) CallStore show ?thesis by (auto intro: map_step.intros)
next
  case (CallSubscr k)
  with assms(1,3) dict_getE(1) [OF assms(1), of k] show ?thesis
    by (cases "dict_abs ops d k") (auto intro: map_step.intros)
next
  case (CallContains k)
  with assms(1,3) dict_getE(2) [OF assms(1), of k] map_step.contains [of none "obj_equal ops" "dict_abs ops d" k]
  show ?thesis by auto
next
  case (CallGet k w)
  with assms(1,3) dict_get_val [OF assms(1), of none k w] show ?thesis
    by (cases "dict_abs ops d k") (auto intro: map_step.intros)
next
  case (CallPop k w)
  obtain d2 x where run: "dict_pop none ops d k w = (d2, x)" by (cases "dict_pop none ops d k w")
  note pop = dict_pop_val [OF assms(1) run]
  have abs: "dict_abs ops d2 = upd_eq (obj_equal ops) (dict_abs ops d) k None" using pop(2) by (simp add: upd_eq_def)
  show ?thesis
  proof (cases "dict_abs ops d k")
    case None
    with abs assms(2) have "dict_abs ops d2 = dict_abs ops d" by (simp add: upd_eq_None)
    with CallPop None run pop assms(3) show ?thesis by (cases w) (auto intro: map_step.intros)
  next
    case (Some v)
    with CallPop run pop(1,3) abs assms(3) show ?thesis by (auto intro: map_step.intros)
  qed
next
  case (CallSetDefault k w)
  obtain d2 x where run: "dict_setdefault none ops d k w = (d2, x)" by (cases "dict_setdefault none ops d k w")
  note sd = dict_setdefault_val [OF assms(1) run]
  show ?thesis
  proof (cases "dict_abs ops d k")
    case None
    with sd(3) have "dict_abs ops d2 = upd_eq (obj_equal ops) (dict_abs ops d) k (Some (case w of None \<Rightarrow> none | Some v \<Rightarrow> v))"
      by (simp add: upd_eq_def)
    with CallSetDefault None run sd(1,2) assms(3) show ?thesis by (auto intro: map_step.intros)
  next
    case (Some v)
    with CallSetDefault run sd assms(3) show ?thesis by (auto intro: map_step.intros)
  qed
next
  case (CallDelete k)
  obtain d2 x where run: "dict_pop none ops d k None = (d2, x)" by (cases "dict_pop none ops d k None")
  note pop = dict_pop_val [OF assms(1) run]
  have abs: "dict_abs ops d2 = upd_eq (obj_equal ops) (dict_abs ops d) k None" using pop(2) by (simp add: upd_eq_def)
  have del: "mp_obj_dict_delete none ops d k = (d2, x)" using run by (simp add: mp_obj_dict_delete_def dict_pop_def)
  show ?thesis
  proof (cases "dict_abs ops d k")
    case None
    with abs assms(2) have "dict_abs ops d2 = dict_abs ops d" by (simp add: upd_eq_None)
    with CallDelete None del pop assms(3) show ?thesis by (auto intro: map_step.intros)
  next
    case (Some v)
    with CallDelete del pop(1,3) abs assms(3) show ?thesis by (auto intro: map_step.intros)
  qed
next
  case CallPopItem
  obtain d2 x where run: "dict_popitem d = (d2, x)" by (cases "dict_popitem d")
  note pi = dict_popitem_val [OF assms(1) run]
  show ?thesis
  proof (cases x)
    case (Inl e)
    with pi have "e = KeyErrorEmpty" "d2 = d" "\<forall>k. dict_abs ops d k = None" by simp_all
    with CallPopItem Inl run assms(1,3) show ?thesis by (auto intro: map_step.popitem_empty)
  next
    case (Inr sv)
    obtain s v where sv: "sv = (s, v)" by (cases sv)
    with Inr pi obtain k w where k: "dict_inv ops d2" "s = Key k" "v = Some w" "dict_abs ops d k = Some w"
      "dict_abs ops d2 = upd_eq (obj_equal ops) (dict_abs ops d) k None"
      by (auto simp: upd_eq_def)
    with CallPopItem Inr sv run assms(3) show ?thesis by (auto intro: map_step.popitem)
  qed
next
  case CallCopy
  with dict_copy_val [OF assms(1)] assms(3) show ?thesis by (auto intro: map_step.copy)
next
  case CallClear
  obtain d2 where "dict_clear d = (d2, Inr ())" "dict_inv ops d2" "dict_abs ops d2 = (\<lambda>k. None)"
    by (rule dict_clear_val [OF assms(1)])
  with CallClear assms(3) show ?thesis by (auto intro: map_step.clear)
qed

lemma map_step_respects: "map_step none (obj_equal ops) f c r g \<Longrightarrow> eq_respects (obj_equal ops) f \<Longrightarrow> eq_respects (obj_equal ops) g"
  by (induction rule: map_step.induct) (auto simp: upd_eq_respects, auto simp: eq_respects_def)

text \<open>The invariant in every reachable dictionary, and the simulation.\<close>

lemma dict_reaches_map:
  assumes "dict_reaches none ops (mp_obj_new_dict n) tr d"
  shows "dict_inv ops d \<and> eq_respects (obj_equal ops) (dict_abs ops d) \<and>
    map_reaches none (obj_equal ops) (\<lambda>k. None) tr (dict_abs ops d)"
  using assms
proof (induction rule: dict_reaches.induct)
  case start
  then show ?case by (simp add: dict_new_val map_reaches.start eq_respects_def)
next
  case (call tr d c d' r)
  then have inv: "dict_inv ops d" and resp: "eq_respects (obj_equal ops) (dict_abs ops d)"
    and run: "map_reaches none (obj_equal ops) (\<lambda>k. None) tr (dict_abs ops d)" by blast+
  note step = dict_exec_step [OF inv resp call.hyps(2)]
  show ?case
    using step map_step_respects [OF conjunct2 [OF step] resp] map_reaches.call [OF run conjunct2 [OF step]] by blast
qed

end

lemma dict_run_reaches: "dict_reaches none ops d0 tr d \<Longrightarrow> dict_run none ops d cs = (d', rs) \<Longrightarrow>
    dict_reaches none ops d0 (tr @ zip cs rs) d' \<and> length rs = length cs"
proof (induction cs arbitrary: tr d rs d')
  case (Cons c cs)
  obtain d1 r where exec: "dict_exec none ops d c = (d1, r)" by (cases "dict_exec none ops d c")
  obtain d2 rs2 where run: "dict_run none ops d1 cs = (d2, rs2)" by (cases "dict_run none ops d1 cs")
  have "dict_reaches none ops d0 (tr @ [(c, r)]) d1" by (rule dict_reaches.call [OF Cons.prems(1) exec])
  from Cons.IH [OF this run] Cons.prems(2) exec run show ?case by auto
qed simp

end
