(* ===== verification/SetLaws.thy ===== *)
theory SetLaws
  imports MapLaws
begin

text \<open>
  What \<open>mp_set_lookup\<close> and \<open>mp_set_remove_first\<close> promise: a table of keys is a set up to
  \<open>mp_obj_equal\<close>, every operation returns and keeps the invariant of the table.
\<close>

section \<open>The table as a set\<close>

definition set_mem :: "'k obj_ops \<Rightarrow> 'k mp_set \<Rightarrow> 'k \<Rightarrow> bool" where
  "set_mem ops s k \<longleftrightarrow> (\<exists>q \<in> keys_of (set_table s). obj_equal ops q k)"

definition set_inv :: "'k obj_ops \<Rightarrow> 'k mp_set \<Rightarrow> bool" where
  "set_inv ops s \<longleftrightarrow>
     slots_inv (obj_equal ops) (obj_hash ops) (set_table s) \<and> set_used s = n_keys (set_table s)"

definition set_outcome ::
  "'k obj_ops \<Rightarrow> 'k mp_set \<Rightarrow> 'k \<Rightarrow> mp_map_lookup_kind \<Rightarrow> 'k mp_set \<Rightarrow> 'k option \<Rightarrow> bool" where
  "set_outcome ops s k kind s' r \<longleftrightarrow>
     set_inv ops s' \<and>
     (if set_mem ops s k then
        (\<exists>q. r = Some q \<and> obj_equal ops q k \<and>
           (if kind_removes kind
            then set_used s' + 1 = set_used s \<and> set_mem ops s' = (\<lambda>j. set_mem ops s j \<and> \<not> obj_equal ops k j)
            else s' = s))
      else if kind_adds kind then
        r = Some k \<and> set_used s' = set_used s + 1 \<and> set_mem ops s' = (\<lambda>j. obj_equal ops k j \<or> set_mem ops s j)
      else s' = s \<and> r = None)"

context set_objs
begin

lemma set_inv_slots: "set_inv ops s \<Longrightarrow> slots_inv (obj_equal ops) (obj_hash ops) (set_table s)"
  by (simp add: set_inv_def)

lemma set_add_at:
  assumes "set_inv ops s" and a: "a < length (set_table s)" "\<not> slot_is_filled (set_table s ! a)"
    and "on_path (set_table s) (obj_hash ops k) a" and "\<not> set_mem ops s k"
  shows "set_inv ops (mp_set_add_at s a k)"
    and "set_mem ops (mp_set_add_at s a k) = (\<lambda>j. obj_equal ops k j \<or> set_mem ops s j)"
proof -
  have "slots_inv (obj_equal ops) (obj_hash ops) ((set_table s)[a := Key k])"
    by (rule slots_inv_insert [OF set_inv_slots [OF assms(1)] a assms(4)]) (use assms(5) in \<open>simp add: set_mem_def\<close>)
  then show "set_inv ops (mp_set_add_at s a k)"
    using assms(1) n_keys_update [OF a(1), of "Key k"] a(2) by (simp add: set_inv_def mp_set_add_at_def)
  show "set_mem ops (mp_set_add_at s a k) = (\<lambda>j. obj_equal ops k j \<or> set_mem ops s j)"
    by (rule ext) (simp add: set_mem_def mp_set_add_at_def keys_of_update(3) [OF a])
qed

lemma set_remove_at:
  assumes "set_inv ops s" and p: "p < length (set_table s)" "set_table s ! p = Key q"
  shows "set_inv ops (mp_set_remove_at s p)" and "set_used (mp_set_remove_at s p) + 1 = set_used s"
    and "set_mem ops (mp_set_remove_at s p) = (\<lambda>j. set_mem ops s j \<and> \<not> obj_equal ops q j)"
proof -
  let ?d = "deleted_slot (set_table s) p"
  have n: "n_keys ((set_table s)[p := ?d]) + 1 = n_keys (set_table s)"
    using n_keys_update [OF p(1), of ?d] p(2) by simp
  have inv: "slots_inv (obj_equal ops) (obj_hash ops) ((set_table s)[p := ?d])"
    by (rule slots_inv_delete [OF set_inv_slots [OF assms(1)] p])
  show "set_inv ops (mp_set_remove_at s p)" "set_used (mp_set_remove_at s p) + 1 = set_used s"
    using inv n assms(1) by (simp_all add: set_inv_def mp_set_remove_at_def)
  have keys: "b \<in> keys_of ((set_table s)[p := ?d]) \<longleftrightarrow> b \<in> keys_of (set_table s) \<and> \<not> obj_equal ops q b" for b
  proof
    assume "b \<in> keys_of ((set_table s)[p := ?d])"
    then obtain x where x: "x < length (set_table s)" "(set_table s)[p := ?d] ! x = Key b"
      unfolding keys_of_def mem_Collect_eq in_set_conv_nth by auto
    then have "x \<noteq> p" by (cases "x = p") (simp_all add: deleted_slot_def split: if_splits)
    with x have xb: "set_table s ! x = Key b" by simp
    have "\<not> obj_equal ops q b"
    proof
      assume "obj_equal ops q b"
      with set_inv_slots [OF assms(1)] p x(1) xb have "p = x" unfolding slots_inv_def by blast
      with \<open>x \<noteq> p\<close> show False by simp
    qed
    moreover have "b \<in> keys_of (set_table s)" using xb nth_mem [OF x(1)] by (simp add: keys_of_def)
    ultimately show "b \<in> keys_of (set_table s) \<and> \<not> obj_equal ops q b" by blast
  next
    assume b: "b \<in> keys_of (set_table s) \<and> \<not> obj_equal ops q b"
    then obtain x where x: "x < length (set_table s)" "set_table s ! x = Key b"
      unfolding keys_of_def mem_Collect_eq in_set_conv_nth by auto
    with b p have "x \<noteq> p" by auto
    with x have "(set_table s)[p := ?d] ! x = Key b" "x < length ((set_table s)[p := ?d])" by simp_all
    then show "b \<in> keys_of ((set_table s)[p := ?d])"
      using nth_mem [of x "(set_table s)[p := ?d]"] by (simp add: keys_of_def)
  qed
  show "set_mem ops (mp_set_remove_at s p) = (\<lambda>j. set_mem ops s j \<and> \<not> obj_equal ops q j)"
  proof
    fix j
    have cong: "obj_equal ops q b \<longleftrightarrow> obj_equal ops q j" if "obj_equal ops b j" for b
      using that eq_sym eq_trans by blast
    have "(\<exists>b \<in> keys_of ((set_table s)[p := ?d]). obj_equal ops b j) \<longleftrightarrow>
      (\<exists>b \<in> keys_of (set_table s). obj_equal ops b j) \<and> \<not> obj_equal ops q j"
      using cong by (blast intro: keys [THEN iffD2] dest: keys [THEN iffD1])
    then show "set_mem ops (mp_set_remove_at s p) j = (set_mem ops s j \<and> \<not> obj_equal ops q j)"
      by (simp add: set_mem_def mp_set_remove_at_def)
  qed
qed

text \<open>The search in a table with room for the key, or for a key that is not added.\<close>

lemma set_search_room:
  assumes inv: "set_inv ops s" and ne: "set_table s \<noteq> []"
    and room: "kind_adds kind \<Longrightarrow> set_used s < length (set_table s) \<or> set_mem ops s k"
  obtains (result) s' r where "mp_set_search (Suc n) rehash ops s k kind = Some (s', r)"
    and "set_outcome ops s k kind s' r"
    and "\<not> set_mem ops s k \<Longrightarrow> length (set_table s') = length (set_table s)"
proof -
  let ?ss = "set_table s"
  let ?r = "probe (\<lambda>q. obj_equal ops q k) ?ss (obj_hash ops k mod length ?ss) (length ?ss) None"
  have spec: "case ?r of
      Found p \<Rightarrow> p < length ?ss \<and> (\<exists>q. ?ss ! p = Key q \<and> obj_equal ops q k)
    | Empty a \<Rightarrow> a < length ?ss \<and> \<not> slot_is_filled (?ss ! a) \<and> on_path ?ss (obj_hash ops k) a \<and>
        (\<forall>q \<in> keys_of ?ss. \<not> obj_equal ops q k)
    | Wrapped (Some a) \<Rightarrow> a < length ?ss \<and> \<not> slot_is_filled (?ss ! a) \<and> on_path ?ss (obj_hash ops k) a \<and>
        (\<forall>q \<in> keys_of ?ss. \<not> obj_equal ops q k)
    | Wrapped None \<Rightarrow> (\<forall>s \<in> set ?ss. slot_is_filled s) \<and> (\<forall>q \<in> keys_of ?ss. \<not> obj_equal ops q k)"
    by (rule probe_spec [OF set_inv_slots [OF inv]]) (use ne in auto)
  have added: thesis
    if r: "mp_set_search (Suc n) rehash ops s k kind =
        (if kind_adds kind then Some (mp_set_add_at s a k, Some k) else Some (s, None))"
      and a: "a < length ?ss" "\<not> slot_is_filled (?ss ! a)" "on_path ?ss (obj_hash ops k) a"
        "\<forall>q \<in> keys_of ?ss. \<not> obj_equal ops q k" for a
  proof -
    have no: "\<not> set_mem ops s k" using a(4) by (simp add: set_mem_def)
    note add = set_add_at [OF inv a(1-3) no]
    show thesis
      by (rule result [where s' = "if kind_adds kind then mp_set_add_at s a k else s"
            and r = "if kind_adds kind then Some k else None"])
        (use r add no inv in \<open>simp_all add: set_outcome_def\<close>, simp_all add: mp_set_add_at_def)
  qed
  show thesis
  proof (cases ?r)
    case (Found p)
    with spec obtain q where p: "p < length ?ss" "?ss ! p = Key q" and q: "obj_equal ops q k" by auto
    have mem: "set_mem ops s k" using p q unfolding set_mem_def keys_of_def by (metis mem_Collect_eq nth_mem)
    have kj: "obj_equal ops k j \<longleftrightarrow> obj_equal ops q j" for j using q eq_sym eq_trans by blast
    note remove = set_remove_at [OF inv p]
    show thesis
    proof (rule result [where s' = "if kind_removes kind then mp_set_remove_at s p else s" and r = "Some q"])
      show "mp_set_search (Suc n) rehash ops s k kind = Some (if kind_removes kind then mp_set_remove_at s p else s, Some q)"
        using Found p by simp
      show "set_outcome ops s k kind (if kind_removes kind then mp_set_remove_at s p else s) (Some q)"
        unfolding set_outcome_def kj using remove mem inv q by auto
    qed (use mem in simp_all)
  next
    case (Empty a)
    with spec show thesis by (intro added [of a]) auto
  next
    case (Wrapped avail)
    show thesis
    proof (cases avail)
      case (Some a)
      with spec Wrapped show thesis by (intro added [of a]) auto
    next
      case None
      with spec Wrapped have full: "n_keys ?ss = length ?ss" and no: "\<not> set_mem ops s k"
        by (simp_all add: n_keys_full set_mem_def)
      then have "\<not> kind_adds kind" using room inv by (auto simp: set_inv_def)
      then show thesis
        by (intro result [where s' = s and r = None]) (use no Wrapped inv in \<open>auto simp: set_outcome_def\<close>)
    qed
  qed
qed

section \<open>Rehashing\<close>

definition set_adds_in_room :: "('k mp_set \<Rightarrow> 'k \<Rightarrow> ('k mp_set \<times> 'k option) option) \<Rightarrow> bool" where
  "set_adds_in_room add \<longleftrightarrow>
     (\<forall>s k. set_inv ops s \<longrightarrow> set_used s < length (set_table s) \<longrightarrow> \<not> set_mem ops s k \<longrightarrow>
        (\<exists>s' r. add s k = Some (s', r) \<and> set_outcome ops s k MP_MAP_LOOKUP_ADD_IF_NOT_FOUND s' r \<and>
           length (set_table s') = length (set_table s)))"

lemma set_rehash_elems:
  assumes "set_adds_in_room add"
  shows "set_inv ops s \<Longrightarrow> set_used s + n_keys es \<le> length (set_table s) \<Longrightarrow> uniq_slots (obj_equal ops) es \<Longrightarrow>
    (\<And>q. q \<in> keys_of es \<Longrightarrow> \<not> set_mem ops s q) \<Longrightarrow>
    \<exists>s'. fold (mp_set_rehash_elem add) es (Some s) = Some s' \<and> set_inv ops s' \<and>
      length (set_table s') = length (set_table s) \<and> set_used s' = set_used s + n_keys es \<and>
      (\<forall>j. set_mem ops s' j \<longleftrightarrow> set_mem ops s j \<or> (\<exists>q \<in> keys_of es. obj_equal ops q j))"
proof (induction es arbitrary: s)
  case Nil
  then show ?case by (simp add: n_keys_def keys_of_def)
next
  case (Cons e es)
  show ?case
  proof (cases e)
    case SlotNull
    with Cons.IH [OF Cons.prems(1)] Cons.prems(2-) show ?thesis
      by (simp add: mp_set_rehash_elem_def n_keys_Cons keys_of_Cons)
  next
    case SlotSentinel
    with Cons.IH [OF Cons.prems(1)] Cons.prems(2-) show ?thesis
      by (simp add: mp_set_rehash_elem_def n_keys_Cons keys_of_Cons)
  next
    case (Key q)
    have room: "set_used s < length (set_table s)" and no: "\<not> set_mem ops s q"
      using Cons.prems(2,4) Key by (simp_all add: n_keys_Cons keys_of_Cons)
    obtain s1 r where s1: "add s q = Some (s1, r)" "set_outcome ops s q MP_MAP_LOOKUP_ADD_IF_NOT_FOUND s1 r"
      "length (set_table s1) = length (set_table s)"
      using assms Cons.prems(1) room no unfolding set_adds_in_room_def by blast
    then have out: "set_inv ops s1" "set_used s1 = set_used s + 1"
      "set_mem ops s1 = (\<lambda>j. obj_equal ops q j \<or> set_mem ops s j)"
      using no by (simp_all add: set_outcome_def kind_adds_def)
    have step: "mp_set_rehash_elem add e (Some s) = Some s1" using s1(1) Key by (simp add: mp_set_rehash_elem_def)
    have "\<exists>s'. fold (mp_set_rehash_elem add) es (Some s1) = Some s' \<and> set_inv ops s' \<and>
      length (set_table s') = length (set_table s1) \<and> set_used s' = set_used s1 + n_keys es \<and>
      (\<forall>j. set_mem ops s' j \<longleftrightarrow> set_mem ops s1 j \<or> (\<exists>q \<in> keys_of es. obj_equal ops q j))"
    proof (rule Cons.IH [OF out(1)])
      show "set_used s1 + n_keys es \<le> length (set_table s1)"
        using Cons.prems(2) out(2) s1(3) Key by (simp add: n_keys_Cons)
      show "uniq_slots (obj_equal ops) es" using Cons.prems(3) Key by simp
      show "\<not> set_mem ops s1 j" if "j \<in> keys_of es" for j
        using Cons.prems(3,4) that Key eq_sym by (auto simp: out(3) keys_of_Cons)
    qed
    with step out s1(3) Key show ?thesis by (auto simp: n_keys_Cons keys_of_Cons)
  qed
qed

lemma set_rehash:
  assumes "set_adds_in_room add" and "set_inv ops s"
  obtains s' where "mp_set_rehash add s = Some s'" and "set_inv ops s'" and "set_used s' = set_used s"
    and "length (set_table s) < length (set_table s')" and "set_mem ops s' = set_mem ops s"
proof -
  let ?n = "get_hash_alloc_greater_or_equal_to (length (set_table s) + 1)"
  let ?s0 = "mp_set_init ?n :: 'k mp_set"
  have n: "length (set_table s) < ?n" using get_hash_alloc_ge [of "length (set_table s) + 1"] by simp
  have inv: "set_inv ops ?s0" by (simp add: set_inv_def slots_inv_fresh mp_set_init_def)
  have none: "\<not> set_mem ops ?s0 j" for j by (simp add: set_mem_def mp_set_init_def)
  have len: "length (set_table ?s0) = ?n" "set_used ?s0 = 0" by (simp_all add: mp_set_init_def)
  have "\<exists>s'. fold (mp_set_rehash_elem add) (set_table s) (Some ?s0) = Some s' \<and> set_inv ops s' \<and>
      length (set_table s') = length (set_table ?s0) \<and> set_used s' = set_used ?s0 + n_keys (set_table s) \<and>
      (\<forall>j. set_mem ops s' j \<longleftrightarrow> set_mem ops ?s0 j \<or> (\<exists>q \<in> keys_of (set_table s). obj_equal ops q j))"
    by (rule set_rehash_elems [OF assms(1) inv])
      (use n n_keys_le [of "set_table s"] none len in \<open>simp_all add: uniq_slots_inv set_inv_slots [OF assms(2)]\<close>)
  then obtain s' where s': "fold (mp_set_rehash_elem add) (set_table s) (Some ?s0) = Some s'" "set_inv ops s'"
    "length (set_table s') = ?n" "set_used s' = n_keys (set_table s)"
    "\<forall>j. set_mem ops s' j \<longleftrightarrow> (\<exists>q \<in> keys_of (set_table s). obj_equal ops q j)"
    unfolding len using none by auto
  show thesis
    by (rule that [of s']) (use s' assms(2) n in \<open>auto simp: mp_set_rehash_def mp_set_rehash_mem_def set_mem_def set_inv_def fun_eq_iff\<close>)
qed

section \<open>The lookup\<close>

lemma set_lookup_adds_in_room:
  "set_adds_in_room (\<lambda>s k. mp_set_lookup_n (Suc n) ops s k MP_MAP_LOOKUP_ADD_IF_NOT_FOUND)"
  unfolding set_adds_in_room_def
proof (intro allI impI)
  fix s k
  assume inv: "set_inv ops s" and room: "set_used s < length (set_table s)" and no: "\<not> set_mem ops s k"
  from room have ne: "set_table s \<noteq> []" by auto
  show "\<exists>s' r. mp_set_lookup_n (Suc n) ops s k MP_MAP_LOOKUP_ADD_IF_NOT_FOUND = Some (s', r) \<and>
    set_outcome ops s k MP_MAP_LOOKUP_ADD_IF_NOT_FOUND s' r \<and> length (set_table s') = length (set_table s)"
    by (rule set_search_room [OF inv ne, where k = k and n = 1 and kind = MP_MAP_LOOKUP_ADD_IF_NOT_FOUND
          and rehash = "mp_set_rehash (\<lambda>s k. mp_set_lookup_n n ops s k MP_MAP_LOOKUP_ADD_IF_NOT_FOUND)"])
      (use room no ne in \<open>auto simp: Let_def numeral_2_eq_2 simp del: mp_set_search.simps\<close>)
qed

lemma set_probe_full:
  assumes "set_inv ops s" and "set_used s = length (set_table s)" and "set_table s \<noteq> []" and "\<not> set_mem ops s k"
  shows "probe (\<lambda>q. obj_equal ops q k) (set_table s) (obj_hash ops k mod length (set_table s))
    (length (set_table s)) None = Wrapped None"
proof -
  have "n_keys (set_table s) = length (set_table s)" using assms(1,2) by (simp add: set_inv_def)
  then have filled: "slot_is_filled (set_table s ! a)" if "a < length (set_table s)" for a
    using that by (metis length_filter_less n_keys_def nth_mem order_less_irrefl)
  have no: "\<not> obj_equal ops q k" if "set_table s ! p = Key q" "p < length (set_table s)" for p q
    using assms(4) nth_mem [OF that(2)] that(1) by (auto simp: set_mem_def keys_of_def)
  show ?thesis
    using probe_spec [OF set_inv_slots [OF assms(1)], of "\<lambda>q. obj_equal ops q k" k] assms(3) filled no
    by (auto split: probe_result.splits option.splits)
qed

lemma set_outcome_rehash:
  assumes "set_outcome ops s1 k kind s' r" and "set_mem ops s1 = set_mem ops s" and "set_used s1 = set_used s"
    and "\<not> set_mem ops s k" and "kind_adds kind"
  shows "set_outcome ops s k kind s' r"
  using assms(1) unfolding set_outcome_def assms(2,3) by (simp add: assms(4,5))

text \<open>Every lookup in a set returns, with the result its contract promises.\<close>

lemma set_lookup:
  assumes "set_inv ops s"
  obtains s' r where "mp_set_lookup ops s k kind = Some (s', r)" and "set_outcome ops s k kind s' r"
proof -
  let ?rehash = "mp_set_rehash (\<lambda>s k. mp_set_lookup_n 1 ops s k MP_MAP_LOOKUP_ADD_IF_NOT_FOUND)"
  have run: "mp_set_lookup ops s k kind =
      (if set_table s = [] then (if kind_adds kind then ?rehash s \<bind> (\<lambda>s. mp_set_search 2 ?rehash ops s k kind) else Some (s, None))
       else mp_set_search 2 ?rehash ops s k kind)"
    by (simp add: mp_set_lookup_def numeral_2_eq_2 Let_def del: mp_set_search.simps)
  have le: "set_used s \<le> length (set_table s)"
    using assms n_keys_le [of "set_table s"] by (simp add: set_inv_def)
  have rehashed: "\<exists>s1. ?rehash s = Some s1 \<and>
      (\<exists>s' r. mp_set_search (Suc n) ?rehash ops s1 k kind = Some (s', r) \<and> set_outcome ops s k kind s' r)"
    if no: "\<not> set_mem ops s k" and adds: "kind_adds kind" for n
  proof (rule set_rehash [OF set_lookup_adds_in_room [of 0] assms])
    fix s1
    assume s1: "mp_set_rehash (\<lambda>s k. mp_set_lookup_n (Suc 0) ops s k MP_MAP_LOOKUP_ADD_IF_NOT_FOUND) s = Some s1"
      "set_inv ops s1" "set_used s1 = set_used s" "length (set_table s) < length (set_table s1)"
      "set_mem ops s1 = set_mem ops s"
    have ne: "set_table s1 \<noteq> []" using s1(4) by auto
    have room: "set_used s1 < length (set_table s1) \<or> set_mem ops s1 k" using le s1 by simp
    obtain s' r where "mp_set_search (Suc n) ?rehash ops s1 k kind = Some (s', r)" "set_outcome ops s1 k kind s' r"
      using set_search_room [where rehash = ?rehash and n = n, OF s1(2) ne room] by blast
    with set_outcome_rehash [OF _ s1(5,3) no adds] s1(1) show ?thesis by (auto simp del: mp_set_search.simps)
  qed
  show thesis
  proof (cases "set_table s = []")
    case True
    then have no: "\<not> set_mem ops s k" by (simp add: set_mem_def keys_of_def)
    show thesis
    proof (cases "kind_adds kind")
      case add: True
      from rehashed [OF no add, of 1] obtain s1 s' r where "?rehash s = Some s1"
        "mp_set_search 2 ?rehash ops s1 k kind = Some (s', r)" "set_outcome ops s k kind s' r"
        by (auto simp: numeral_2_eq_2 simp del: mp_set_search.simps)
      with add True run show thesis by (intro that [of s' r]) simp_all
    next
      case False
      with True run no assms show thesis by (intro that [of s None]) (simp_all add: set_outcome_def)
    qed
  next
    case ne: False
    show thesis
    proof (cases "kind_adds kind \<longrightarrow> set_used s < length (set_table s) \<or> set_mem ops s k")
      case True
      with set_search_room [where rehash = ?rehash and n = 1 and kind = kind and k = k, OF assms ne] run ne that
      show thesis by (metis Suc_1)
    next
      case full: False
      then have no: "\<not> set_mem ops s k" and adds: "kind_adds kind" by auto
      have "set_used s = length (set_table s)" using full le by simp
      note p = set_probe_full [OF assms this ne no]
      from rehashed [OF no adds, of 0] obtain s1 s' r where s1: "?rehash s = Some s1"
        "mp_set_search (Suc 0) ?rehash ops s1 k kind = Some (s', r)" "set_outcome ops s k kind s' r"
        by (auto simp del: mp_set_search.simps)
      have "mp_set_search 2 ?rehash ops s k kind = ?rehash s \<bind> (\<lambda>s. mp_set_search (Suc 0) ?rehash ops s k kind)"
        unfolding numeral_2_eq_2 mp_set_search.simps(2) [of "Suc 0"] p using adds by simp
      with s1 run ne show thesis by (intro that [of s' r]) (simp_all del: mp_set_search.simps)
    qed
  qed
qed

text \<open>The first element is removed, when there is one.\<close>

lemma mp_set_first_spec:
  "case mp_set_first ss p of
     None \<Rightarrow> \<forall>s \<in> set ss. \<not> slot_is_filled s
   | Some x \<Rightarrow> \<exists>i < length ss. x = p + i \<and> slot_is_filled (ss ! i)"
proof (induction ss arbitrary: p)
  case (Cons s ss)
  show ?case
  proof (cases "slot_is_filled s")
    case False
    with Cons.IH [of "p + 1"] show ?thesis by (auto split: option.splits)
  qed auto
qed simp

lemma set_remove_first:
  assumes "set_inv ops s" and "mp_set_remove_first s = (s', r)"
  shows "case r of
      None \<Rightarrow> s' = s \<and> (\<forall>k. \<not> set_mem ops s k)
    | Some q \<Rightarrow> set_inv ops s' \<and> set_used s' + 1 = set_used s \<and> set_mem ops s q \<and>
        set_mem ops s' = (\<lambda>j. set_mem ops s j \<and> \<not> obj_equal ops q j)"
proof (cases "mp_set_first (set_table s) 0")
  case None
  with mp_set_first_spec [of "set_table s" 0] have "keys_of (set_table s) = {}"
    by (auto simp: keys_of_def)
  with None assms(2) show ?thesis by (auto simp: mp_set_remove_first_def set_mem_def)
next
  case (Some p)
  with mp_set_first_spec [of "set_table s" 0] obtain q where p: "p < length (set_table s)" "set_table s ! p = Key q"
    by (auto simp: slot_is_filled_iff)
  have "q \<in> keys_of (set_table s)" using nth_mem [OF p(1)] p(2) by (simp add: keys_of_def)
  then have "set_mem ops s q" unfolding set_mem_def using eq_refl by blast
  with Some assms(2) set_remove_at [OF assms(1) p] p(2) show ?thesis by (auto simp: mp_set_remove_first_def)
qed

end

end
