(* ===== verification/Qstr.thy ===== *)
theory Qstr
  imports Prelude
begin

text \<open>
  The interned strings of \<open>py/qstr.c\<close>: a chain of pools, newest first, whose entries hold the hash, the
  length and the bytes of a string. The memory of the strings comes from chunks; what the allocator
  answers is an argument of the operations.
\<close>

section \<open>Entries\<close>

definition Q_HASH_MASK :: "64 word" where
  "Q_HASH_MASK = 0xff"

definition qstr_compute_hash :: "byte list \<Rightarrow> mp_uint_t" where
  "qstr_compute_hash data =
     (let hash = fold (\<lambda>b hash. (push_bit 5 hash + hash) XOR ucast b) data 5381 AND Q_HASH_MASK
      in if hash = 0 then hash + 1 else hash)"

text \<open>One byte of hash, one byte of length, the bytes of the string and a zero byte.\<close>

definition Q_GET_HASH :: "byte list \<Rightarrow> mp_uint_t" where
  "Q_GET_HASH q = ucast (q ! 0)"

definition Q_GET_LENGTH :: "byte list \<Rightarrow> nat" where
  "Q_GET_LENGTH q = unat (q ! 1)"

definition Q_GET_DATA :: "byte list \<Rightarrow> byte list" where
  "Q_GET_DATA q = drop 2 q"

definition Q_GET_ALLOC :: "byte list \<Rightarrow> nat" where
  "Q_GET_ALLOC q = 1 + 1 + Q_GET_LENGTH q + 1"

definition qstr_store :: "byte list \<Rightarrow> byte list" where
  "qstr_store str = ucast (qstr_compute_hash str) # of_nat (length str) # str @ [0]"

section \<open>Pools\<close>

record qstr_pool =
  total_prev_len :: nat
  pool_alloc :: nat
  qstrs :: "byte list list"

text \<open>\<open>last_pool\<close> and its predecessors, and the chunk that the next string is stored in.\<close>

record qstr_state =
  pools :: "qstr_pool list"
  qstr_last_chunk :: bool
  qstr_last_alloc :: nat
  qstr_last_used :: nat

definition qstr_init :: "qstr_pool list \<Rightarrow> qstr_state" where
  "qstr_init const_pools =
     \<lparr> pools = const_pools, qstr_last_chunk = False, qstr_last_alloc = 0, qstr_last_used = 0 \<rparr>"

text \<open>\<open>None\<close> is a read outside of the pools.\<close>

fun find_qstr :: "qstr_pool list \<Rightarrow> nat \<Rightarrow> byte list option" where
  "find_qstr [] q = None"
| "find_qstr (p # ps) q =
     (if q < total_prev_len p then find_qstr ps q
      else if q - total_prev_len p < length (qstrs p) then Some (qstrs p ! (q - total_prev_len p))
      else None)"

definition qstr_matches :: "byte list \<Rightarrow> byte list \<Rightarrow> bool" where
  "qstr_matches str q \<longleftrightarrow>
     Q_GET_HASH q = qstr_compute_hash str \<and> Q_GET_LENGTH q = length str \<and>
     take (length str) (Q_GET_DATA q) = str"

fun qstr_find_in :: "byte list \<Rightarrow> byte list list \<Rightarrow> nat \<Rightarrow> nat option" where
  "qstr_find_in str [] i = None"
| "qstr_find_in str (q # qs) i = (if qstr_matches str q then Some i else qstr_find_in str qs (i + 1))"

fun qstr_find_strn :: "qstr_pool list \<Rightarrow> byte list \<Rightarrow> nat" where
  "qstr_find_strn [] str = 0"
| "qstr_find_strn (p # ps) str =
     (case qstr_find_in str (qstrs p) 0 of
        Some i \<Rightarrow> total_prev_len p + i
      | None \<Rightarrow> qstr_find_strn ps str)"

section \<open>Interning\<close>

text \<open>
  What the allocator answers when it is asked to grow the chunk, for a new chunk, for a chunk of the
  exact size and for a new pool.
\<close>

record mem_answers =
  grow_ok :: bool
  chunk_ok :: bool
  exact_ok :: bool
  pool_ok :: bool

datatype qstr_error = StringTooLong | MallocFail nat

definition qstr_add :: "mem_answers \<Rightarrow> qstr_state \<Rightarrow> byte list \<Rightarrow> qstr_state \<times> (qstr_error + nat)" where
  "qstr_add mem st q_ptr =
     (let p = hd (pools st)
      in if length (qstrs p) \<ge> pool_alloc p \<and> \<not> pool_ok mem then (st, Inl (MallocFail (pool_alloc p * 2)))
         else
           let ps = (if length (qstrs p) \<ge> pool_alloc p
                     then \<lparr> total_prev_len = total_prev_len p + length (qstrs p), pool_alloc = pool_alloc p * 2,
                            qstrs = [] \<rparr> # pools st
                     else pools st);
               p = hd ps;
               p' = p\<lparr>qstrs := qstrs p @ [q_ptr]\<rparr>
           in (st\<lparr>pools := p' # tl ps\<rparr>, Inr (total_prev_len p' + length (qstrs p') - 1)))"

definition MICROPY_ALLOC_QSTR_CHUNK_INIT :: nat where
  "MICROPY_ALLOC_QSTR_CHUNK_INIT = 128"

text \<open>Growing the chunk in place, or giving it up when there is no room behind it.\<close>

definition qstr_grow_chunk :: "mem_answers \<Rightarrow> nat \<Rightarrow> qstr_state \<Rightarrow> qstr_state" where
  "qstr_grow_chunk mem n_bytes st =
     (if qstr_last_chunk st \<and> qstr_last_used st + n_bytes > qstr_last_alloc st then
        (if grow_ok mem then st\<lparr>qstr_last_alloc := qstr_last_alloc st + n_bytes\<rparr>
         else st\<lparr>qstr_last_chunk := False\<rparr>)
      else st)"

definition qstr_new_chunk :: "mem_answers \<Rightarrow> nat \<Rightarrow> qstr_state \<Rightarrow> qstr_state option" where
  "qstr_new_chunk mem n_bytes st =
     (if qstr_last_chunk st then Some st
      else
        let al = (if n_bytes < MICROPY_ALLOC_QSTR_CHUNK_INIT then MICROPY_ALLOC_QSTR_CHUNK_INIT else n_bytes)
        in if chunk_ok mem then Some (st\<lparr>qstr_last_chunk := True, qstr_last_alloc := al, qstr_last_used := 0\<rparr>)
           else if exact_ok mem
             then Some (st\<lparr>qstr_last_chunk := True, qstr_last_alloc := n_bytes, qstr_last_used := 0\<rparr>)
           else None)"

definition qstr_from_strn :: "mem_answers \<Rightarrow> qstr_state \<Rightarrow> byte list \<Rightarrow> qstr_state \<times> (qstr_error + nat)" where
  "qstr_from_strn mem st str =
     (if \<not> length str < 256 then (st, Inl StringTooLong)
      else
        let q = qstr_find_strn (pools st) str
        in if q \<noteq> 0 then (st, Inr q)
           else
             let n_bytes = 1 + 1 + length str + 1;
                 st = qstr_grow_chunk mem n_bytes st
             in case qstr_new_chunk mem n_bytes st of
                  None \<Rightarrow> (st, Inl (MallocFail n_bytes))
                | Some st \<Rightarrow>
                    qstr_add mem (st\<lparr>qstr_last_used := qstr_last_used st + n_bytes\<rparr>) (qstr_store str))"

definition qstr_hash :: "qstr_pool list \<Rightarrow> nat \<Rightarrow> mp_uint_t option" where
  "qstr_hash ps q = map_option Q_GET_HASH (find_qstr ps q)"

definition qstr_len :: "qstr_pool list \<Rightarrow> nat \<Rightarrow> nat option" where
  "qstr_len ps q = map_option Q_GET_LENGTH (find_qstr ps q)"

definition qstr_data :: "qstr_pool list \<Rightarrow> nat \<Rightarrow> byte list option" where
  "qstr_data ps q = map_option (\<lambda>qd. take (Q_GET_LENGTH qd) (Q_GET_DATA qd)) (find_qstr ps q)"

text \<open>
  \<open>n_pool\<close>, \<open>n_qstr\<close> and \<open>n_str_data_bytes\<close> over the pools in front of the constant ones.
\<close>

fun qstr_pool_info :: "nat \<Rightarrow> qstr_pool list \<Rightarrow> nat \<times> nat \<times> nat" where
  "qstr_pool_info n_const [] = (0, 0, 0)"
| "qstr_pool_info n_const (p # ps) =
     (if length (p # ps) \<le> n_const then (0, 0, 0)
      else case qstr_pool_info n_const ps of
        (n_pool, n_qstr, n_bytes) \<Rightarrow>
          (n_pool + 1, n_qstr + length (qstrs p), n_bytes + sum_list (map Q_GET_ALLOC (qstrs p))))"

section \<open>The invariant of the pools\<close>

fun pools_chain :: "qstr_pool list \<Rightarrow> bool" where
  "pools_chain [] \<longleftrightarrow> False"
| "pools_chain [p] \<longleftrightarrow> total_prev_len p = 0"
| "pools_chain (p # p' # ps) \<longleftrightarrow> total_prev_len p = total_prev_len p' + length (qstrs p') \<and> pools_chain (p' # ps)"

definition all_qstrs :: "qstr_pool list \<Rightarrow> byte list list" where
  "all_qstrs ps = concat (map qstrs (rev ps))"

text \<open>
  Entry 0 is \<open>MP_QSTR_NULL\<close>, which no string matches since its hash is zero; the other entries are
  different strings. The chunk is never filled beyond its size.
\<close>

definition qstr_inv :: "qstr_state \<Rightarrow> bool" where
  "qstr_inv st \<longleftrightarrow>
     pools_chain (pools st) \<and>
     (\<exists>strs. all_qstrs (pools st) = [0, 0, 0] # map qstr_store strs \<and> distinct strs \<and>
        (\<forall>s \<in> set strs. length s < 256)) \<and>
     (qstr_last_chunk st \<longrightarrow> qstr_last_used st \<le> qstr_last_alloc st)"

lemma qstr_compute_hash_range: "0 < unat (qstr_compute_hash data)" "unat (qstr_compute_hash data) < 256"
proof -
  let ?h = "fold (\<lambda>b hash. (push_bit 5 hash + hash) XOR ucast b) data (5381 :: 64 word) AND Q_HASH_MASK"
  have "Q_HASH_MASK = mask 8" by (simp add: Q_HASH_MASK_def mask_eq_exp_minus_1)
  then have lt: "unat ?h < 256" unfolding \<open>Q_HASH_MASK = mask 8\<close> unat_and_mask by simp
  have h: "qstr_compute_hash data = (if ?h = 0 then 1 else ?h)" by (simp add: qstr_compute_hash_def Let_def)
  show "0 < unat (qstr_compute_hash data)" unfolding h by (simp add: word_neq_0_conv unat_gt_0)
  show "unat (qstr_compute_hash data) < 256" unfolding h using lt by simp
qed

lemma ucast_byte_back: "unat (w :: 64 word) < 256 \<Longrightarrow> ucast (ucast w :: byte) = w"
  by (simp add: word_unat_eq_iff unsigned_ucast_eq unsigned_take_bit_eq take_bit_nat_eq_self)

lemma qstr_store_simps [simp]:
  "Q_GET_HASH (qstr_store str) = qstr_compute_hash str"
  "length str < 256 \<Longrightarrow> Q_GET_LENGTH (qstr_store str) = length str"
  "Q_GET_DATA (qstr_store str) = str @ [0]"
  by (simp_all add: Q_GET_HASH_def Q_GET_LENGTH_def Q_GET_DATA_def qstr_store_def ucast_byte_back
      qstr_compute_hash_range unat_of_nat take_bit_nat_eq_self)

lemma qstr_matches_store:
  "length s < 256 \<Longrightarrow> length str < 256 \<Longrightarrow> qstr_matches str (qstr_store s) \<longleftrightarrow> s = str"
  by (auto simp: qstr_matches_def)

lemma qstr_store_inj: "length s < 256 \<Longrightarrow> length str < 256 \<Longrightarrow> qstr_store s = qstr_store str \<longleftrightarrow> s = str"
  by (auto simp: qstr_store_def)

lemma qstr_matches_null: "\<not> qstr_matches str [0, 0, 0]"
  using qstr_compute_hash_range(1) [of str] by (auto simp: qstr_matches_def Q_GET_HASH_def)

lemma pools_chain_total: "pools_chain (p # ps) \<Longrightarrow> total_prev_len p = length (all_qstrs ps)"
proof (induction ps arbitrary: p)
  case Nil
  then show ?case by (simp add: all_qstrs_def)
next
  case (Cons p' ps)
  then have "total_prev_len p' = length (all_qstrs ps)" by simp
  with Cons.prems show ?case by (simp add: all_qstrs_def)
qed

lemma pools_chain_tl: "pools_chain (p # ps) \<Longrightarrow> ps \<noteq> [] \<Longrightarrow> pools_chain ps"
  by (cases ps) simp_all

lemma all_qstrs_Cons: "all_qstrs (p # ps) = all_qstrs ps @ qstrs p"
  by (simp add: all_qstrs_def)

lemma find_qstr_eq:
  "pools_chain ps \<Longrightarrow> find_qstr ps q = (if q < length (all_qstrs ps) then Some (all_qstrs ps ! q) else None)"
proof (induction ps)
  case (Cons p ps)
  note t = pools_chain_total [OF Cons.prems]
  show ?case
  proof (cases "ps = []")
    case True
    with t show ?thesis by (simp add: all_qstrs_def)
  next
    case False
    with t Cons.IH [OF pools_chain_tl [OF Cons.prems]] show ?thesis
      by (auto simp: all_qstrs_Cons nth_append)
  qed
qed simp

lemma qstr_find_in_spec:
  "case qstr_find_in str qs k of
     None \<Rightarrow> \<forall>q \<in> set qs. \<not> qstr_matches str q
   | Some x \<Rightarrow> \<exists>i < length qs. x = k + i \<and> qstr_matches str (qs ! i)"
proof (induction qs arbitrary: k)
  case (Cons q qs)
  show ?case
  proof (cases "qstr_matches str q")
    case False
    with Cons.IH [of "k + 1"] show ?thesis by (auto split: option.splits)
  qed auto
qed simp

lemma qstr_find_strn_spec:
  "pools_chain ps \<Longrightarrow>
   (if \<forall>q \<in> set (all_qstrs ps). \<not> qstr_matches str q then qstr_find_strn ps str = 0
    else qstr_find_strn ps str < length (all_qstrs ps) \<and> qstr_matches str (all_qstrs ps ! qstr_find_strn ps str))"
proof (induction ps)
  case (Cons p ps)
  note t = pools_chain_total [OF Cons.prems]
  show ?case
  proof (cases "qstr_find_in str (qstrs p) 0")
    case None
    then have no: "\<forall>q \<in> set (qstrs p). \<not> qstr_matches str q"
      using qstr_find_in_spec [where str = str and qs = "qstrs p" and k = 0] by simp
    show ?thesis
    proof (cases "ps = []")
      case True
      with None no show ?thesis by (simp add: all_qstrs_def)
    next
      case False
      with None no Cons.IH [OF pools_chain_tl [OF Cons.prems]] show ?thesis
        by (auto simp: all_qstrs_Cons nth_append split: if_splits)
    qed
  next
    case (Some i)
    then have i: "i < length (qstrs p)" "qstr_matches str (qstrs p ! i)"
      using qstr_find_in_spec [where str = str and qs = "qstrs p" and k = 0] by auto
    with nth_mem have "\<exists>q \<in> set (all_qstrs (p # ps)). qstr_matches str q"
      by (fastforce simp: all_qstrs_Cons)
    with i Some t show ?thesis by (auto simp: all_qstrs_Cons nth_append)
  qed
qed simp

section \<open>What interning promises\<close>

text \<open>The search finds a string exactly when it is interned, and never entry 0.\<close>

lemma qstr_find_strn_val:
  assumes "qstr_inv st" and "length str < 256"
  shows "qstr_find_strn (pools st) str = 0 \<longleftrightarrow> qstr_store str \<notin> set (all_qstrs (pools st))"
    and "qstr_find_strn (pools st) str \<noteq> 0 \<Longrightarrow>
      find_qstr (pools st) (qstr_find_strn (pools st) str) = Some (qstr_store str)"
proof -
  let ?ps = "pools st" and ?i = "qstr_find_strn (pools st) str"
  obtain strs where strs: "all_qstrs ?ps = [0, 0, 0] # map qstr_store strs" "\<forall>s \<in> set strs. length s < 256"
    and chain: "pools_chain ?ps"
    using assms(1) unfolding qstr_inv_def by blast
  have entry: "q = qstr_store str" if "q \<in> set (all_qstrs ?ps)" "qstr_matches str q" for q
    using that strs assms(2) qstr_matches_null by (auto simp: qstr_matches_store)
  have null: "qstr_store str \<noteq> [0, 0, 0]"
    using qstr_matches_store [OF assms(2,2)] qstr_matches_null [of str] by metis
  have mem: "(\<exists>q \<in> set (all_qstrs ?ps). qstr_matches str q) \<longleftrightarrow> qstr_store str \<in> set (all_qstrs ?ps)"
    using entry qstr_matches_store [OF assms(2,2)] by blast
  note spec = qstr_find_strn_spec [OF chain, of str]
  have found: "?i \<noteq> 0 \<and> find_qstr ?ps ?i = Some (qstr_store str)" if "qstr_store str \<in> set (all_qstrs ?ps)"
  proof -
    from spec that mem have i: "?i < length (all_qstrs ?ps)" "qstr_matches str (all_qstrs ?ps ! ?i)" by (auto split: if_splits)
    then have "all_qstrs ?ps ! ?i = qstr_store str" using entry nth_mem by blast
    moreover from this null strs(1) have "?i \<noteq> 0" by (metis nth_Cons_0)
    ultimately show ?thesis using i(1) by (simp add: find_qstr_eq [OF chain])
  qed
  have absent: "?i = 0" if "qstr_store str \<notin> set (all_qstrs ?ps)"
    using spec that mem by (auto split: if_splits)
  show "?i = 0 \<longleftrightarrow> qstr_store str \<notin> set (all_qstrs ?ps)" using found absent by blast
  show "find_qstr ?ps ?i = Some (qstr_store str)" if "?i \<noteq> 0" using that found absent by metis
qed

lemma qstr_add_spec:
  assumes "pools_chain (pools st)" and "qstr_add mem st q_ptr = (st', r)"
  shows "case r of
      Inl e \<Rightarrow> st' = st \<and> (\<exists>n. e = MallocFail n)
    | Inr q \<Rightarrow> pools_chain (pools st') \<and> all_qstrs (pools st') = all_qstrs (pools st) @ [q_ptr] \<and>
        q = length (all_qstrs (pools st)) \<and> qstr_last_chunk st' = qstr_last_chunk st \<and>
        qstr_last_alloc st' = qstr_last_alloc st \<and> qstr_last_used st' = qstr_last_used st"
proof -
  obtain p ps where ps: "pools st = p # ps" using assms(1) by (cases "pools st") auto
  note t = pools_chain_total [OF assms(1) [unfolded ps]]
  have chain: "pools_chain (p\<lparr>qstrs := x\<rparr> # ps)" for x using assms(1) ps by (cases ps) simp_all
  show ?thesis
    using assms t chain by (auto simp: qstr_add_def ps Let_def all_qstrs_Cons split: if_splits)
qed

lemma qstr_chunk_steps:
  "qstr_grow_chunk mem n st = st1 \<Longrightarrow> qstr_inv st \<Longrightarrow>
     pools st1 = pools st \<and> qstr_inv st1 \<and> (qstr_last_chunk st1 \<longrightarrow> qstr_last_used st1 + n \<le> qstr_last_alloc st1)"
  "qstr_new_chunk mem n st1 = Some st2 \<Longrightarrow> (qstr_last_chunk st1 \<Longrightarrow> qstr_last_used st1 + n \<le> qstr_last_alloc st1) \<Longrightarrow>
     pools st2 = pools st1 \<and> qstr_last_chunk st2 \<and> qstr_last_used st2 + n \<le> qstr_last_alloc st2"
  by (auto simp: qstr_grow_chunk_def qstr_new_chunk_def qstr_inv_def Let_def split: if_splits)

text \<open>
  Interning keeps the invariant, whatever the allocator answers; when it returns a number, that
  number names the string, and every number that was in use keeps its string.
\<close>

lemma qstr_from_strn_spec:
  assumes inv: "qstr_inv st" and len: "length str < 256" and run: "qstr_from_strn mem st str = (st', r)"
  shows "qstr_inv st'"
    and "find_qstr (pools st) q = Some e \<Longrightarrow> find_qstr (pools st') q = Some e"
    and "r = Inr i \<Longrightarrow> i \<noteq> 0 \<and> find_qstr (pools st') i = Some (qstr_store str)"
    and "qstr_store str \<in> set (all_qstrs (pools st)) \<Longrightarrow> st' = st \<and> r = Inr (qstr_find_strn (pools st) str)"
proof -
  let ?i = "qstr_find_strn (pools st) str" and ?n = "1 + 1 + length str + 1"
  let ?st1 = "qstr_grow_chunk mem ?n st"
  note found = qstr_find_strn_val [OF inv len]
  obtain strs where strs: "all_qstrs (pools st) = [0, 0, 0] # map qstr_store strs" "distinct strs"
    "\<forall>s \<in> set strs. length s < 256" and chain: "pools_chain (pools st)"
    using inv unfolding qstr_inv_def by blast
  note grown = qstr_chunk_steps(1) [OF refl inv, of mem ?n]
  have "qstr_inv st' \<and> (\<forall>q e. find_qstr (pools st) q = Some e \<longrightarrow> find_qstr (pools st') q = Some e) \<and>
    (\<forall>i. r = Inr i \<longrightarrow> i \<noteq> 0 \<and> find_qstr (pools st') i = Some (qstr_store str)) \<and>
    (qstr_store str \<in> set (all_qstrs (pools st)) \<longrightarrow> st' = st \<and> r = Inr ?i)"
  proof (cases "?i = 0")
    case False
    with run len inv found show ?thesis by (auto simp: qstr_from_strn_def)
  next
    case absent: True
    then have new: "qstr_store str \<notin> set (all_qstrs (pools st))" using found by blast
    show ?thesis
    proof (cases "qstr_new_chunk mem ?n ?st1")
      case None
      with run len absent have "st' = ?st1" "r = Inl (MallocFail ?n)" by (simp_all add: qstr_from_strn_def Let_def)
      with grown new show ?thesis by simp
    next
      case (Some st2)
      note room = qstr_chunk_steps(2) [OF Some] grown
      let ?st3 = "st2\<lparr>qstr_last_used := qstr_last_used st2 + ?n\<rparr>"
      have add: "qstr_add mem ?st3 (qstr_store str) = (st', r)"
        using run len absent Some by (simp add: qstr_from_strn_def Let_def)
      have pools3: "pools ?st3 = pools st" using room by simp
      note spec = qstr_add_spec [OF _ add, unfolded pools3, OF chain]
      show ?thesis
      proof (cases r)
        case (Inl e)
        with spec have "st' = ?st3" by simp
        with room inv Inl new show ?thesis unfolding qstr_inv_def by simp
      next
        case (Inr q)
        with spec have q: "pools_chain (pools st')" "all_qstrs (pools st') = all_qstrs (pools st) @ [qstr_store str]"
          "q = length (all_qstrs (pools st))" "qstr_last_alloc st' = qstr_last_alloc ?st3"
          "qstr_last_used st' = qstr_last_used ?st3"
          by simp_all
        have "qstr_last_used st' \<le> qstr_last_alloc st'" using room q(4,5) by simp
        moreover have "str \<notin> set strs" using new strs(1) by auto
        ultimately have "qstr_inv st'"
          unfolding qstr_inv_def q(2) using strs q(1) len
          by (intro conjI exI [of _ "strs @ [str]"]) simp_all
        moreover have "0 < length (all_qstrs (pools st))" by (simp add: strs(1))
        ultimately show ?thesis
          unfolding find_qstr_eq [OF q(1)] find_qstr_eq [OF chain] q(2)
          using Inr q(3) new by (auto simp: nth_append split: if_splits)
      qed
    qed
  qed
  then show "qstr_inv st'"
    and "find_qstr (pools st) q = Some e \<Longrightarrow> find_qstr (pools st') q = Some e"
    and "r = Inr i \<Longrightarrow> i \<noteq> 0 \<and> find_qstr (pools st') i = Some (qstr_store str)"
    and "qstr_store str \<in> set (all_qstrs (pools st)) \<Longrightarrow> st' = st \<and> r = Inr (qstr_find_strn (pools st) str)"
    by blast+
qed

text \<open>The string of a number is read back, and two numbers are the same exactly when the strings are.\<close>

lemma qstr_data_store: "length str < 256 \<Longrightarrow> find_qstr ps q = Some (qstr_store str) \<Longrightarrow> qstr_data ps q = Some str"
  by (simp add: qstr_data_def)

lemma qstr_intern_same:
  assumes "qstr_inv st" and "length s < 256" and "length t < 256"
    and "qstr_from_strn mem st s = (st1, Inr i)" and "qstr_from_strn mem' st1 t = (st2, Inr j)"
  shows "i = j \<longleftrightarrow> s = t"
proof
  note s = qstr_from_strn_spec [OF assms(1,2,4)]
  note t = qstr_from_strn_spec [OF s(1) assms(3,5)]
  have "find_qstr (pools st2) i = Some (qstr_store s)" using s(3) t(2) by blast
  moreover have "find_qstr (pools st2) j = Some (qstr_store t)" using t(3) by blast
  ultimately show "s = t" if "i = j" using that qstr_store_inj [OF assms(2,3)] by simp
  assume eq: "s = t"
  have i: "i \<noteq> 0" "find_qstr (pools st1) i = Some (qstr_store s)" using s(3) by blast+
  have chain: "pools_chain (pools st1)" using s(1) by (simp add: qstr_inv_def)
  have i': "i < length (all_qstrs (pools st1))" "all_qstrs (pools st1) ! i = qstr_store s"
    using i(2) by (simp_all add: find_qstr_eq [OF chain] split: if_splits)
  then have mem: "qstr_store t \<in> set (all_qstrs (pools st1))" using eq nth_mem by metis
  have "j = qstr_find_strn (pools st1) t" "st2 = st1" using t(4) [OF mem] by simp_all
  then have j: "j \<noteq> 0" "find_qstr (pools st1) j = Some (qstr_store s)" using t(3) eq by auto
  then have j': "j < length (all_qstrs (pools st1))" "all_qstrs (pools st1) ! j = qstr_store s"
    by (simp_all add: find_qstr_eq [OF chain] split: if_splits)
  obtain strs where strs: "all_qstrs (pools st1) = [0, 0, 0] # map qstr_store strs" "distinct strs"
    "\<forall>s \<in> set strs. length s < 256"
    using s(1) unfolding qstr_inv_def by blast
  have "strs ! (i - 1) = s" "strs ! (j - 1) = s" "i - 1 < length strs" "j - 1 < length strs"
    using i' j' i(1) j(1) strs assms(2) by (simp_all add: nth_Cons' qstr_store_inj)
  with strs(2) have "i - 1 = j - 1" by (metis nth_eq_iff_index_eq)
  with i(1) j(1) show "i = j" by simp
qed

end
