(* ===== verification/Objects.thy ===== *)
theory Objects
  imports MpzConv DictRun SetLaws Qstr
begin

text \<open>
  The objects that are used as keys, and the two operations a hash table asks of them:
  \<open>mp_obj_equal\<close> of \<open>py/obj.c\<close> and \<open>MP_UNARY_OP_HASH\<close> of the types' \<open>unary_op\<close>. Small integers are
  63-bit words, since the lowest bit of an object is their tag; an interned string is named by its
  bytes, which \<open>Qstr\<close> justifies.
\<close>

section \<open>Small integers\<close>

type_synonym small_int = "63 word"

definition MP_SMALL_INT_FITS :: "mp_int_t \<Rightarrow> bool" where
  "MP_SMALL_INT_FITS n \<longleftrightarrow> ((n XOR push_bit 1 n) AND WORD_MSBIT_HIGH) = 0"

definition small_int_value :: "small_int \<Rightarrow> mp_int_t" where
  "small_int_value w = scast w"

definition new_small_int :: "mp_int_t \<Rightarrow> small_int" where
  "new_small_int v = ucast v"

text \<open>A tagged word holds the low 63 bits of the integer.\<close>

lemma small_int_tag: "MP_OBJ_SMALL_INT_VALUE (MP_OBJ_NEW_SMALL_INT v) = small_int_value (new_small_int v)"
proof (rule bit_word_eqI)
  fix n
  assume n: "n < LENGTH(64)"
  show "bit (MP_OBJ_SMALL_INT_VALUE (MP_OBJ_NEW_SMALL_INT v)) n = bit (small_int_value (new_small_int v)) n"
    unfolding MP_OBJ_SMALL_INT_VALUE_def MP_OBJ_NEW_SMALL_INT_def small_int_value_def new_small_int_def
      bit_signed_drop_bit_iff bit_or_iff bit_push_bit_iff bit_word_scast_iff bit_word_ucast_iff bit_1_iff
    using n by (cases "n = 63") auto
qed

lemma small_int_fits_bits: "MP_SMALL_INT_FITS v \<longleftrightarrow> (bit v 63 \<longleftrightarrow> bit v 62)"
proof -
  have m: "WORD_MSBIT_HIGH = push_bit 63 1" by (simp add: WORD_MSBIT_HIGH_def)
  have bit: "bit WORD_MSBIT_HIGH k \<longleftrightarrow> k = 63" for k
    unfolding m bit_push_bit_iff bit_1_iff by auto
  have "(n AND WORD_MSBIT_HIGH) = 0 \<longleftrightarrow> \<not> bit n 63" for n :: "64 word"
  proof
    assume "(n AND WORD_MSBIT_HIGH) = 0"
    then have "\<not> bit (n AND WORD_MSBIT_HIGH) 63" by simp
    then show "\<not> bit n 63" unfolding bit_and_iff bit by blast
  next
    assume "\<not> bit n 63"
    then have "\<not> bit (n AND WORD_MSBIT_HIGH) k" for k unfolding bit_and_iff bit by blast
    then show "(n AND WORD_MSBIT_HIGH) = 0" by (intro bit_word_eqI) simp
  qed
  moreover have "bit (v XOR push_bit 1 v) 63 \<longleftrightarrow> bit v 63 \<noteq> bit v 62"
    unfolding bit_xor_iff bit_push_bit_iff by simp
  ultimately show ?thesis unfolding MP_SMALL_INT_FITS_def by blast
qed

lemma small_int_value_new_bits: "small_int_value (new_small_int v) = v \<longleftrightarrow> (bit v 63 \<longleftrightarrow> bit v 62)"
proof
  assume "small_int_value (new_small_int v) = v"
  then have "bit (small_int_value (new_small_int v)) 63 = bit v 63" by simp
  then show "bit v 63 \<longleftrightarrow> bit v 62" by (simp add: small_int_value_def new_small_int_def bit_simps)
next
  assume b: "bit v 63 \<longleftrightarrow> bit v 62"
  show "small_int_value (new_small_int v) = v"
  proof (rule bit_word_eqI)
    fix n
    assume "n < LENGTH(64)"
    then show "bit (small_int_value (new_small_int v)) n = bit v n"
      using b by (cases "n = 63"; cases "n = 62") (auto simp: small_int_value_def new_small_int_def bit_simps)
  qed
qed

lemma small_int_range: "- (2 ^ 62) \<le> sint (w :: small_int)" "sint (w :: small_int) < 2 ^ 62"
  using sint_ge [of w] sint_lt [of w] by simp_all

lemma sint_small_int_value: "sint (small_int_value w) = sint w"
proof -
  have "- 9223372036854775808 \<le> sint w" "sint w < 9223372036854775808" using small_int_range [of w] by simp_all
  then show ?thesis unfolding small_int_value_def scast_eq by (rule sint_of_int_64)
qed

lemma small_int_fits: "MP_SMALL_INT_FITS v \<longleftrightarrow> - (2 ^ 62) \<le> sint v \<and> sint v < 2 ^ 62"
proof
  assume "MP_SMALL_INT_FITS v"
  then have "small_int_value (new_small_int v) = v"
    using small_int_value_new_bits [of v] by (simp add: small_int_fits_bits)
  then have "sint v = sint (new_small_int v)" using sint_small_int_value [of "new_small_int v"] by simp
  with small_int_range [of "new_small_int v"] show "- (2 ^ 62) \<le> sint v \<and> sint v < 2 ^ 62" by simp
next
  assume range: "- (2 ^ 62) \<le> sint v \<and> sint v < 2 ^ 62"
  have "sint (new_small_int v) = signed_take_bit 62 (sint v)"
    by (simp add: new_small_int_def sint_uint unsigned_ucast_eq signed_take_bit_take_bit signed_take_bit_signed_take_bit)
  also have "\<dots> = sint v" using range by (simp add: signed_take_bit_int_eq_self)
  finally have "sint (new_small_int v) = sint v" .
  then have "small_int_value (new_small_int v) = v"
    using sint_small_int_value [of "new_small_int v"] by (intro signed_word_eqI) simp
  then show "MP_SMALL_INT_FITS v" by (simp add: small_int_fits_bits small_int_value_new_bits)
qed

lemma small_int_value_new: "MP_SMALL_INT_FITS v \<Longrightarrow> small_int_value (new_small_int v) = v"
  by (simp add: small_int_fits_bits small_int_value_new_bits)

lemma new_small_int_value [simp]: "new_small_int (small_int_value w) = w"
  by (rule bit_word_eqI) (simp add: small_int_value_def new_small_int_def bit_simps)

section \<open>Objects\<close>

text \<open>
  An object with its address where it is on the heap. A string or bytes object knows its hash or
  has 0 in its place. \<open>OtherObj\<close> is an object whose type has no \<open>binary_op\<close> for \<open>==\<close> and that
  hashes by its address, such as \<open>None\<close>, functions and types.
\<close>

datatype obj =
    SmallInt small_int
  | BoolObj bool
  | IntObj nat mpz
  | QStr "byte list"
  | StrObj nat bool "byte list"
  | BytesObj nat bool "byte list"
  | TupleObj nat "obj list"
  | OtherObj "64 word"

fun MP_OBJ_IS_QSTR :: "obj \<Rightarrow> bool" where
  "MP_OBJ_IS_QSTR (QStr s) = True"
| "MP_OBJ_IS_QSTR _ = False"

text \<open>\<open>MP_OBJ_IS_TYPE(o, &mp_type_str)\<close> and \<open>MP_OBJ_IS_STR\<close>.\<close>

fun is_type_str :: "obj \<Rightarrow> bool" where
  "is_type_str (StrObj a c s) = True"
| "is_type_str _ = False"

definition MP_OBJ_IS_STR :: "obj \<Rightarrow> bool" where
  "MP_OBJ_IS_STR o1 \<longleftrightarrow> MP_OBJ_IS_QSTR o1 \<or> is_type_str o1"

fun get_str_hash :: "obj \<Rightarrow> mp_uint_t" where
  "get_str_hash (QStr s) = qstr_compute_hash s"
| "get_str_hash (StrObj a c s) = (if c then qstr_compute_hash s else 0)"
| "get_str_hash (BytesObj a c s) = (if c then qstr_compute_hash s else 0)"
| "get_str_hash _ = 0"

fun get_str_data :: "obj \<Rightarrow> byte list" where
  "get_str_data (QStr s) = s"
| "get_str_data (StrObj a c s) = s"
| "get_str_data (BytesObj a c s) = s"
| "get_str_data _ = []"

definition mp_obj_str_equal :: "obj \<Rightarrow> obj \<Rightarrow> bool" where
  "mp_obj_str_equal s1 s2 =
     (if MP_OBJ_IS_QSTR s1 \<and> MP_OBJ_IS_QSTR s2 then s1 = s2
      else
        let h1 = get_str_hash s1; h2 = get_str_hash s2
        in if h1 \<noteq> 0 \<and> h2 \<noteq> 0 \<and> h1 \<noteq> h2 then False
           else if length (get_str_data s1) \<noteq> length (get_str_data s2) then False
           else get_str_data s1 = get_str_data s2)"

text \<open>The structure in a local buffer that a small integer is compared as; four digits always hold it.\<close>

definition small_int_mpz :: "small_int \<Rightarrow> mpz" where
  "small_int_mpz w =
     (case mpz_init_fixed_from_int MPZ_NUM_DIG_FOR_INT (small_int_value w) of Some z \<Rightarrow> z | None \<Rightarrow> mpz_init_zero)"

section \<open>Equality\<close>

text \<open>The work left for a comparison: a truth value is compared as an integer, a tuple by its elements.\<close>

fun obj_weight :: "obj \<Rightarrow> nat" and objs_weight :: "obj list \<Rightarrow> nat" where
  "obj_weight (BoolObj b) = 2"
| "obj_weight (TupleObj a xs) = 1 + objs_weight xs"
| "obj_weight _ = 1"
| "objs_weight [] = 0"
| "objs_weight (x # xs) = obj_weight x + objs_weight xs"

lemma obj_weight_pos: "0 < obj_weight x"
  by (cases x) simp_all

text \<open>
  \<open>obj_type_equal\<close> is the \<open>binary_op\<close> of the first object's type for \<open>==\<close>; where it is not supported,
  the objects are not equal. \<open>mp_seq_equal\<close> is \<open>mp_seq_cmp_objs\<close> for \<open>==\<close>.
\<close>

function mp_obj_equal :: "obj \<Rightarrow> obj \<Rightarrow> bool"
  and obj_type_equal :: "obj \<Rightarrow> obj \<Rightarrow> bool"
  and mp_seq_equal :: "obj list \<Rightarrow> obj list \<Rightarrow> bool" where
  "mp_obj_equal o1 o2 =
     (if o1 = o2 then True
      else case (o1, o2) of
        (SmallInt v, SmallInt w) \<Rightarrow> False
      | (SmallInt v, _) \<Rightarrow> if MP_OBJ_IS_STR o2 then False else obj_type_equal o2 o1
      | _ \<Rightarrow>
          if MP_OBJ_IS_STR o1 then (if MP_OBJ_IS_STR o2 then mp_obj_str_equal o1 o2 else False)
          else if MP_OBJ_IS_STR o2 then False
          else obj_type_equal o1 o2)"
| "obj_type_equal o1 o2 =
     (case (o1, o2) of
        (BoolObj b, _) \<Rightarrow> mp_obj_equal (SmallInt (of_bool b)) o2
      | (IntObj a z, SmallInt w) \<Rightarrow> mpz_cmp z (small_int_mpz w) = 0
      | (IntObj a z, IntObj a' z') \<Rightarrow> mpz_cmp z z' = 0
      | (IntObj a z, BoolObj b) \<Rightarrow> mp_obj_equal o1 (SmallInt (of_bool b))
      | (BytesObj a c s, BytesObj a' c' s') \<Rightarrow> s = s'
      | (TupleObj a xs, TupleObj a' ys) \<Rightarrow> if length xs \<noteq> length ys then False else mp_seq_equal xs ys
      | _ \<Rightarrow> False)"
| "mp_seq_equal (x # xs) (y # ys) = (if mp_obj_equal x y then mp_seq_equal xs ys else False)"
| "mp_seq_equal [] ys = True"
| "mp_seq_equal (x # xs) [] = True"
  by pat_completeness auto
termination
  by (relation "measure (\<lambda>a. case a of
        Inl (x, y) \<Rightarrow> 2 * (obj_weight x + obj_weight y) + 1
      | Inr (Inl (x, y)) \<Rightarrow> 2 * (obj_weight x + obj_weight y)
      | Inr (Inr (xs, ys)) \<Rightarrow> 2 * (objs_weight xs + objs_weight ys) + 2)")
    (auto simp: obj_weight_pos)

declare mp_obj_equal.simps [simp del] obj_type_equal.simps [simp del]

section \<open>Hashing\<close>

text \<open>\<open>empty_tuple\<close> is the address of \<open>mp_const_empty_tuple\<close>, where the hash of a tuple starts.\<close>

fun mp_obj_hash :: "64 word \<Rightarrow> obj \<Rightarrow> mp_uint_t" where
  "mp_obj_hash empty_tuple (SmallInt w) = small_int_value w"
| "mp_obj_hash empty_tuple (BoolObj b) = small_int_value (of_bool b)"
| "mp_obj_hash empty_tuple (IntObj a z) = small_int_value (new_small_int (mpz_hash z))"
| "mp_obj_hash empty_tuple (QStr s) = get_str_hash (QStr s)"
| "mp_obj_hash empty_tuple (StrObj a c s) =
     (let h = get_str_hash (StrObj a c s)
      in small_int_value (new_small_int (if h = 0 then qstr_compute_hash s else h)))"
| "mp_obj_hash empty_tuple (BytesObj a c s) =
     (let h = get_str_hash (BytesObj a c s)
      in small_int_value (new_small_int (if h = 0 then qstr_compute_hash s else h)))"
| "mp_obj_hash empty_tuple (TupleObj a xs) =
     small_int_value (new_small_int (fold (\<lambda>x hash. hash + mp_obj_hash empty_tuple x) xs empty_tuple))"
| "mp_obj_hash empty_tuple (OtherObj p) = small_int_value (new_small_int p)"

definition py_ops :: "64 word \<Rightarrow> obj obj_ops" where
  "py_ops empty_tuple =
     \<lparr> is_qstr = MP_OBJ_IS_QSTR, is_str = is_type_str, obj_hash = \<lambda>x. unat (mp_obj_hash empty_tuple x),
       obj_equal = mp_obj_equal \<rparr>"

section \<open>Equal objects have equal keys\<close>

text \<open>
  What an object is, up to \<open>mp_obj_equal\<close>: an integer by sign and digits, a string by its bytes, a
  tuple by its elements.
\<close>

datatype obj_key = KInt bool "mpz_dig_t list" | KStr "byte list" | KBytes "byte list" | KTuple "obj_key list" | KOther "64 word"

definition mpz_key :: "mpz \<Rightarrow> obj_key" where
  "mpz_key z = KInt (neg z \<and> dig z \<noteq> []) (dig z)"

fun key_of :: "obj \<Rightarrow> obj_key" where
  "key_of (SmallInt w) = mpz_key (small_int_mpz w)"
| "key_of (BoolObj b) = mpz_key (small_int_mpz (of_bool b))"
| "key_of (IntObj a z) = mpz_key z"
| "key_of (QStr s) = KStr s"
| "key_of (StrObj a c s) = KStr s"
| "key_of (BytesObj a c s) = KBytes s"
| "key_of (TupleObj a xs) = KTuple (map key_of xs)"
| "key_of (OtherObj p) = KOther p"

lemma mpn_cmp_digs_0: "length is = length js \<Longrightarrow> mpn_cmp_digs is js = 0 \<longleftrightarrow> is = js"
proof (induction "is" js rule: mpn_cmp_digs.induct)
  case (1 i "is" j js)
  have "sint ((ucast i :: u32) - ucast j) = int (unat i) - int (unat j)" by (rule sint_ucast_diff)
  moreover have "int (unat i) = int (unat j) \<longleftrightarrow> i = j" by (simp only: of_nat_eq_iff word_unat_eq_iff)
  ultimately have "sint ((ucast i :: u32) - ucast j) = 0 \<longleftrightarrow> i = j" by linarith
  with 1 show ?case by (auto simp: Let_def)
qed simp_all

lemma mpn_cmp_0: "mpn_cmp is js = 0 \<longleftrightarrow> is = js"
  by (auto simp: mpn_cmp_def mpn_cmp_digs_0)

lemma mpz_cmp_0: "mpz_cmp z1 z2 = 0 \<longleftrightarrow> mpz_key z1 = mpz_key z2"
  by (auto simp: mpz_cmp_def mpz_key_def Let_def mpn_cmp_0)

lemma small_int_mpz_eq:
  "mpz_init_fixed_from_int MPZ_NUM_DIG_FOR_INT (small_int_value w) = Some (small_int_mpz w)"
  "small_int_mpz w = \<lparr> neg = sint w < 0, fixed_dig = True, alloc = 4,
     dig = mpz_uint_digs (if sint w < 0 then - small_int_value w else small_int_value w) \<rparr>"
proof -
  have "mpz_init_fixed_from_int MPZ_NUM_DIG_FOR_INT (small_int_value w) = Some \<lparr> neg = sint w < 0, fixed_dig = True, alloc = 4,
     dig = mpz_uint_digs (if sint w < 0 then - small_int_value w else small_int_value w) \<rparr>"
  proof (cases "small_int_value w = 0")
    case True
    then have "sint w = 0" using sint_small_int_value [of w] by simp
    with True show ?thesis
      by (simp add: mpz_init_fixed_from_int_def mpz_set_from_int_def MPZ_NUM_DIG_FOR_INT_def DIG_SIZE_def mpz_uint_digs.simps)
  next
    case False
    then show ?thesis
      by (simp add: mpz_init_fixed_from_int_def mpz_set_from_int_def MPZ_NUM_DIG_FOR_INT_def DIG_SIZE_def
          mpz_need_dig_run MIN_ALLOC_def Let_def sint_small_int_value)
  qed
  then show "mpz_init_fixed_from_int MPZ_NUM_DIG_FOR_INT (small_int_value w) = Some (small_int_mpz w)"
    and "small_int_mpz w = \<lparr> neg = sint w < 0, fixed_dig = True, alloc = 4,
     dig = mpz_uint_digs (if sint w < 0 then - small_int_value w else small_int_value w) \<rparr>"
    by (simp_all add: small_int_mpz_def)
qed

lemma small_int_mpz_val: "mpz_wf (small_int_mpz w)" "mpz_val (small_int_mpz w) = sint w"
proof -
  let ?v = "if sint w < 0 then - small_int_value w else small_int_value w"
  have "int (mpn_val (mpz_uint_digs ?v)) = \<bar>sint w\<bar>"
    using mpn_val_uint_digs [of ?v] uint_sint_abs [of "small_int_value w"] by (simp only: sint_small_int_value)
  then show "mpz_val (small_int_mpz w) = sint w"
    unfolding small_int_mpz_eq(2) mpz_val_def by (cases "sint w < 0") (simp_all add: signed_val_def)
  show "mpz_wf (small_int_mpz w)"
    unfolding small_int_mpz_eq(2) mpz_wf_def using mpz_uint_digs_spec [of ?v] length_mpz_uint_digs [of ?v] by simp
qed

text \<open>Small integers are the same when their digits are.\<close>

lemma small_int_mpz_inj: "mpz_key (small_int_mpz v) = mpz_key (small_int_mpz w) \<longleftrightarrow> v = w"
proof
  assume "mpz_key (small_int_mpz v) = mpz_key (small_int_mpz w)"
  then have "mpz_val (small_int_mpz v) = mpz_val (small_int_mpz w)"
    by (auto simp: mpz_key_def mpz_val_def signed_val_def)
  then show "v = w" by (simp add: small_int_mpz_val signed_word_eqI)
qed simp

section \<open>The laws of keys\<close>

lemma key_of_int_other:
  "mpz_key z \<noteq> KStr s" "mpz_key z \<noteq> KBytes s" "mpz_key z \<noteq> KTuple ks" "mpz_key z \<noteq> KOther p"
  by (simp_all add: mpz_key_def)

lemma mp_obj_str_equal_iff:
  "MP_OBJ_IS_STR s1 \<Longrightarrow> MP_OBJ_IS_STR s2 \<Longrightarrow> mp_obj_str_equal s1 s2 \<longleftrightarrow> key_of s1 = key_of s2"
  by (cases s1; cases s2) (auto simp: MP_OBJ_IS_STR_def mp_obj_str_equal_def Let_def)

lemma mp_seq_equal_iff:
  "(\<And>x y. x \<in> set xs \<Longrightarrow> mp_obj_equal x y \<longleftrightarrow> key_of x = key_of y) \<Longrightarrow> length xs = length ys \<Longrightarrow>
   mp_seq_equal xs ys \<longleftrightarrow> map key_of xs = map key_of ys"
proof (induction xs arbitrary: ys)
  case (Cons x xs)
  then obtain y ys' where "ys = y # ys'" "length xs = length ys'" by (cases ys) auto
  with Cons show ?case by simp
qed simp

lemma mp_obj_equal_tuple:
  "mp_obj_equal (TupleObj a xs) (TupleObj b ys) \<longleftrightarrow>
     a = b \<and> xs = ys \<or> length xs = length ys \<and> mp_seq_equal xs ys"
  by (auto simp: mp_obj_equal.simps obj_type_equal.simps MP_OBJ_IS_STR_def)

lemmas obj_equal_defs = mp_obj_equal.simps obj_type_equal.simps mpz_cmp_0 small_int_mpz_inj MP_OBJ_IS_STR_def
  mp_obj_str_equal_iff key_of_int_other key_of_int_other [symmetric]

lemma mp_obj_equal_key: "mp_obj_equal o1 o2 \<longleftrightarrow> key_of o1 = key_of o2"
proof (induction o1 arbitrary: o2)
  case (SmallInt w)
  show ?case by (cases o2) (auto simp: obj_equal_defs)
next
  case (BoolObj b)
  show ?case by (cases o2) (auto simp: obj_equal_defs)
next
  case (IntObj a z)
  show ?case by (cases o2) (auto simp: obj_equal_defs)
next
  case (QStr s)
  show ?case by (cases o2) (auto simp: obj_equal_defs)
next
  case (StrObj a c s)
  show ?case by (cases o2) (auto simp: obj_equal_defs)
next
  case (BytesObj a c s)
  show ?case by (cases o2) (auto simp: obj_equal_defs)
next
  case (TupleObj a xs)
  show ?case
  proof (cases "\<exists>b ys. o2 = TupleObj b ys")
    case True
    then obtain b ys where o2: "o2 = TupleObj b ys" by blast
    show ?thesis
    proof (cases "length xs = length ys")
      case len: True
      have "mp_seq_equal xs ys \<longleftrightarrow> map key_of xs = map key_of ys"
        by (rule mp_seq_equal_iff [OF TupleObj len])
      with o2 len show ?thesis by (auto simp: mp_obj_equal_tuple)
    next
      case False
      with o2 show ?thesis by (auto simp: mp_obj_equal_tuple dest: map_eq_imp_length_eq)
    qed
  next
    case False
    then show ?thesis by (cases o2) (auto simp: obj_equal_defs)
  qed
next
  case (OtherObj p)
  show ?case by (cases o2) (auto simp: obj_equal_defs)
qed

text \<open>The hash depends on what an object is, and on nothing else.\<close>

fun key_hash :: "64 word \<Rightarrow> obj_key \<Rightarrow> mp_uint_t" where
  "key_hash e (KInt n ds) =
     small_int_value (new_small_int (mpz_hash \<lparr> neg = n, fixed_dig = False, alloc = 0, dig = ds \<rparr>))"
| "key_hash e (KStr s) = qstr_compute_hash s"
| "key_hash e (KBytes s) = qstr_compute_hash s"
| "key_hash e (KTuple ks) = small_int_value (new_small_int (fold (\<lambda>k hash. hash + key_hash e k) ks e))"
| "key_hash e (KOther p) = small_int_value (new_small_int p)"

lemma str_hash_value [simp]: "small_int_value (new_small_int (qstr_compute_hash s)) = qstr_compute_hash s"
proof (rule small_int_value_new)
  have "unat (qstr_compute_hash s) < 256" by (rule qstr_compute_hash_range)
  then have "uint (qstr_compute_hash s) < 256" by (metis of_nat_less_iff of_nat_numeral uint_nat)
  moreover have "- (2 ^ 62) \<le> uint (qstr_compute_hash s)" by (rule order_trans [OF _ uint_64_lt(2)]) simp
  ultimately show "MP_SMALL_INT_FITS (qstr_compute_hash s)" unfolding small_int_fits sint_64 by simp
qed

lemma str_hash_nonzero [simp]: "qstr_compute_hash s \<noteq> 0"
  using qstr_compute_hash_range(1) [of s] by auto

lemma mpz_hash_key: "key_hash e (mpz_key z) = small_int_value (new_small_int (mpz_hash z))"
  by (simp add: mpz_key_def mpz_hash_def Let_def)

lemma small_int_mpz_hash [simp]: "mpz_hash (small_int_mpz w) = small_int_value w"
  unfolding mpz_hash_val small_int_mpz_val small_int_value_def scast_eq ..

lemma mp_obj_hash_key: "mp_obj_hash e x = key_hash e (key_of x)"
proof (induction x)
  case (TupleObj a xs)
  then have "fold (\<lambda>x hash. hash + mp_obj_hash e x) xs h = fold (\<lambda>k hash. hash + key_hash e k) (map key_of xs) h" for h
    by (induction xs arbitrary: h) simp_all
  then show ?case by simp
qed (simp_all add: mpz_hash_key)

interpretation obj_map: map_objs "py_ops e" for e
proof
  fix a b c
  show "obj_equal (py_ops e) a a" by (simp add: py_ops_def mp_obj_equal_key)
  show "obj_equal (py_ops e) a b \<Longrightarrow> obj_equal (py_ops e) b a" by (simp add: py_ops_def mp_obj_equal_key)
  show "obj_equal (py_ops e) a b \<Longrightarrow> obj_equal (py_ops e) b c \<Longrightarrow> obj_equal (py_ops e) a c"
    by (simp add: py_ops_def mp_obj_equal_key)
  show "obj_equal (py_ops e) a b \<Longrightarrow> obj_hash (py_ops e) a = obj_hash (py_ops e) b"
    by (simp add: py_ops_def mp_obj_equal_key mp_obj_hash_key)
  show "is_qstr (py_ops e) a \<Longrightarrow> is_qstr (py_ops e) b \<Longrightarrow> obj_equal (py_ops e) a b \<Longrightarrow> a = b"
    by (cases a; cases b) (simp_all add: py_ops_def mp_obj_equal_key)
  show "is_qstr (py_ops e) a \<Longrightarrow> obj_equal (py_ops e) a b \<Longrightarrow> is_qstr (py_ops e) b \<or> is_str (py_ops e) b"
    by (cases a; cases b) (simp_all add: py_ops_def mp_obj_equal_key mpz_key_def)
qed

end
