(* ===== verification/IntFloat.thy ===== *)
theory IntFloat
  imports MpzArith "HOL-Library.Log_Nat"
begin

text \<open>
  Integers as floating-point numbers (\<open>mpz_as_float\<close> of \<open>py/mpz.c\<close>). The port computes in IEEE doubles,
  rounding to the nearest one and to the even one of two; of a double the model keeps the integer it
  stands for or that it is infinite. The power operator tests both.
\<close>

section \<open>Doubles that come from integers\<close>

datatype mp_float_t = FInt int | FInf bool

text \<open>A natural number, rounded to 53 bits; \<open>None\<close> is a number that is too large.\<close>

definition double_of_nat :: "nat \<Rightarrow> nat option" where
  "double_of_nat n =
     (let s = 2 ^ (floorlog 2 n - 53); q = n div s; r = n mod s;
          v = (if s < 2 * r \<or> (s = 2 * r \<and> odd q) then q + 1 else q) * s
      in if v < 2 ^ 1024 then Some v else None)"

definition signed_float :: "bool \<Rightarrow> nat option \<Rightarrow> mp_float_t" where
  "signed_float b val = (case val of None \<Rightarrow> FInf b | Some v \<Rightarrow> FInt (if b then - int v else int v))"

text \<open>The conversion of a machine integer.\<close>

definition float_of_int :: "int \<Rightarrow> mp_float_t" where
  "float_of_int v = signed_float (v < 0) (double_of_nat (nat \<bar>v\<bar>))"

text \<open>\<open>val * DIG_BASE + *d\<close>, rounded after each operation; infinity stays.\<close>

fun mpz_float_step :: "mpz_dig_t \<Rightarrow> nat option \<Rightarrow> nat option" where
  "mpz_float_step d None = None"
| "mpz_float_step d (Some val) =
     (case double_of_nat (val * 2 ^ DIG_SIZE) of
        None \<Rightarrow> None
      | Some val \<Rightarrow> double_of_nat (val + unat d))"

definition mpz_as_float :: "mpz \<Rightarrow> mp_float_t" where
  "mpz_as_float i = signed_float (neg i) (foldr mpz_float_step (dig i) (Some 0))"

text \<open>\<open>rhs_val < 0 && !isinf(rhs_val)\<close>.\<close>

definition float_neg_finite :: "mp_float_t \<Rightarrow> bool" where
  "float_neg_finite r \<longleftrightarrow> (case r of FInt v \<Rightarrow> v < 0 | FInf b \<Rightarrow> False)"

section \<open>Zero stays zero, and only zero\<close>

lemma double_of_nat_val:
  "case double_of_nat n of
     None \<Rightarrow> 0 < n
   | Some v \<Rightarrow> (v = 0 \<longleftrightarrow> n = 0)"
proof (cases "n = 0")
  case False
  let ?s = "(2 :: nat) ^ (floorlog 2 n - 53)"
  have "?s \<le> 2 ^ (floorlog 2 n - 1)" by (rule power_increasing) simp_all
  also have "\<dots> \<le> n" using floorlog_bounds [of n 2] False by simp
  finally have "0 < n div ?s" by (simp add: div_greater_zero_iff)
  with False show ?thesis by (simp add: double_of_nat_def Let_def)
qed (simp add: double_of_nat_def floorlog_def)

lemma double_of_nat_bound:
  assumes "n \<le> 2 ^ k" and "k < 1024"
  shows "\<exists>v. double_of_nat n = Some v \<and> v \<le> 2 ^ k"
proof -
  define e where "e = floorlog 2 n - 53"
  let ?q = "n div 2 ^ e" and ?r = "n mod 2 ^ e"
  define m where "m = (if 2 ^ e < 2 * ?r \<or> (2 ^ e = 2 * ?r \<and> odd ?q) then ?q + 1 else ?q)"
  have "n < 2 ^ Suc k" using assms(1) by (simp add: order.strict_trans1)
  then have e: "e \<le> k" using floorlog_leI [of n 2 "Suc k"] by (simp add: e_def)
  then obtain j where j: "k = j + e" by (metis le_add_diff_inverse2)
  have "m * 2 ^ e \<le> 2 ^ k"
  proof (cases "?r = 0")
    case True
    then have "m = ?q" by (simp add: m_def)
    with assms(1) show ?thesis by (simp add: order_trans [OF div_times_less_eq_dividend])
  next
    case False
    then have "n \<noteq> 2 ^ k" by (auto simp: j power_add)
    with assms(1) have "n < 2 ^ j * 2 ^ e" by (simp add: j power_add)
    then have "?q < 2 ^ j" by (rule less_mult_imp_div_less)
    then have "m \<le> 2 ^ j" by (simp add: m_def)
    then show ?thesis by (simp add: j power_add)
  qed
  moreover have "(2 :: nat) ^ k < 2 ^ 1024" using assms(2) by (intro power_strict_increasing) simp_all
  ultimately have "m * 2 ^ e < 2 ^ 1024" by (rule order.strict_trans1)
  moreover have "double_of_nat n = (if m * 2 ^ e < 2 ^ 1024 then Some (m * 2 ^ e) else None)"
    by (simp only: double_of_nat_def Let_def e_def m_def)
  ultimately show ?thesis using \<open>m * 2 ^ e \<le> 2 ^ k\<close> by simp
qed

lemma double_of_nat_zero: "double_of_nat n = Some 0 \<longleftrightarrow> n = 0"
  using double_of_nat_val [of n] double_of_nat_val [of 0] by (auto split: option.splits)

lemma mpz_float_zero: "foldr mpz_float_step ds (Some 0) = Some 0 \<longleftrightarrow> mpn_val ds = 0"
proof (induction ds)
  case (Cons d ds)
  have "mpz_float_step d r = Some 0 \<longleftrightarrow> r = Some 0 \<and> unat d = 0" for r
  proof (cases r)
    case (Some v)
    have "0 < (2 :: nat) ^ DIG_SIZE" by simp
    with Some double_of_nat_val [of "v * 2 ^ DIG_SIZE"] show ?thesis
      by (auto simp: double_of_nat_zero split: option.splits)
  qed simp
  with Cons.IH show ?case by auto
qed simp

lemma mpz_float_finite:
  "17 * length ds < 1024 \<Longrightarrow> \<exists>v. foldr mpz_float_step ds (Some 0) = Some v \<and> v \<le> 2 ^ (17 * length ds)"
proof (induction ds)
  case (Cons d ds)
  then obtain v where v: "foldr mpz_float_step ds (Some 0) = Some v" "v \<le> 2 ^ (17 * length ds)" by auto
  let ?k = "17 * length ds"
  have "v * 2 ^ DIG_SIZE \<le> 2 ^ (?k + 16)" using v(2) by (simp add: DIG_SIZE_def power_add)
  moreover have "?k + 16 < 1024" using Cons.prems by simp
  ultimately obtain w where w: "double_of_nat (v * 2 ^ DIG_SIZE) = Some w" "w \<le> 2 ^ (?k + 16)"
    using double_of_nat_bound by blast
  have "unat d \<le> 2 ^ 16" using unat_u16_lt [of d] by simp
  also have "\<dots> \<le> 2 ^ (?k + 16)" by (rule power_increasing) simp_all
  finally have "w + unat d \<le> 2 ^ (17 * length (d # ds))" using w(2) by (simp add: power_add)
  with double_of_nat_bound [OF this Cons.prems] show ?case by (simp add: v(1) w(1))
qed simp

text \<open>As tests on the doubles: the integer zero, and the negative ones that are not infinite.\<close>

lemma signed_float_zero: "signed_float b r = FInt 0 \<longleftrightarrow> r = Some 0"
  by (auto simp: signed_float_def split: option.splits)

lemma mpz_as_float_zero: "mpz_as_float z = FInt 0 \<longleftrightarrow> mpz_val z = 0"
  by (simp add: mpz_as_float_def signed_float_zero mpz_float_zero mpz_val_def signed_val_def)

lemma float_of_int_zero: "float_of_int v = FInt 0 \<longleftrightarrow> v = 0"
  by (simp add: float_of_int_def signed_float_zero double_of_nat_zero)

lemma mpz_as_float_neg:
  assumes "mpz_wf z" and "mpz_val z < 0" and "- (2 ^ 960) < mpz_val z"
  shows "float_neg_finite (mpz_as_float z)"
proof -
  have z: "neg z" "0 < mpn_val (dig z)" "int (mpn_val (dig z)) < 2 ^ 960"
    using assms(2,3) by (auto simp: mpz_val_def signed_val_def split: if_splits)
  then have "dig z \<noteq> []" "mpn_val (dig z) < 2 ^ 960" by (auto simp: nat_less_iff [symmetric])
  then have "(65536 :: nat) ^ (len z - 1) < 65536 ^ 60"
    using mpn_val_ge [of "dig z"] assms(1) by (simp add: mpz_wf_def order.strict_trans1)
  then have "17 * len z < 1024" using power_less_imp_less_exp [of "65536 :: nat" "len z - 1" 60] by simp
  from mpz_float_finite [OF this] obtain v where v: "foldr mpz_float_step (dig z) (Some 0) = Some v" by blast
  with mpz_float_zero [of "dig z"] z(2) have "0 < v" by auto
  with v z(1) show ?thesis by (simp add: mpz_as_float_def signed_float_def float_neg_finite_def)
qed

lemma float_of_int_neg:
  assumes "v < 0" and "- (2 ^ 960) < v"
  shows "float_neg_finite (float_of_int v)"
proof -
  have "nat \<bar>v\<bar> \<le> 2 ^ 960" using assms by (simp add: nat_le_iff)
  then obtain r where r: "double_of_nat (nat \<bar>v\<bar>) = Some r" using double_of_nat_bound [of _ 960] by auto
  with double_of_nat_zero [of "nat \<bar>v\<bar>"] assms(1) have "0 < r" by auto
  with r assms(1) show ?thesis by (simp add: float_of_int_def signed_float_def float_neg_finite_def)
qed

end
