(* ===== verification/IntOps.thy ===== *)
theory IntOps
  imports Objects IntFloat "HOL-Library.Signed_Division"
begin

text \<open>
  Arithmetic on Python integers: \<open>mp_binary_op\<close> of \<open>py/runtime.c\<close> on two small integers, the helpers of
  \<open>py/smallint.c\<close>, and \<open>mp_obj_int_binary_op\<close> of \<open>py/objint_mpz.c\<close> for the others. The result is
  compared with the integers it stands for.
\<close>

section \<open>Small integers\<close>

text \<open>\<open>/\<close> and \<open>%\<close> of C on signed words.\<close>

definition c_div :: "mp_int_t \<Rightarrow> mp_int_t \<Rightarrow> mp_int_t" where
  "c_div x y = word_of_int (sint x sdiv sint y)"

definition c_mod :: "mp_int_t \<Rightarrow> mp_int_t \<Rightarrow> mp_int_t" where
  "c_mod x y = word_of_int (sint x smod sint y)"

definition MP_SMALL_INT_MIN :: mp_int_t where
  "MP_SMALL_INT_MIN = signed_drop_bit 1 WORD_MSBIT_HIGH"

definition MP_SMALL_INT_MAX :: mp_int_t where
  "MP_SMALL_INT_MAX = NOT MP_SMALL_INT_MIN"

definition mp_small_int_mul_overflow :: "mp_int_t \<Rightarrow> mp_int_t \<Rightarrow> bool" where
  "mp_small_int_mul_overflow x y =
     (if 0 < sint x then
        (if 0 < sint y then sint x > sint (c_div MP_SMALL_INT_MAX y)
         else sint y < sint (c_div MP_SMALL_INT_MIN x))
      else
        (if 0 < sint y then sint x < sint (c_div MP_SMALL_INT_MIN y)
         else x \<noteq> 0 \<and> sint y < sint (c_div MP_SMALL_INT_MAX x)))"

definition mp_small_int_modulo :: "mp_int_t \<Rightarrow> mp_int_t \<Rightarrow> mp_int_t" where
  "mp_small_int_modulo dividend divisor =
     (let dividend = c_mod dividend divisor
      in if (sint dividend < 0 \<and> 0 < sint divisor) \<or> (0 < sint dividend \<and> sint divisor < 0)
         then dividend + divisor else dividend)"

definition mp_small_int_floor_divide :: "mp_int_t \<Rightarrow> mp_int_t \<Rightarrow> mp_int_t" where
  "mp_small_int_floor_divide num denom =
     (let num = (if 0 \<le> sint num then (if sint denom < 0 then num + (- denom - 1) else num)
                 else (if 0 \<le> sint denom then num + (- denom + 1) else num))
      in c_div num denom)"

lemma sint_64_range: "- 9223372036854775808 \<le> sint (w :: 64 word)" "sint (w :: 64 word) < 9223372036854775808"
  using sint_ge [of w] sint_lt [of w] by simp_all

lemma sint_c_div: "- 9223372036854775808 < sint x \<Longrightarrow> sint (c_div x y) = sint x sdiv sint y"
  using sdiv_int_range [of "sint x" "sint y"] sint_64_range [of x]
  unfolding c_div_def by (intro sint_of_int_64) auto

text \<open>The loop of \<open>MP_BINARY_OP_POWER\<close>; \<open>None\<close> is \<open>goto power_overflow\<close>.\<close>

function small_int_pow :: "mp_int_t \<Rightarrow> mp_int_t \<Rightarrow> mp_int_t \<Rightarrow> mp_int_t option" where
  "small_int_pow lhs ans rhs =
     (if sint rhs > 0 then
        if (rhs AND 1) \<noteq> 0 \<and> mp_small_int_mul_overflow ans lhs then None
        else
          let ans = (if (rhs AND 1) \<noteq> 0 then ans * lhs else ans)
          in if rhs = 1 then Some ans
             else
               let rhs = c_div rhs 2
               in if mp_small_int_mul_overflow lhs lhs then None
                  else small_int_pow (lhs * lhs) ans rhs
      else Some ans)"
  by auto
termination
proof (relation "measure (\<lambda>(lhs, ans, rhs). nat (sint rhs))")
  fix lhs ans rhs x y :: mp_int_t
  assume r: "0 < sint rhs" and y: "y = c_div rhs 2"
  have "sint y = sint rhs sdiv 2" using r unfolding y by (simp add: sint_c_div)
  also have "\<dots> = sint rhs div 2" using r by (simp add: signed_divide_int_def)
  finally show "((lhs * lhs, x, y), (lhs, ans, rhs)) \<in> measure (\<lambda>(lhs, ans, rhs). nat (sint rhs))"
    using r by simp
qed simp

declare small_int_pow.simps [simp del]

section \<open>Integer objects\<close>

datatype num = Small small_int | Long mpz

text \<open>The operators; an in-place variant runs the same code as the operator.\<close>

datatype mp_binary_op_t =
    MP_BINARY_OP_OR | MP_BINARY_OP_XOR | MP_BINARY_OP_AND | MP_BINARY_OP_LSHIFT | MP_BINARY_OP_RSHIFT
  | MP_BINARY_OP_ADD | MP_BINARY_OP_SUBTRACT | MP_BINARY_OP_MULTIPLY | MP_BINARY_OP_FLOOR_DIVIDE
  | MP_BINARY_OP_TRUE_DIVIDE | MP_BINARY_OP_MODULO | MP_BINARY_OP_POWER | MP_BINARY_OP_DIVMOD
  | MP_BINARY_OP_LESS | MP_BINARY_OP_MORE | MP_BINARY_OP_LESS_EQUAL | MP_BINARY_OP_MORE_EQUAL

text \<open>
  Exceptions, and \<open>IntFault\<close> for a failed assertion of the bignum code. \<open>RFloat\<close> is a result that the
  floating-point code computes.
\<close>

datatype int_error = ValueErrorShift | ZeroDivisionError | OverflowErrorInt | IntFault

datatype int_result = RNum num | RPair num num | RBool bool | RFloat

definition mp_obj_new_int_from_ll :: "64 word \<Rightarrow> num option" where
  "mp_obj_new_int_from_ll val = map_option Long (mpz_set_from_ll mpz_init_zero val True)"

definition mp_obj_new_int_from_ull :: "64 word \<Rightarrow> num option" where
  "mp_obj_new_int_from_ull val = map_option Long (mpz_set_from_ll mpz_init_zero val False)"

definition mp_obj_new_int :: "mp_int_t \<Rightarrow> num option" where
  "mp_obj_new_int value =
     (if MP_SMALL_INT_FITS value then Some (Small (new_small_int value)) else mp_obj_new_int_from_ll value)"

definition MP_SMALL_INT_POSITIVE_MASK :: "64 word" where
  "MP_SMALL_INT_POSITIVE_MASK = NOT (WORD_MSBIT_HIGH OR drop_bit 1 WORD_MSBIT_HIGH)"

definition mp_obj_new_int_from_uint :: "mp_uint_t \<Rightarrow> num option" where
  "mp_obj_new_int_from_uint value =
     (if (value AND NOT MP_SMALL_INT_POSITIVE_MASK) = 0 then Some (Small (new_small_int value))
      else mp_obj_new_int_from_ull value)"

fun mp_obj_int_get_truncated :: "num \<Rightarrow> mp_int_t" where
  "mp_obj_int_get_truncated (Small w) = small_int_value w"
| "mp_obj_int_get_truncated (Long z) = mpz_hash z"

fun mp_obj_int_get_checked :: "num \<Rightarrow> int_error + mp_int_t" where
  "mp_obj_int_get_checked (Small w) = Inr (small_int_value w)"
| "mp_obj_int_get_checked (Long z) =
     (case mpz_as_int_checked z of Some v \<Rightarrow> Inr v | None \<Rightarrow> Inl OverflowErrorInt)"

fun mp_obj_int_sign :: "num \<Rightarrow> int" where
  "mp_obj_int_sign (Small w) =
     (let val = sint (small_int_value w) in if val < 0 then -1 else if 0 < val then 1 else 0)"
| "mp_obj_int_sign (Long z) = (if len z = 0 then 0 else if \<not> neg z then 1 else -1)"

fun num_mpz :: "num \<Rightarrow> mpz" where
  "num_mpz (Small w) = small_int_mpz w"
| "num_mpz (Long z) = z"

definition long_result :: "mpz option \<Rightarrow> int_error + int_result" where
  "long_result r = (case r of Some z \<Rightarrow> Inr (RNum (Long z)) | None \<Rightarrow> Inl IntFault)"

section \<open>The power of floats\<close>

fun mp_obj_get_float :: "num \<Rightarrow> mp_float_t" where
  "mp_obj_get_float (Small w) = float_of_int (sint (small_int_value w))"
| "mp_obj_get_float (Long z) = mpz_as_float z"

text \<open>
  \<open>mp_obj_float_binary_op\<close> for a power with an integral exponent: it raises for a zero and a negative
  exponent that is finite as a double, and calls \<open>pow\<close> otherwise.
\<close>

definition mp_obj_float_power :: "mp_float_t \<Rightarrow> num \<Rightarrow> int_error + int_result" where
  "mp_obj_float_power lhs_val rhs =
     (if lhs_val = FInt 0 \<and> float_neg_finite (mp_obj_get_float rhs) then Inl ZeroDivisionError else Inr RFloat)"

section \<open>Long integers\<close>

definition mp_obj_int_shift :: "bool \<Rightarrow> mpz \<Rightarrow> num \<Rightarrow> int_error + int_result" where
  "mp_obj_int_shift left zlhs rhs =
     (case mp_obj_int_get_checked rhs of
        Inl e \<Rightarrow> Inl e
      | Inr irhs \<Rightarrow>
          if sint irhs < 0 then Inl ValueErrorShift
          else if left then long_result (mpz_shl_inpl mpz_init_zero zlhs (unat irhs))
          else long_result (mpz_shr_inpl mpz_init_zero zlhs (unat irhs)))"

definition mp_obj_int_divmod :: "mpz \<Rightarrow> mpz \<Rightarrow> (mpz \<Rightarrow> mpz \<Rightarrow> int_result) \<Rightarrow> int_error + int_result" where
  "mp_obj_int_divmod zlhs zrhs f =
     (if mpz_is_zero zrhs then Inl ZeroDivisionError
      else case mpz_divmod_inpl mpz_init_zero mpz_init_zero zlhs zrhs of
        None \<Rightarrow> Inl IntFault
      | Some (quo, rem) \<Rightarrow> Inr (f quo rem))"

definition mp_obj_int_binary_op :: "mp_binary_op_t \<Rightarrow> num \<Rightarrow> num \<Rightarrow> int_error + int_result" where
  "mp_obj_int_binary_op op lhs rhs =
     (let zlhs = num_mpz lhs; zrhs = num_mpz rhs; cmp = mpz_cmp zlhs zrhs
      in case op of
        MP_BINARY_OP_TRUE_DIVIDE \<Rightarrow> if mpz_is_zero zrhs then Inl ZeroDivisionError else Inr RFloat
      | MP_BINARY_OP_ADD \<Rightarrow> long_result (mpz_add_inpl mpz_init_zero zlhs zrhs)
      | MP_BINARY_OP_SUBTRACT \<Rightarrow> long_result (mpz_sub_inpl mpz_init_zero zlhs zrhs)
      | MP_BINARY_OP_MULTIPLY \<Rightarrow> long_result (mpz_mul_inpl mpz_init_zero zlhs zrhs)
      | MP_BINARY_OP_FLOOR_DIVIDE \<Rightarrow> mp_obj_int_divmod zlhs zrhs (\<lambda>quo rem. RNum (Long quo))
      | MP_BINARY_OP_MODULO \<Rightarrow> mp_obj_int_divmod zlhs zrhs (\<lambda>quo rem. RNum (Long rem))
      | MP_BINARY_OP_AND \<Rightarrow> long_result (mpz_and_inpl mpz_init_zero zlhs zrhs)
      | MP_BINARY_OP_OR \<Rightarrow> long_result (mpz_or_inpl mpz_init_zero zlhs zrhs)
      | MP_BINARY_OP_XOR \<Rightarrow> long_result (mpz_xor_inpl mpz_init_zero zlhs zrhs)
      | MP_BINARY_OP_LSHIFT \<Rightarrow> mp_obj_int_shift True zlhs rhs
      | MP_BINARY_OP_RSHIFT \<Rightarrow> mp_obj_int_shift False zlhs rhs
      | MP_BINARY_OP_POWER \<Rightarrow>
          if mpz_is_neg zrhs then mp_obj_float_power (mpz_as_float zlhs) rhs
          else long_result (mpz_pow_inpl mpz_init_zero zlhs zrhs)
      | MP_BINARY_OP_DIVMOD \<Rightarrow> mp_obj_int_divmod zlhs zrhs (\<lambda>quo rem. RPair (Long quo) (Long rem))
      | MP_BINARY_OP_LESS \<Rightarrow> Inr (RBool (cmp < 0))
      | MP_BINARY_OP_MORE \<Rightarrow> Inr (RBool (cmp > 0))
      | MP_BINARY_OP_LESS_EQUAL \<Rightarrow> Inr (RBool (cmp \<le> 0))
      | MP_BINARY_OP_MORE_EQUAL \<Rightarrow> Inr (RBool (cmp \<ge> 0)))"

section \<open>Two small integers\<close>

text \<open>\<open>goto generic_binary_op\<close> with the first operand as a long integer.\<close>

definition generic_with_long :: "mp_binary_op_t \<Rightarrow> mp_int_t \<Rightarrow> num \<Rightarrow> int_error + int_result" where
  "generic_with_long op lhs_val rhs =
     (case mp_obj_new_int_from_ll lhs_val of
        None \<Rightarrow> Inl IntFault
      | Some lhs \<Rightarrow> mp_obj_int_binary_op op lhs rhs)"

definition num_result :: "num option \<Rightarrow> int_error + int_result" where
  "num_result r = (case r of Some n \<Rightarrow> Inr (RNum n) | None \<Rightarrow> Inl IntFault)"

definition small_int_binary_op :: "mp_binary_op_t \<Rightarrow> small_int \<Rightarrow> small_int \<Rightarrow> int_error + int_result" where
  "small_int_binary_op op lhs rhs =
     (let lhs_val = small_int_value lhs; rhs_val = small_int_value rhs
      in case op of
        MP_BINARY_OP_OR \<Rightarrow> num_result (mp_obj_new_int (lhs_val OR rhs_val))
      | MP_BINARY_OP_XOR \<Rightarrow> num_result (mp_obj_new_int (lhs_val XOR rhs_val))
      | MP_BINARY_OP_AND \<Rightarrow> num_result (mp_obj_new_int (lhs_val AND rhs_val))
      | MP_BINARY_OP_LSHIFT \<Rightarrow>
          if sint rhs_val < 0 then Inl ValueErrorShift
          else if sint rhs_val \<ge> 64 \<or> sint lhs_val > sint (signed_drop_bit (unat rhs_val) MP_SMALL_INT_MAX)
            \<or> sint lhs_val < sint (signed_drop_bit (unat rhs_val) MP_SMALL_INT_MIN)
            then generic_with_long op lhs_val (Small rhs)
          else num_result (mp_obj_new_int (push_bit (unat rhs_val) lhs_val))
      | MP_BINARY_OP_RSHIFT \<Rightarrow>
          if sint rhs_val < 0 then Inl ValueErrorShift
          else num_result (mp_obj_new_int
            (signed_drop_bit (unat (if sint rhs_val \<ge> 64 then 64 - 1 else rhs_val)) lhs_val))
      | MP_BINARY_OP_ADD \<Rightarrow> num_result (mp_obj_new_int (lhs_val + rhs_val))
      | MP_BINARY_OP_SUBTRACT \<Rightarrow> num_result (mp_obj_new_int (lhs_val - rhs_val))
      | MP_BINARY_OP_MULTIPLY \<Rightarrow>
          if mp_small_int_mul_overflow lhs_val rhs_val then generic_with_long op lhs_val (Small rhs)
          else Inr (RNum (Small (new_small_int (lhs_val * rhs_val))))
      | MP_BINARY_OP_FLOOR_DIVIDE \<Rightarrow>
          if rhs_val = 0 then Inl ZeroDivisionError
          else num_result (mp_obj_new_int (mp_small_int_floor_divide lhs_val rhs_val))
      | MP_BINARY_OP_TRUE_DIVIDE \<Rightarrow> if rhs_val = 0 then Inl ZeroDivisionError else Inr RFloat
      | MP_BINARY_OP_MODULO \<Rightarrow>
          if rhs_val = 0 then Inl ZeroDivisionError
          else num_result (mp_obj_new_int (mp_small_int_modulo lhs_val rhs_val))
      | MP_BINARY_OP_POWER \<Rightarrow>
          if sint rhs_val < 0 then mp_obj_float_power (float_of_int (sint lhs_val)) (Small rhs)
          else (case small_int_pow lhs_val 1 rhs_val of
              Some ans \<Rightarrow> num_result (mp_obj_new_int ans)
            | None \<Rightarrow> generic_with_long op lhs_val (Small rhs))
      | MP_BINARY_OP_DIVMOD \<Rightarrow>
          if rhs_val = 0 then Inl ZeroDivisionError
          else Inr (RPair (Small (new_small_int (mp_small_int_floor_divide lhs_val rhs_val)))
            (Small (new_small_int (mp_small_int_modulo lhs_val rhs_val))))
      | MP_BINARY_OP_LESS \<Rightarrow> Inr (RBool (sint lhs_val < sint rhs_val))
      | MP_BINARY_OP_MORE \<Rightarrow> Inr (RBool (sint lhs_val > sint rhs_val))
      | MP_BINARY_OP_LESS_EQUAL \<Rightarrow> Inr (RBool (sint lhs_val \<le> sint rhs_val))
      | MP_BINARY_OP_MORE_EQUAL \<Rightarrow> Inr (RBool (sint lhs_val \<ge> sint rhs_val)))"

fun mp_binary_op :: "mp_binary_op_t \<Rightarrow> num \<Rightarrow> num \<Rightarrow> int_error + int_result" where
  "mp_binary_op op (Small lhs) (Small rhs) = small_int_binary_op op lhs rhs"
| "mp_binary_op op lhs rhs = mp_obj_int_binary_op op lhs rhs"

datatype mp_unary_op_t =
  MP_UNARY_OP_POSITIVE | MP_UNARY_OP_NEGATIVE | MP_UNARY_OP_INVERT | MP_UNARY_OP_ABS

text \<open>\<open>mp_unary_op\<close> on a small integer and \<open>mp_obj_int_unary_op\<close> on a long one.\<close>

fun mp_unary_op :: "mp_unary_op_t \<Rightarrow> num \<Rightarrow> num option" where
  "mp_unary_op MP_UNARY_OP_POSITIVE n = Some n"
| "mp_unary_op MP_UNARY_OP_NEGATIVE (Small w) =
     (let val = small_int_value w
      in if val = MP_SMALL_INT_MIN then mp_obj_new_int (- val) else Some (Small (new_small_int (- val))))"
| "mp_unary_op MP_UNARY_OP_ABS (Small w) =
     (let val = small_int_value w
      in if 0 \<le> sint val then Some (Small w)
         else if val = MP_SMALL_INT_MIN then mp_obj_new_int (- val)
         else Some (Small (new_small_int (- val))))"
| "mp_unary_op MP_UNARY_OP_INVERT (Small w) = Some (Small (new_small_int (NOT (small_int_value w))))"
| "mp_unary_op MP_UNARY_OP_NEGATIVE (Long z) = map_option Long (mpz_neg_inpl False mpz_init_zero z)"
| "mp_unary_op MP_UNARY_OP_INVERT (Long z) = map_option Long (mpz_not_inpl False mpz_init_zero z)"
| "mp_unary_op MP_UNARY_OP_ABS (Long z) =
     (if \<not> neg z then Some (Long z) else map_option Long (mpz_abs_inpl False mpz_init_zero z))"

section \<open>Division and overflow on the integers\<close>

lemma int_div_less_iff: "0 < (p :: int) \<Longrightarrow> n div p < k \<longleftrightarrow> n < k * p"
  using int_div_less [of p n k] int_le_div [of p k n] by linarith

lemma sdiv_signs:
  "0 \<le> (a :: int) \<Longrightarrow> 0 < b \<Longrightarrow> a sdiv b = a div b"
  "0 \<le> (a :: int) \<Longrightarrow> b < 0 \<Longrightarrow> a sdiv b = - (a div - b)"
  "(a :: int) \<le> 0 \<Longrightarrow> 0 < b \<Longrightarrow> a sdiv b = - (- a div b)"
  "(a :: int) \<le> 0 \<Longrightarrow> b < 0 \<Longrightarrow> a sdiv b = - a div - b"
  by (auto simp: signed_divide_int_def sgn_if)

lemma mul_overflow_int:
  fixes M x y :: int
  assumes "0 < M"
  shows "(if 0 < x then (if 0 < y then x > (M - 1) sdiv y else y < (- M) sdiv x)
    else (if 0 < y then x < (- M) sdiv y else x \<noteq> 0 \<and> y < (M - 1) sdiv x)) \<longleftrightarrow> \<not> (- M \<le> x * y \<and> x * y < M)"
proof -
  consider "0 < x" "0 < y" | "0 < x" "y \<le> 0" | "x \<le> 0" "0 < y" | "x = 0" | "x < 0" "y \<le> 0" by linarith
  then show ?thesis
  proof cases
    case 1
    then have "0 < x * y" by simp
    moreover have "(M - 1) sdiv y < x \<longleftrightarrow> M - 1 < x * y"
      using 1 assms by (simp add: sdiv_signs int_div_less_iff)
    ultimately show ?thesis using 1 assms by (simp, linarith)
  next
    case 2
    then have "x * y \<le> 0" by (simp add: mult_nonneg_nonpos)
    moreover have "y < (- M) sdiv x \<longleftrightarrow> M < - y * x"
      using 2 assms int_div_less_iff [of x M "- y"] by (simp add: sdiv_signs) linarith
    ultimately show ?thesis using 2 assms by (auto simp: mult.commute)
  next
    case 3
    then have "x * y \<le> 0" by (simp add: mult_nonpos_nonneg)
    moreover have "x < (- M) sdiv y \<longleftrightarrow> M < - x * y"
      using 3 assms int_div_less_iff [of y M "- x"] by (simp add: sdiv_signs) linarith
    ultimately show ?thesis using 3 assms by auto
  next
    case 4
    have "0 \<le> M div y" if "0 < y" using that assms by (simp add: pos_imp_zdiv_nonneg_iff)
    with 4 assms show ?thesis by (auto simp: sdiv_signs not_less)
  next
    case 5
    then have "0 \<le> x * y" by (simp add: mult_nonpos_nonpos)
    moreover have "y < (M - 1) sdiv x \<longleftrightarrow> M - 1 < x * y"
      using 5 assms int_div_less_iff [of "- x" "M - 1" "- y"] by (simp add: sdiv_signs mult.commute) linarith
    ultimately show ?thesis using 5 assms by auto
  qed
qed

lemma c_mod_int:
  fixes a b :: int
  assumes "b \<noteq> 0"
  shows "(let d = a smod b in if (d < 0 \<and> 0 < b) \<or> (0 < d \<and> b < 0) then d + b else d) = a mod b"
proof -
  consider "0 \<le> a" "0 < b" | "a < 0" "0 < b" | "0 \<le> a" "b < 0" | "a < 0" "b < 0" using assms by linarith
  then show ?thesis
  proof cases
    case 1
    then have "a smod b = a mod b" by (simp add: smod_int_alt_def sgn_if)
    moreover have "\<not> a mod b < 0" using 1 by (simp add: not_less)
    ultimately show ?thesis using 1 by (simp add: Let_def)
  next
    case 2
    define m where "m = - a mod b"
    have "a smod b = - m" "0 \<le> m" using 2 by (simp_all add: m_def smod_int_alt_def sgn_if)
    moreover have "a mod b = (if m = 0 then 0 else b - m)"
      using zmod_zminus1_eq_if [of "- a" b] by (simp add: m_def)
    ultimately show ?thesis using 2 by (auto simp: Let_def)
  next
    case 3
    define m where "m = a mod - b"
    have "a smod b = m" "0 \<le> m" using 3 by (auto simp: m_def smod_int_alt_def sgn_if)
    moreover have "a mod b = (if m = 0 then 0 else m + b)"
      using zmod_zminus2_eq_if [of a "- b"] by (simp add: m_def)
    ultimately show ?thesis using 3 by (auto simp: Let_def)
  next
    case 4
    define m where "m = - a mod - b"
    have "a smod b = - m" "0 \<le> m" using 4 by (simp_all add: m_def smod_int_alt_def sgn_if)
    moreover have "m = - (a mod b)" unfolding m_def by (rule mod_minus_minus)
    ultimately have "a smod b = a mod b" by simp
    moreover have "\<not> 0 < a mod b" using 4 by (simp add: not_less)
    ultimately show ?thesis using 4 by (simp add: Let_def)
  qed
qed

lemma ceil_div:
  fixes a c :: int
  assumes "0 < c"
  shows "(a + c - 1) div c = a div c + (if a mod c = 0 then 0 else 1)"
proof -
  have "0 \<le> a mod c" "a mod c < c" using assms by simp_all
  have e: "a + c - 1 = (a mod c + c - 1) + c * (a div c)" by (simp add: algebra_simps)
  have "(a + c - 1) div c = a div c + (a mod c + c - 1) div c"
    unfolding e using assms by (intro div_mult_self2) simp
  moreover have "(a mod c + c - 1) div c = (if a mod c = 0 then 0 else 1)"
  proof (cases "a mod c = 0")
    case True
    then show ?thesis using assms by simp
  next
    case False
    have "(a mod c + c - 1) div c = (a mod c - 1 + 1 * c) div c" by (simp only: mult_1 diff_add_eq)
    also have "\<dots> = 1 + (a mod c - 1) div c" using assms by (subst div_mult_self1) simp_all
    also have "(a mod c - 1) div c = 0"
      using False \<open>0 \<le> a mod c\<close> \<open>a mod c < c\<close> by (intro div_pos_pos_trivial) linarith+
    finally show ?thesis using False by simp
  qed
  ultimately show ?thesis by simp
qed

lemma floor_div_int:
  fixes a b :: int
  assumes "b \<noteq> 0"
  shows "(if 0 \<le> a then (if b < 0 then a + (- b - 1) else a) else (if 0 \<le> b then a + (- b + 1) else a)) sdiv b = a div b"
proof -
  consider "0 \<le> a" "0 < b" | "a < 0" "0 < b" | "0 \<le> a" "b < 0" | "a < 0" "b < 0" using assms by linarith
  then show ?thesis
  proof cases
    case 1
    then show ?thesis by (simp add: sdiv_signs)
  next
    case 2
    have "(a + (- b + 1)) sdiv b = - ((- a + b - 1) div b)"
      using 2 sdiv_signs(3) [of "a + (- b + 1)" b] by (simp add: algebra_simps)
    also have "\<dots> = - (- a div b + (if - a mod b = 0 then 0 else 1))" using 2 by (simp only: ceil_div)
    also have "\<dots> = a div b" using zdiv_zminus1_eq_if [of b "- a"] 2 by simp
    finally show ?thesis using 2 by simp
  next
    case 3
    have "(a + (- b - 1)) sdiv b = - ((a + - b - 1) div - b)"
      using 3 sdiv_signs(2) [of "a + (- b - 1)" b] by (simp add: algebra_simps)
    also have "\<dots> = - (a div - b + (if a mod - b = 0 then 0 else 1))" using 3 by (simp only: ceil_div neg_0_less_iff_less)
    also have "\<dots> = a div b" using zdiv_zminus2_eq_if [of "- b" a] 3 by simp
    finally show ?thesis using 3 by simp
  next
    case 4
    then show ?thesis by (simp add: sdiv_signs)
  qed
qed

section \<open>Small integers stand for integers\<close>

lemma sint_small_min_max:
  "sint MP_SMALL_INT_MIN = - 4611686018427387904" "sint MP_SMALL_INT_MAX = 4611686018427387904 - 1"
proof -
  have "sint WORD_MSBIT_HIGH = - 9223372036854775808" by (simp add: WORD_MSBIT_HIGH_def sint_64)
  then show "sint MP_SMALL_INT_MIN = - 4611686018427387904"
    unfolding MP_SMALL_INT_MIN_def sint_signed_drop_bit_div by simp
  then show "sint MP_SMALL_INT_MAX = 4611686018427387904 - 1"
    unfolding MP_SMALL_INT_MAX_def by (simp add: signed_not_eq)
qed

definition small_range :: "int \<Rightarrow> bool" where
  "small_range v \<longleftrightarrow> - 4611686018427387904 \<le> v \<and> v < 4611686018427387904"

lemma small_range_value [simp]: "small_range (sint (small_int_value w))"
  using small_int_range [of w] by (simp add: small_range_def sint_small_int_value)

lemma small_fits: "MP_SMALL_INT_FITS v \<longleftrightarrow> small_range (sint v)"
  by (simp add: small_int_fits small_range_def)

lemma sint_new_small: "small_range (sint v) \<Longrightarrow> sint (new_small_int v) = sint v"
  using small_int_value_new [of v] sint_small_int_value [of "new_small_int v"] by (simp add: small_fits)

lemma mp_small_int_mul_overflow_iff:
  "mp_small_int_mul_overflow x y \<longleftrightarrow> \<not> small_range (sint x * sint y)"
proof -
  have x0: "x \<noteq> 0 \<longleftrightarrow> sint x \<noteq> 0" by (metis signed_0 signed_word_eqI)
  have e: "sint (c_div MP_SMALL_INT_MAX z) = (4611686018427387904 - 1) sdiv sint z"
    "sint (c_div MP_SMALL_INT_MIN z) = (- 4611686018427387904) sdiv sint z" for z
    by (subst sint_c_div; simp only: sint_small_min_max; simp)+
  show ?thesis
    unfolding mp_small_int_mul_overflow_def e x0 small_range_def
    by (rule mul_overflow_int) simp
qed

lemma sint_64_arith:
  "small_range (sint x * sint y) \<Longrightarrow> sint (x * y) = sint x * sint (y :: 64 word)"
  "- 9223372036854775808 \<le> sint x + sint y \<Longrightarrow> sint x + sint y < 9223372036854775808 \<Longrightarrow> sint (x + y) = sint x + sint (y :: 64 word)"
  "- 9223372036854775808 \<le> sint x - sint y \<Longrightarrow> sint x - sint y < 9223372036854775808 \<Longrightarrow> sint (x - y) = sint x - sint (y :: 64 word)"
  "- 9223372036854775808 < sint x \<Longrightarrow> sint (- x) = - sint (x :: 64 word)"
  using sint_64_range [of x]
  by (auto simp: sint_word_mult sint_word_add sint_word_diff sint_word_minus small_range_def signed_take_bit_int_eq_self_iff)

lemma sint_small_modulo:
  assumes "small_range (sint x)" and "small_range (sint y)" and "y \<noteq> 0"
  shows "sint (mp_small_int_modulo x y) = sint x mod sint y"
proof -
  have y: "sint y \<noteq> 0" using assms(3) by (metis signed_0 signed_word_eqI)
  have r: "\<bar>sint x smod sint y\<bar> < 4611686018427387904 + 1"
    using smod_int_range [OF y, of "sint x"] assms(2) by (auto simp: small_range_def)
  then have m: "sint (c_mod x y) = sint x smod sint y"
    unfolding c_mod_def by (intro sint_of_int_64) auto
  have "sint (c_mod x y + y) = sint x smod sint y + sint y"
    using r assms(2) m by (subst sint_64_arith(2)) (auto simp: small_range_def)
  with m c_mod_int [OF y, of "sint x"] show ?thesis
    by (simp add: mp_small_int_modulo_def Let_def split del: if_split) (auto split: if_splits)
qed

lemma sint_small_floor_divide:
  assumes "small_range (sint x)" and "small_range (sint y)" and "y \<noteq> 0"
  shows "sint (mp_small_int_floor_divide x y) = sint x div sint y"
proof -
  have y: "sint y \<noteq> 0" using assms(3) by (metis signed_0 signed_word_eqI)
  let ?n = "if 0 \<le> sint x then (if sint y < 0 then x + (- y - 1) else x)
    else (if 0 \<le> sint y then x + (- y + 1) else x)"
  let ?v = "if 0 \<le> sint x then (if sint y < 0 then sint x + (- sint y - 1) else sint x)
    else (if 0 \<le> sint y then sint x + (- sint y + 1) else sint x)"
  have r: "- 4611686018427387904 \<le> sint x" "sint x < 4611686018427387904"
    "- 4611686018427387904 \<le> sint y" "sint y < 4611686018427387904"
    using assms by (simp_all add: small_range_def)
  have m: "sint (- y) = - sint y" using r by (intro sint_64_arith(4)) simp
  have "sint (- y - 1) = - sint y - 1" using r m by (subst sint_64_arith(3)) simp_all
  moreover have "sint (- y + 1) = - sint y + 1" using r m by (subst sint_64_arith(2)) simp_all
  ultimately have n: "sint ?n = ?v"
    using r by (auto simp: sint_64_arith(2))
  have "- 9223372036854775808 < ?v" using r by auto
  then have "sint (c_div ?n y) = ?v sdiv sint y" using n by (simp only: sint_c_div)
  also have "\<dots> = sint x div sint y" by (rule floor_div_int [OF y])
  finally show ?thesis by (simp only: mp_small_int_floor_divide_def Let_def)
qed

text \<open>The power loop returns the power, which then is a small integer.\<close>

lemma and_one_odd: "(w :: 64 word) AND 1 \<noteq> 0 \<longleftrightarrow> odd (sint w)"
proof -
  have "even (sint w) \<longleftrightarrow> even (uint w)" unfolding sint_64 by auto
  moreover have "uint (w AND 1) = uint w mod 2" by (subst unsigned_and_eq) (simp add: and_one_eq)
  then have "w AND 1 = 0 \<longleftrightarrow> even (uint w)"
    unfolding even_iff_mod_2_eq_zero by (metis unsigned_0 word_uint_eq_iff)
  ultimately show ?thesis by blast
qed

lemma small_int_pow_val:
  "small_int_pow lhs ans rhs = Some r \<Longrightarrow> small_range (sint ans) \<Longrightarrow> small_range (sint lhs) \<Longrightarrow> 0 \<le> sint rhs \<Longrightarrow>
   sint r = sint ans * sint lhs ^ nat (sint rhs) \<and> small_range (sint r)"
proof (induction lhs ans rhs rule: small_int_pow.induct)
  case (1 lhs ans rhs)
  show ?case
  proof (cases "0 < sint rhs")
    case False
    with 1 have "sint rhs = 0" "r = ans" by (simp_all add: small_int_pow.simps [of lhs ans rhs])
    with 1 show ?thesis by simp
  next
    case True
    let ?odd = "(rhs AND 1) \<noteq> 0"
    let ?ans = "if ?odd then ans * lhs else ans"
    from "1.prems"(1) True have no: "\<not> (?odd \<and> mp_small_int_mul_overflow ans lhs)"
      by (auto simp: small_int_pow.simps [of lhs ans rhs])
    have ans: "sint ?ans = (if odd (sint rhs) then sint ans * sint lhs else sint ans)" "small_range (sint ?ans)"
      using no "1.prems"(2) by (auto simp: mp_small_int_mul_overflow_iff and_one_odd sint_64_arith(1))
    show ?thesis
    proof (cases "rhs = 1")
      case True
      then have one: "sint rhs = 1" by simp
      with "1.prems"(1) no \<open>rhs = 1\<close> have "r = ?ans" by (simp add: small_int_pow.simps [of lhs ans 1] Let_def)
      with ans one show ?thesis by simp
    next
      case False
      let ?rhs = "c_div rhs 2"
      have half: "sint ?rhs = sint rhs div 2"
        using \<open>0 < sint rhs\<close> by (simp add: sint_c_div signed_divide_int_def)
      from "1.prems"(1) True no False have sq: "\<not> mp_small_int_mul_overflow lhs lhs"
        and rec: "small_int_pow (lhs * lhs) ?ans ?rhs = Some r"
        by (auto simp: small_int_pow.simps [of lhs ans rhs] Let_def split: if_splits)
      have sq': "sint (lhs * lhs) = sint lhs * sint lhs" "small_range (sint lhs * sint lhs)"
        using sq by (simp_all add: mp_small_int_mul_overflow_iff sint_64_arith(1))
      have ge: "0 \<le> sint ?rhs" using True half by simp
      have IH: "sint r = sint ?ans * sint (lhs * lhs) ^ nat (sint ?rhs) \<and> small_range (sint r)"
        by (rule "1.IH" [OF True no refl False refl sq rec ans(2) _ ge]) (simp add: sq')
      have "nat (sint rhs) = 2 * nat (sint rhs div 2) + (if odd (sint rhs) then 1 else 0)"
        using True by (cases "odd (sint rhs)") (auto elim!: oddE evenE)
      then have "sint lhs ^ nat (sint rhs) = (sint lhs * sint lhs) ^ nat (sint rhs div 2) * (if odd (sint rhs) then sint lhs else 1)"
        by (simp add: power_add power_mult power2_eq_square)
      then have "sint r = sint ans * sint lhs ^ nat (sint rhs)"
        using conjunct1 [OF IH] unfolding ans(1) sq'(1) half by simp
      with IH show ?thesis by blast
    qed
  qed
qed

section \<open>Python's integers\<close>

text \<open>The abstract operation on integers, with the exceptions Python raises.\<close>

datatype py_value = PInt int | PPair int int | PBool bool | PFloat

definition py_int_op :: "mp_binary_op_t \<Rightarrow> int \<Rightarrow> int \<Rightarrow> int_error + py_value" where
  "py_int_op op a b =
     (case op of
        MP_BINARY_OP_OR \<Rightarrow> Inr (PInt (a OR b))
      | MP_BINARY_OP_XOR \<Rightarrow> Inr (PInt (a XOR b))
      | MP_BINARY_OP_AND \<Rightarrow> Inr (PInt (a AND b))
      | MP_BINARY_OP_LSHIFT \<Rightarrow>
          if 9223372036854775808 \<le> \<bar>b\<bar> then Inl OverflowErrorInt else if b < 0 then Inl ValueErrorShift
          else Inr (PInt (a * 2 ^ nat b))
      | MP_BINARY_OP_RSHIFT \<Rightarrow>
          if 9223372036854775808 \<le> \<bar>b\<bar> then Inl OverflowErrorInt else if b < 0 then Inl ValueErrorShift
          else Inr (PInt (a div 2 ^ nat b))
      | MP_BINARY_OP_ADD \<Rightarrow> Inr (PInt (a + b))
      | MP_BINARY_OP_SUBTRACT \<Rightarrow> Inr (PInt (a - b))
      | MP_BINARY_OP_MULTIPLY \<Rightarrow> Inr (PInt (a * b))
      | MP_BINARY_OP_FLOOR_DIVIDE \<Rightarrow> if b = 0 then Inl ZeroDivisionError else Inr (PInt (a div b))
      | MP_BINARY_OP_TRUE_DIVIDE \<Rightarrow> if b = 0 then Inl ZeroDivisionError else Inr PFloat
      | MP_BINARY_OP_MODULO \<Rightarrow> if b = 0 then Inl ZeroDivisionError else Inr (PInt (a mod b))
      | MP_BINARY_OP_POWER \<Rightarrow>
          if b < 0 then if a = 0 then Inl ZeroDivisionError else Inr PFloat else Inr (PInt (a ^ nat b))
      | MP_BINARY_OP_DIVMOD \<Rightarrow> if b = 0 then Inl ZeroDivisionError else Inr (PPair (a div b) (a mod b))
      | MP_BINARY_OP_LESS \<Rightarrow> Inr (PBool (a < b))
      | MP_BINARY_OP_MORE \<Rightarrow> Inr (PBool (a > b))
      | MP_BINARY_OP_LESS_EQUAL \<Rightarrow> Inr (PBool (a \<le> b))
      | MP_BINARY_OP_MORE_EQUAL \<Rightarrow> Inr (PBool (a \<ge> b)))"

fun num_val :: "num \<Rightarrow> int" where
  "num_val (Small w) = sint w"
| "num_val (Long z) = mpz_val z"

fun result_val :: "int_result \<Rightarrow> py_value" where
  "result_val (RNum n) = PInt (num_val n)"
| "result_val (RPair m n) = PPair (num_val m) (num_val n)"
| "result_val (RBool b) = PBool b"
| "result_val RFloat = PFloat"

text \<open>What an integer object is: a long integer is well formed and is not a negative zero.\<close>

fun num_ok :: "num \<Rightarrow> bool" where
  "num_ok (Small w) \<longleftrightarrow> True"
| "num_ok (Long z) \<longleftrightarrow> mpz_ok z \<and> mpz_no_neg_zero z \<and> len z < 2 ^ 64"

definition is_division :: "mp_binary_op_t \<Rightarrow> bool" where
  "is_division op \<longleftrightarrow> op = MP_BINARY_OP_FLOOR_DIVIDE \<or> op = MP_BINARY_OP_MODULO \<or> op = MP_BINARY_OP_DIVMOD"

text \<open>
  Where the code is wrong on long integers: the power zero of zero, the powers of zero with a negative
  exponent so large that it can be infinite as a double (the code returns infinity there instead of
  raising \<open>ZeroDivisionError\<close>), and divisors for which \<open>mpn_div\<close> overflows.
\<close>

definition long_op_safe :: "mp_binary_op_t \<Rightarrow> num \<Rightarrow> num \<Rightarrow> bool" where
  "long_op_safe op lhs rhs \<longleftrightarrow>
     (op = MP_BINARY_OP_POWER \<longrightarrow> num_val lhs \<noteq> 0 \<or> (num_val rhs \<noteq> 0 \<and> - (2 ^ 960) < num_val rhs)) \<and>
     (is_division op \<longrightarrow> num_val rhs = 0 \<or> den_safe (dig (num_mpz rhs)))"

text \<open>... and on small ones: the quotient of the smallest small integer by -1 in \<open>divmod\<close>.\<close>

fun int_op_safe :: "mp_binary_op_t \<Rightarrow> num \<Rightarrow> num \<Rightarrow> bool" where
  "int_op_safe op (Small v) (Small w) \<longleftrightarrow>
     \<not> (op = MP_BINARY_OP_DIVMOD \<and> sint v = - 4611686018427387904 \<and> sint w = -1)"
| "int_op_safe op lhs rhs \<longleftrightarrow> long_op_safe op lhs rhs"

lemma num_mpz_val:
  assumes "num_ok n"
  shows "mpz_wf (num_mpz n)" "mpz_val (num_mpz n) = num_val n" "mpz_no_neg_zero (num_mpz n)" "len (num_mpz n) < 2 ^ 64"
proof -
  have zero: "mpz_uint_digs (- small_int_value w) \<noteq> []" if "sint w < 0" for w
  proof -
    have "small_int_value w \<noteq> 0" using that sint_small_int_value [of w] by auto
    then show ?thesis by (subst mpz_uint_digs.simps) simp
  qed
  have le: "length (mpz_uint_digs w) < 18446744073709551616" for w
    using length_mpz_uint_digs [of w] by simp
  have small: "mpz_no_neg_zero (small_int_mpz w)" "len (small_int_mpz w) < 18446744073709551616" for w
    using zero [of w] le unfolding small_int_mpz_eq(2) mpz_no_neg_zero_def by simp_all
  show "mpz_wf (num_mpz n)" "mpz_val (num_mpz n) = num_val n" "mpz_no_neg_zero (num_mpz n)" "len (num_mpz n) < 2 ^ 64"
    using assms small by (cases n; simp add: small_int_mpz_val mpz_ok_def)+
qed

lemma long_result_val:
  "mpz_yields r v \<Longrightarrow> map_sum id result_val (long_result r) = Inr (PInt v)"
  by (auto simp: mpz_yields_def long_result_def)

lemma init_zero_not_fixed [simp]: "\<not> fixed_dig mpz_init_zero" "\<not> neg mpz_init_zero"
  by (simp_all add: mpz_init_zero_def)

lemma mpz_is_zero_val: "mpz_wf z \<Longrightarrow> mpz_is_zero z \<longleftrightarrow> mpz_val z = 0"
  by (simp add: mpz_is_zero_def mpz_val_0_iff)

lemma mpz_is_neg_val: "mpz_wf z \<Longrightarrow> mpz_no_neg_zero z \<Longrightarrow> mpz_is_neg z \<longleftrightarrow> mpz_val z < 0"
  using no_neg_zero_pos [of z] by (auto simp: mpz_is_neg_def mpz_val_def signed_val_def)

lemma mp_obj_int_get_checked_val:
  "num_ok n \<Longrightarrow> mp_obj_int_get_checked n =
     (if 9223372036854775808 \<le> \<bar>num_val n\<bar> then Inl OverflowErrorInt else Inr (of_int (num_val n)))"
proof (cases n)
  case (Small w)
  have "\<bar>sint w\<bar> < 9223372036854775808" using small_int_range [of w] by simp
  moreover have "small_int_value w = of_int (sint w)" by (simp only: small_int_value_def scast_eq)
  ultimately show ?thesis using Small by simp
next
  case (Long z)
  then show ?thesis using mpz_as_int_checked_val [of z] by auto
qed

lemma mp_obj_int_shift_val:
  assumes "mpz_wf z" and "num_ok rhs"
  shows "map_sum id result_val (mp_obj_int_shift left z rhs) =
    py_int_op (if left then MP_BINARY_OP_LSHIFT else MP_BINARY_OP_RSHIFT) (mpz_val z) (num_val rhs)"
proof (cases "9223372036854775808 \<le> \<bar>num_val rhs\<bar>")
  case True
  then show ?thesis
    by (cases left) (simp_all add: mp_obj_int_shift_def mp_obj_int_get_checked_val [OF assms(2)] py_int_op_def)
next
  case False
  let ?n = "of_int (num_val rhs) :: mp_int_t"
  have n: "sint ?n = num_val rhs" using False by (intro sint_of_int_64) linarith+
  have u: "unat ?n = nat (num_val rhs)" if "0 \<le> num_val rhs"
  proof -
    have "uint ?n = num_val rhs" using n that uint_64_lt [of ?n] unfolding sint_64 by (simp split: if_splits)
    then show ?thesis by (metis nat_int uint_nat)
  qed
  show ?thesis
    using False n u long_result_val [OF mpz_yields_shl [OF init_zero_not_fixed(1) assms(1), of "nat (num_val rhs)"]]
      long_result_val [OF mpz_yields_shr [OF init_zero_not_fixed(1) assms(1), of "nat (num_val rhs)"]]
    by (cases left; cases "num_val rhs < 0")
      (simp_all add: mp_obj_int_shift_def mp_obj_int_get_checked_val [OF assms(2)] py_int_op_def)
qed

lemma mp_obj_int_divmod_val:
  assumes "mpz_wf z" "mpz_wf w" and "mpz_val w \<noteq> 0 \<Longrightarrow> den_safe (dig w)"
    and "\<And>q r. result_val (f q r) = g (mpz_val q) (mpz_val r)"
  shows "map_sum id result_val (mp_obj_int_divmod z w f) =
    (if mpz_val w = 0 then Inl ZeroDivisionError else Inr (g (mpz_val z div mpz_val w) (mpz_val z mod mpz_val w)))"
proof (cases "mpz_val w = 0")
  case True
  with assms(2) show ?thesis by (simp add: mp_obj_int_divmod_def mpz_is_zero_val)
next
  case False
  obtain q r where "mpz_divmod_inpl mpz_init_zero mpz_init_zero z w = Some (q, r)"
    "mpz_val r = mpz_val z mod mpz_val w" "mpz_val q = mpz_val z div mpz_val w"
    by (rule mpz_divmod_val [OF init_zero_not_fixed(1) init_zero_not_fixed(1) assms(1,2) False assms(3) [OF False]]) simp
  with False assms(2,4) show ?thesis by (simp add: mp_obj_int_divmod_def mpz_is_zero_val)
qed

lemma sgn_cmp: "sgn ((a :: int) - b) < 0 \<longleftrightarrow> a < b" "0 < sgn (a - b) \<longleftrightarrow> b < a" "sgn (a - b) \<le> 0 \<longleftrightarrow> a \<le> b" "0 \<le> sgn (a - b) \<longleftrightarrow> b \<le> a"
  by (auto simp: sgn_if)

text \<open>A negative power is a float, except of zero.\<close>

lemma mp_obj_get_float_neg:
  assumes "num_ok n" and "num_val n < 0" and "- (2 ^ 960) < num_val n"
  shows "float_neg_finite (mp_obj_get_float n)"
  using assms by (cases n) (simp_all add: mpz_as_float_neg mpz_ok_def float_of_int_neg sint_small_int_value)

lemma mp_obj_float_power_val:
  assumes "num_ok rhs" and "num_val rhs < 0" and "a = 0 \<longrightarrow> - (2 ^ 960) < num_val rhs"
    and "lhs_val = FInt 0 \<longleftrightarrow> a = 0"
  shows "map_sum id result_val (mp_obj_float_power lhs_val rhs) = py_int_op MP_BINARY_OP_POWER a (num_val rhs)"
  using assms mp_obj_get_float_neg [OF assms(1,2)] by (auto simp: mp_obj_float_power_def py_int_op_def)

text \<open>\<open>mp_obj_int_binary_op\<close> implements the operation on integers.\<close>

lemma mp_obj_int_binary_op_val:
  assumes "num_ok lhs" "num_ok rhs" and "long_op_safe op lhs rhs"
  shows "map_sum id result_val (mp_obj_int_binary_op op lhs rhs) = py_int_op op (num_val lhs) (num_val rhs)"
proof -
  note l = num_mpz_val [OF assms(1)] and r = num_mpz_val [OF assms(2)]
  note cmp = mpz_cmp_sgn [OF l(1) r(1)]
  note z = mpz_is_zero_val [OF r(1)] mpz_is_neg_val [OF r(1,3)]
  note defs = mp_obj_int_binary_op_def Let_def py_int_op_def l(2) r(2)
  have div: "num_val rhs \<noteq> 0 \<Longrightarrow> is_division op \<Longrightarrow> den_safe (dig (num_mpz rhs))"
    using assms(3) by (auto simp: long_op_safe_def)
  show ?thesis
  proof (cases op)
    case MP_BINARY_OP_OR
    then show ?thesis using long_result_val [OF mpz_yields_or [OF init_zero_not_fixed(1) l(1) r(1) l(3) r(3) l(4) r(4)]]
      by (simp add: defs)
  next
    case MP_BINARY_OP_XOR
    then show ?thesis using long_result_val [OF mpz_yields_xor [OF init_zero_not_fixed(1) l(1) r(1) l(3) r(3) l(4) r(4)]]
      by (simp add: defs)
  next
    case MP_BINARY_OP_AND
    then show ?thesis using long_result_val [OF mpz_yields_and [OF init_zero_not_fixed(1) l(1) r(1) l(3) r(3) l(4) r(4)]]
      by (simp add: defs)
  next
    case MP_BINARY_OP_ADD
    then show ?thesis using long_result_val [OF mpz_yields_add [OF init_zero_not_fixed(1) l(1) r(1)]] by (simp add: defs)
  next
    case MP_BINARY_OP_SUBTRACT
    then show ?thesis using long_result_val [OF mpz_yields_sub [OF init_zero_not_fixed(1) l(1) r(1)]] by (simp add: defs)
  next
    case MP_BINARY_OP_MULTIPLY
    then show ?thesis using long_result_val [OF mpz_yields_mul [OF init_zero_not_fixed(1) l(1) r(1)]] by (simp add: defs)
  next
    case MP_BINARY_OP_LSHIFT
    then show ?thesis using mp_obj_int_shift_val [OF l(1) assms(2), of True] by (simp add: defs)
  next
    case MP_BINARY_OP_RSHIFT
    then show ?thesis using mp_obj_int_shift_val [OF l(1) assms(2), of False] by (simp add: defs)
  next
    case MP_BINARY_OP_FLOOR_DIVIDE
    then show ?thesis
      using mp_obj_int_divmod_val [OF l(1) r(1), of "\<lambda>q r. RNum (Long q)" "\<lambda>q r. PInt q"] div
      by (simp add: defs is_division_def)
  next
    case MP_BINARY_OP_MODULO
    then show ?thesis
      using mp_obj_int_divmod_val [OF l(1) r(1), of "\<lambda>q r. RNum (Long r)" "\<lambda>q r. PInt r"] div
      by (simp add: defs is_division_def)
  next
    case MP_BINARY_OP_DIVMOD
    then show ?thesis
      using mp_obj_int_divmod_val [OF l(1) r(1), of "\<lambda>q r. RPair (Long q) (Long r)" "\<lambda>q r. PPair q r"] div
      by (simp add: defs is_division_def)
  next
    case MP_BINARY_OP_TRUE_DIVIDE
    then show ?thesis by (simp add: defs z)
  next
    case MP_BINARY_OP_POWER
    show ?thesis
    proof (cases "num_val rhs < 0")
      case True
      have "num_val lhs = 0 \<longrightarrow> - (2 ^ 960) < num_val rhs"
        using assms(3) MP_BINARY_OP_POWER by (auto simp: long_op_safe_def)
      from mp_obj_float_power_val [OF assms(2) True this, of "mpz_as_float (num_mpz lhs)"] l(2)
      have "map_sum id result_val (mp_obj_float_power (mpz_as_float (num_mpz lhs)) rhs) =
          py_int_op MP_BINARY_OP_POWER (num_val lhs) (num_val rhs)" by (simp add: mpz_as_float_zero)
      with MP_BINARY_OP_POWER True show ?thesis by (simp add: mp_obj_int_binary_op_def Let_def z r(2))
    next
      case False
      then have "\<not> neg (num_mpz rhs)" using z(2) r(2,3) by (auto simp: mpz_is_neg_def mpz_no_neg_zero_def)
      moreover have "mpz_val (num_mpz lhs) \<noteq> 0 \<or> mpz_val (num_mpz rhs) \<noteq> 0"
        using assms(3) MP_BINARY_OP_POWER by (auto simp: long_op_safe_def l(2) r(2))
      ultimately show ?thesis
        using long_result_val [OF mpz_yields_pow [OF init_zero_not_fixed(1) l(1) r(1)]] MP_BINARY_OP_POWER False
        by (simp add: defs z)
    qed
  qed (simp_all add: defs cmp sgn_cmp)
qed

lemma new_int_from_ll_val:
  obtains z where "mp_obj_new_int_from_ll v = Some (Long z)" and "num_ok (Long z)" and "mpz_val z = sint v"
proof -
  let ?n = "sint v < 0"
  let ?d = "mpz_uint_digs (if ?n then - v else v)"
  have set: "mpz_set_from_ll mpz_init_zero v True = Some \<lparr> neg = ?n, fixed_dig = False, alloc = 4, dig = ?d \<rparr>"
    by (simp add: mpz_set_from_ll_def mpz_need_dig_run mpz_init_zero_def MPZ_NUM_DIG_FOR_INT_def DIG_SIZE_def MIN_ALLOC_def Let_def)
  have "?d \<noteq> []" if ?n
  proof -
    have "v \<noteq> 0" using that by auto
    then show ?thesis using that by (subst mpz_uint_digs.simps) simp
  qed
  moreover have "len \<lparr> neg = ?n, fixed_dig = False, alloc = 4, dig = ?d \<rparr> < 18446744073709551616"
    using length_mpz_uint_digs [of "if ?n then - v else v"] by simp
  moreover have "mpz_yields (mpz_set_from_ll mpz_init_zero v True) (sint v)"
    using mpz_yields_set_from_ll [of mpz_init_zero v True] by simp
  ultimately show thesis
    using set by (intro that [of "\<lparr> neg = ?n, fixed_dig = False, alloc = 4, dig = ?d \<rparr>"])
      (auto simp: mp_obj_new_int_from_ll_def mpz_yields_ok mpz_no_neg_zero_def)
qed

lemma new_int_val: "map_sum id result_val (num_result (mp_obj_new_int v)) = Inr (PInt (sint v))"
proof (cases "MP_SMALL_INT_FITS v")
  case True
  then show ?thesis by (simp add: mp_obj_new_int_def num_result_def sint_new_small small_fits)
next
  case False
  obtain z where "mp_obj_new_int_from_ll v = Some (Long z)" "mpz_val z = sint v" by (rule new_int_from_ll_val)
  with False show ?thesis by (simp add: mp_obj_new_int_def num_result_def)
qed

lemma generic_with_long_val:
  assumes "op = MP_BINARY_OP_POWER \<longrightarrow> sint v \<noteq> 0 \<or> sint w \<noteq> 0" and "\<not> is_division op"
  shows "map_sum id result_val (generic_with_long op v (Small w)) = py_int_op op (sint v) (sint w)"
proof -
  obtain z where z: "mp_obj_new_int_from_ll v = Some (Long z)" "num_ok (Long z)" "mpz_val z = sint v"
    by (rule new_int_from_ll_val)
  have "- (2 ^ 960) < sint w" using small_int_range [of w] by simp
  then have "long_op_safe op (Long z) (Small w)" using assms z(3) by (auto simp: long_op_safe_def)
  with mp_obj_int_binary_op_val [OF z(2), of "Small w" op] z show ?thesis by (simp add: generic_with_long_def)
qed

lemma sint_push_bit:
  assumes "- 9223372036854775808 \<le> sint w * 2 ^ n" and "sint w * 2 ^ n < 9223372036854775808"
  shows "sint (push_bit n w) = sint (w :: 64 word) * 2 ^ n"
proof -
  have "push_bit n w = of_int (sint w * 2 ^ n)" by (simp add: push_bit_eq_mult)
  with sint_of_int_64 [OF assms] show ?thesis by simp
qed

text \<open>
  The guards of the left shift leave room in a machine word; with -1 shifted by 63 the result is not a
  small integer, and becomes a long one.
\<close>

lemma shift_room:
  assumes "\<not> 4611686018427387903 div 2 ^ n < (a :: int)" and "\<not> a < - 4611686018427387904 div 2 ^ n" and "n < 64"
  shows "- 9223372036854775808 \<le> a * 2 ^ n" and "a * 2 ^ n < 9223372036854775808"
proof -
  have p: "0 < (2 :: int) ^ n" by simp
  show "a * 2 ^ n < 9223372036854775808"
    using assms(1) int_div_less_iff [OF p, of 4611686018427387903 a] by linarith
  show "- 9223372036854775808 \<le> a * 2 ^ n"
  proof (cases "n = 63")
    case True
    with assms(2) have "- 1 \<le> a" by simp
    then have "- 1 * 9223372036854775808 \<le> a * 9223372036854775808" by (rule mult_right_mono) simp
    with True show ?thesis by simp
  next
    case False
    then have "(2 :: int) ^ n \<le> 2 ^ 62" using assms(3) by (intro power_increasing) auto
    moreover have "- 4611686018427387904 < (a + 1) * 2 ^ n"
      using assms(2) int_div_less_iff [OF p, of "- 4611686018427387904" "a + 1"] by linarith
    ultimately show ?thesis by (simp add: algebra_simps)
  qed
qed

lemma div_minus_one: "0 < (p :: int) \<Longrightarrow> - p \<le> a \<Longrightarrow> a < 0 \<Longrightarrow> a div p = - 1"
  using int_le_div [of p "- 1" a] int_div_less [of p a 0] by simp

lemma small_div_mod:
  assumes "small_range a" "small_range b" "b \<noteq> 0"
  shows "\<not> (a = - 4611686018427387904 \<and> b = -1) \<Longrightarrow> small_range (a div b)" and "small_range (a mod b)"
proof -
  have r: "- 4611686018427387904 \<le> a" "a < 4611686018427387904" "- 4611686018427387904 \<le> b" "b < 4611686018427387904"
    using assms by (simp_all add: small_range_def)
  show "small_range (a mod b)"
  proof (cases "0 < b")
    case True
    then have "0 \<le> a mod b" "a mod b < b" by simp_all
    with r show ?thesis unfolding small_range_def by linarith
  next
    case False
    with assms(3) have "a mod b \<le> 0" "b < a mod b" by simp_all
    with r show ?thesis unfolding small_range_def by linarith
  qed
  assume ex: "\<not> (a = - 4611686018427387904 \<and> b = -1)"
  show "small_range (a div b)"
  proof (cases "0 < b")
    case True
    then have "- 4611686018427387904 * b \<le> a" "a < 4611686018427387904 * b" using r by linarith+
    with int_le_div [OF True, of "- 4611686018427387904" a] int_div_less [OF True, of a 4611686018427387904]
    show ?thesis by (simp add: small_range_def)
  next
    case False
    then have c: "0 < - b" using assms(3) by simp
    have "- 4611686018427387904 * - b \<le> - a" using c r by linarith
    moreover have "- a < 4611686018427387904 * - b"
    proof (cases "b = -1")
      case True
      with ex r show ?thesis by simp
    next
      case False
      with c r show ?thesis by linarith
    qed
    moreover have "- a div - b = a div b" by (rule div_minus_minus)
    ultimately show ?thesis
      using int_le_div [OF c, of "- 4611686018427387904" "- a"] int_div_less [OF c, of "- a" 4611686018427387904]
      by (simp add: small_range_def)
  qed
qed

text \<open>\<open>mp_binary_op\<close> on two small integers implements the operation on integers.\<close>

lemma small_int_binary_op_val:
  assumes "\<not> (op = MP_BINARY_OP_DIVMOD \<and> sint v = - 4611686018427387904 \<and> sint w = -1)"
  shows "map_sum id result_val (small_int_binary_op op v w) = py_int_op op (sint v) (sint w)"
proof -
  let ?v = "small_int_value v" and ?w = "small_int_value w"
  have r: "small_range (sint v)" "small_range (sint w)"
    using small_range_value [of v] small_range_value [of w] by (simp_all add: sint_small_int_value)
  then have b: "- 4611686018427387904 \<le> sint v" "sint v < 4611686018427387904"
    "- 4611686018427387904 \<le> sint w" "sint w < 4611686018427387904" by (simp_all add: small_range_def)
  have w0: "?w = 0 \<longleftrightarrow> sint w = 0" by (metis signed_0 signed_word_eqI sint_small_int_value)
  have un: "unat ?w = nat (sint w)" if "0 \<le> sint w"
  proof -
    have "uint ?w = sint w" using sint_64 [of ?w] that uint_64_lt [of ?w] by (simp add: sint_small_int_value split: if_splits)
    then show ?thesis by (metis nat_int uint_nat)
  qed
  note defs = small_int_binary_op_def Let_def py_int_op_def new_int_val sint_small_int_value
  note generic = generic_with_long_val [of op ?v w, unfolded sint_small_int_value]
  show ?thesis
  proof (cases op)
    case MP_BINARY_OP_ADD
    with b show ?thesis by (simp add: defs sint_64_arith(2))
  next
    case MP_BINARY_OP_SUBTRACT
    with b show ?thesis by (simp add: defs sint_64_arith(3))
  next
    case MP_BINARY_OP_MULTIPLY
    then show ?thesis
      using generic by (auto simp: defs mp_small_int_mul_overflow_iff is_division_def sint_new_small sint_64_arith(1))
  next
    case MP_BINARY_OP_FLOOR_DIVIDE
    then show ?thesis using r by (simp add: defs w0 sint_small_floor_divide)
  next
    case MP_BINARY_OP_MODULO
    then show ?thesis using r by (simp add: defs w0 sint_small_modulo)
  next
    case MP_BINARY_OP_TRUE_DIVIDE
    then show ?thesis by (simp add: defs w0)
  next
    case MP_BINARY_OP_DIVMOD
    show ?thesis
    proof (cases "sint w = 0")
      case True
      with MP_BINARY_OP_DIVMOD show ?thesis by (simp add: defs w0)
    next
      case False
      have "small_range (sint v div sint w)" "small_range (sint v mod sint w)"
        using small_div_mod [OF r False] assms MP_BINARY_OP_DIVMOD by auto
      with False MP_BINARY_OP_DIVMOD r show ?thesis
        by (simp add: defs w0 sint_small_floor_divide sint_small_modulo sint_new_small)
    qed
  next
    case MP_BINARY_OP_POWER
    show ?thesis
    proof (cases "sint w < 0")
      case True
      have "- (2 ^ 960) < sint w" using b by simp
      with mp_obj_float_power_val [of "Small w" "sint v" "float_of_int (sint v)"] True
      have "map_sum id result_val (mp_obj_float_power (float_of_int (sint v)) (Small w)) =
          py_int_op MP_BINARY_OP_POWER (sint v) (sint w)" by (simp add: float_of_int_zero)
      with MP_BINARY_OP_POWER True show ?thesis
        by (simp add: small_int_binary_op_def Let_def sint_small_int_value)
    next
      case False
      show ?thesis
      proof (cases "small_int_pow ?v 1 ?w")
        case None
        then have "sint w \<noteq> 0" by (auto simp: small_int_pow.simps [of ?v 1 ?w] sint_small_int_value)
        with generic MP_BINARY_OP_POWER False None show ?thesis by (simp add: defs is_division_def)
      next
        case (Some ans)
        have "sint ans = sint (1 :: mp_int_t) * sint ?v ^ nat (sint ?w) \<and> small_range (sint ans)"
          by (rule small_int_pow_val [OF Some]) (use False r(1) in \<open>simp_all add: sint_small_int_value, simp add: small_range_def\<close>)
        with Some MP_BINARY_OP_POWER False show ?thesis by (simp add: defs)
      qed
    qed
  next
    case MP_BINARY_OP_LSHIFT
    let ?big = "sint w \<ge> 64 \<or> sint v > sint (signed_drop_bit (unat ?w) MP_SMALL_INT_MAX)
      \<or> sint v < sint (signed_drop_bit (unat ?w) MP_SMALL_INT_MIN)"
    consider "sint w < 0" | "0 \<le> sint w" ?big | "0 \<le> sint w" "\<not> ?big" by linarith
    then show ?thesis
    proof cases
      case 1
      with b MP_BINARY_OP_LSHIFT show ?thesis by (simp add: defs)
    next
      case 2
      with generic MP_BINARY_OP_LSHIFT show ?thesis by (auto simp: defs is_division_def)
    next
      case 3
      have n: "nat (sint w) < 64" using 3 by (simp add: nat_less_iff)
      have g: "\<not> 4611686018427387903 div 2 ^ nat (sint w) < sint v" "\<not> sint v < - 4611686018427387904 div 2 ^ nat (sint w)"
        using 3 un unfolding sint_signed_drop_bit_div sint_small_min_max by simp_all
      have "sint (push_bit (unat ?w) ?v) = sint v * 2 ^ nat (sint w)"
        using shift_room [OF g n] sint_push_bit [of ?v "nat (sint w)"] un 3 by (simp add: sint_small_int_value)
      with 3 b MP_BINARY_OP_LSHIFT show ?thesis by (simp add: defs)
    qed
  next
    case MP_BINARY_OP_RSHIFT
    consider "sint w < 0" | "0 \<le> sint w" "sint w < 64" | "64 \<le> sint w" by linarith
    then show ?thesis
    proof cases
      case 1
      with b MP_BINARY_OP_RSHIFT show ?thesis by (simp add: defs)
    next
      case 2
      with b un MP_BINARY_OP_RSHIFT show ?thesis by (simp add: defs sint_signed_drop_bit_div)
    next
      case 3
      have "sint v div 2 ^ 63 = sint v div 2 ^ nat (sint w)"
      proof (cases "0 \<le> sint v")
        case True
        have "(2 :: int) ^ 63 \<le> 2 ^ nat (sint w)" using 3 by (intro power_increasing) auto
        with True b have "sint v < 2 ^ nat (sint w)" by simp
        with True b show ?thesis by (simp add: div_pos_pos_trivial)
      next
        case False
        have "(2 :: int) ^ 63 \<le> 2 ^ nat (sint w)" using 3 by (intro power_increasing) auto
        with False b have "- (2 ^ nat (sint w)) \<le> sint v" by simp
        with False b show ?thesis by (simp add: div_minus_one)
      qed
      with 3 b MP_BINARY_OP_RSHIFT show ?thesis by (simp add: defs sint_signed_drop_bit_div)
    qed
  qed (simp_all add: defs signed_or_eq signed_and_eq signed_xor_eq)
qed

text \<open>Every binary operation on integers.\<close>

lemma mp_binary_op_val:
  assumes "num_ok lhs" "num_ok rhs" and "int_op_safe op lhs rhs"
  shows "map_sum id result_val (mp_binary_op op lhs rhs) = py_int_op op (num_val lhs) (num_val rhs)"
proof (cases "\<exists>v w. lhs = Small v \<and> rhs = Small w")
  case True
  with small_int_binary_op_val assms(3) show ?thesis by auto
next
  case False
  then have "mp_binary_op op lhs rhs = mp_obj_int_binary_op op lhs rhs" "long_op_safe op lhs rhs"
    using assms(3) by (cases lhs; cases rhs; simp)+
  with mp_obj_int_binary_op_val [OF assms(1,2)] show ?thesis by simp
qed

text \<open>The smallest small integer divided by -1: \<open>divmod\<close> returns it unchanged.\<close>

lemma divmod_min_wrong:
  "mp_binary_op MP_BINARY_OP_DIVMOD (Small (- 4611686018427387904)) (Small (- 1)) =
   Inr (RPair (Small (- 4611686018427387904)) (Small 0))"
  by code_simp

section \<open>Unary operations and conversions\<close>

lemma new_int_num: "\<exists>n. mp_obj_new_int v = Some n \<and> num_ok n \<and> num_val n = sint v"
proof (cases "MP_SMALL_INT_FITS v")
  case True
  then show ?thesis by (simp add: mp_obj_new_int_def sint_new_small small_fits)
next
  case False
  obtain z where "mp_obj_new_int_from_ll v = Some (Long z)" "num_ok (Long z)" "mpz_val z = sint v" by (rule new_int_from_ll_val)
  with False show ?thesis by (simp add: mp_obj_new_int_def)
qed

definition py_int_unary :: "mp_unary_op_t \<Rightarrow> int \<Rightarrow> int" where
  "py_int_unary op a =
     (case op of
        MP_UNARY_OP_POSITIVE \<Rightarrow> a
      | MP_UNARY_OP_NEGATIVE \<Rightarrow> - a
      | MP_UNARY_OP_INVERT \<Rightarrow> NOT a
      | MP_UNARY_OP_ABS \<Rightarrow> \<bar>a\<bar>)"

lemma long_num_val:
  "mpz_yields r v \<Longrightarrow> \<exists>n. map_option Long r = Some n \<and> num_val n = v"
  by (auto simp: mpz_yields_def)

lemma mp_unary_op_val:
  assumes "num_ok n"
  shows "\<exists>m. mp_unary_op op n = Some m \<and> num_val m = py_int_unary op (num_val n)"
proof (cases n)
  case (Small w)
  let ?v = "small_int_value w"
  have r: "- 4611686018427387904 \<le> sint w" "sint w < 4611686018427387904" using small_int_range [of w] by simp_all
  have neg: "sint (- ?v) = - sint w" using r sint_64_arith(4) [of ?v] by (simp add: sint_small_int_value)
  have min: "?v = MP_SMALL_INT_MIN \<longleftrightarrow> sint w = - 4611686018427387904"
    by (metis signed_word_eqI sint_small_int_value sint_small_min_max(1))
  have neg': "sint (new_small_int (- ?v)) = - sint w" if "sint w \<noteq> - 4611686018427387904"
    using that r by (subst sint_new_small) (simp_all add: neg small_range_def)
  have inv: "sint (NOT ?v) = NOT (sint w)"
    using r by (simp add: signed_not_eq sint_small_int_value signed_take_bit_int_eq_self not_int_def)
  have inv': "sint (new_small_int (NOT ?v)) = NOT (sint w)"
    using r by (subst sint_new_small) (simp_all add: inv small_range_def not_int_def)
  obtain m where m: "mp_obj_new_int (- ?v) = Some m" "num_val m = - sint w" using new_int_num [of "- ?v"] neg by auto
  show ?thesis
    using Small r neg' inv' m by (cases op) (auto simp: py_int_unary_def Let_def min sint_small_int_value)
next
  case (Long z)
  then have z: "mpz_wf z" using assms by (simp add: mpz_ok_def)
  show ?thesis
  proof (cases op)
    case MP_UNARY_OP_POSITIVE
    with Long show ?thesis by (simp add: py_int_unary_def)
  next
    case MP_UNARY_OP_NEGATIVE
    with Long long_num_val [OF mpz_yields_neg [OF z, of False mpz_init_zero]] show ?thesis by (simp add: py_int_unary_def)
  next
    case MP_UNARY_OP_INVERT
    with Long long_num_val [OF mpz_yields_not [OF z, of False mpz_init_zero]] show ?thesis
      by (simp add: py_int_unary_def not_int_def)
  next
    case MP_UNARY_OP_ABS
    show ?thesis
    proof (cases "neg z")
      case True
      with Long MP_UNARY_OP_ABS long_num_val [OF mpz_yields_abs [OF z, of False mpz_init_zero]] show ?thesis
        by (simp add: py_int_unary_def)
    next
      case False
      with Long MP_UNARY_OP_ABS show ?thesis by (simp add: py_int_unary_def mpz_val_def signed_val_def)
    qed
  qed
qed

text \<open>Every machine word becomes the object of its value.\<close>

lemma mp_obj_new_int_from_uint_val:
  obtains n where "mp_obj_new_int_from_uint v = Some n" and "num_val n = uint v"
proof -
  have "NOT MP_SMALL_INT_POSITIVE_MASK = NOT (mask 62)"
    by (simp add: MP_SMALL_INT_POSITIVE_MASK_def WORD_MSBIT_HIGH_def mask_eq_exp_minus_1)
  moreover have key: "(v AND NOT (mask 62)) = 0 \<longleftrightarrow> v = (v AND mask 62)"
  proof
    assume z: "(v AND NOT (mask 62)) = 0"
    show "v = (v AND mask 62)"
    proof (rule bit_word_eqI)
      fix n
      assume "n < LENGTH(64)"
      then have "bit (v AND NOT (mask 62)) n \<longleftrightarrow> bit v n \<and> \<not> n < 62"
        by (simp add: bit_and_iff bit_not_iff bit_mask_iff)
      with z show "bit v n = bit (v AND mask 62) n" by (auto simp: bit_and_iff bit_mask_iff)
    qed
  next
    assume v: "v = (v AND mask 62)"
    show "(v AND NOT (mask 62)) = 0"
      by (subst v) (simp only: and.assoc bit.conj_cancel_right and_zero_eq)
  qed
  moreover have "v = (v AND mask 62) \<longleftrightarrow> unat v < 4611686018427387904"
  proof -
    have "v = (v AND mask 62) \<longleftrightarrow> unat v = unat v mod 2 ^ 62"
      by (simp only: word_unat_eq_iff unat_and_mask)
    also have "\<dots> \<longleftrightarrow> unat v < 2 ^ 62" by (metis mod_less mod_less_divisor zero_less_numeral zero_less_power)
    finally show ?thesis by simp
  qed
  ultimately have c: "(v AND NOT MP_SMALL_INT_POSITIVE_MASK) = 0 \<longleftrightarrow> uint v < 4611686018427387904"
    by (metis of_nat_less_iff of_nat_numeral uint_nat)
  show thesis
  proof (cases "uint v < 4611686018427387904")
    case True
    then have "sint v = uint v" by (simp add: sint_64)
    moreover have "- 4611686018427387904 \<le> uint v" by (rule order_trans [OF _ uint_64_lt(2)]) simp
    ultimately have "sint (new_small_int v) = uint v" using True sint_new_small [of v] by (simp add: small_range_def)
    with True c show thesis by (intro that [of "Small (new_small_int v)"]) (simp_all add: mp_obj_new_int_from_uint_def)
  next
    case False
    obtain z where "mpz_set_from_ll mpz_init_zero v False = Some z" "mpz_val z = uint v"
      using mpz_yields_set_from_ll [of mpz_init_zero v False] by (auto simp: mpz_yields_def)
    with False c show thesis
      by (intro that [of "Long z"]) (simp_all add: mp_obj_new_int_from_uint_def mp_obj_new_int_from_ull_def)
  qed
qed

lemma mp_obj_int_sign_val: "num_ok n \<Longrightarrow> mp_obj_int_sign n = sgn (num_val n)"
proof (cases n)
  case (Small w)
  then show ?thesis by (simp add: Let_def sint_small_int_value sgn_if)
next
  case (Long z)
  assume "num_ok n"
  with Long have "mpz_wf z" by (simp add: mpz_ok_def)
  then have "dig z \<noteq> [] \<Longrightarrow> 0 < mpn_val (dig z)" using mpn_norm_val_0 [of "dig z"] by (auto simp: mpz_wf_def)
  with Long show ?thesis by (auto simp: mpz_val_def signed_val_def sgn_if)
qed

end
