(* ===== verification/ObjSet.thy ===== *)
theory ObjSet
  imports Objects
begin

text \<open>
  The methods and operators of \<open>set\<close> and \<open>frozenset\<close> (\<open>py/objset.c\<close>) on top of \<open>mp_set_lookup\<close>. The other
  operand of a method is the set itself, another set or the items of an iterable; a loop over the set that is
  being changed reads the table as it is at each step. \<open>None\<close> is a failed assertion, such as that of
  \<open>mp_check_self\<close> for a change of a frozen set. Every run of calls is a run on sets of keys.
\<close>

section \<open>Objects and iterators\<close>

record 'k mp_obj_set =
  frozen :: bool
  set_set :: "'k mp_set"

datatype 'k set_error = SetKeyError 'k | SetKeyErrorEmpty

datatype 'k set_arg = ArgSelf | ArgSet "'k mp_obj_set" | ArgItems "'k list"

definition set_it_iternext :: "'k mp_set \<Rightarrow> nat \<Rightarrow> (nat \<times> 'k) option" where
  "set_it_iternext s cur =
     (case List.find (\<lambda>i. slot_is_filled (set_table s ! i)) [cur ..< length (set_table s)] of
        None \<Rightarrow> None
      | Some i \<Rightarrow> map_option (Pair (i + 1)) (slot_key (set_table s ! i)))"

lemma set_it_iternext_Some:
  assumes "set_it_iternext s cur = Some (c, x)"
  obtains p where "c = p + 1" "cur \<le> p" "p < length (set_table s)" "set_table s ! p = Key x"
    and "\<forall>i. cur \<le> i \<longrightarrow> i < p \<longrightarrow> \<not> slot_is_filled (set_table s ! i)"
proof -
  from assms obtain i where f: "List.find (\<lambda>i. slot_is_filled (set_table s ! i)) [cur ..< length (set_table s)] = Some i"
    and x: "slot_key (set_table s ! i) = Some x" "c = i + 1"
    by (auto simp: set_it_iternext_def split: option.splits)
  from f obtain j where j: "j < length (set_table s) - cur" "i = cur + j"
    "\<forall>l < j. \<not> slot_is_filled (set_table s ! (cur + l))"
    by (auto simp: find_Some_iff)
  have "set_table s ! i = Key x" using x(1) by (cases "set_table s ! i") simp_all
  moreover have "\<not> slot_is_filled (set_table s ! l)" if "cur \<le> l" "l < i" for l
    using j(3) [rule_format, of "l - cur"] that j(2) by simp
  ultimately show thesis using that [of i] x(2) j by simp
qed

lemma set_it_iternext_None:
  "set_it_iternext s cur = None \<longleftrightarrow> (\<forall>i. cur \<le> i \<longrightarrow> i < length (set_table s) \<longrightarrow> \<not> slot_is_filled (set_table s ! i))"
proof (cases "List.find (\<lambda>i. slot_is_filled (set_table s ! i)) [cur ..< length (set_table s)]")
  case None
  then have "\<forall>i. cur \<le> i \<longrightarrow> i < length (set_table s) \<longrightarrow> \<not> slot_is_filled (set_table s ! i)"
    by (auto simp: find_None_iff)
  with None show ?thesis by (simp add: set_it_iternext_def)
next
  case (Some i)
  then have i: "cur \<le> i" "i < length (set_table s)" "slot_is_filled (set_table s ! i)" by (auto simp: find_Some_iff)
  then obtain q where "set_table s ! i = Key q" unfolding slot_is_filled_iff by blast
  with Some i show ?thesis by (auto simp: set_it_iternext_def)
qed

text \<open>The items that a loop over a set of which the table does not change sees.\<close>

function set_items :: "'k mp_set \<Rightarrow> nat \<Rightarrow> 'k list" where
  "set_items s cur = (case set_it_iternext s cur of None \<Rightarrow> [] | Some (cur, x) \<Rightarrow> x # set_items s cur)"
  by auto
termination
  by (relation "measure (\<lambda>(s, cur). length (set_table s) - cur)") (auto elim!: set_it_iternext_Some)

declare set_items.simps [simp del]

definition arg_items :: "'k mp_obj_set \<Rightarrow> 'k set_arg \<Rightarrow> 'k list" where
  "arg_items self arg =
     (case arg of ArgSelf \<Rightarrow> set_items (set_set self) 0 | ArgSet s \<Rightarrow> set_items (set_set s) 0 | ArgItems xs \<Rightarrow> xs)"

text \<open>The loops that look up one item after the other; \<open>set_live\<close> is the one over the set itself.\<close>

definition set_do :: "'k obj_ops \<Rightarrow> mp_map_lookup_kind \<Rightarrow> 'k mp_obj_set \<Rightarrow> 'k \<Rightarrow> 'k mp_obj_set option" where
  "set_do ops kind self item = map_option (\<lambda>(s, r). self\<lparr>set_set := s\<rparr>) (mp_set_lookup ops (set_set self) item kind)"

fun set_each :: "'k obj_ops \<Rightarrow> mp_map_lookup_kind \<Rightarrow> 'k mp_obj_set \<Rightarrow> 'k list \<Rightarrow> 'k mp_obj_set option" where
  "set_each ops kind self [] = Some self"
| "set_each ops kind self (x # xs) = set_do ops kind self x \<bind> (\<lambda>self. set_each ops kind self xs)"

partial_function (option) set_live ::
  "'k obj_ops \<Rightarrow> mp_map_lookup_kind \<Rightarrow> 'k mp_obj_set \<Rightarrow> nat \<Rightarrow> 'k mp_obj_set option" where
  "set_live ops kind self cur =
     (case set_it_iternext (set_set self) cur of
        None \<Rightarrow> Some self
      | Some (cur, x) \<Rightarrow> set_do ops kind self x \<bind> (\<lambda>self. set_live ops kind self cur))"

definition set_loop :: "'k obj_ops \<Rightarrow> mp_map_lookup_kind \<Rightarrow> 'k mp_obj_set \<Rightarrow> 'k set_arg \<Rightarrow> 'k mp_obj_set option" where
  "set_loop ops kind self arg =
     (case arg of ArgSelf \<Rightarrow> set_live ops kind self 0 | _ \<Rightarrow> set_each ops kind self (arg_items self arg))"

section \<open>The methods\<close>

definition mp_obj_new_set :: "'k obj_ops \<Rightarrow> 'k list \<Rightarrow> 'k mp_obj_set option" where
  "mp_obj_new_set ops items =
     set_each ops MP_MAP_LOOKUP_ADD_IF_NOT_FOUND \<lparr> frozen = False, set_set = mp_set_init (length items) \<rparr> items"

definition mp_obj_set_store :: "'k obj_ops \<Rightarrow> 'k mp_obj_set \<Rightarrow> 'k \<Rightarrow> 'k mp_obj_set option" where
  "mp_obj_set_store ops self item = (if frozen self then None else set_do ops MP_MAP_LOOKUP_ADD_IF_NOT_FOUND self item)"

fun set_store_each :: "'k obj_ops \<Rightarrow> 'k mp_obj_set \<Rightarrow> 'k list \<Rightarrow> 'k mp_obj_set option" where
  "set_store_each ops self [] = Some self"
| "set_store_each ops self (x # xs) = mp_obj_set_store ops self x \<bind> (\<lambda>self. set_store_each ops self xs)"

text \<open>\<open>fr\<close> tells whether the type is \<open>frozenset\<close>; \<open>None\<close> is a call without argument.\<close>

definition set_make_new :: "'k obj_ops \<Rightarrow> bool \<Rightarrow> 'k list option \<Rightarrow> 'k mp_obj_set option" where
  "set_make_new ops fr arg =
     (case arg of
        None \<Rightarrow> map_option (\<lambda>s. s\<lparr>frozen := fr\<rparr>) (mp_obj_new_set ops [])
      | Some items \<Rightarrow>
          map_option (\<lambda>s. s\<lparr>frozen := fr\<rparr>) (mp_obj_new_set ops [] \<bind> (\<lambda>s. set_store_each ops s items)))"

definition set_add :: "'k obj_ops \<Rightarrow> 'k mp_obj_set \<Rightarrow> 'k \<Rightarrow> 'k mp_obj_set option" where
  "set_add ops self item = (if frozen self then None else set_do ops MP_MAP_LOOKUP_ADD_IF_NOT_FOUND self item)"

definition set_clear :: "'k mp_obj_set \<Rightarrow> 'k mp_obj_set option" where
  "set_clear self = (if frozen self then None else Some (self\<lparr>set_set := mp_set_clear (set_set self)\<rparr>))"

definition set_copy :: "'k mp_obj_set \<Rightarrow> 'k mp_obj_set" where
  "set_copy self =
     \<lparr> frozen = frozen self,
       set_set = (mp_set_init (length (set_table (set_set self))))
         \<lparr>set_used := set_used (set_set self), set_table := set_table (set_set self)\<rparr> \<rparr>"

definition set_discard :: "'k obj_ops \<Rightarrow> 'k mp_obj_set \<Rightarrow> 'k \<Rightarrow> 'k mp_obj_set option" where
  "set_discard ops self item = (if frozen self then None else set_do ops MP_MAP_LOOKUP_REMOVE_IF_FOUND self item)"

definition set_remove :: "'k obj_ops \<Rightarrow> 'k mp_obj_set \<Rightarrow> 'k \<Rightarrow> ('k mp_obj_set \<times> ('k set_error + unit)) option" where
  "set_remove ops self item =
     (if frozen self then None
      else map_option (\<lambda>(s, r). (self\<lparr>set_set := s\<rparr>, if r = None then Inl (SetKeyError item) else Inr ()))
             (mp_set_lookup ops (set_set self) item MP_MAP_LOOKUP_REMOVE_IF_FOUND))"

definition set_pop :: "'k mp_obj_set \<Rightarrow> ('k mp_obj_set \<times> ('k set_error + 'k)) option" where
  "set_pop self =
     (if frozen self then None
      else case mp_set_remove_first (set_set self) of
        (s, None) \<Rightarrow> Some (self\<lparr>set_set := s\<rparr>, Inl SetKeyErrorEmpty)
      | (s, Some x) \<Rightarrow> Some (self\<lparr>set_set := s\<rparr>, Inr x))"

text \<open>
  The loop of \<open>set_diff_int\<close> over the operands. \<open>orig\<close> is \<open>args[0]\<close>: without \<open>update\<close> the result is a copy, to which
  no operand is identical.
\<close>

fun set_diff_args :: "'k obj_ops \<Rightarrow> bool \<Rightarrow> 'k mp_obj_set \<Rightarrow> 'k mp_obj_set \<Rightarrow> 'k set_arg list \<Rightarrow> 'k mp_obj_set option" where
  "set_diff_args ops update orig self [] = Some self"
| "set_diff_args ops update orig self (other # args) =
     (if other = ArgSelf \<and> update then set_clear self
      else set_each ops MP_MAP_LOOKUP_REMOVE_IF_FOUND self (arg_items orig other))
     \<bind> (\<lambda>self. set_diff_args ops update orig self args)"

definition set_diff_int :: "'k obj_ops \<Rightarrow> 'k mp_obj_set \<Rightarrow> 'k set_arg list \<Rightarrow> bool \<Rightarrow> 'k mp_obj_set option" where
  "set_diff_int ops self args update =
     (if update then if frozen self then None else set_diff_args ops True self self args
      else set_diff_args ops False self (set_copy self) args)"

definition set_diff :: "'k obj_ops \<Rightarrow> 'k mp_obj_set \<Rightarrow> 'k set_arg list \<Rightarrow> 'k mp_obj_set option" where
  "set_diff ops self args = set_diff_int ops self args False"

definition set_diff_update :: "'k obj_ops \<Rightarrow> 'k mp_obj_set \<Rightarrow> 'k set_arg list \<Rightarrow> 'k mp_obj_set option" where
  "set_diff_update ops self args = set_diff_int ops self args True"

fun set_intersect_loop :: "'k obj_ops \<Rightarrow> 'k mp_obj_set \<Rightarrow> 'k mp_obj_set \<Rightarrow> 'k list \<Rightarrow> 'k mp_obj_set option" where
  "set_intersect_loop ops self out [] = Some out"
| "set_intersect_loop ops self out (x # xs) =
     (case mp_set_lookup ops (set_set self) x MP_MAP_LOOKUP of
        None \<Rightarrow> None
      | Some (_, None) \<Rightarrow> set_intersect_loop ops self out xs
      | Some (_, Some _) \<Rightarrow> set_add ops out x \<bind> (\<lambda>out. set_intersect_loop ops self out xs))"

text \<open>The result with \<open>update\<close> is \<open>self\<close> afterwards.\<close>

definition set_intersect_int :: "'k obj_ops \<Rightarrow> 'k mp_obj_set \<Rightarrow> 'k set_arg \<Rightarrow> bool \<Rightarrow> 'k mp_obj_set option" where
  "set_intersect_int ops self other update =
     (if update \<and> frozen self then None
      else if other = ArgSelf then Some (if update then self else set_copy self)
      else mp_obj_new_set ops [] \<bind> (\<lambda>out. set_intersect_loop ops self out (arg_items self other)) \<bind>
        (\<lambda>out. Some (if update
          then self\<lparr>set_set := \<lparr> set_used = set_used (set_set out), set_table = set_table (set_set out) \<rparr>\<rparr> else out)))"

definition set_intersect :: "'k obj_ops \<Rightarrow> 'k mp_obj_set \<Rightarrow> 'k set_arg \<Rightarrow> 'k mp_obj_set option" where
  "set_intersect ops self other = set_intersect_int ops self other False"

definition set_intersect_update :: "'k obj_ops \<Rightarrow> 'k mp_obj_set \<Rightarrow> 'k set_arg \<Rightarrow> 'k mp_obj_set option" where
  "set_intersect_update ops self other = set_intersect_int ops self other True"

fun set_disjoint_loop :: "'k obj_ops \<Rightarrow> 'k mp_obj_set \<Rightarrow> 'k list \<Rightarrow> bool option" where
  "set_disjoint_loop ops self [] = Some True"
| "set_disjoint_loop ops self (x # xs) =
     (case mp_set_lookup ops (set_set self) x MP_MAP_LOOKUP of
        None \<Rightarrow> None
      | Some (_, None) \<Rightarrow> set_disjoint_loop ops self xs
      | Some (_, Some _) \<Rightarrow> Some False)"

definition set_isdisjoint :: "'k obj_ops \<Rightarrow> 'k mp_obj_set \<Rightarrow> 'k set_arg \<Rightarrow> bool option" where
  "set_isdisjoint ops self other = set_disjoint_loop ops self (arg_items self other)"

text \<open>An operand that is no set is made one first; the temporary sets are cleared at the end.\<close>

definition arg_set :: "'k obj_ops \<Rightarrow> 'k mp_obj_set \<Rightarrow> 'k set_arg \<Rightarrow> 'k mp_obj_set option" where
  "arg_set ops self arg =
     (case arg of ArgSelf \<Rightarrow> Some self | ArgSet s \<Rightarrow> Some s | ArgItems xs \<Rightarrow> set_make_new ops False (Some xs))"

fun set_subset_loop :: "'k obj_ops \<Rightarrow> 'k mp_obj_set \<Rightarrow> 'k list \<Rightarrow> bool option" where
  "set_subset_loop ops other [] = Some True"
| "set_subset_loop ops other (x # xs) =
     (case mp_set_lookup ops (set_set other) x MP_MAP_LOOKUP of
        None \<Rightarrow> None
      | Some (_, None) \<Rightarrow> Some False
      | Some (_, Some _) \<Rightarrow> set_subset_loop ops other xs)"

definition set_issubset_internal ::
  "'k obj_ops \<Rightarrow> 'k mp_obj_set \<Rightarrow> 'k set_arg \<Rightarrow> 'k set_arg \<Rightarrow> bool \<Rightarrow> bool option" where
  "set_issubset_internal ops this self_in other_in proper =
     arg_set ops this self_in \<bind> (\<lambda>self. arg_set ops this other_in \<bind> (\<lambda>other.
       if proper \<and> set_used (set_set self) = set_used (set_set other) then Some False
       else set_subset_loop ops other (set_items (set_set self) 0)))"

definition set_issubset :: "'k obj_ops \<Rightarrow> 'k mp_obj_set \<Rightarrow> 'k set_arg \<Rightarrow> bool option" where
  "set_issubset ops self other = set_issubset_internal ops self ArgSelf other False"

definition set_issubset_proper :: "'k obj_ops \<Rightarrow> 'k mp_obj_set \<Rightarrow> 'k set_arg \<Rightarrow> bool option" where
  "set_issubset_proper ops self other = set_issubset_internal ops self ArgSelf other True"

definition set_issuperset :: "'k obj_ops \<Rightarrow> 'k mp_obj_set \<Rightarrow> 'k set_arg \<Rightarrow> bool option" where
  "set_issuperset ops self other = set_issubset_internal ops self other ArgSelf False"

definition set_issuperset_proper :: "'k obj_ops \<Rightarrow> 'k mp_obj_set \<Rightarrow> 'k set_arg \<Rightarrow> bool option" where
  "set_issuperset_proper ops self other = set_issubset_internal ops self other ArgSelf True"

definition set_equal :: "'k obj_ops \<Rightarrow> 'k mp_obj_set \<Rightarrow> 'k set_arg \<Rightarrow> bool option" where
  "set_equal ops self other_in =
     (case other_in of
        ArgItems xs \<Rightarrow> None
      | _ \<Rightarrow> arg_set ops self other_in \<bind> (\<lambda>other.
          if set_used (set_set self) \<noteq> set_used (set_set other) then Some False
          else set_issubset ops self other_in))"

definition set_symmetric_difference_update :: "'k obj_ops \<Rightarrow> 'k mp_obj_set \<Rightarrow> 'k set_arg \<Rightarrow> 'k mp_obj_set option" where
  "set_symmetric_difference_update ops self other =
     set_loop ops MP_MAP_LOOKUP_ADD_IF_NOT_FOUND_OR_REMOVE_IF_FOUND self other"

text \<open>The operand of an operation on a copy is not the copy.\<close>

definition arg_for_copy :: "'k mp_obj_set \<Rightarrow> 'k set_arg \<Rightarrow> 'k set_arg" where
  "arg_for_copy self arg = (case arg of ArgSelf \<Rightarrow> ArgSet self | _ \<Rightarrow> arg)"

definition set_symmetric_difference :: "'k obj_ops \<Rightarrow> 'k mp_obj_set \<Rightarrow> 'k set_arg \<Rightarrow> 'k mp_obj_set option" where
  "set_symmetric_difference ops self other = set_symmetric_difference_update ops (set_copy self) (arg_for_copy self other)"

definition set_update_int :: "'k obj_ops \<Rightarrow> 'k mp_obj_set \<Rightarrow> 'k set_arg \<Rightarrow> 'k mp_obj_set option" where
  "set_update_int ops self other = set_loop ops MP_MAP_LOOKUP_ADD_IF_NOT_FOUND self other"

fun set_update_args :: "'k obj_ops \<Rightarrow> 'k mp_obj_set \<Rightarrow> 'k set_arg list \<Rightarrow> 'k mp_obj_set option" where
  "set_update_args ops self [] = Some self"
| "set_update_args ops self (other # args) = set_update_int ops self other \<bind> (\<lambda>self. set_update_args ops self args)"

definition set_update :: "'k obj_ops \<Rightarrow> 'k mp_obj_set \<Rightarrow> 'k set_arg list \<Rightarrow> 'k mp_obj_set option" where
  "set_update ops self args = (if frozen self then None else set_update_args ops self args)"

definition set_union :: "'k obj_ops \<Rightarrow> 'k mp_obj_set \<Rightarrow> 'k set_arg \<Rightarrow> 'k mp_obj_set option" where
  "set_union ops self other = set_update_int ops (set_copy self) (arg_for_copy self other)"

section \<open>The operators\<close>

text \<open>
  What a call returns: \<open>SetNone\<close> is \<open>None\<close> of Python, \<open>SetSelf\<close> the set itself, \<open>SetNotSupported\<close> the value
  \<open>MP_OBJ_NULL\<close>.
\<close>

datatype 'k set_value =
    SetNone | SetSelf | SetNew "'k mp_obj_set" | SetBool bool | SetInt small_int | SetElem 'k
  | SetRaised "'k set_error" | SetNotSupported

datatype set_unary = SetOpBool | SetOpLen | SetOpHash

text \<open>\<open>type_frozenset\<close> is the address of \<open>mp_type_frozenset\<close>.\<close>

definition set_unary_op :: "'k obj_ops \<Rightarrow> mp_int_t \<Rightarrow> set_unary \<Rightarrow> 'k mp_obj_set \<Rightarrow> 'k set_value" where
  "set_unary_op ops type_frozenset op self =
     (case op of
        SetOpBool \<Rightarrow> SetBool (set_used (set_set self) \<noteq> 0)
      | SetOpLen \<Rightarrow> SetInt (new_small_int (of_nat (set_used (set_set self))))
      | SetOpHash \<Rightarrow>
          (if frozen self then
             SetInt (new_small_int (fold (\<lambda>slot hash. case slot of Key q \<Rightarrow> hash + of_nat (obj_hash ops q) | _ \<Rightarrow> hash)
               (set_table (set_set self)) type_frozenset))
           else SetNotSupported))"

datatype set_binary =
    SetOr | SetXor | SetAnd | SetSubtract | SetInplaceOr | SetInplaceXor | SetInplaceAnd | SetInplaceSubtract
  | SetLess | SetMore | SetEqual | SetLessEqual | SetMoreEqual

definition set_contains :: "'k obj_ops \<Rightarrow> 'k mp_obj_set \<Rightarrow> 'k \<Rightarrow> bool option" where
  "set_contains ops self x = map_option (\<lambda>(s, elem). elem \<noteq> None) (mp_set_lookup ops (set_set self) x MP_MAP_LOOKUP)"

text \<open>The cases but that of \<open>MP_BINARY_OP_CONTAINS\<close>, of which the right operand is no set.\<close>

definition set_binary_op ::
  "'k obj_ops \<Rightarrow> set_binary \<Rightarrow> 'k mp_obj_set \<Rightarrow> 'k set_arg \<Rightarrow> ('k mp_obj_set \<times> 'k set_value) option" where
  "set_binary_op ops op lhs rhs =
     (let update = \<not> frozen lhs; new = map_option (\<lambda>s. (lhs, SetNew s)); self = map_option (\<lambda>s. (s, SetSelf));
          answer = map_option (\<lambda>b. (lhs, SetBool b))
      in case rhs of
           ArgItems xs \<Rightarrow> Some (lhs, SetNotSupported)
         | _ \<Rightarrow>
             (case op of
                SetOr \<Rightarrow> new (set_union ops lhs rhs)
              | SetXor \<Rightarrow> new (set_symmetric_difference ops lhs rhs)
              | SetAnd \<Rightarrow> new (set_intersect ops lhs rhs)
              | SetSubtract \<Rightarrow> new (set_diff ops lhs [rhs])
              | SetInplaceOr \<Rightarrow> if update then self (set_update ops lhs [rhs]) else new (set_union ops lhs rhs)
              | SetInplaceXor \<Rightarrow>
                  if update then self (set_symmetric_difference_update ops lhs rhs)
                  else new (set_symmetric_difference ops lhs rhs)
              | SetInplaceAnd \<Rightarrow>
                  if update then self (set_intersect_int ops lhs rhs update) else new (set_intersect_int ops lhs rhs update)
              | SetInplaceSubtract \<Rightarrow>
                  if update then self (set_diff_int ops lhs [rhs] update) else new (set_diff_int ops lhs [rhs] update)
              | SetLess \<Rightarrow> answer (set_issubset_proper ops lhs rhs)
              | SetMore \<Rightarrow> answer (set_issuperset_proper ops lhs rhs)
              | SetEqual \<Rightarrow> answer (set_equal ops lhs rhs)
              | SetLessEqual \<Rightarrow> answer (set_issubset ops lhs rhs)
              | SetMoreEqual \<Rightarrow> answer (set_issuperset ops lhs rhs)))"

end
