(* ===== verification/ObjSetLaws.thy ===== *)
theory ObjSetLaws
  imports ObjSet
begin

text \<open>
  Sets are sets of keys: each method of \<open>py/objset.c\<close> is the operation of the Python language on the set of
  \<open>key_of\<close> of the elements, and it always returns. The loops over a set that is being changed are compared with
  the table that they read.
\<close>

section \<open>Items and keys\<close>

definition py_set :: "obj mp_obj_set \<Rightarrow> obj_key set" where
  "py_set self = key_of ` keys_of (set_table (set_set self))"

definition set_ok :: "64 word \<Rightarrow> obj mp_obj_set \<Rightarrow> bool" where
  "set_ok e self \<longleftrightarrow> set_inv (py_ops e) (set_set self)"

lemma obj_equal_key [simp]: "obj_equal (py_ops e) a b \<longleftrightarrow> key_of a = key_of b"
  by (simp add: py_ops_def mp_obj_equal_key)

lemma set_mem_py: "set_mem (py_ops e) (set_set self) k \<longleftrightarrow> key_of k \<in> py_set self"
  unfolding set_mem_def py_set_def image_iff by (simp, metis)

lemma py_set_mem: "py_set self = key_of ` Collect (set_mem (py_ops e) (set_set self))"
  unfolding set_mem_py by (auto simp: py_set_def)

definition slot_items :: "'k slot list \<Rightarrow> 'k list" where
  "slot_items ss = List.map_filter slot_key ss"

lemma slot_items_simps [simp]:
  "slot_items [] = []" "slot_items (Key q # ss) = q # slot_items ss"
  "slot_items (SlotNull # ss) = slot_items ss" "slot_items (SlotSentinel # ss) = slot_items ss"
  by (simp_all add: slot_items_def map_filter_def)

lemma slot_items_append: "slot_items (xs @ ys) = slot_items xs @ slot_items ys"
  by (simp add: slot_items_def map_filter_def)

lemma slot_items_unfilled: "\<forall>s \<in> set ss. \<not> slot_is_filled s \<Longrightarrow> slot_items ss = []"
proof (induction ss)
  case (Cons s ss)
  then show ?case by (cases s) simp_all
qed simp

lemma set_slot_items [simp]: "set (slot_items ss) = keys_of ss"
proof (induction ss)
  case (Cons s ss)
  then show ?case by (cases s) (auto simp: keys_of_def)
qed (simp add: keys_of_def)

lemma length_slot_items: "length (slot_items ss) = n_keys ss"
proof (induction ss)
  case (Cons s ss)
  then show ?case by (cases s) (auto simp: n_keys_def)
qed (simp add: n_keys_def)

lemma distinct_slot_items: "uniq_slots (obj_equal (py_ops e)) ss \<Longrightarrow> distinct (map key_of (slot_items ss))"
proof (induction ss)
  case (Cons s ss)
  then show ?case by (cases s) auto
qed simp

lemma drop_to_next:
  assumes "cur \<le> p" "p < length xs" and "\<forall>i. cur \<le> i \<longrightarrow> i < p \<longrightarrow> \<not> slot_is_filled (xs ! i)"
  shows "slot_items (drop cur xs) = slot_items (drop p xs)"
proof -
  have "drop cur xs = take (p - cur) (drop cur xs) @ drop p xs"
    by (metis append_take_drop_id assms(1) drop_drop le_add_diff_inverse2)
  moreover have "\<forall>s \<in> set (take (p - cur) (drop cur xs)). \<not> slot_is_filled s"
    using assms by (auto simp: in_set_conv_nth)
  ultimately show ?thesis by (metis append_Nil slot_items_append slot_items_unfilled)
qed

lemma set_items_slots: "set_items s cur = slot_items (drop cur (set_table s))"
proof (induction s cur rule: set_items.induct)
  case (1 s cur)
  show ?case
  proof (cases "set_it_iternext s cur")
    case None
    then have "\<forall>x \<in> set (drop cur (set_table s)). \<not> slot_is_filled x"
      unfolding set_it_iternext_None by (auto simp: in_set_conv_nth)
    with None show ?thesis by (simp add: set_items.simps [of s cur] slot_items_unfilled)
  next
    case (Some r)
    then obtain c x where r: "set_it_iternext s cur = Some (c, x)" by (cases r) auto
    then obtain p where p: "c = p + 1" "cur \<le> p" "p < length (set_table s)" "set_table s ! p = Key x"
      and skip: "\<forall>i. cur \<le> i \<longrightarrow> i < p \<longrightarrow> \<not> slot_is_filled (set_table s ! i)"
      by (rule set_it_iternext_Some)
    have "drop p (set_table s) = Key x # drop (p + 1) (set_table s)"
      using p(3,4) by (simp add: Cons_nth_drop_Suc [symmetric])
    with drop_to_next [OF p(2,3) skip] 1 [OF r refl] r p(1) show ?thesis
      by (simp add: set_items.simps [of s cur])
  qed
qed

lemma set_ok_items:
  assumes "set_ok e self"
  shows "distinct (map key_of (set_items (set_set self) 0))" and "key_of ` set (set_items (set_set self) 0) = py_set self"
    and "set_used (set_set self) = card (py_set self)"
proof -
  show d: "distinct (map key_of (set_items (set_set self) 0))"
    using distinct_slot_items [OF obj_map.uniq_slots_inv [OF obj_map.set_inv_slots]] assms
    unfolding set_items_slots set_ok_def by fastforce
  show s: "key_of ` set (set_items (set_set self) 0) = py_set self"
    by (simp add: set_items_slots py_set_def)
  have "card (py_set self) = length (map key_of (set_items (set_set self) 0))"
    using distinct_card [OF d] s by simp
  then show "set_used (set_set self) = card (py_set self)"
    using assms by (simp add: set_items_slots length_slot_items set_ok_def set_inv_def)
qed

lemma finite_py_set [simp]: "finite (py_set self)"
  unfolding py_set_def using finite_set [of "slot_items (set_table (set_set self))"] by (intro finite_imageI) simp

section \<open>Lookups\<close>

lemma keys_image:
  "key_of ` {j. key_of j \<in> py_set self \<and> key_of x \<noteq> key_of j} = py_set self - {key_of x}"
  "key_of ` {j. key_of x = key_of j \<or> key_of j \<in> py_set self} = insert (key_of x) (py_set self)"
  by (auto simp: py_set_def)

lemma set_lookup_val:
  assumes "set_ok e self"
  obtains s r where "mp_set_lookup (py_ops e) (set_set self) x kind = Some (s, r)" and "set_ok e (self\<lparr>set_set := s\<rparr>)"
    and "py_set (self\<lparr>set_set := s\<rparr>) =
      (if key_of x \<in> py_set self then if kind_removes kind then py_set self - {key_of x} else py_set self
       else if kind_adds kind then insert (key_of x) (py_set self) else py_set self)"
    and "r = None \<longleftrightarrow> key_of x \<notin> py_set self \<and> \<not> kind_adds kind"
proof -
  obtain s r where l: "mp_set_lookup (py_ops e) (set_set self) x kind = Some (s, r)"
    and o: "set_outcome (py_ops e) (set_set self) x kind s r"
    using obj_map.set_lookup assms unfolding set_ok_def by blast
  have mem: "py_set (self\<lparr>set_set := s\<rparr>) = key_of ` Collect (set_mem (py_ops e) s)"
    using py_set_mem [of "self\<lparr>set_set := s\<rparr>" e] by simp
  have ok: "set_ok e (self\<lparr>set_set := s\<rparr>)" using o by (simp add: set_outcome_def set_ok_def)
  show thesis
  proof (cases "key_of x \<in> py_set self")
    case True
    with o mem have "py_set (self\<lparr>set_set := s\<rparr>) = (if kind_removes kind then py_set self - {key_of x} else py_set self)" "r \<noteq> None"
      unfolding set_outcome_def set_mem_py obj_equal_key by (auto simp: keys_image split: if_splits)
    with True l ok show thesis by (intro that) simp_all
  next
    case False
    with o mem have "py_set (self\<lparr>set_set := s\<rparr>) = (if kind_adds kind then insert (key_of x) (py_set self) else py_set self)"
        "r = None \<longleftrightarrow> \<not> kind_adds kind"
      unfolding set_outcome_def set_mem_py obj_equal_key by (auto simp: keys_image split: if_splits)
    with False l ok show thesis by (intro that) simp_all
  qed
qed

lemma set_do_val:
  assumes "set_ok e self"
  obtains self' where "set_do (py_ops e) kind self x = Some self'" "set_ok e self'" "frozen self' = frozen self"
    and "py_set self' =
      (if key_of x \<in> py_set self then if kind_removes kind then py_set self - {key_of x} else py_set self
       else if kind_adds kind then insert (key_of x) (py_set self) else py_set self)"
proof -
  obtain s r where "mp_set_lookup (py_ops e) (set_set self) x kind = Some (s, r)" "set_ok e (self\<lparr>set_set := s\<rparr>)"
    "py_set (self\<lparr>set_set := s\<rparr>) =
      (if key_of x \<in> py_set self then if kind_removes kind then py_set self - {key_of x} else py_set self
       else if kind_adds kind then insert (key_of x) (py_set self) else py_set self)"
    by (rule set_lookup_val [OF assms])
  then show thesis by (intro that [of "self\<lparr>set_set := s\<rparr>"]) (simp_all add: set_do_def)
qed

lemmas kind_defs = kind_adds_def kind_removes_def

text \<open>A loop of lookups that add, remove, or do the one or the other.\<close>

definition set_sim :: "64 word \<Rightarrow> bool \<Rightarrow> obj mp_obj_set option \<Rightarrow> obj_key set \<Rightarrow> bool" where
  "set_sim e fr r ks \<longleftrightarrow> (\<exists>self. r = Some self \<and> set_ok e self \<and> frozen self = fr \<and> py_set self = ks)"

lemma set_each_add:
  "set_ok e self \<Longrightarrow> set_sim e (frozen self) (set_each (py_ops e) MP_MAP_LOOKUP_ADD_IF_NOT_FOUND self xs) (py_set self \<union> key_of ` set xs)"
proof (induction xs arbitrary: self)
  case (Cons x xs)
  obtain self' where "set_do (py_ops e) MP_MAP_LOOKUP_ADD_IF_NOT_FOUND self x = Some self'" "set_ok e self'"
    "frozen self' = frozen self" and p: "py_set self' =
      (if key_of x \<in> py_set self then if kind_removes MP_MAP_LOOKUP_ADD_IF_NOT_FOUND then py_set self - {key_of x} else py_set self
       else if kind_adds MP_MAP_LOOKUP_ADD_IF_NOT_FOUND then insert (key_of x) (py_set self) else py_set self)"
    by (rule set_do_val [OF Cons.prems])
  moreover have "py_set self' = insert (key_of x) (py_set self)" unfolding p by (auto simp: kind_defs)
  ultimately show ?case using Cons.IH [of self'] by (simp add: set_sim_def)
qed (simp add: set_sim_def)

lemma set_each_remove:
  "set_ok e self \<Longrightarrow> set_sim e (frozen self) (set_each (py_ops e) MP_MAP_LOOKUP_REMOVE_IF_FOUND self xs) (py_set self - key_of ` set xs)"
proof (induction xs arbitrary: self)
  case (Cons x xs)
  obtain self' where "set_do (py_ops e) MP_MAP_LOOKUP_REMOVE_IF_FOUND self x = Some self'" "set_ok e self'"
    "frozen self' = frozen self" and p: "py_set self' =
      (if key_of x \<in> py_set self then if kind_removes MP_MAP_LOOKUP_REMOVE_IF_FOUND then py_set self - {key_of x} else py_set self
       else if kind_adds MP_MAP_LOOKUP_REMOVE_IF_FOUND then insert (key_of x) (py_set self) else py_set self)"
    by (rule set_do_val [OF Cons.prems])
  moreover have "py_set self' = py_set self - {key_of x}" unfolding p by (auto simp: kind_defs)
  moreover have "py_set self - {key_of x} - key_of ` set xs = py_set self - key_of ` set (x # xs)" by auto
  ultimately show ?case using Cons.IH [of self'] by (simp add: set_sim_def)
qed (simp add: set_sim_def)

text \<open>An item that comes twice is added and removed again, or removed and added.\<close>

definition toggled :: "obj_key set \<Rightarrow> obj_key list \<Rightarrow> obj_key set" where
  "toggled ks xs = {k. (k \<in> ks) \<noteq> odd (count_list xs k)}"

lemma toggled_Cons: "toggled ks (x # xs) = toggled (if x \<in> ks then ks - {x} else insert x ks) xs"
  by (auto simp: toggled_def)

lemma count_list_distinct: "distinct xs \<Longrightarrow> count_list xs k = of_bool (k \<in> set xs)"
  by (induction xs) auto

lemma toggled_distinct: "distinct xs \<Longrightarrow> toggled ks xs = (ks - set xs) \<union> (set xs - ks)"
  by (auto simp: toggled_def count_list_distinct)

lemma set_each_toggle:
  "set_ok e self \<Longrightarrow>
   set_sim e (frozen self) (set_each (py_ops e) MP_MAP_LOOKUP_ADD_IF_NOT_FOUND_OR_REMOVE_IF_FOUND self xs) (toggled (py_set self) (map key_of xs))"
proof (induction xs arbitrary: self)
  case (Cons x xs)
  let ?kind = MP_MAP_LOOKUP_ADD_IF_NOT_FOUND_OR_REMOVE_IF_FOUND
  obtain self' where "set_do (py_ops e) ?kind self x = Some self'" "set_ok e self'" "frozen self' = frozen self"
    "py_set self' = (if key_of x \<in> py_set self then py_set self - {key_of x} else insert (key_of x) (py_set self))"
    by (rule set_do_val [OF Cons.prems, of ?kind x]) (simp add: kind_defs)
  with Cons.IH [of self'] show ?case by (simp add: set_sim_def toggled_Cons)
qed (simp add: set_sim_def toggled_def)

section \<open>A loop over the set that it changes\<close>

lemma set_lookup_at:
  assumes ok: "set_ok e self" and p: "p < length (set_table (set_set self))" "set_table (set_set self) ! p = Key x"
  shows "mp_set_lookup (py_ops e) (set_set self) x kind =
    Some (if kind_removes kind then mp_set_remove_at (set_set self) p else set_set self, Some x)"
proof -
  let ?s = "set_set self" and ?ss = "set_table (set_set self)"
  let ?r = "probe (\<lambda>q. obj_equal (py_ops e) q x) ?ss (obj_hash (py_ops e) x mod length ?ss) (length ?ss) None"
  have inv: "slots_inv (obj_equal (py_ops e)) (obj_hash (py_ops e)) ?ss"
    using ok obj_map.set_inv_slots by (simp add: set_ok_def)
  have ne: "?ss \<noteq> []" and x: "x \<in> keys_of ?ss" using p by (auto simp: keys_of_def in_set_conv_nth)
  have "case ?r of Found p' \<Rightarrow> p' < length ?ss \<and> (\<exists>q. ?ss ! p' = Key q \<and> obj_equal (py_ops e) q x) | _ \<Rightarrow> False"
    using obj_map.probe_spec [OF inv, of "\<lambda>q. obj_equal (py_ops e) q x" x] ne x
    by (auto split: probe_result.splits option.splits)
  then obtain p' q where p': "?r = Found p'" "p' < length ?ss" "?ss ! p' = Key q" "obj_equal (py_ops e) q x"
    by (auto split: probe_result.splits)
  then have "p' = p" using inv p unfolding slots_inv_def by blast
  with p' p have "mp_set_search 2 rehash (py_ops e) ?s x kind =
      Some (if kind_removes kind then mp_set_remove_at ?s p else ?s, Some x)" for rehash
    by (simp add: numeral_2_eq_2)
  then show ?thesis using ne by (simp add: mp_set_lookup_def numeral_2_eq_2 Let_def)
qed

lemma set_live_add: "set_ok e self \<Longrightarrow> set_live (py_ops e) MP_MAP_LOOKUP_ADD_IF_NOT_FOUND self cur = Some self"
proof (induction "length (set_table (set_set self)) - cur" arbitrary: cur rule: less_induct)
  case less
  show ?case
  proof (cases "set_it_iternext (set_set self) cur")
    case (Some r)
    then obtain c x where r: "set_it_iternext (set_set self) cur = Some (c, x)" by (cases r) auto
    then obtain p where p: "c = p + 1" "cur \<le> p" "p < length (set_table (set_set self))" "set_table (set_set self) ! p = Key x"
      by (rule set_it_iternext_Some)
    have "set_do (py_ops e) MP_MAP_LOOKUP_ADD_IF_NOT_FOUND self x = Some self"
      using set_lookup_at [OF less.prems p(3,4), of MP_MAP_LOOKUP_ADD_IF_NOT_FOUND] by (simp add: set_do_def kind_defs)
    with r less.hyps [OF _ less.prems, of c] p show ?thesis by (subst set_live.simps) simp
  qed (simp add: set_live.simps)
qed

text \<open>Each item is removed at its place, which the loop has left behind, so that no slot is filled at the end.\<close>

lemma set_live_toggle:
  "set_ok e self \<Longrightarrow> \<forall>i < cur. i < length (set_table (set_set self)) \<longrightarrow> \<not> slot_is_filled (set_table (set_set self) ! i) \<Longrightarrow>
   set_sim e (frozen self) (set_live (py_ops e) MP_MAP_LOOKUP_ADD_IF_NOT_FOUND_OR_REMOVE_IF_FOUND self cur) {}"
proof (induction "length (set_table (set_set self)) - cur" arbitrary: self cur rule: less_induct)
  case less
  let ?ss = "set_table (set_set self)" and ?kind = MP_MAP_LOOKUP_ADD_IF_NOT_FOUND_OR_REMOVE_IF_FOUND
  show ?case
  proof (cases "set_it_iternext (set_set self) cur")
    case None
    then have "\<not> slot_is_filled (?ss ! i)" if "i < length ?ss" for i
      using less.prems(2) that unfolding set_it_iternext_None by (cases "i < cur") auto
    then have "keys_of ?ss = {}" by (fastforce simp: keys_of_def in_set_conv_nth)
    with None less.prems(1) show ?thesis by (simp add: set_live.simps set_sim_def py_set_def)
  next
    case (Some r)
    then obtain c x where r: "set_it_iternext (set_set self) cur = Some (c, x)" by (cases r) auto
    then obtain p where p: "c = p + 1" "cur \<le> p" "p < length ?ss" "?ss ! p = Key x"
      and skip: "\<forall>i. cur \<le> i \<longrightarrow> i < p \<longrightarrow> \<not> slot_is_filled (?ss ! i)"
      by (rule set_it_iternext_Some)
    define self' where "self' = self\<lparr>set_set := mp_set_remove_at (set_set self) p\<rparr>"
    have d: "set_do (py_ops e) ?kind self x = Some self'"
      using set_lookup_at [OF less.prems(1) p(3,4), of ?kind] by (simp add: set_do_def kind_defs self'_def)
    have ok: "set_ok e self'"
      using obj_map.set_remove_at(1) [of e "set_set self" p x] less.prems(1) p by (simp add: set_ok_def self'_def)
    have t: "set_table (set_set self') = ?ss[p := deleted_slot ?ss p]" by (simp add: self'_def mp_set_remove_at_def)
    have "\<forall>i < c. i < length (set_table (set_set self')) \<longrightarrow> \<not> slot_is_filled (set_table (set_set self') ! i)"
      unfolding t using less.prems(2) skip p by (auto simp: nth_list_update not_less less_Suc_eq)
        (meson not_less)
    moreover have "length (set_table (set_set self')) - c < length ?ss - cur" using p by (simp add: t)
    ultimately have "set_sim e (frozen self') (set_live (py_ops e) ?kind self' c) {}" by (intro less.hyps ok)
    with r d show ?thesis by (subst set_live.simps) (simp add: set_sim_def self'_def)
  qed
qed

end
