(* ===== verification/ObjSetRun.thy ===== *)
theory ObjSetRun
  imports ObjSetLaws
begin

text \<open>
  The methods and operators of \<open>py/objset.c\<close> on sets of keys, and runs of calls: every run on a set or frozen set
  is the run on a set of keys that the Python language describes, with the same replies.
\<close>

section \<open>Operands\<close>

definition arg_ok :: "64 word \<Rightarrow> obj set_arg \<Rightarrow> bool" where
  "arg_ok e arg \<longleftrightarrow> (case arg of ArgSet s \<Rightarrow> set_ok e s | _ \<Rightarrow> True)"

definition arg_val :: "obj_key set \<Rightarrow> obj set_arg \<Rightarrow> obj_key set" where
  "arg_val ks arg = (case arg of ArgSelf \<Rightarrow> ks | ArgSet s \<Rightarrow> py_set s | ArgItems xs \<Rightarrow> key_of ` set xs)"

lemma arg_val_simps [simp]:
  "arg_val ks ArgSelf = ks" "arg_val ks (ArgSet s) = py_set s" "arg_val ks (ArgItems xs) = key_of ` set xs"
  by (simp_all add: arg_val_def)

lemma arg_ok_simps [simp]: "arg_ok e ArgSelf" "arg_ok e (ArgSet s) \<longleftrightarrow> set_ok e s" "arg_ok e (ArgItems xs)"
  by (simp_all add: arg_ok_def)

lemma arg_items_val: "set_ok e self \<Longrightarrow> arg_ok e arg \<Longrightarrow> key_of ` set (arg_items self arg) = arg_val (py_set self) arg"
  by (cases arg) (simp_all add: arg_items_def set_ok_items)

lemma set_copy_id [simp]: "set_copy self = self"
  by (simp add: set_copy_def mp_set_init_def)

lemma arg_for_copy_val [simp]: "arg_val ks (arg_for_copy self arg) = arg_val (if arg = ArgSelf then py_set self else ks) arg"
  by (cases arg) (simp_all add: arg_for_copy_def)

section \<open>New sets\<close>

lemma mp_set_init_ok: "set_ok e \<lparr> frozen = fr, set_set = mp_set_init n \<rparr>" "py_set \<lparr> frozen = fr, set_set = mp_set_init n \<rparr> = {}"
  by (simp_all add: set_ok_def set_inv_def mp_set_init_def obj_map.slots_inv_fresh py_set_def keys_of_fresh)

lemma mp_obj_new_set_val: "set_sim e False (mp_obj_new_set (py_ops e) xs) (key_of ` set xs)"
  using set_each_add [OF mp_set_init_ok(1) [of e False "length xs"], of xs] mp_set_init_ok(2) [of False "length xs"]
  by (simp add: mp_obj_new_set_def)

lemma set_store_each_add:
  "\<not> frozen self \<Longrightarrow> set_ok e self \<Longrightarrow>
   set_store_each (py_ops e) self xs = set_each (py_ops e) MP_MAP_LOOKUP_ADD_IF_NOT_FOUND self xs"
proof (induction xs arbitrary: self)
  case (Cons x xs)
  obtain self' where "set_do (py_ops e) MP_MAP_LOOKUP_ADD_IF_NOT_FOUND self x = Some self'" "set_ok e self'" "frozen self' = frozen self"
    by (rule set_do_val [OF Cons.prems(2)])
  with Cons show ?case by (simp add: mp_obj_set_store_def)
qed simp

lemma set_sim_frozen: "set_sim e fr r ks \<Longrightarrow> set_sim e fr' (map_option (\<lambda>s. s\<lparr>frozen := fr'\<rparr>) r) ks"
  by (auto simp: set_sim_def set_ok_def py_set_def)

lemma set_make_new_val: "set_sim e fr (set_make_new (py_ops e) fr (Some xs)) (key_of ` set xs)"
proof -
  obtain s where s: "mp_obj_new_set (py_ops e) [] = Some s" "set_ok e s" "\<not> frozen s" "py_set s = {}"
    using mp_obj_new_set_val [of e "[]"] by (auto simp: set_sim_def)
  with set_each_add [OF s(2), of xs] have "set_sim e False (set_store_each (py_ops e) s xs) (key_of ` set xs)"
    by (simp add: set_store_each_add)
  then show ?thesis unfolding set_make_new_def using s(1) by (simp add: set_sim_frozen)
qed

section \<open>The methods\<close>

lemma set_clear_val: "\<not> frozen self \<Longrightarrow> set_sim e False (set_clear self) {}"
  using obj_map.slots_inv_fresh [of e 0]
  by (simp add: set_clear_def set_sim_def set_ok_def set_inv_def mp_set_clear_def py_set_def n_keys_def keys_of_def)

lemma set_loop_add:
  assumes "set_ok e self" "arg_ok e arg"
  shows "set_sim e (frozen self) (set_loop (py_ops e) MP_MAP_LOOKUP_ADD_IF_NOT_FOUND self arg) (py_set self \<union> arg_val (py_set self) arg)"
proof (cases "arg = ArgSelf")
  case True
  with assms show ?thesis by (simp add: set_loop_def set_live_add set_sim_def)
next
  case False
  with set_each_add [OF assms(1), of "arg_items self arg"] arg_items_val [OF assms] show ?thesis
    by (cases arg) (simp_all add: set_loop_def)
qed

text \<open>The symmetric difference; an iterable counts each item as often as it gives it.\<close>

definition xor_val :: "obj_key set \<Rightarrow> obj set_arg \<Rightarrow> obj_key set" where
  "xor_val ks arg =
     (case arg of
        ArgItems xs \<Rightarrow> {k. (k \<in> ks) \<noteq> odd (count_list (map key_of xs) k)}
      | _ \<Rightarrow> (ks - arg_val ks arg) \<union> (arg_val ks arg - ks))"

lemma xor_val_distinct:
  "distinct (map key_of xs) \<Longrightarrow> xor_val ks (ArgItems xs) = (ks - arg_val ks (ArgItems xs)) \<union> (arg_val ks (ArgItems xs) - ks)"
  using toggled_distinct [of "map key_of xs" ks] by (simp add: xor_val_def toggled_def)

lemma set_loop_toggle:
  assumes "set_ok e self" "arg_ok e arg"
  shows "set_sim e (frozen self) (set_symmetric_difference_update (py_ops e) self arg) (xor_val (py_set self) arg)"
proof (cases arg)
  case ArgSelf
  with set_live_toggle [OF assms(1), of 0] show ?thesis
    by (simp add: set_symmetric_difference_update_def set_loop_def xor_val_def)
next
  case (ArgSet s)
  then have s: "set_ok e s" using assms(2) by simp
  have "toggled (py_set self) (map key_of (set_items (set_set s) 0)) = (py_set self - py_set s) \<union> (py_set s - py_set self)"
    using toggled_distinct [OF set_ok_items(1) [OF s]] set_ok_items(2) [OF s] by simp
  with set_each_toggle [OF assms(1), of "set_items (set_set s) 0"] ArgSet show ?thesis
    by (simp add: set_symmetric_difference_update_def set_loop_def arg_items_def xor_val_def)
next
  case (ArgItems xs)
  with set_each_toggle [OF assms(1), of xs] show ?thesis
    by (simp add: set_symmetric_difference_update_def set_loop_def arg_items_def xor_val_def toggled_def)
qed

lemma set_xor_copy:
  assumes "set_ok e self" "arg_ok e arg"
  shows "set_sim e (frozen self) (set_symmetric_difference (py_ops e) self arg) (xor_val (py_set self) arg)"
proof -
  have "arg_ok e (arg_for_copy self arg)" "xor_val (py_set self) (arg_for_copy self arg) = xor_val (py_set self) arg"
    using assms by (cases arg; simp add: arg_for_copy_def xor_val_def)+
  with set_loop_toggle [OF assms(1), of "arg_for_copy self arg"] show ?thesis by (simp add: set_symmetric_difference_def)
qed

lemma set_union_val:
  assumes "set_ok e self" "arg_ok e arg"
  shows "set_sim e (frozen self) (set_union (py_ops e) self arg) (py_set self \<union> arg_val (py_set self) arg)"
proof -
  have "arg_ok e (arg_for_copy self arg)" using assms by (cases arg) (simp_all add: arg_for_copy_def)
  with set_loop_add [OF assms(1), of "arg_for_copy self arg"] show ?thesis
    by (cases "arg = ArgSelf") (simp_all add: set_union_def set_update_int_def)
qed

lemma set_update_args_val:
  "set_ok e self \<Longrightarrow> \<forall>arg \<in> set args. arg_ok e arg \<Longrightarrow>
   set_sim e (frozen self) (set_update_args (py_ops e) self args) (py_set self \<union> (\<Union>arg \<in> set args. arg_val {} arg))"
proof (induction args arbitrary: self)
  case (Cons arg args)
  obtain s where s: "set_update_int (py_ops e) self arg = Some s" "set_ok e s" "frozen s = frozen self"
    "py_set s = py_set self \<union> arg_val (py_set self) arg"
    using set_loop_add [OF Cons.prems(1), of arg] Cons.prems(2) by (auto simp: set_sim_def set_update_int_def)
  moreover have "py_set self \<union> arg_val (py_set self) arg = py_set self \<union> arg_val {} arg" by (cases arg) simp_all
  ultimately show ?case using Cons.IH [of s] Cons.prems(2) by (simp add: Un_assoc)
qed (simp add: set_sim_def)

text \<open>A difference with the set itself is empty, whatever comes before and after.\<close>

lemma set_diff_args_val:
  "set_ok e self \<Longrightarrow> set_ok e orig \<Longrightarrow> \<forall>arg \<in> set args. arg_ok e arg \<Longrightarrow> update \<longrightarrow> \<not> frozen self \<Longrightarrow>
   py_set self \<subseteq> py_set orig \<Longrightarrow>
   set_sim e (frozen self) (set_diff_args (py_ops e) update orig self args) (py_set self - (\<Union>arg \<in> set args. arg_val (py_set orig) arg))"
proof (induction args arbitrary: self)
  case (Cons arg args)
  let ?r = "if arg = ArgSelf \<and> update then set_clear self
      else set_each (py_ops e) MP_MAP_LOOKUP_REMOVE_IF_FOUND self (arg_items orig arg)"
  have "set_sim e (frozen self) ?r (py_set self - arg_val (py_set orig) arg)"
  proof (cases "arg = ArgSelf \<and> update")
    case True
    then have none: "py_set self - arg_val (py_set orig) arg = {}" using Cons.prems(5) by simp
    show ?thesis unfolding none using True set_clear_val [of self e] Cons.prems(4) by simp
  next
    case False
    have "set_sim e (frozen self) (set_each (py_ops e) MP_MAP_LOOKUP_REMOVE_IF_FOUND self (arg_items orig arg))
        (py_set self - arg_val (py_set orig) arg)"
      using set_each_remove [OF Cons.prems(1), of "arg_items orig arg"] arg_items_val [OF Cons.prems(2), of arg] Cons.prems(3) by simp
    then show ?thesis by (simp only: False if_False)
  qed
  then obtain s where s: "?r = Some s" "set_ok e s" "frozen s = frozen self" "py_set s = py_set self - arg_val (py_set orig) arg"
    by (auto simp: set_sim_def)
  have "py_set self - arg_val (py_set orig) arg - (\<Union>a \<in> set args. arg_val (py_set orig) a) =
      py_set self - (\<Union>a \<in> set (arg # args). arg_val (py_set orig) a)" by auto
  moreover have "set_sim e (frozen self) (set_diff_args (py_ops e) update orig s args)
      (py_set self - arg_val (py_set orig) arg - (\<Union>a \<in> set args. arg_val (py_set orig) a))"
    using Cons.IH [OF s(2) Cons.prems(2)] s(3,4) Cons.prems(3-5) by auto
  ultimately show ?case by (simp only: set_diff_args.simps s(1) bind.bind_lunit)
qed (simp add: set_sim_def)

lemma set_diff_int_val:
  assumes "set_ok e self" "\<forall>arg \<in> set args. arg_ok e arg" "update \<longrightarrow> \<not> frozen self"
  shows "set_sim e (frozen self) (set_diff_int (py_ops e) self args update) (py_set self - (\<Union>arg \<in> set args. arg_val (py_set self) arg))"
  using set_diff_args_val [OF assms(1,1,2,3)] assms(3) by (cases update) (simp_all add: set_diff_int_def)

text \<open>Lookups that do not change the set.\<close>

lemma set_find_val:
  assumes "set_ok e self"
  obtains s r where "mp_set_lookup (py_ops e) (set_set self) x MP_MAP_LOOKUP = Some (s, r)" "r = None \<longleftrightarrow> key_of x \<notin> py_set self"
  by (rule set_lookup_val [OF assms, of x MP_MAP_LOOKUP]) (simp add: kind_defs that)

lemma set_disjoint_loop_val:
  "set_ok e self \<Longrightarrow> set_disjoint_loop (py_ops e) self xs = Some (py_set self \<inter> key_of ` set xs = {})"
proof (induction xs)
  case (Cons x xs)
  obtain s r where "mp_set_lookup (py_ops e) (set_set self) x MP_MAP_LOOKUP = Some (s, r)" "r = None \<longleftrightarrow> key_of x \<notin> py_set self"
    by (rule set_find_val [OF Cons.prems])
  with Cons show ?case by (cases r) auto
qed simp

lemma set_isdisjoint_val:
  "set_ok e self \<Longrightarrow> arg_ok e arg \<Longrightarrow> set_isdisjoint (py_ops e) self arg = Some (py_set self \<inter> arg_val (py_set self) arg = {})"
  by (simp add: set_isdisjoint_def set_disjoint_loop_val arg_items_val)

lemma set_subset_loop_val: "set_ok e other \<Longrightarrow> set_subset_loop (py_ops e) other xs = Some (key_of ` set xs \<subseteq> py_set other)"
proof (induction xs)
  case (Cons x xs)
  obtain s r where "mp_set_lookup (py_ops e) (set_set other) x MP_MAP_LOOKUP = Some (s, r)" "r = None \<longleftrightarrow> key_of x \<notin> py_set other"
    by (rule set_find_val [OF Cons.prems])
  with Cons show ?case by (cases r) auto
qed simp

lemma arg_set_val:
  assumes "set_ok e self" "arg_ok e arg"
  obtains s where "arg_set (py_ops e) self arg = Some s" "set_ok e s" "py_set s = arg_val (py_set self) arg"
proof (cases arg)
  case (ArgItems xs)
  obtain s where "set_make_new (py_ops e) False (Some xs) = Some s" "set_ok e s" "py_set s = key_of ` set xs"
    using set_make_new_val [of e False xs] unfolding set_sim_def by blast
  with ArgItems show thesis by (intro that) (simp_all add: arg_set_def)
qed (use assms that in \<open>simp_all add: arg_set_def\<close>)

text \<open>The test of the sizes decides whether an inclusion is proper.\<close>

lemma set_issubset_internal_val:
  assumes "set_ok e this" "arg_ok e a" "arg_ok e b"
  shows "set_issubset_internal (py_ops e) this a b proper =
    Some (if proper then arg_val (py_set this) a \<subset> arg_val (py_set this) b else arg_val (py_set this) a \<subseteq> arg_val (py_set this) b)"
proof -
  obtain s where s: "arg_set (py_ops e) this a = Some s" "set_ok e s" "py_set s = arg_val (py_set this) a"
    by (rule arg_set_val [OF assms(1,2)])
  obtain t where t: "arg_set (py_ops e) this b = Some t" "set_ok e t" "py_set t = arg_val (py_set this) b"
    by (rule arg_set_val [OF assms(1,3)])
  note n = set_ok_items(2,3) [OF s(2)] set_ok_items(3) [OF t(2)]
  have "set_issubset_internal (py_ops e) this a b proper =
      Some (if proper then card (py_set s) \<noteq> card (py_set t) \<and> py_set s \<subseteq> py_set t else py_set s \<subseteq> py_set t)"
    by (simp add: set_issubset_internal_def s(1) t(1) set_subset_loop_val [OF t(2)] n)
  moreover have "card (py_set s) \<noteq> card (py_set t) \<and> py_set s \<subseteq> py_set t \<longleftrightarrow> py_set s \<subset> py_set t"
    using card_subset_eq [OF finite_py_set, of "py_set s" t] by (auto simp: psubset_eq)
  ultimately show ?thesis unfolding s(3) t(3) by simp
qed

lemma set_equal_val:
  assumes "set_ok e self" "arg_ok e arg" "\<not> (\<exists>xs. arg = ArgItems xs)"
  shows "set_equal (py_ops e) self arg = Some (py_set self = arg_val (py_set self) arg)"
proof -
  obtain t where t: "arg_set (py_ops e) self arg = Some t" "set_ok e t" "py_set t = arg_val (py_set self) arg"
    by (rule arg_set_val [OF assms(1,2)])
  have "card (py_set self) = card (py_set t) \<and> py_set self \<subseteq> py_set t \<longleftrightarrow> py_set self = py_set t"
    using card_subset_eq [OF finite_py_set, of "py_set self" t] by auto
  moreover have "set_equal (py_ops e) self arg = Some (card (py_set self) = card (py_set t) \<and> py_set self \<subseteq> py_set t)"
    using assms(3) set_issubset_internal_val [OF assms(1) _ assms(2), of ArgSelf False] set_ok_items(3) [OF assms(1)] set_ok_items(3) [OF t(2)] t
    by (cases arg) (simp_all add: set_equal_def set_issubset_def)
  ultimately show ?thesis by (simp add: t(3))
qed

lemma set_add_val:
  assumes "set_ok e self" "\<not> frozen self"
  shows "set_sim e (frozen self) (set_add (py_ops e) self x) (insert (key_of x) (py_set self))"
  using set_each_add [OF assms(1), of "[x]"] assms(2) by (cases "set_do (py_ops e) MP_MAP_LOOKUP_ADD_IF_NOT_FOUND self x") (simp_all add: set_add_def)

lemma set_intersect_loop_val:
  "set_ok e self \<Longrightarrow> set_ok e out \<Longrightarrow> \<not> frozen out \<Longrightarrow>
   set_sim e False (set_intersect_loop (py_ops e) self out xs) (py_set out \<union> (py_set self \<inter> key_of ` set xs))"
proof (induction xs arbitrary: out)
  case (Cons x xs)
  obtain s r where l: "mp_set_lookup (py_ops e) (set_set self) x MP_MAP_LOOKUP = Some (s, r)" "r = None \<longleftrightarrow> key_of x \<notin> py_set self"
    by (rule set_find_val [OF Cons.prems(1)])
  show ?case
  proof (cases r)
    case None
    with l Cons.IH [OF Cons.prems] show ?thesis by simp
  next
    case (Some q)
    obtain out' where o: "set_add (py_ops e) out x = Some out'" "set_ok e out'" "\<not> frozen out'" "py_set out' = insert (key_of x) (py_set out)"
      using set_add_val [OF Cons.prems(2,3), of x] Cons.prems(3) by (auto simp: set_sim_def)
    from l Some have "py_set self \<inter> key_of ` set (x # xs) = insert (key_of x) (py_set self \<inter> key_of ` set xs)" by auto
    with l Some o Cons.IH [OF Cons.prems(1) o(2,3)] show ?thesis by simp
  qed
qed (simp add: set_sim_def)

text \<open>The new set is a \<open>set\<close>, also when the left operand is a \<open>frozenset\<close>; only the intersection of a frozen set with itself is frozen.\<close>

lemma set_intersect_int_val:
  assumes "set_ok e self" "arg_ok e arg" "update \<longrightarrow> \<not> frozen self"
  shows "set_sim e (frozen self \<and> arg = ArgSelf) (set_intersect_int (py_ops e) self arg update) (py_set self \<inter> arg_val (py_set self) arg)"
proof (cases "arg = ArgSelf")
  case True
  with assms show ?thesis by (simp add: set_intersect_int_def set_sim_def)
next
  case False
  obtain new where new: "mp_obj_new_set (py_ops e) [] = Some new" "set_ok e new" "\<not> frozen new" "py_set new = {}"
    using mp_obj_new_set_val [of e "[]"] by (auto simp: set_sim_def)
  obtain out where out: "set_intersect_loop (py_ops e) self new (arg_items self arg) = Some out" "set_ok e out" "\<not> frozen out"
    "py_set out = py_set self \<inter> arg_val (py_set self) arg"
    using set_intersect_loop_val [OF assms(1) new(2,3), of "arg_items self arg"] new(4) arg_items_val [OF assms(1,2)]
    by (auto simp: set_sim_def)
  have "\<lparr> set_used = set_used (set_set out), set_table = set_table (set_set out) \<rparr> = set_set out" by simp
  with False new(1) out assms(3) show ?thesis
    by (auto simp: set_intersect_int_def set_sim_def set_ok_def set_inv_def py_set_def)
qed

lemma set_remove_val:
  assumes "set_ok e self" "\<not> frozen self"
  obtains self' where "set_remove (py_ops e) self x = Some (self', if key_of x \<in> py_set self then Inr () else Inl (SetKeyError x))"
    "set_ok e self'" "frozen self' = frozen self" "py_set self' = py_set self - {key_of x}"
proof -
  let ?kind = MP_MAP_LOOKUP_REMOVE_IF_FOUND
  obtain s r where "mp_set_lookup (py_ops e) (set_set self) x ?kind = Some (s, r)" "set_ok e (self\<lparr>set_set := s\<rparr>)"
    and p: "py_set (self\<lparr>set_set := s\<rparr>) = (if key_of x \<in> py_set self then if kind_removes ?kind then py_set self - {key_of x} else py_set self
       else if kind_adds ?kind then insert (key_of x) (py_set self) else py_set self)"
    and r: "r = None \<longleftrightarrow> key_of x \<notin> py_set self \<and> \<not> kind_adds ?kind"
    by (rule set_lookup_val [OF assms(1)])
  moreover have "py_set (self\<lparr>set_set := s\<rparr>) = py_set self - {key_of x}" unfolding p by (auto simp: kind_defs)
  ultimately show thesis using assms(2) by (intro that [of "self\<lparr>set_set := s\<rparr>"]) (simp_all add: set_remove_def kind_defs)
qed

lemma set_pop_val:
  assumes "set_ok e self" "\<not> frozen self"
  shows "(py_set self = {} \<and> set_pop self = Some (self, Inl SetKeyErrorEmpty)) \<or>
    (\<exists>self' x. set_pop self = Some (self', Inr x) \<and> key_of x \<in> py_set self \<and> set_ok e self' \<and> frozen self' = frozen self \<and>
       py_set self' = py_set self - {key_of x})"
proof -
  obtain s r where r: "mp_set_remove_first (set_set self) = (s, r)" by (cases "mp_set_remove_first (set_set self)")
  note v = obj_map.set_remove_first [OF assms(1) [unfolded set_ok_def] r]
  show ?thesis
  proof (cases r)
    case None
    then have "s = set_set self" "\<forall>k. key_of k \<notin> py_set self" using v by (simp_all add: set_mem_py)
    then have "py_set self = {}" "self\<lparr>set_set := s\<rparr> = self" by (auto simp: py_set_def)
    with r None assms(2) show ?thesis by (simp add: set_pop_def)
  next
    case (Some q)
    then have "set_inv (py_ops e) s" "key_of q \<in> py_set self"
      and m: "set_mem (py_ops e) s = (\<lambda>j. key_of j \<in> py_set self \<and> key_of q \<noteq> key_of j)"
      using v by (simp_all add: set_mem_py)
    moreover have "py_set (self\<lparr>set_set := s\<rparr>) = py_set self - {key_of q}"
      using py_set_mem [of "self\<lparr>set_set := s\<rparr>" e] by (simp add: m keys_image)
    ultimately have "set_ok e (self\<lparr>set_set := s\<rparr>) \<and> key_of q \<in> py_set self \<and> py_set (self\<lparr>set_set := s\<rparr>) = py_set self - {key_of q}"
      by (simp add: set_ok_def)
    with r Some assms(2) show ?thesis by (auto simp: set_pop_def)
  qed
qed

text \<open>The hash of a frozen set: the sum over its keys, in any order of the table.\<close>

lemma fold_slot_hash:
  "fold (\<lambda>slot hash. case slot of Key q \<Rightarrow> hash + of_nat (obj_hash (py_ops e) q) | _ \<Rightarrow> hash) ss (h :: 64 word) =
   h + (\<Sum>q \<leftarrow> slot_items ss. key_hash e (key_of q))"
proof (induction ss arbitrary: h)
  case (Cons s ss)
  then show ?case by (cases s) (simp_all add: py_ops_def mp_obj_hash_key add.assoc)
qed simp

lemma set_hash_val:
  assumes "set_ok e self" "frozen self"
  shows "set_unary_op (py_ops e) type_frozenset SetOpHash self =
    SetInt (new_small_int (type_frozenset + (\<Sum>k \<in> py_set self. key_hash e k)))"
proof -
  have "(\<Sum>q \<leftarrow> slot_items (set_table (set_set self)). key_hash e (key_of q)) = (\<Sum>k \<in> py_set self. key_hash e k)"
    using sum_list_distinct_conv_sum_set [OF set_ok_items(1) [OF assms(1)], of "key_hash e"] set_ok_items(2) [OF assms(1)]
    by (simp add: set_items_slots o_def)
  with assms(2) show ?thesis by (simp add: set_unary_op_def fold_slot_hash)
qed

section \<open>Calls and what they return\<close>

datatype 'k set_call =
    SetAdd 'k | SetDiscard 'k | SetRemove 'k | SetPop | SetClear | SetCopy | SetContains 'k
  | SetDifference "'k set_arg list" | SetDifferenceUpdate "'k set_arg list"
  | SetIntersection "'k set_arg" | SetIntersectionUpdate "'k set_arg"
  | SetIsDisjoint "'k set_arg" | SetIsSubset "'k set_arg" | SetIsSuperset "'k set_arg"
  | SetSymmetricDifference "'k set_arg" | SetSymmetricDifferenceUpdate "'k set_arg"
  | SetUnion "'k set_arg" | SetUpdate "'k set_arg list"
  | SetBinary set_binary "'k set_arg" | SetUnary set_unary

abbreviation set_done :: "'k mp_obj_set option \<Rightarrow> ('k mp_obj_set \<times> 'k set_value) option" where
  "set_done r \<equiv> map_option (\<lambda>s. (s, SetNone)) r"

abbreviation set_new :: "'k mp_obj_set \<Rightarrow> 'k mp_obj_set option \<Rightarrow> ('k mp_obj_set \<times> 'k set_value) option" where
  "set_new self r \<equiv> map_option (\<lambda>s. (self, SetNew s)) r"

abbreviation set_answer :: "'k mp_obj_set \<Rightarrow> bool option \<Rightarrow> ('k mp_obj_set \<times> 'k set_value) option" where
  "set_answer self r \<equiv> map_option (\<lambda>b. (self, SetBool b)) r"

fun set_exec :: "mp_int_t \<Rightarrow> 'k obj_ops \<Rightarrow> 'k mp_obj_set \<Rightarrow> 'k set_call \<Rightarrow> ('k mp_obj_set \<times> 'k set_value) option" where
  "set_exec tf ops self (SetAdd x) = set_done (set_add ops self x)"
| "set_exec tf ops self (SetDiscard x) = set_done (set_discard ops self x)"
| "set_exec tf ops self (SetRemove x) =
     map_option (map_prod id (\<lambda>r. case r of Inl err \<Rightarrow> SetRaised err | Inr _ \<Rightarrow> SetNone)) (set_remove ops self x)"
| "set_exec tf ops self SetPop =
     map_option (map_prod id (\<lambda>r. case r of Inl err \<Rightarrow> SetRaised err | Inr x \<Rightarrow> SetElem x)) (set_pop self)"
| "set_exec tf ops self SetClear = set_done (set_clear self)"
| "set_exec tf ops self SetCopy = Some (self, SetNew (set_copy self))"
| "set_exec tf ops self (SetContains x) = set_answer self (set_contains ops self x)"
| "set_exec tf ops self (SetDifference args) = set_new self (set_diff ops self args)"
| "set_exec tf ops self (SetDifferenceUpdate args) = set_done (set_diff_update ops self args)"
| "set_exec tf ops self (SetIntersection arg) = set_new self (set_intersect ops self arg)"
| "set_exec tf ops self (SetIntersectionUpdate arg) = set_done (set_intersect_update ops self arg)"
| "set_exec tf ops self (SetIsDisjoint arg) = set_answer self (set_isdisjoint ops self arg)"
| "set_exec tf ops self (SetIsSubset arg) = set_answer self (set_issubset ops self arg)"
| "set_exec tf ops self (SetIsSuperset arg) = set_answer self (set_issuperset ops self arg)"
| "set_exec tf ops self (SetSymmetricDifference arg) = set_new self (set_symmetric_difference ops self arg)"
| "set_exec tf ops self (SetSymmetricDifferenceUpdate arg) = set_done (set_symmetric_difference_update ops self arg)"
| "set_exec tf ops self (SetUnion arg) = set_new self (set_union ops self arg)"
| "set_exec tf ops self (SetUpdate args) = set_done (set_update ops self args)"
| "set_exec tf ops self (SetBinary op arg) = set_binary_op ops op self arg"
| "set_exec tf ops self (SetUnary op) = Some (self, set_unary_op ops tf op self)"

text \<open>The calls that the method table of the type has, with sets as operands that keep the invariant.\<close>

fun set_call_ok :: "64 word \<Rightarrow> bool \<Rightarrow> obj set_call \<Rightarrow> bool" where
  "set_call_ok e fr (SetAdd x) \<longleftrightarrow> \<not> fr"
| "set_call_ok e fr (SetDiscard x) \<longleftrightarrow> \<not> fr"
| "set_call_ok e fr (SetRemove x) \<longleftrightarrow> \<not> fr"
| "set_call_ok e fr SetPop \<longleftrightarrow> \<not> fr"
| "set_call_ok e fr SetClear \<longleftrightarrow> \<not> fr"
| "set_call_ok e fr (SetDifference args) \<longleftrightarrow> (\<forall>arg \<in> set args. arg_ok e arg)"
| "set_call_ok e fr (SetDifferenceUpdate args) \<longleftrightarrow> \<not> fr \<and> (\<forall>arg \<in> set args. arg_ok e arg)"
| "set_call_ok e fr (SetIntersection arg) \<longleftrightarrow> arg_ok e arg"
| "set_call_ok e fr (SetIntersectionUpdate arg) \<longleftrightarrow> \<not> fr \<and> arg_ok e arg"
| "set_call_ok e fr (SetIsDisjoint arg) \<longleftrightarrow> arg_ok e arg"
| "set_call_ok e fr (SetIsSubset arg) \<longleftrightarrow> arg_ok e arg"
| "set_call_ok e fr (SetIsSuperset arg) \<longleftrightarrow> arg_ok e arg"
| "set_call_ok e fr (SetSymmetricDifference arg) \<longleftrightarrow> arg_ok e arg"
| "set_call_ok e fr (SetSymmetricDifferenceUpdate arg) \<longleftrightarrow> \<not> fr \<and> arg_ok e arg"
| "set_call_ok e fr (SetUnion arg) \<longleftrightarrow> arg_ok e arg"
| "set_call_ok e fr (SetUpdate args) \<longleftrightarrow> \<not> fr \<and> (\<forall>arg \<in> set args. arg_ok e arg)"
| "set_call_ok e fr (SetBinary op arg) \<longleftrightarrow> arg_ok e arg"
| "set_call_ok e fr _ \<longleftrightarrow> True"

section \<open>The same calls on a set of keys\<close>

fun py_set_op :: "set_binary \<Rightarrow> obj_key set \<Rightarrow> obj_key set \<Rightarrow> obj_key set + bool" where
  "py_set_op SetOr ks ls = Inl (ks \<union> ls)"
| "py_set_op SetXor ks ls = Inl ((ks - ls) \<union> (ls - ks))"
| "py_set_op SetAnd ks ls = Inl (ks \<inter> ls)"
| "py_set_op SetSubtract ks ls = Inl (ks - ls)"
| "py_set_op SetInplaceOr ks ls = Inl (ks \<union> ls)"
| "py_set_op SetInplaceXor ks ls = Inl ((ks - ls) \<union> (ls - ks))"
| "py_set_op SetInplaceAnd ks ls = Inl (ks \<inter> ls)"
| "py_set_op SetInplaceSubtract ks ls = Inl (ks - ls)"
| "py_set_op SetLess ks ls = Inr (ks \<subset> ls)"
| "py_set_op SetMore ks ls = Inr (ls \<subset> ks)"
| "py_set_op SetEqual ks ls = Inr (ks = ls)"
| "py_set_op SetLessEqual ks ls = Inr (ks \<subseteq> ls)"
| "py_set_op SetMoreEqual ks ls = Inr (ls \<subseteq> ks)"

definition inplace_op :: "set_binary \<Rightarrow> bool" where
  "inplace_op op \<longleftrightarrow> op \<in> {SetInplaceOr, SetInplaceXor, SetInplaceAnd, SetInplaceSubtract}"

definition new_set :: "64 word \<Rightarrow> bool \<Rightarrow> obj_key set \<Rightarrow> obj set_value \<Rightarrow> bool" where
  "new_set e fr ks r \<longleftrightarrow> (\<exists>s. r = SetNew s \<and> set_ok e s \<and> frozen s = fr \<and> py_set s = ks)"

text \<open>
  One call: the keys before, the reply and the keys afterwards. The new set of an intersection is a \<open>set\<close>, and
  the symmetric difference with an iterable counts its items.
\<close>

fun py_set_step :: "64 word \<Rightarrow> mp_int_t \<Rightarrow> bool \<Rightarrow> obj_key set \<Rightarrow> obj set_call \<Rightarrow> obj set_value \<Rightarrow> obj_key set \<Rightarrow> bool" where
  "py_set_step e tf fr ks (SetAdd x) r ks' \<longleftrightarrow> r = SetNone \<and> ks' = insert (key_of x) ks"
| "py_set_step e tf fr ks (SetDiscard x) r ks' \<longleftrightarrow> r = SetNone \<and> ks' = ks - {key_of x}"
| "py_set_step e tf fr ks (SetRemove x) r ks' \<longleftrightarrow>
     r = (if key_of x \<in> ks then SetNone else SetRaised (SetKeyError x)) \<and> ks' = ks - {key_of x}"
| "py_set_step e tf fr ks SetPop r ks' \<longleftrightarrow>
     (if ks = {} then r = SetRaised SetKeyErrorEmpty \<and> ks' = {}
      else \<exists>x. r = SetElem x \<and> key_of x \<in> ks \<and> ks' = ks - {key_of x})"
| "py_set_step e tf fr ks SetClear r ks' \<longleftrightarrow> r = SetNone \<and> ks' = {}"
| "py_set_step e tf fr ks SetCopy r ks' \<longleftrightarrow> new_set e fr ks r \<and> ks' = ks"
| "py_set_step e tf fr ks (SetContains x) r ks' \<longleftrightarrow> r = SetBool (key_of x \<in> ks) \<and> ks' = ks"
| "py_set_step e tf fr ks (SetDifference args) r ks' \<longleftrightarrow> new_set e fr (ks - (\<Union>arg \<in> set args. arg_val ks arg)) r \<and> ks' = ks"
| "py_set_step e tf fr ks (SetDifferenceUpdate args) r ks' \<longleftrightarrow> r = SetNone \<and> ks' = ks - (\<Union>arg \<in> set args. arg_val ks arg)"
| "py_set_step e tf fr ks (SetIntersection arg) r ks' \<longleftrightarrow> new_set e (fr \<and> arg = ArgSelf) (ks \<inter> arg_val ks arg) r \<and> ks' = ks"
| "py_set_step e tf fr ks (SetIntersectionUpdate arg) r ks' \<longleftrightarrow> r = SetNone \<and> ks' = ks \<inter> arg_val ks arg"
| "py_set_step e tf fr ks (SetIsDisjoint arg) r ks' \<longleftrightarrow> r = SetBool (ks \<inter> arg_val ks arg = {}) \<and> ks' = ks"
| "py_set_step e tf fr ks (SetIsSubset arg) r ks' \<longleftrightarrow> r = SetBool (ks \<subseteq> arg_val ks arg) \<and> ks' = ks"
| "py_set_step e tf fr ks (SetIsSuperset arg) r ks' \<longleftrightarrow> r = SetBool (arg_val ks arg \<subseteq> ks) \<and> ks' = ks"
| "py_set_step e tf fr ks (SetSymmetricDifference arg) r ks' \<longleftrightarrow> new_set e fr (xor_val ks arg) r \<and> ks' = ks"
| "py_set_step e tf fr ks (SetSymmetricDifferenceUpdate arg) r ks' \<longleftrightarrow> r = SetNone \<and> ks' = xor_val ks arg"
| "py_set_step e tf fr ks (SetUnion arg) r ks' \<longleftrightarrow> new_set e fr (ks \<union> arg_val ks arg) r \<and> ks' = ks"
| "py_set_step e tf fr ks (SetUpdate args) r ks' \<longleftrightarrow> r = SetNone \<and> ks' = ks \<union> (\<Union>arg \<in> set args. arg_val {} arg)"
| "py_set_step e tf fr ks (SetBinary op arg) r ks' \<longleftrightarrow>
     (if \<exists>xs. arg = ArgItems xs then r = SetNotSupported \<and> ks' = ks
      else case py_set_op op ks (arg_val ks arg) of
        Inr b \<Rightarrow> r = SetBool b \<and> ks' = ks
      | Inl v \<Rightarrow>
          if inplace_op op \<and> \<not> fr then r = SetSelf \<and> ks' = v
          else new_set e (fr \<and> (op = SetAnd \<or> op = SetInplaceAnd \<longrightarrow> arg = ArgSelf)) v r \<and> ks' = ks)"
| "py_set_step e tf fr ks (SetUnary SetOpBool) r ks' \<longleftrightarrow> r = SetBool (ks \<noteq> {}) \<and> ks' = ks"
| "py_set_step e tf fr ks (SetUnary SetOpLen) r ks' \<longleftrightarrow> r = SetInt (new_small_int (of_nat (card ks))) \<and> ks' = ks"
| "py_set_step e tf fr ks (SetUnary SetOpHash) r ks' \<longleftrightarrow>
     r = (if fr then SetInt (new_small_int (tf + (\<Sum>k \<in> ks. key_hash e k))) else SetNotSupported) \<and> ks' = ks"

lemma frozen_step: "set_call_ok e True c \<Longrightarrow> py_set_step e tf True ks c r ks' \<Longrightarrow> ks' = ks"
  by (induction e tf True ks c r ks' rule: py_set_step.induct) (auto split: sum.splits if_splits)

section \<open>Each call is a step\<close>

lemma set_xor_no_items: "\<not> (\<exists>xs. arg = ArgItems xs) \<Longrightarrow> xor_val ks arg = (ks - arg_val ks arg) \<union> (arg_val ks arg - ks)"
  by (cases arg) (auto simp: xor_val_def)

text \<open>What is left to show of a call that returns a new set, and of one that changes the set.\<close>

definition set_step_ok :: "64 word \<Rightarrow> mp_int_t \<Rightarrow> obj mp_obj_set \<Rightarrow> obj set_call \<Rightarrow> (obj mp_obj_set \<times> obj set_value) option \<Rightarrow> bool" where
  "set_step_ok e tf self c res \<longleftrightarrow>
     (\<exists>self' r. res = Some (self', r) \<and> set_ok e self' \<and> frozen self' = frozen self \<and>
        py_set_step e tf (frozen self) (py_set self) c r (py_set self'))"

lemma set_step_new:
  assumes "set_sim e fr res ks" "set_ok e self" "\<And>r. new_set e fr ks r \<Longrightarrow> py_set_step e tf (frozen self) (py_set self) c r (py_set self)"
  shows "set_step_ok e tf self c (set_new self res)"
  using assms by (auto simp: set_sim_def set_step_ok_def new_set_def)

lemma set_step_change:
  assumes "set_sim e (frozen self) res ks" "py_set_step e tf (frozen self) (py_set self) c v ks"
  shows "set_step_ok e tf self c (map_option (\<lambda>s. (s, v)) res)"
  using assms by (auto simp: set_sim_def set_step_ok_def)

lemma set_step_answer:
  assumes "res = Some b" "set_ok e self" "py_set_step e tf (frozen self) (py_set self) c (SetBool b) (py_set self)"
  shows "set_step_ok e tf self c (set_answer self res)"
  using assms by (simp add: set_step_ok_def)

lemma set_binary_step:
  assumes ok: "set_ok e self" and arg: "arg_ok e arg"
  shows "set_step_ok e tf self (SetBinary op arg) (set_binary_op (py_ops e) op self arg)"
proof (cases "\<exists>xs. arg = ArgItems xs")
  case True
  with ok show ?thesis by (auto simp: set_binary_op_def set_step_ok_def)
next
  case False
  let ?up = "\<not> frozen self"
  have run: "set_binary_op (py_ops e) op self arg =
      (case op of
         SetOr \<Rightarrow> set_new self (set_union (py_ops e) self arg)
       | SetXor \<Rightarrow> set_new self (set_symmetric_difference (py_ops e) self arg)
       | SetAnd \<Rightarrow> set_new self (set_intersect_int (py_ops e) self arg False)
       | SetSubtract \<Rightarrow> set_new self (set_diff_int (py_ops e) self [arg] False)
       | SetInplaceOr \<Rightarrow> if ?up then map_option (\<lambda>s. (s, SetSelf)) (set_update (py_ops e) self [arg])
           else set_new self (set_union (py_ops e) self arg)
       | SetInplaceXor \<Rightarrow> if ?up then map_option (\<lambda>s. (s, SetSelf)) (set_symmetric_difference_update (py_ops e) self arg)
           else set_new self (set_symmetric_difference (py_ops e) self arg)
       | SetInplaceAnd \<Rightarrow> if ?up then map_option (\<lambda>s. (s, SetSelf)) (set_intersect_int (py_ops e) self arg ?up)
           else set_new self (set_intersect_int (py_ops e) self arg ?up)
       | SetInplaceSubtract \<Rightarrow> if ?up then map_option (\<lambda>s. (s, SetSelf)) (set_diff_int (py_ops e) self [arg] ?up)
           else set_new self (set_diff_int (py_ops e) self [arg] ?up)
       | SetLess \<Rightarrow> set_answer self (set_issubset_internal (py_ops e) self ArgSelf arg True)
       | SetMore \<Rightarrow> set_answer self (set_issubset_internal (py_ops e) self arg ArgSelf True)
       | SetEqual \<Rightarrow> set_answer self (set_equal (py_ops e) self arg)
       | SetLessEqual \<Rightarrow> set_answer self (set_issubset_internal (py_ops e) self ArgSelf arg False)
       | SetMoreEqual \<Rightarrow> set_answer self (set_issubset_internal (py_ops e) self arg ArgSelf False))"
    using False by (cases arg; cases op) (simp_all add: set_binary_op_def Let_def set_intersect_def set_diff_def
      set_issubset_proper_def set_issuperset_proper_def set_issubset_def set_issuperset_def)
  have update: "set_sim e (frozen self) (set_update (py_ops e) self [arg]) (py_set self \<union> arg_val (py_set self) arg)" if "?up"
    using set_update_args_val [OF ok, of "[arg]"] arg that by (cases arg) (auto simp: set_update_def)
  have minus: "set_sim e (frozen self) (set_diff_int (py_ops e) self [arg] up) (py_set self - arg_val (py_set self) arg)"
    if "up \<longrightarrow> ?up" for up
    using set_diff_int_val [OF ok, of "[arg]" up] arg that by simp
  have inter: "set_sim e (frozen self) (set_intersect_int (py_ops e) self arg True) (py_set self \<inter> arg_val (py_set self) arg)" if "?up"
    using set_intersect_int_val [OF ok arg, of True] that by simp
  note new = set_union_val [OF ok arg] set_xor_copy [OF ok arg] set_intersect_int_val [OF ok arg, of False] minus [of False]
  note change = update set_loop_toggle [OF ok arg] inter minus [of True]
  note answer = set_issubset_internal_val [OF ok _ arg, of ArgSelf] set_issubset_internal_val [OF ok arg, of ArgSelf] set_equal_val [OF ok arg False]
  note step = set_xor_no_items [OF False] inplace_op_def False
  show ?thesis unfolding run
    by (cases op; cases "frozen self")
      (auto intro!: set_step_new [OF new(1) ok] set_step_new [OF new(2) ok] set_step_new [OF new(3) ok] set_step_new [OF new(4) ok]
        set_step_change [OF change(1)] set_step_change [OF change(2)] set_step_change [OF change(3)] set_step_change [OF change(4)]
        set_step_answer [OF answer(1) ok] set_step_answer [OF answer(2) ok] set_step_answer [OF answer(3) ok] simp: step)
qed

lemma set_exec_step:
  assumes ok: "set_ok e self" and call: "set_call_ok e (frozen self) c"
  shows "set_step_ok e tf self c (set_exec tf (py_ops e) self c)"
proof (cases c)
  case (SetDiscard x)
  with call set_each_remove [OF ok, of "[x]"] show ?thesis
    by (cases "set_do (py_ops e) MP_MAP_LOOKUP_REMOVE_IF_FOUND self x") (auto simp: set_discard_def set_sim_def set_step_ok_def)
next
  case (SetRemove x)
  obtain self' where "set_remove (py_ops e) self x = Some (self', if key_of x \<in> py_set self then Inr () else Inl (SetKeyError x))"
    "set_ok e self'" "frozen self' = frozen self" "py_set self' = py_set self - {key_of x}"
    by (rule set_remove_val [OF ok]) (use call SetRemove in simp_all)
  with SetRemove show ?thesis by (simp add: set_step_ok_def)
next
  case SetPop
  with call consider "py_set self = {}" "set_pop self = Some (self, Inl SetKeyErrorEmpty)"
    | self' x where "set_pop self = Some (self', Inr x)" "key_of x \<in> py_set self" "set_ok e self'" "frozen self' = frozen self"
        "py_set self' = py_set self - {key_of x}"
    using set_pop_val [OF ok] by auto
  then show ?thesis
  proof cases
    case 1
    with SetPop ok show ?thesis by (simp add: set_step_ok_def)
  next
    case 2
    then have "py_set self \<noteq> {}" by blast
    with 2 SetPop show ?thesis by (auto simp: set_step_ok_def)
  qed
next
  case (SetContains x)
  obtain s r where "mp_set_lookup (py_ops e) (set_set self) x MP_MAP_LOOKUP = Some (s, r)" "r = None \<longleftrightarrow> key_of x \<notin> py_set self"
    by (rule set_find_val [OF ok])
  then show ?thesis unfolding SetContains set_exec.simps
    by (intro set_step_answer [OF _ ok]) (auto simp: set_contains_def)
next
  case (SetUpdate args)
  with call have "set_sim e (frozen self) (set_update (py_ops e) self args) (py_set self \<union> (\<Union>arg \<in> set args. arg_val {} arg))"
    using set_update_args_val [OF ok, of args] by (simp add: set_update_def)
  then show ?thesis unfolding SetUpdate set_exec.simps by (rule set_step_change) simp
next
  case (SetIntersectionUpdate arg)
  with call set_intersect_int_val [OF ok, of arg True]
  have "set_sim e (frozen self) (set_intersect_update (py_ops e) self arg) (py_set self \<inter> arg_val (py_set self) arg)"
    by (simp add: set_intersect_update_def)
  then show ?thesis unfolding SetIntersectionUpdate set_exec.simps by (rule set_step_change) simp
next
  case (SetUnary op)
  have hash: "set_unary_op (py_ops e) tf SetOpHash self =
      (if frozen self then SetInt (new_small_int (tf + (\<Sum>k \<in> py_set self. key_hash e k))) else SetNotSupported)"
    using set_hash_val [OF ok] by (simp add: set_unary_op_def)
  show ?thesis unfolding SetUnary
    by (cases op) (use ok set_ok_items(3) [OF ok] in \<open>simp_all add: set_step_ok_def hash, simp_all add: set_unary_op_def card_eq_0_iff\<close>)
next
  case (SetBinary op arg)
  with call show ?thesis using set_binary_step [OF ok] by simp
next
  case SetClear
  with call set_clear_val [of self e] set_step_change [of e self "set_clear self" "{}" tf SetClear SetNone] show ?thesis by simp
next
  case (SetDifferenceUpdate args)
  with call set_diff_int_val [OF ok, of args True]
    set_step_change [of e self "set_diff_update (py_ops e) self args" _ tf "SetDifferenceUpdate args" SetNone]
  show ?thesis by (simp add: set_diff_update_def)
next
  case SetCopy
  with ok show ?thesis by (simp add: set_step_ok_def new_set_def)
qed (use call in \<open>auto intro!: set_step_change [OF set_add_val [OF ok]] set_step_new [OF set_diff_int_val [OF ok, where update = False] ok]
    set_step_new [OF set_intersect_int_val [OF ok, where update = False] ok] set_step_answer [OF set_isdisjoint_val [OF ok] ok]
    set_step_answer [OF set_issubset_internal_val [OF ok] ok] set_step_new [OF set_xor_copy [OF ok] ok]
    set_step_change [OF set_loop_toggle [OF ok]] set_step_new [OF set_union_val [OF ok] ok]
    simp: set_diff_def set_intersect_def set_issubset_def set_issuperset_def\<close>)

section \<open>Runs\<close>

fun set_run :: "mp_int_t \<Rightarrow> 'k obj_ops \<Rightarrow> 'k mp_obj_set \<Rightarrow> 'k set_call list \<Rightarrow> ('k mp_obj_set \<times> 'k set_value list) option" where
  "set_run tf ops self [] = Some (self, [])"
| "set_run tf ops self (c # cs) =
     (case set_exec tf ops self c of
        None \<Rightarrow> None
      | Some (self, r) \<Rightarrow> map_option (\<lambda>(self, rs). (self, r # rs)) (set_run tf ops self cs))"

inductive py_set_run ::
  "64 word \<Rightarrow> mp_int_t \<Rightarrow> bool \<Rightarrow> obj_key set \<Rightarrow> obj set_call list \<Rightarrow> obj set_value list \<Rightarrow> obj_key set \<Rightarrow> bool" for e tf fr where
  stop: "py_set_run e tf fr ks [] [] ks"
| step: "py_set_step e tf fr ks c r ls \<Longrightarrow> py_set_run e tf fr ls cs rs ms \<Longrightarrow> py_set_run e tf fr ks (c # cs) (r # rs) ms"

lemma frozen_run: "py_set_run e tf True ks cs rs ls \<Longrightarrow> \<forall>c \<in> set cs. set_call_ok e True c \<Longrightarrow> ls = ks"
  by (induction rule: py_set_run.induct) (use frozen_step in fastforce)+

lemma set_run_val:
  "set_ok e self \<Longrightarrow> \<forall>c \<in> set cs. set_call_ok e (frozen self) c \<Longrightarrow>
   \<exists>self' rs. set_run tf (py_ops e) self cs = Some (self', rs) \<and> set_ok e self' \<and> frozen self' = frozen self \<and>
     py_set_run e tf (frozen self) (py_set self) cs rs (py_set self')"
proof (induction cs arbitrary: self)
  case Nil
  then show ?case by (simp add: py_set_run.stop)
next
  case (Cons c cs)
  obtain s r where s: "set_exec tf (py_ops e) self c = Some (s, r)" "set_ok e s" "frozen s = frozen self"
    "py_set_step e tf (frozen self) (py_set self) c r (py_set s)"
    using set_exec_step [OF Cons.prems(1), of c tf] Cons.prems(2) by (auto simp: set_step_ok_def)
  obtain self' rs where "set_run tf (py_ops e) s cs = Some (self', rs)" "set_ok e self'" "frozen self' = frozen self"
    "py_set_run e tf (frozen self) (py_set s) cs rs (py_set self')"
    using Cons.IH [OF s(2)] Cons.prems(2) s(3) by auto
  with s show ?case by (auto intro: py_set_run.step)
qed

section \<open>Property\<close>

text \<open>
  C16: a set or frozen set made of the items of an iterable, and every run of calls of its methods and operators,
  the set itself among the operands: no call fails or runs on, the replies and the members are those of a set
  of keys, and a frozen set never changes.
\<close>

theorem set_runs_python:
  assumes "\<forall>c \<in> set cs. set_call_ok e fr c"
  shows "\<exists>self self' rs. set_make_new (py_ops e) fr (Some xs) = Some self \<and> set_run tf (py_ops e) self cs = Some (self', rs) \<and>
    set_ok e self' \<and> py_set_run e tf fr (key_of ` set xs) cs rs (py_set self') \<and> (fr \<longrightarrow> py_set self' = key_of ` set xs)"
proof -
  obtain self where "set_make_new (py_ops e) fr (Some xs) = Some self" "set_ok e self" "frozen self = fr" "py_set self = key_of ` set xs"
    using set_make_new_val [of e fr xs] unfolding set_sim_def by blast
  with set_run_val [of e self cs tf] assms frozen_run [of e tf "key_of ` set xs" cs] show ?thesis by fastforce
qed

definition set_of_five :: "obj mp_obj_set" where
  "set_of_five = \<lparr> frozen = True, set_set = \<lparr> set_used = 1, set_table = [Key (SmallInt 5)] \<rparr> \<rparr>"

lemma set_of_five_ok: "set_ok 0 set_of_five"
  by (simp add: set_ok_def set_inv_def set_of_five_def slots_inv_def n_keys_def on_path_def)

lemma set_runs_python_witness:
  "\<exists>self self' rs. set_make_new (py_ops 0) False (Some [SmallInt 1, SmallInt 5, BoolObj True]) = Some self \<and>
    set_run 8 (py_ops 0) self [SetRemove (SmallInt 9), SetBinary SetInplaceXor (ArgSet set_of_five), SetUpdate [ArgSelf], SetUnary SetOpLen] =
      Some (self', rs) \<and> set_ok 0 self' \<and>
    py_set_run 0 8 False {key_of (SmallInt 1), key_of (SmallInt 5)}
      [SetRemove (SmallInt 9), SetBinary SetInplaceXor (ArgSet set_of_five), SetUpdate [ArgSelf], SetUnary SetOpLen] rs (py_set self')"
proof -
  have "key_of ` set [SmallInt 1, SmallInt 5, BoolObj True] = {key_of (SmallInt 1), key_of (SmallInt 5)}" by auto
  with set_runs_python [of "[SetRemove (SmallInt 9), SetBinary SetInplaceXor (ArgSet set_of_five), SetUpdate [ArgSelf], SetUnary SetOpLen]"
      0 False "[SmallInt 1, SmallInt 5, BoolObj True]" 8] set_of_five_ok
  show ?thesis by simp
qed

end
