(* ===== verification/Gc.thy ===== *)
theory Gc
  imports Prelude
begin

text \<open>
  The garbage collector (\<open>py/gc.c\<close>) and the collection of the port
  (\<open>ports/k210-standalone/main.c\<close>), without finalisers as the port is configured. The allocation table
  is kept in bytes, four blocks in each, the pool in bytes, and pointers are addresses.
\<close>

section \<open>The allocation table\<close>

datatype at_kind = AT_FREE | AT_HEAD | AT_TAIL | AT_MARK

definition BLOCKS_PER_ATB :: nat where
  "BLOCKS_PER_ATB = 4"

definition BYTES_PER_BLOCK :: nat where
  "BYTES_PER_BLOCK = 32"

definition BLOCK_SHIFT :: "nat \<Rightarrow> nat" where
  "BLOCK_SHIFT block = 2 * (block mod BLOCKS_PER_ATB)"

text \<open>
  A byte of the table, or of the memory that follows it; what lies further behind is taken to be 0.
\<close>

definition table_byte :: "byte list \<Rightarrow> nat \<Rightarrow> byte" where
  "table_byte t i = (if i < length t then t ! i else 0)"

definition at_kind_of :: "byte \<Rightarrow> at_kind" where
  "at_kind_of a = (if a = 0 then AT_FREE else if a = 1 then AT_HEAD else if a = 2 then AT_TAIL else AT_MARK)"

definition ATB_GET_KIND :: "byte list \<Rightarrow> nat \<Rightarrow> at_kind" where
  "ATB_GET_KIND t block =
     at_kind_of (drop_bit (BLOCK_SHIFT block) (table_byte t (block div BLOCKS_PER_ATB)) AND 3)"

definition ATB_IS_FREE :: "nat \<Rightarrow> byte \<Rightarrow> bool" where
  "ATB_IS_FREE k a \<longleftrightarrow> a AND push_bit (2 * k) 3 = 0"

definition ATB_ANY_TO_FREE :: "byte list \<Rightarrow> nat \<Rightarrow> byte list" where
  "ATB_ANY_TO_FREE t block =
     (let i = block div BLOCKS_PER_ATB in t[i := t ! i AND NOT (push_bit (BLOCK_SHIFT block) 3)])"

definition ATB_FREE_TO_HEAD :: "byte list \<Rightarrow> nat \<Rightarrow> byte list" where
  "ATB_FREE_TO_HEAD t block =
     (let i = block div BLOCKS_PER_ATB in t[i := t ! i OR push_bit (BLOCK_SHIFT block) 1])"

definition ATB_FREE_TO_TAIL :: "byte list \<Rightarrow> nat \<Rightarrow> byte list" where
  "ATB_FREE_TO_TAIL t block =
     (let i = block div BLOCKS_PER_ATB in t[i := t ! i OR push_bit (BLOCK_SHIFT block) 2])"

definition ATB_HEAD_TO_MARK :: "byte list \<Rightarrow> nat \<Rightarrow> byte list" where
  "ATB_HEAD_TO_MARK t block =
     (let i = block div BLOCKS_PER_ATB in t[i := t ! i OR push_bit (BLOCK_SHIFT block) 3])"

definition ATB_MARK_TO_HEAD :: "byte list \<Rightarrow> nat \<Rightarrow> byte list" where
  "ATB_MARK_TO_HEAD t block =
     (let i = block div BLOCKS_PER_ATB in t[i := t ! i AND NOT (push_bit (BLOCK_SHIFT block) 2)])"

text \<open>What the five writes do to the kinds.\<close>

lemma byte_and_3: "at_kind_of (a AND 3) =
    (if bit a 0 then (if bit a 1 then AT_MARK else AT_HEAD) else (if bit a 1 then AT_TAIL else AT_FREE))"
proof -
  have "(3::byte) = mask 2" by (simp add: mask_eq_exp_minus_1)
  moreover have "a AND mask 2 = of_bool (bit a 0) OR of_bool (bit a 1) * 2"
    by (rule bit_word_eqI) (auto simp: bit_simps less_2_cases_iff)
  ultimately have "a AND 3 = of_bool (bit a 0) OR of_bool (bit a 1) * 2" by simp
  then show ?thesis by (cases "bit a 0"; cases "bit a 1") (simp_all add: at_kind_of_def)
qed

lemma ATB_GET_KIND_bits:
  "ATB_GET_KIND t b =
     (let a = table_byte t (b div 4); s = 2 * (b mod 4)
      in if bit a s then (if bit a (s + 1) then AT_MARK else AT_HEAD)
         else (if bit a (s + 1) then AT_TAIL else AT_FREE))"
  unfolding ATB_GET_KIND_def byte_and_3
  by (simp add: bit_drop_bit_eq BLOCK_SHIFT_def BLOCKS_PER_ATB_def Let_def add.commute)

lemma ATB_GET_KIND_outside: "4 * length t \<le> b \<Longrightarrow> ATB_GET_KIND t b = AT_FREE"
  by (simp add: ATB_GET_KIND_def table_byte_def BLOCKS_PER_ATB_def at_kind_of_def)

lemma kind_in_table: "ATB_GET_KIND t b \<noteq> AT_FREE \<Longrightarrow> b < 4 * length t"
  using ATB_GET_KIND_outside [of t b] by (cases "b < 4 * length t") auto

lemmas atb_writes = ATB_ANY_TO_FREE_def ATB_FREE_TO_HEAD_def ATB_FREE_TO_TAIL_def ATB_HEAD_TO_MARK_def
  ATB_MARK_TO_HEAD_def

lemma length_atb [simp]:
  "length (ATB_ANY_TO_FREE t b) = length t" "length (ATB_FREE_TO_HEAD t b) = length t"
  "length (ATB_FREE_TO_TAIL t b) = length t" "length (ATB_HEAD_TO_MARK t b) = length t"
  "length (ATB_MARK_TO_HEAD t b) = length t"
  by (simp_all add: atb_writes Let_def)

lemma atb_outside: "4 * length t \<le> b \<Longrightarrow> t[b div 4 := x] = t"
  by (intro list_update_beyond) simp

text \<open>A write to the two bits of one block leaves the bits of the others.\<close>

lemma atb_update_kind:
  assumes "b < 4 * length t"
    and "\<And>j. j < 8 \<Longrightarrow> j \<noteq> 2 * (b mod 4) \<Longrightarrow> j \<noteq> 2 * (b mod 4) + 1 \<Longrightarrow> bit x j \<longleftrightarrow> bit (t ! (b div 4)) j"
  shows "c \<noteq> b \<Longrightarrow> ATB_GET_KIND (t[b div 4 := x]) c = ATB_GET_KIND t c"
    and "ATB_GET_KIND (t[b div 4 := x]) b =
      (if bit x (2 * (b mod 4)) then (if bit x (2 * (b mod 4) + 1) then AT_MARK else AT_HEAD)
       else (if bit x (2 * (b mod 4) + 1) then AT_TAIL else AT_FREE))"
proof -
  have i: "b div 4 < length t" using assms(1) by linarith
  show "ATB_GET_KIND (t[b div 4 := x]) b =
      (if bit x (2 * (b mod 4)) then (if bit x (2 * (b mod 4) + 1) then AT_MARK else AT_HEAD)
       else (if bit x (2 * (b mod 4) + 1) then AT_TAIL else AT_FREE))"
    using i by (simp add: ATB_GET_KIND_bits table_byte_def Let_def)
  assume "c \<noteq> b"
  show "ATB_GET_KIND (t[b div 4 := x]) c = ATB_GET_KIND t c"
  proof (cases "c div 4 = b div 4")
    case True
    with \<open>c \<noteq> b\<close> have ne: "c mod 4 \<noteq> b mod 4" by (metis div_mult_mod_eq)
    have pos: "2 * x < 8 \<and> 2 * x \<noteq> 2 * y \<and> 2 * x \<noteq> 2 * y + 1 \<and> 2 * x + 1 < 8 \<and> 2 * x + 1 \<noteq> 2 * y \<and> 2 * x + 1 \<noteq> 2 * y + 1"
      if "x \<noteq> y" "x < 4" for x y :: nat using that by presburger
    have "c mod 4 < 4" by simp
    note pos = pos [OF ne this]
    have "bit x (2 * (c mod 4)) \<longleftrightarrow> bit (t ! (b div 4)) (2 * (c mod 4))"
      "bit x (2 * (c mod 4) + 1) \<longleftrightarrow> bit (t ! (b div 4)) (2 * (c mod 4) + 1)"
      using assms(2) [of "2 * (c mod 4)"] assms(2) [of "2 * (c mod 4) + 1"] pos by blast+
    with True i show ?thesis by (simp add: ATB_GET_KIND_bits table_byte_def Let_def)
  next
    case False
    then show ?thesis by (simp add: ATB_GET_KIND_bits table_byte_def Let_def)
  qed
qed

text \<open>The two bits of a block in the constants that are written.\<close>

lemma byte_zero: "(x :: byte) = 0 \<longleftrightarrow> (\<forall>j < 8. \<not> bit x j)"
  by (auto intro!: bit_word_eqI)

lemma shift_bits_at:
  assumes "k < 4" "j < 8"
  shows "bit (push_bit (2 * k) (3 :: byte)) j \<longleftrightarrow> j = 2 * k \<or> j = 2 * k + 1"
    and "bit (push_bit (2 * k) (2 :: byte)) j \<longleftrightarrow> j = 2 * k + 1"
    and "bit (push_bit (2 * k) (1 :: byte)) j \<longleftrightarrow> j = 2 * k"
proof -
  have "k \<in> {0, 1, 2, 3}" "j \<in> {0, 1, 2, 3, 4, 5, 6, 7}" using assms by auto
  then show "bit (push_bit (2 * k) (3 :: byte)) j \<longleftrightarrow> j = 2 * k \<or> j = 2 * k + 1"
    "bit (push_bit (2 * k) (2 :: byte)) j \<longleftrightarrow> j = 2 * k + 1" "bit (push_bit (2 * k) (1 :: byte)) j \<longleftrightarrow> j = 2 * k"
    by (elim insertE emptyE; simp)+
qed

lemma mod_4_lt: "b mod 4 < (4::nat)"
  by simp

lemmas shift_bits = shift_bits_at [OF mod_4_lt]

lemma shift_lt: "2 * (b mod 4) < 8" "2 * (b mod 4) + 1 < (8::nat)"
  by presburger+

lemma bit_byte_not: "j < 8 \<Longrightarrow> bit (NOT (x :: byte)) j \<longleftrightarrow> \<not> bit x j"
  by (simp add: bit_not_iff)

lemma kind_any_to_free: "ATB_GET_KIND (ATB_ANY_TO_FREE t b) c = (if c = b then AT_FREE else ATB_GET_KIND t c)"
proof (cases "b < 4 * length t")
  case True
  note u = atb_update_kind [OF True, of "t ! (b div 4) AND NOT (push_bit (2 * (b mod 4)) 3)"]
  show ?thesis
    unfolding ATB_ANY_TO_FREE_def BLOCK_SHIFT_def BLOCKS_PER_ATB_def Let_def
    using u shift_lt [of b] by (auto simp: bit_and_iff bit_byte_not shift_bits)
next
  case False
  then show ?thesis
    by (simp add: ATB_ANY_TO_FREE_def BLOCK_SHIFT_def BLOCKS_PER_ATB_def Let_def atb_outside ATB_GET_KIND_outside)
qed

lemma kind_bits_free:
  assumes "b < 4 * length t" "ATB_GET_KIND t b = AT_FREE"
  shows "\<not> bit (t ! (b div 4)) (2 * (b mod 4))" "\<not> bit (t ! (b div 4)) (2 * (b mod 4) + 1)"
proof -
  have "b div 4 < length t" using assms(1) by linarith
  with assms(2) show "\<not> bit (t ! (b div 4)) (2 * (b mod 4))" "\<not> bit (t ! (b div 4)) (2 * (b mod 4) + 1)"
    by (auto simp: ATB_GET_KIND_bits table_byte_def Let_def split: if_splits)
qed

lemma kind_free_to_head:
  assumes "b < 4 * length t" "ATB_GET_KIND t b = AT_FREE"
  shows "ATB_GET_KIND (ATB_FREE_TO_HEAD t b) c = (if c = b then AT_HEAD else ATB_GET_KIND t c)"
  unfolding ATB_FREE_TO_HEAD_def BLOCK_SHIFT_def BLOCKS_PER_ATB_def Let_def
  using atb_update_kind [OF assms(1), of "t ! (b div 4) OR push_bit (2 * (b mod 4)) 1"] shift_lt [of b]
    kind_bits_free [OF assms] by (auto simp: bit_or_iff shift_bits simp del: push_bit_of_1)

lemma kind_free_to_tail:
  assumes "b < 4 * length t" "ATB_GET_KIND t b = AT_FREE"
  shows "ATB_GET_KIND (ATB_FREE_TO_TAIL t b) c = (if c = b then AT_TAIL else ATB_GET_KIND t c)"
  unfolding ATB_FREE_TO_TAIL_def BLOCK_SHIFT_def BLOCKS_PER_ATB_def Let_def
  using atb_update_kind [OF assms(1), of "t ! (b div 4) OR push_bit (2 * (b mod 4)) 2"] shift_lt [of b]
    kind_bits_free [OF assms] by (auto simp: bit_or_iff shift_bits simp del: push_bit_of_1)

lemma kind_head_to_mark:
  assumes "b < 4 * length t"
  shows "ATB_GET_KIND (ATB_HEAD_TO_MARK t b) c = (if c = b then AT_MARK else ATB_GET_KIND t c)"
  unfolding ATB_HEAD_TO_MARK_def BLOCK_SHIFT_def BLOCKS_PER_ATB_def Let_def
  using atb_update_kind [OF assms(1), of "t ! (b div 4) OR push_bit (2 * (b mod 4)) 3"] shift_lt [of b]
  by (auto simp: bit_or_iff shift_bits)

lemma kind_mark_to_head:
  assumes "b < 4 * length t" "ATB_GET_KIND t b = AT_MARK"
  shows "ATB_GET_KIND (ATB_MARK_TO_HEAD t b) c = (if c = b then AT_HEAD else ATB_GET_KIND t c)"
proof -
  have "b div 4 < length t" using assms(1) by linarith
  with assms(2) have "bit (t ! (b div 4)) (2 * (b mod 4))"
    by (auto simp: ATB_GET_KIND_bits table_byte_def Let_def split: if_splits)
  then show ?thesis
    unfolding ATB_MARK_TO_HEAD_def BLOCK_SHIFT_def BLOCKS_PER_ATB_def Let_def
    using atb_update_kind [OF assms(1), of "t ! (b div 4) AND NOT (push_bit (2 * (b mod 4)) 2)"] shift_lt [of b]
    by (auto simp: bit_and_iff bit_byte_not shift_bits)
qed

lemma two_bits: "m < (8::nat) \<Longrightarrow> n < 8 \<Longrightarrow> (\<forall>j < 8. \<not> (P j \<and> (j = m \<or> j = n))) \<longleftrightarrow> \<not> P m \<and> \<not> P n"
  by blast

lemma atb_is_free:
  assumes "b < 4 * length t"
  shows "ATB_IS_FREE (b mod 4) (t ! (b div 4)) \<longleftrightarrow> ATB_GET_KIND t b = AT_FREE"
proof -
  define x where "x = t ! (b div 4)"
  have i: "b div 4 < length t" using assms by linarith
  have "x AND push_bit (2 * (b mod 4)) 3 = 0 \<longleftrightarrow>
      (\<forall>j < 8. \<not> (bit x j \<and> (j = 2 * (b mod 4) \<or> j = 2 * (b mod 4) + 1)))"
    by (simp add: byte_zero bit_and_iff shift_bits)
  also have "\<dots> \<longleftrightarrow> \<not> bit x (2 * (b mod 4)) \<and> \<not> bit x (2 * (b mod 4) + 1)"
    by (rule two_bits [OF shift_lt])
  finally show ?thesis
    using i by (simp add: ATB_IS_FREE_def ATB_GET_KIND_bits table_byte_def Let_def x_def)
qed

section \<open>The heap\<close>

text \<open>
  The fields of \<open>mp_state_mem_t\<close>. \<open>gc_alloc_table\<close> is the memory from \<open>gc_alloc_table_start\<close> on, the table
  and what follows it; \<open>gc_pool\<close> is the memory of the pool. \<open>gc_finaliser_table_start\<close> is not configured.
\<close>

record gc_heap =
  gc_alloc_table :: "byte list"
  gc_alloc_table_byte_len :: nat
  gc_pool_start :: nat
  gc_pool :: "byte list"
  gc_stack_overflow :: bool
  gc_lock_depth :: "16 word"
  gc_auto_collect_enabled :: bool
  gc_alloc_amount :: "64 word"
  gc_alloc_threshold :: "64 word"
  gc_last_free_atb_index :: nat

definition gc_blocks :: "gc_heap \<Rightarrow> nat" where
  "gc_blocks h = gc_alloc_table_byte_len h * BLOCKS_PER_ATB"

definition gc_pool_end :: "gc_heap \<Rightarrow> nat" where
  "gc_pool_end h = gc_pool_start h + gc_blocks h * BYTES_PER_BLOCK"

abbreviation gc_kind :: "gc_heap \<Rightarrow> nat \<Rightarrow> at_kind" where
  "gc_kind h \<equiv> ATB_GET_KIND (gc_alloc_table h)"

definition VERIFY_PTR :: "gc_heap \<Rightarrow> nat \<Rightarrow> bool" where
  "VERIFY_PTR h ptr \<longleftrightarrow> ptr mod BYTES_PER_BLOCK = 0 \<and> gc_pool_start h \<le> ptr \<and> ptr < gc_pool_end h"

definition BLOCK_FROM_PTR :: "gc_heap \<Rightarrow> nat \<Rightarrow> nat" where
  "BLOCK_FROM_PTR h ptr = (ptr - gc_pool_start h) div BYTES_PER_BLOCK"

definition PTR_FROM_BLOCK :: "gc_heap \<Rightarrow> nat \<Rightarrow> nat" where
  "PTR_FROM_BLOCK h block = block * BYTES_PER_BLOCK + gc_pool_start h"

text \<open>\<open>gc_init\<close> on the memory from \<open>start\<close> to \<open>end\<close>, which holds \<open>mem\<close> behind the table.\<close>

definition gc_init :: "nat \<Rightarrow> nat \<Rightarrow> byte list \<Rightarrow> byte list \<Rightarrow> gc_heap" where
  "gc_init start end_ptr mem pool_mem =
     (let end_ptr = end_ptr - end_ptr mod BYTES_PER_BLOCK;
          total_byte_len = end_ptr - start;
          byte_len = total_byte_len div (1 + 8 div 2 * BYTES_PER_BLOCK);
          gc_pool_block_len = byte_len * BLOCKS_PER_ATB
      in \<lparr> gc_alloc_table = replicate byte_len 0 @ mem, gc_alloc_table_byte_len = byte_len,
           gc_pool_start = end_ptr - gc_pool_block_len * BYTES_PER_BLOCK, gc_pool = pool_mem,
           gc_stack_overflow = False, gc_lock_depth = 0, gc_auto_collect_enabled = True,
           gc_alloc_amount = 0, gc_alloc_threshold = - 1, gc_last_free_atb_index = 0 \<rparr>)"

definition gc_lock :: "gc_heap \<Rightarrow> gc_heap" where
  "gc_lock h = h\<lparr>gc_lock_depth := gc_lock_depth h + 1\<rparr>"

definition gc_unlock :: "gc_heap \<Rightarrow> gc_heap" where
  "gc_unlock h = h\<lparr>gc_lock_depth := gc_lock_depth h - 1\<rparr>"

definition gc_is_locked :: "gc_heap \<Rightarrow> bool" where
  "gc_is_locked h \<longleftrightarrow> gc_lock_depth h \<noteq> 0"

section \<open>Marking\<close>

text \<open>\<open>do n_blocks += 1 while (ATB_GET_KIND(block + n_blocks) == AT_TAIL)\<close>\<close>

function gc_chain_len :: "byte list \<Rightarrow> nat \<Rightarrow> nat" where
  "gc_chain_len t block = (if ATB_GET_KIND t (block + 1) = AT_TAIL then Suc (gc_chain_len t (block + 1)) else 1)"
  by auto
termination
proof (relation "measure (\<lambda>(t, block). 4 * length t - block)")
  fix t block
  assume "ATB_GET_KIND t (block + 1) = AT_TAIL"
  then have "block + 1 < 4 * length t" by (intro kind_in_table) simp
  then show "((t, block + 1), (t, block)) \<in> measure (\<lambda>(t, block). 4 * length t - block)" by auto
qed simp

declare gc_chain_len.simps [simp del]

text \<open>The pointers that a word of the pool and a chain of blocks hold.\<close>

definition gc_word :: "gc_heap \<Rightarrow> nat \<Rightarrow> nat" where
  "gc_word h i = bytes_val (take 8 (drop (8 * i) (gc_pool h)))"

definition gc_chain_ptrs :: "gc_heap \<Rightarrow> nat \<Rightarrow> nat list" where
  "gc_chain_ptrs h block =
     map (gc_word h) [block * BYTES_PER_BLOCK div 8 ..<
       (block + gc_chain_len (gc_alloc_table h) block) * BYTES_PER_BLOCK div 8]"

definition MICROPY_ALLOC_GC_STACK_SIZE :: nat where
  "MICROPY_ALLOC_GC_STACK_SIZE = 64"

text \<open>One pointer: an unmarked head is marked and pushed; a full stack is noted instead.\<close>

definition gc_mark_ptr :: "nat \<Rightarrow> gc_heap \<times> nat list \<Rightarrow> gc_heap \<times> nat list" where
  "gc_mark_ptr ptr s =
     (let (h, stack) = s; childblock = BLOCK_FROM_PTR h ptr
      in if VERIFY_PTR h ptr \<and> gc_kind h childblock = AT_HEAD then
           let h = h\<lparr>gc_alloc_table := ATB_HEAD_TO_MARK (gc_alloc_table h) childblock\<rparr>
           in if length stack < MICROPY_ALLOC_GC_STACK_SIZE then (h, childblock # stack)
              else (h\<lparr>gc_stack_overflow := True\<rparr>, stack)
         else (h, stack))"

text \<open>What is left to mark.\<close>

definition gc_heads :: "gc_heap \<Rightarrow> nat set" where
  "gc_heads h = {b. gc_kind h b = AT_HEAD}"

lemma finite_gc_heads: "finite (gc_heads h)"
proof (rule finite_subset)
  show "gc_heads h \<subseteq> {..< 4 * length (gc_alloc_table h)}"
    by (auto simp: gc_heads_def intro: kind_in_table)
qed simp

lemma gc_heads_mark:
  assumes "gc_kind h b = AT_HEAD"
  shows "gc_heads (h\<lparr>gc_alloc_table := ATB_HEAD_TO_MARK (gc_alloc_table h) b\<rparr>) = gc_heads h - {b}"
proof -
  have "b < 4 * length (gc_alloc_table h)"
    using assms by (intro kind_in_table) simp
  then show ?thesis by (auto simp: gc_heads_def kind_head_to_mark)
qed

lemma gc_heads_update [simp]: "gc_heads (h\<lparr>gc_stack_overflow := x\<rparr>) = gc_heads h"
  by (simp add: gc_heads_def)

lemma card_gc_heads_mark:
  "gc_kind h b = AT_HEAD \<Longrightarrow>
   card (gc_heads (h\<lparr>gc_alloc_table := ATB_HEAD_TO_MARK (gc_alloc_table h) b\<rparr>)) + 1 = card (gc_heads h)"
proof -
  assume b: "gc_kind h b = AT_HEAD"
  then have "b \<in> gc_heads h" by (simp add: gc_heads_def)
  then have "Suc (card (gc_heads h - {b})) = card (gc_heads h)" by (rule card_Suc_Diff1 [OF finite_gc_heads])
  with gc_heads_mark [OF b] show ?thesis by simp
qed

lemma gc_mark_ptr_measure:
  "card (gc_heads (fst (gc_mark_ptr p s))) + length (snd (gc_mark_ptr p s)) \<le> card (gc_heads (fst s)) + length (snd s)"
  using card_gc_heads_mark [of "fst s" "BLOCK_FROM_PTR (fst s) p"]
  by (cases s) (auto simp: gc_mark_ptr_def Let_def)

lemma gc_mark_ptrs_measure:
  "card (gc_heads (fst (fold gc_mark_ptr ps s))) + length (snd (fold gc_mark_ptr ps s)) \<le>
   card (gc_heads (fst s)) + length (snd s)"
proof (induction ps arbitrary: s)
  case (Cons p ps)
  show ?case using Cons.IH [of "gc_mark_ptr p s"] gc_mark_ptr_measure [of p s] by simp
qed simp

text \<open>\<open>gc_mark_subtree\<close>: the stack with its top first.\<close>

function gc_mark_subtree :: "gc_heap \<Rightarrow> nat \<Rightarrow> nat list \<Rightarrow> gc_heap" where
  "gc_mark_subtree h block stack =
     (case fold gc_mark_ptr (gc_chain_ptrs h block) (h, stack) of
        (h, []) \<Rightarrow> h
      | (h, block # stack) \<Rightarrow> gc_mark_subtree h block stack)"
  by auto
termination
proof (relation "measure (\<lambda>(h, block, stack). card (gc_heads h) + length stack)")
  fix h block stack h' y block' stack'
  assume "(h', y) = fold gc_mark_ptr (gc_chain_ptrs h block) (h, stack)" "y = block' # stack'"
  then have "fold gc_mark_ptr (gc_chain_ptrs h block) (h, stack) = (h', block' # stack')" by simp
  then show "((h', block', stack'), (h, block, stack)) \<in> measure (\<lambda>(h, block, stack). card (gc_heads h) + length stack)"
    using gc_mark_ptrs_measure [of "gc_chain_ptrs h block" "(h, stack)"] by simp
qed simp

declare gc_mark_subtree.simps [simp del]

text \<open>
  Marking goes on: heads are only ever turned into marks, and each time the stack overflows one head
  less is left.
\<close>

definition gc_marks_on :: "gc_heap \<Rightarrow> gc_heap \<Rightarrow> bool" where
  "gc_marks_on h h' \<longleftrightarrow>
     card (gc_heads h') \<le> card (gc_heads h) \<and> (gc_stack_overflow h \<longrightarrow> gc_stack_overflow h') \<and>
     (gc_stack_overflow h' \<and> \<not> gc_stack_overflow h \<longrightarrow> card (gc_heads h') < card (gc_heads h))"

lemma gc_marks_on_refl [simp]: "gc_marks_on h h"
  by (simp add: gc_marks_on_def)

lemma gc_marks_on_trans: "gc_marks_on a b \<Longrightarrow> gc_marks_on b c \<Longrightarrow> gc_marks_on a c"
  unfolding gc_marks_on_def by linarith

lemma gc_mark_ptr_on: "gc_marks_on (fst s) (fst (gc_mark_ptr p s))"
proof (cases s)
  case (Pair h stack)
  then show ?thesis
    using card_gc_heads_mark [of h "BLOCK_FROM_PTR h p"]
    by (auto simp: gc_mark_ptr_def Let_def gc_marks_on_def)
qed

lemma gc_mark_ptrs_on: "gc_marks_on (fst s) (fst (fold gc_mark_ptr ps s))"
proof (induction ps arbitrary: s)
  case (Cons p ps)
  then show ?case using gc_marks_on_trans [OF gc_mark_ptr_on [of s p] Cons.IH [of "gc_mark_ptr p s"]] by simp
qed simp

lemma gc_mark_subtree_on: "gc_marks_on h (gc_mark_subtree h block stack)"
proof (induction h block stack rule: gc_mark_subtree.induct)
  case (1 h block stack)
  obtain h' st' where run: "fold gc_mark_ptr (gc_chain_ptrs h block) (h, stack) = (h', st')"
    by (cases "fold gc_mark_ptr (gc_chain_ptrs h block) (h, stack)")
  with gc_mark_ptrs_on [of "(h, stack)" "gc_chain_ptrs h block"] have on: "gc_marks_on h h'" by simp
  show ?case
  proof (cases st')
    case Nil
    with run on show ?thesis by (simp add: gc_mark_subtree.simps [of h])
  next
    case (Cons b st)
    have "gc_mark_subtree h block stack = gc_mark_subtree h' b st"
      by (simp add: gc_mark_subtree.simps [of h] run Cons)
    with gc_marks_on_trans [OF on 1 [OF run [symmetric] Cons]] show ?thesis by simp
  qed
qed

text \<open>One scan over the marked blocks, and scans until the stack does not overflow.\<close>

definition gc_scan_block :: "nat \<Rightarrow> gc_heap \<Rightarrow> gc_heap" where
  "gc_scan_block block h = (if gc_kind h block = AT_MARK then gc_mark_subtree h block [] else h)"

definition gc_scan_marked :: "gc_heap \<Rightarrow> gc_heap" where
  "gc_scan_marked h = fold gc_scan_block [0 ..< gc_blocks h] h"

lemma gc_scan_blocks_on: "gc_marks_on h (fold gc_scan_block bs h)"
proof (induction bs arbitrary: h)
  case (Cons b bs)
  have "gc_marks_on h (gc_scan_block b h)" by (simp add: gc_scan_block_def gc_mark_subtree_on)
  from gc_marks_on_trans [OF this Cons.IH] show ?case by simp
qed simp

function gc_deal_with_stack_overflow :: "gc_heap \<Rightarrow> gc_heap" where
  "gc_deal_with_stack_overflow h =
     (if gc_stack_overflow h then gc_deal_with_stack_overflow (gc_scan_marked (h\<lparr>gc_stack_overflow := False\<rparr>))
      else h)"
  by auto
termination
proof (relation "measure (\<lambda>h. 2 * card (gc_heads h) + of_bool (gc_stack_overflow h))")
  fix h :: gc_heap
  assume "gc_stack_overflow h"
  moreover have "gc_marks_on (h\<lparr>gc_stack_overflow := False\<rparr>) (gc_scan_marked (h\<lparr>gc_stack_overflow := False\<rparr>))"
    unfolding gc_scan_marked_def by (rule gc_scan_blocks_on)
  ultimately show "(gc_scan_marked (h\<lparr>gc_stack_overflow := False\<rparr>), h) \<in>
      measure (\<lambda>h. 2 * card (gc_heads h) + of_bool (gc_stack_overflow h))"
    by (cases "gc_stack_overflow (gc_scan_marked (h\<lparr>gc_stack_overflow := False\<rparr>))") (auto simp: gc_marks_on_def)
qed simp

declare gc_deal_with_stack_overflow.simps [simp del]

section \<open>Sweeping and collecting\<close>

definition gc_sweep_block :: "nat \<Rightarrow> byte list \<times> bool \<Rightarrow> byte list \<times> bool" where
  "gc_sweep_block block s =
     (let (t, free_tail) = s
      in case ATB_GET_KIND t block of
        AT_HEAD \<Rightarrow> (ATB_ANY_TO_FREE t block, True)
      | AT_TAIL \<Rightarrow> (if free_tail then ATB_ANY_TO_FREE t block else t, free_tail)
      | AT_MARK \<Rightarrow> (ATB_MARK_TO_HEAD t block, False)
      | AT_FREE \<Rightarrow> (t, free_tail))"

definition gc_sweep :: "gc_heap \<Rightarrow> gc_heap" where
  "gc_sweep h = h\<lparr>gc_alloc_table := fst (fold gc_sweep_block [0 ..< gc_blocks h] (gc_alloc_table h, False))\<rparr>"

definition gc_root_ptr :: "nat \<Rightarrow> gc_heap \<Rightarrow> gc_heap" where
  "gc_root_ptr ptr h =
     (let block = BLOCK_FROM_PTR h ptr
      in if VERIFY_PTR h ptr \<and> gc_kind h block = AT_HEAD
         then gc_mark_subtree (h\<lparr>gc_alloc_table := ATB_HEAD_TO_MARK (gc_alloc_table h) block\<rparr>) block []
         else h)"

definition gc_collect_root :: "nat list \<Rightarrow> gc_heap \<Rightarrow> gc_heap" where
  "gc_collect_root ptrs h = fold gc_root_ptr ptrs h"

text \<open>\<open>state_ptrs\<close> are the words of \<open>mp_state_ctx\<close> in front of \<open>qstr_last_chunk\<close>.\<close>

definition gc_collect_start :: "nat list \<Rightarrow> gc_heap \<Rightarrow> gc_heap" where
  "gc_collect_start state_ptrs h =
     gc_collect_root state_ptrs
       (h\<lparr>gc_lock_depth := gc_lock_depth h + 1, gc_alloc_amount := 0, gc_stack_overflow := False\<rparr>)"

definition gc_collect_end :: "gc_heap \<Rightarrow> gc_heap" where
  "gc_collect_end h =
     (let h = gc_sweep (gc_deal_with_stack_overflow h)
      in h\<lparr>gc_last_free_atb_index := 0, gc_lock_depth := gc_lock_depth h - 1\<rparr>)"

text \<open>The port's \<open>gc_collect\<close>; \<open>stack_ptrs\<close> are the words of the C stack.\<close>

definition gc_collect :: "nat list \<times> nat list \<Rightarrow> gc_heap \<Rightarrow> gc_heap" where
  "gc_collect roots h =
     (let (state_ptrs, stack_ptrs) = roots
      in gc_collect_end (gc_collect_root stack_ptrs (gc_collect_start state_ptrs h)))"

section \<open>Allocating\<close>

definition gc_blocks_for :: "64 word \<Rightarrow> nat" where
  "gc_blocks_for n_bytes = unat ((n_bytes + of_nat BYTES_PER_BLOCK - 1) AND NOT (of_nat BYTES_PER_BLOCK - 1)) div BYTES_PER_BLOCK"

text \<open>The search for a run: the last block and the length of the run, or the free blocks at the end.\<close>

function gc_find_run :: "byte list \<Rightarrow> nat \<Rightarrow> nat \<Rightarrow> nat \<Rightarrow> nat \<Rightarrow> (nat \<times> nat) + nat" where
  "gc_find_run t n n_blocks block n_free =
     (if block < n then
        (if ATB_IS_FREE (block mod BLOCKS_PER_ATB) (table_byte t (block div BLOCKS_PER_ATB)) then
           (if n_free + 1 \<ge> n_blocks then Inl (block, n_free + 1)
            else gc_find_run t n n_blocks (block + 1) (n_free + 1))
         else gc_find_run t n n_blocks (block + 1) 0)
      else Inr n_free)"
  by auto
termination
  by (relation "measure (\<lambda>(t, n, n_blocks, block, n_free). n - block)") auto

declare gc_find_run.simps [simp del]

definition gc_find_free :: "gc_heap \<Rightarrow> nat \<Rightarrow> nat \<Rightarrow> (nat \<times> nat) + nat" where
  "gc_find_free h n_blocks n_free =
     gc_find_run (gc_alloc_table h) (gc_blocks h) n_blocks (gc_last_free_atb_index h * BLOCKS_PER_ATB) n_free"

definition gc_zero :: "nat \<Rightarrow> nat \<Rightarrow> byte list \<Rightarrow> byte list" where
  "gc_zero a b p = take a p @ replicate (b - a) 0 @ drop b p"

text \<open>
  The label \<open>found\<close>: a run ends at block \<open>i\<close>, and the count of free blocks says where it starts. The
  subtraction of the code wraps; a start below 0 is a block in front of the table, where the code writes
  outside it, and the model stops with \<open>None\<close>. All the new blocks are zeroed, as
  \<open>MICROPY_GC_CONSERVATIVE_CLEAR\<close> has it, which is on where the collector is.
\<close>

definition gc_start_block :: "nat \<Rightarrow> nat \<Rightarrow> int" where
  "gc_start_block i n_free = int i - int n_free + 1"

definition gc_claim :: "gc_heap \<Rightarrow> nat \<Rightarrow> nat \<Rightarrow> nat \<Rightarrow> (gc_heap \<times> nat option) option" where
  "gc_claim h n_blocks i n_free =
     (if gc_start_block i n_free < 0 then None
      else
        let end_block = i;
            start_block = nat (gc_start_block i n_free);
            h = (if n_free = 1 then h\<lparr>gc_last_free_atb_index := (i + 1) div BLOCKS_PER_ATB\<rparr> else h);
            t = ATB_FREE_TO_HEAD (gc_alloc_table h) start_block;
            t = fold (\<lambda>bl t. ATB_FREE_TO_TAIL t bl) [start_block + 1 ..< end_block + 1] t
        in Some (h\<lparr>gc_alloc_table := t, gc_alloc_amount := gc_alloc_amount h + of_nat n_blocks,
                   gc_pool := gc_zero (start_block * BYTES_PER_BLOCK) ((end_block + 1) * BYTES_PER_BLOCK)
                     (gc_pool h)\<rparr>,
                 Some (gc_pool_start h + start_block * BYTES_PER_BLOCK)))"

definition gc_alloc :: "nat list \<times> nat list \<Rightarrow> gc_heap \<Rightarrow> 64 word \<Rightarrow> (gc_heap \<times> nat option) option" where
  "gc_alloc roots h n_bytes =
     (let n_blocks = gc_blocks_for n_bytes
      in if n_blocks = 0 then Some (h, None)
         else if gc_lock_depth h > 0 then Some (h, None)
         else
           let collected = (\<not> gc_auto_collect_enabled h);
               h = (if \<not> collected \<and> gc_alloc_amount h \<ge> gc_alloc_threshold h then gc_collect roots h else h)
           in case gc_find_free h n_blocks 0 of
             Inl (i, n_free) \<Rightarrow> gc_claim h n_blocks i n_free
           | Inr n_free \<Rightarrow>
               (if collected then Some (h, None)
                else
                  let h = gc_collect roots h
                  in case gc_find_free h n_blocks n_free of
                    Inl (i, n_free) \<Rightarrow> gc_claim h n_blocks i n_free
                  | Inr n_free \<Rightarrow> Some (h, None)))"

section \<open>Freeing and resizing\<close>

function gc_free_chain :: "byte list \<Rightarrow> nat \<Rightarrow> byte list" where
  "gc_free_chain t block =
     (let t = ATB_ANY_TO_FREE t block
      in if ATB_GET_KIND t (block + 1) = AT_TAIL then gc_free_chain t (block + 1) else t)"
  by auto
termination
proof (relation "measure (\<lambda>(t, block). 4 * length t - block)")
  fix t block x
  assume "x = ATB_ANY_TO_FREE t block" "ATB_GET_KIND x (block + 1) = AT_TAIL"
  then have "block + 1 < 4 * length t" using kind_in_table [of x "block + 1"] by simp
  then show "((x, block + 1), (t, block)) \<in> measure (\<lambda>(t, block). 4 * length t - block)"
    using \<open>x = _\<close> by simp
qed simp

declare gc_free_chain.simps [simp del]

text \<open>\<open>None\<close> is a failed assertion. \<open>NULL\<close> is the pointer \<open>None\<close>.\<close>

definition gc_free :: "gc_heap \<Rightarrow> nat option \<Rightarrow> gc_heap option" where
  "gc_free h ptr =
     (if gc_lock_depth h > 0 then Some h
      else case ptr of
        None \<Rightarrow> Some h
      | Some ptr \<Rightarrow>
          let block = BLOCK_FROM_PTR h ptr
          in if \<not> VERIFY_PTR h ptr \<or> gc_kind h block \<noteq> AT_HEAD then None
             else
               let h = (if block div BLOCKS_PER_ATB < gc_last_free_atb_index h
                        then h\<lparr>gc_last_free_atb_index := block div BLOCKS_PER_ATB\<rparr> else h)
               in Some (h\<lparr>gc_alloc_table := gc_free_chain (gc_alloc_table h) block\<rparr>))"

definition gc_nbytes :: "gc_heap \<Rightarrow> nat \<Rightarrow> nat" where
  "gc_nbytes h ptr =
     (let block = BLOCK_FROM_PTR h ptr
      in if VERIFY_PTR h ptr \<and> gc_kind h block = AT_HEAD
         then gc_chain_len (gc_alloc_table h) block * BYTES_PER_BLOCK else 0)"

text \<open>The blocks of the chain and the free ones behind it, as far as they are needed.\<close>

function gc_count :: "byte list \<Rightarrow> nat \<Rightarrow> nat \<Rightarrow> nat \<Rightarrow> nat \<Rightarrow> nat \<Rightarrow> nat \<times> nat" where
  "gc_count t max_block new_blocks bl n_blocks n_free =
     (if bl < max_block then
        (case ATB_GET_KIND t bl of
           AT_TAIL \<Rightarrow> gc_count t max_block new_blocks (bl + 1) (n_blocks + 1) n_free
         | AT_FREE \<Rightarrow>
             (if n_blocks + (n_free + 1) \<ge> new_blocks then (n_blocks, n_free + 1)
              else gc_count t max_block new_blocks (bl + 1) n_blocks (n_free + 1))
         | _ \<Rightarrow> (n_blocks, n_free))
      else (n_blocks, n_free))"
  by auto
termination
  by (relation "measure (\<lambda>(t, max_block, new_blocks, bl, n_blocks, n_free). max_block - bl)") auto

declare gc_count.simps [simp del]

definition gc_copy :: "nat \<Rightarrow> nat \<Rightarrow> nat \<Rightarrow> byte list \<Rightarrow> byte list" where
  "gc_copy dest src n p = take dest p @ take n (drop src p) @ drop (dest + n) p"

text \<open>The three ways in which a chain gets its new length.\<close>

definition gc_shrink :: "gc_heap \<Rightarrow> nat \<Rightarrow> nat \<Rightarrow> nat \<Rightarrow> gc_heap" where
  "gc_shrink h block n_blocks new_blocks =
     (let h = h\<lparr>gc_alloc_table := fold (\<lambda>bl t. ATB_ANY_TO_FREE t bl) [block + new_blocks ..< block + n_blocks]
                  (gc_alloc_table h)\<rparr>
      in if (block + new_blocks) div BLOCKS_PER_ATB < gc_last_free_atb_index h
         then h\<lparr>gc_last_free_atb_index := (block + new_blocks) div BLOCKS_PER_ATB\<rparr> else h)"

text \<open>The loop of the expansion, with its assertion that every block it takes is free.\<close>

fun gc_take_tails :: "byte list \<Rightarrow> nat list \<Rightarrow> byte list option" where
  "gc_take_tails t [] = Some t"
| "gc_take_tails t (bl # bls) =
     (if ATB_GET_KIND t bl \<noteq> AT_FREE then None else gc_take_tails (ATB_FREE_TO_TAIL t bl) bls)"

definition gc_expand :: "gc_heap \<Rightarrow> nat \<Rightarrow> nat \<Rightarrow> nat \<Rightarrow> gc_heap option" where
  "gc_expand h block n_blocks new_blocks =
     (case gc_take_tails (gc_alloc_table h) [block + n_blocks ..< block + new_blocks] of
        None \<Rightarrow> None
      | Some t \<Rightarrow>
          Some (h\<lparr>gc_alloc_table := t,
                  gc_pool := gc_zero ((block + n_blocks) * BYTES_PER_BLOCK) ((block + new_blocks) * BYTES_PER_BLOCK)
                    (gc_pool h)\<rparr>))"

definition gc_move :: "nat list \<times> nat list \<Rightarrow> gc_heap \<Rightarrow> nat \<Rightarrow> nat \<Rightarrow> 64 word \<Rightarrow> (gc_heap \<times> nat option) option" where
  "gc_move roots h ptr n_blocks n_bytes =
     (case gc_alloc roots h n_bytes of
        None \<Rightarrow> None
      | Some (h, None) \<Rightarrow> Some (h, None)
      | Some (h, Some ptr_out) \<Rightarrow>
          let h = h\<lparr>gc_pool := gc_copy (ptr_out - gc_pool_start h) (ptr - gc_pool_start h)
                     (n_blocks * BYTES_PER_BLOCK) (gc_pool h)\<rparr>
          in case gc_free h (Some ptr) of None \<Rightarrow> None | Some h \<Rightarrow> Some (h, Some ptr_out))"

definition gc_realloc ::
  "nat list \<times> nat list \<Rightarrow> gc_heap \<Rightarrow> nat option \<Rightarrow> 64 word \<Rightarrow> bool \<Rightarrow> (gc_heap \<times> nat option) option" where
  "gc_realloc roots h ptr_in n_bytes allow_move =
     (case ptr_in of
        None \<Rightarrow> gc_alloc roots h n_bytes
      | Some ptr \<Rightarrow>
          if n_bytes = 0 then (case gc_free h ptr_in of None \<Rightarrow> None | Some h \<Rightarrow> Some (h, None))
          else if gc_lock_depth h > 0 then Some (h, None)
          else
            let block = BLOCK_FROM_PTR h ptr
            in if \<not> VERIFY_PTR h ptr \<or> gc_kind h block \<noteq> AT_HEAD then None
               else
                 let new_blocks = unat (n_bytes + of_nat BYTES_PER_BLOCK - 1) div BYTES_PER_BLOCK;
                     (n_blocks, n_free) = gc_count (gc_alloc_table h) (gc_blocks h) new_blocks (block + 1) 1 0
                 in if new_blocks = n_blocks then Some (h, ptr_in)
                    else if new_blocks < n_blocks then Some (gc_shrink h block n_blocks new_blocks, ptr_in)
                    else if new_blocks \<le> n_blocks + n_free
                      then (case gc_expand h block n_blocks new_blocks of None \<Rightarrow> None | Some h \<Rightarrow> Some (h, ptr_in))
                    else if \<not> allow_move then Some (h, None)
                    else gc_move roots h ptr n_blocks n_bytes)"

section \<open>Statistics\<close>

record gc_info_t =
  info_total :: nat
  info_used :: nat
  info_free :: nat
  info_max_free :: nat
  info_num_1block :: nat
  info_num_2block :: nat
  info_max_block :: nat

text \<open>What one block adds, and what is noted where a chain or a run of free blocks ends.\<close>

definition gc_info_count :: "at_kind \<Rightarrow> nat \<Rightarrow> nat \<Rightarrow> gc_info_t \<Rightarrow> nat \<times> nat \<times> gc_info_t" where
  "gc_info_count kind len len_free info =
     (case kind of
        AT_FREE \<Rightarrow> (0, len_free + 1, info\<lparr>info_free := info_free info + 1\<rparr>)
      | AT_HEAD \<Rightarrow> (1, len_free, info\<lparr>info_used := info_used info + 1\<rparr>)
      | AT_TAIL \<Rightarrow> (len + 1, len_free, info\<lparr>info_used := info_used info + 1\<rparr>)
      | AT_MARK \<Rightarrow> (len, len_free, info))"

definition gc_info_note :: "bool \<Rightarrow> at_kind \<Rightarrow> nat \<Rightarrow> nat \<Rightarrow> gc_info_t \<Rightarrow> nat \<times> gc_info_t" where
  "gc_info_note fin kind len len_free info =
     (if fin \<or> kind = AT_FREE \<or> kind = AT_HEAD then
        let info = (if len = 1 then info\<lparr>info_num_1block := info_num_1block info + 1\<rparr>
                    else if len = 2 then info\<lparr>info_num_2block := info_num_2block info + 1\<rparr> else info);
            info = (if len > info_max_block info then info\<lparr>info_max_block := len\<rparr> else info)
        in if fin \<or> kind = AT_HEAD then
             (0, if len_free > info_max_free info then info\<lparr>info_max_free := len_free\<rparr> else info)
           else (len_free, info)
      else (len_free, info))"

text \<open>The loop ends where \<open>block\<close> becomes the number of blocks; with no block at all it runs away.\<close>

function gc_info_loop :: "byte list \<Rightarrow> nat \<Rightarrow> nat \<Rightarrow> nat \<Rightarrow> nat \<Rightarrow> gc_info_t \<Rightarrow> gc_info_t option" where
  "gc_info_loop t n block len len_free info =
     (if n \<le> block then None
      else
        let (len, len_free, info) = gc_info_count (ATB_GET_KIND t block) len len_free info;
            fin = (block + 1 = n);
            (len_free, info) = gc_info_note fin (ATB_GET_KIND t (block + 1)) len len_free info
        in if fin then Some info else gc_info_loop t n (block + 1) len len_free info)"
  by auto
termination
  by (relation "measure (\<lambda>(t, n, block, len, len_free, info). n - block)") auto

declare gc_info_loop.simps [simp del]

definition gc_info :: "gc_heap \<Rightarrow> gc_info_t option" where
  "gc_info h =
     (case gc_info_loop (gc_alloc_table h) (gc_blocks h) 0 0 0
         \<lparr> info_total = gc_pool_end h - gc_pool_start h, info_used = 0, info_free = 0, info_max_free = 0,
           info_num_1block = 0, info_num_2block = 0, info_max_block = 0 \<rparr> of
        None \<Rightarrow> None
      | Some info \<Rightarrow>
          Some (info\<lparr>info_used := info_used info * BYTES_PER_BLOCK, info_free := info_free info * BYTES_PER_BLOCK\<rparr>))"

end
