(* ===== verification/GcLaws.thy ===== *)
theory GcLaws
  imports Gc
begin

text \<open>
  The collector keeps exactly the chains that are reachable from the roots; allocation, freeing and
  resizing keep the table well formed and touch no chain but their own.
\<close>

section \<open>Reachability\<close>

definition gc_targets :: "gc_heap \<Rightarrow> nat list \<Rightarrow> nat set" where
  "gc_targets h ps =
     {BLOCK_FROM_PTR h p | p. p \<in> set ps \<and> VERIFY_PTR h p \<and> gc_kind h (BLOCK_FROM_PTR h p) = AT_HEAD}"

abbreviation gc_children :: "gc_heap \<Rightarrow> nat \<Rightarrow> nat set" where
  "gc_children h b \<equiv> gc_targets h (gc_chain_ptrs h b)"

inductive_set gc_reach :: "gc_heap \<Rightarrow> nat list \<Rightarrow> nat set" for h roots where
  root: "b \<in> gc_targets h roots \<Longrightarrow> b \<in> gc_reach h roots"
| child: "b \<in> gc_reach h roots \<Longrightarrow> c \<in> gc_children h b \<Longrightarrow> c \<in> gc_reach h roots"

definition gc_closed :: "gc_heap \<Rightarrow> nat set \<Rightarrow> bool" where
  "gc_closed h M \<longleftrightarrow> (\<forall>b \<in> M. gc_children h b \<subseteq> M)"

lemma gc_reach_closed: "gc_closed h (gc_reach h roots)"
  by (auto simp: gc_closed_def intro: gc_reach.child)

lemma gc_reach_least:
  assumes "gc_targets h roots \<subseteq> M" and "gc_closed h M"
  shows "gc_reach h roots \<subseteq> M"
proof
  fix b
  assume "b \<in> gc_reach h roots"
  then show "b \<in> M"
    by induction (use assms in \<open>auto simp: gc_closed_def\<close>)
qed

lemma gc_targets_simps [simp]: "gc_targets h [] = {}" "gc_targets h (ps @ qs) = gc_targets h ps \<union> gc_targets h qs"
  by (auto simp: gc_targets_def)

lemma gc_targets_Cons: "gc_targets h (p # ps) = gc_targets h [p] \<union> gc_targets h ps"
  by (auto simp: gc_targets_def)

lemma gc_verify_block: "VERIFY_PTR h p \<Longrightarrow> BLOCK_FROM_PTR h p < gc_blocks h"
  by (auto simp: VERIFY_PTR_def BLOCK_FROM_PTR_def gc_pool_end_def BYTES_PER_BLOCK_def less_mult_imp_div_less)

lemma gc_targets_blocks: "b \<in> gc_targets h ps \<Longrightarrow> b < gc_blocks h \<and> gc_kind h b = AT_HEAD"
  by (auto simp: gc_targets_def gc_verify_block)

section \<open>Marking\<close>

text \<open>The heap \<open>h0\<close> in which the heads \<open>M\<close> are marked.\<close>

definition gc_marked :: "gc_heap \<Rightarrow> nat set \<Rightarrow> gc_heap \<Rightarrow> bool" where
  "gc_marked h0 M h \<longleftrightarrow>
     h = h0\<lparr>gc_alloc_table := gc_alloc_table h, gc_stack_overflow := gc_stack_overflow h\<rparr> \<and>
     length (gc_alloc_table h) = length (gc_alloc_table h0) \<and>
     (\<forall>b. gc_kind h b = (if b \<in> M then AT_MARK else gc_kind h0 b)) \<and>
     (\<forall>b \<in> M. b < gc_blocks h0 \<and> gc_kind h0 b = AT_HEAD)"

definition gc_no_marks :: "gc_heap \<Rightarrow> bool" where
  "gc_no_marks h \<longleftrightarrow> (\<forall>b < gc_blocks h. gc_kind h b \<noteq> AT_MARK)"

lemma gc_marked_start: "gc_marked h0 {} h0"
  by (simp add: gc_marked_def)

lemma gc_markedD:
  assumes "gc_marked h0 M h"
  shows "gc_kind h b = (if b \<in> M then AT_MARK else gc_kind h0 b)" "b \<in> M \<Longrightarrow> b < gc_blocks h0 \<and> gc_kind h0 b = AT_HEAD"
    "length (gc_alloc_table h) = length (gc_alloc_table h0)"
  using assms by (simp_all add: gc_marked_def)

lemma gc_marked_eq:
  assumes "gc_marked h0 M h"
  obtains t v where "h = h0\<lparr>gc_alloc_table := t, gc_stack_overflow := v\<rparr>"
  using assms unfolding gc_marked_def by blast

lemma gc_chain_len_cong:
  "(\<And>b. ATB_GET_KIND t b = AT_TAIL \<longleftrightarrow> ATB_GET_KIND t' b = AT_TAIL) \<Longrightarrow> gc_chain_len t b = gc_chain_len t' b"
proof (induction t b rule: gc_chain_len.induct)
  case (1 t b)
  then show ?case by (simp add: gc_chain_len.simps [of t] gc_chain_len.simps [of t'])
qed

lemma gc_marked_same:
  assumes "gc_marked h0 M h"
  shows "gc_chain_ptrs h b = gc_chain_ptrs h0 b" "VERIFY_PTR h p = VERIFY_PTR h0 p"
    "BLOCK_FROM_PTR h p = BLOCK_FROM_PTR h0 p" "gc_blocks h = gc_blocks h0"
proof -
  obtain t v where h: "h = h0\<lparr>gc_alloc_table := t, gc_stack_overflow := v\<rparr>" by (rule gc_marked_eq [OF assms])
  have "gc_kind h c = AT_TAIL \<longleftrightarrow> gc_kind h0 c = AT_TAIL" for c
    using gc_markedD(1) [OF assms, of c] gc_markedD(2) [OF assms, of c] by (cases "c \<in> M") simp_all
  then have "gc_chain_len (gc_alloc_table h) c = gc_chain_len (gc_alloc_table h0) c" for c
    by (rule gc_chain_len_cong)
  with h show "gc_chain_ptrs h b = gc_chain_ptrs h0 b" by (simp add: gc_chain_ptrs_def gc_word_def)
  from h show "VERIFY_PTR h p = VERIFY_PTR h0 p" "BLOCK_FROM_PTR h p = BLOCK_FROM_PTR h0 p"
    "gc_blocks h = gc_blocks h0"
    by (simp_all add: VERIFY_PTR_def BLOCK_FROM_PTR_def gc_pool_end_def gc_blocks_def)
qed

lemma gc_marked_overflow:
  assumes "gc_marked h0 M h"
  shows "gc_marked h0 M (h\<lparr>gc_stack_overflow := v\<rparr>)"
proof -
  obtain t u where h: "h = h0\<lparr>gc_alloc_table := t, gc_stack_overflow := u\<rparr>" by (rule gc_marked_eq [OF assms])
  with gc_markedD [OF assms] show ?thesis by (simp add: gc_marked_def)
qed

lemma gc_marked_mark:
  assumes "gc_marked h0 M h" and "b < gc_blocks h0" and "gc_kind h b = AT_HEAD"
  shows "gc_marked h0 (insert b M) (h\<lparr>gc_alloc_table := ATB_HEAD_TO_MARK (gc_alloc_table h) b\<rparr>)"
proof -
  have b: "b < 4 * length (gc_alloc_table h)" using assms(3) by (intro kind_in_table) simp
  obtain t v where h: "h = h0\<lparr>gc_alloc_table := t, gc_stack_overflow := v\<rparr>" by (rule gc_marked_eq [OF assms(1)])
  have "gc_kind h0 b = AT_HEAD" using assms(3) gc_markedD(1) [OF assms(1), of b] by (simp split: if_splits)
  then show ?thesis
    using gc_markedD [OF assms(1)] assms(2) b h by (auto simp: gc_marked_def kind_head_to_mark)
qed

text \<open>One pointer, and the pointers of a chain.\<close>

lemma gc_mark_ptr_val:
  assumes "gc_marked h0 M h" and "set st \<subseteq> M" and "gc_mark_ptr p (h, st) = (h', st')"
  shows "gc_marked h0 (M \<union> gc_targets h0 [p]) h'" and "set st \<subseteq> set st'" and "set st' \<subseteq> M \<union> gc_targets h0 [p]"
    and "gc_stack_overflow h \<Longrightarrow> gc_stack_overflow h'"
    and "\<not> gc_stack_overflow h' \<Longrightarrow> gc_targets h0 [p] \<subseteq> M \<union> set st'"
proof -
  note same = gc_marked_same [OF assms(1)]
  define b where "b = BLOCK_FROM_PTR h0 p"
  note kind = gc_markedD(1) [OF assms(1)]
  have goal: "gc_marked h0 (M \<union> gc_targets h0 [p]) h' \<and> set st \<subseteq> set st' \<and> set st' \<subseteq> M \<union> gc_targets h0 [p] \<and>
    (gc_stack_overflow h \<longrightarrow> gc_stack_overflow h') \<and> (\<not> gc_stack_overflow h' \<longrightarrow> gc_targets h0 [p] \<subseteq> M \<union> set st')"
  proof (cases "VERIFY_PTR h0 p \<and> gc_kind h b = AT_HEAD")
    case True
    then have "b \<notin> M" "gc_kind h0 b = AT_HEAD" using kind [of b] by (auto split: if_splits)
    with True have T: "gc_targets h0 [p] = {b}" by (auto simp: gc_targets_def b_def)
    have mk: "gc_marked h0 (insert b M) (h\<lparr>gc_alloc_table := ATB_HEAD_TO_MARK (gc_alloc_table h) b\<rparr>)"
      using gc_marked_mark [OF assms(1)] True gc_verify_block [of h0 p] by (simp add: b_def)
    show ?thesis
    proof (cases "length st < MICROPY_ALLOC_GC_STACK_SIZE")
      case room: True
      with True assms(3) have "h' = h\<lparr>gc_alloc_table := ATB_HEAD_TO_MARK (gc_alloc_table h) b\<rparr>" "st' = b # st"
        by (simp_all add: gc_mark_ptr_def Let_def same b_def [symmetric])
      with mk T assms(2) show ?thesis by auto
    next
      case full: False
      with True assms(3) have "h' = h\<lparr>gc_alloc_table := ATB_HEAD_TO_MARK (gc_alloc_table h) b,
          gc_stack_overflow := True\<rparr>" "st' = st"
        by (simp_all add: gc_mark_ptr_def Let_def same b_def [symmetric])
      with gc_marked_overflow [OF mk, of True] T assms(2) show ?thesis by auto
    qed
  next
    case False
    then have T: "gc_targets h0 [p] \<subseteq> M"
      using kind [of b] by (auto simp: gc_targets_def b_def [symmetric] split: if_splits)
    from False assms(3) have "h' = h" "st' = st"
      by (auto simp: gc_mark_ptr_def Let_def same b_def [symmetric] split: if_splits)
    with T assms(1,2) show ?thesis by (auto simp: Un_absorb2)
  qed
  then show "gc_marked h0 (M \<union> gc_targets h0 [p]) h'" and "set st \<subseteq> set st'" and "set st' \<subseteq> M \<union> gc_targets h0 [p]"
    and "gc_stack_overflow h \<Longrightarrow> gc_stack_overflow h'"
    and "\<not> gc_stack_overflow h' \<Longrightarrow> gc_targets h0 [p] \<subseteq> M \<union> set st'"
    by blast+
qed

lemma gc_mark_ptrs_val:
  assumes "gc_marked h0 M h" and "set st \<subseteq> M" and "fold gc_mark_ptr ps (h, st) = (h', st')"
  shows "gc_marked h0 (M \<union> gc_targets h0 ps) h' \<and> set st \<subseteq> set st' \<and> set st' \<subseteq> M \<union> gc_targets h0 ps \<and>
    (gc_stack_overflow h \<longrightarrow> gc_stack_overflow h') \<and> (\<not> gc_stack_overflow h' \<longrightarrow> gc_targets h0 ps \<subseteq> M \<union> set st')"
  using assms
proof (induction ps arbitrary: M h st)
  case (Cons p ps)
  obtain h1 st1 where run: "gc_mark_ptr p (h, st) = (h1, st1)" by (cases "gc_mark_ptr p (h, st)")
  note 1 = gc_mark_ptr_val [OF Cons.prems(1,2) run]
  have rest: "fold gc_mark_ptr ps (h1, st1) = (h', st')" using Cons.prems(3) run by simp
  have assoc: "M \<union> gc_targets h0 (p # ps) = (M \<union> gc_targets h0 [p]) \<union> gc_targets h0 ps"
    using gc_targets_Cons [of h0 p ps] by auto
  note 2 = Cons.IH [OF 1(1) 1(3) rest]
  show ?case
  proof (intro conjI impI)
    show "gc_marked h0 (M \<union> gc_targets h0 (p # ps)) h'" "set st \<subseteq> set st'"
      "set st' \<subseteq> M \<union> gc_targets h0 (p # ps)" using 1(2) 2 unfolding assoc by blast+
    show "gc_stack_overflow h'" if "gc_stack_overflow h" using that 1(4) 2 by blast
    assume "\<not> gc_stack_overflow h'"
    moreover from this have "\<not> gc_stack_overflow h1" using 2 by blast
    ultimately show "gc_targets h0 (p # ps) \<subseteq> M \<union> set st'"
      using 1(5) 2 gc_targets_Cons [of h0 p ps] by blast
  qed
qed simp

text \<open>
  The contract of marking: \<open>M'\<close> is marked after \<open>M\<close>, stays in every closed set around \<open>M\<close>, and unless
  the stack overflowed the blocks of \<open>M'\<close> outside of \<open>P\<close> have all their children in it when those of
  \<open>M\<close> outside of \<open>P\<close> and of the pending blocks \<open>Q\<close> had.
\<close>

definition gc_marks :: "gc_heap \<Rightarrow> nat set \<Rightarrow> gc_heap \<Rightarrow> nat set \<Rightarrow> nat set \<Rightarrow> gc_heap \<Rightarrow> bool" where
  "gc_marks h0 M h Q M' h' \<longleftrightarrow>
     gc_marked h0 M' h' \<and> M \<subseteq> M' \<and> (\<forall>R. M \<subseteq> R \<longrightarrow> gc_closed h0 R \<longrightarrow> M' \<subseteq> R) \<and>
     (gc_stack_overflow h \<longrightarrow> gc_stack_overflow h') \<and>
     (\<not> gc_stack_overflow h' \<longrightarrow>
       (\<forall>P. (\<forall>b \<in> M - (Q \<union> P). gc_children h0 b \<subseteq> M) \<longrightarrow> (\<forall>b \<in> M' - P. gc_children h0 b \<subseteq> M')))"

lemma gc_marks_refl: "gc_marked h0 M h \<Longrightarrow> gc_marks h0 M h {} M h"
  by (simp add: gc_marks_def)

lemma gc_marksD:
  assumes "gc_marks h0 M h Q M' h'"
  shows "gc_marked h0 M' h'" and "M \<subseteq> M'" and "M \<subseteq> R \<Longrightarrow> gc_closed h0 R \<Longrightarrow> M' \<subseteq> R"
    and "gc_stack_overflow h \<Longrightarrow> gc_stack_overflow h'"
    and "\<not> gc_stack_overflow h' \<Longrightarrow> (\<And>b. b \<in> M - (Q \<union> P) \<Longrightarrow> gc_children h0 b \<subseteq> M) \<Longrightarrow> b \<in> M' - P \<Longrightarrow>
      gc_children h0 b \<subseteq> M'"
  using assms unfolding gc_marks_def by (blast, blast, blast, blast, meson)

lemma gc_marksI:
  assumes "gc_marked h0 M' h'" and "M \<subseteq> M'" and "\<And>R. M \<subseteq> R \<Longrightarrow> gc_closed h0 R \<Longrightarrow> M' \<subseteq> R"
    and "gc_stack_overflow h \<Longrightarrow> gc_stack_overflow h'"
    and "\<And>P b. \<not> gc_stack_overflow h' \<Longrightarrow> (\<And>b. b \<in> M - (Q \<union> P) \<Longrightarrow> gc_children h0 b \<subseteq> M) \<Longrightarrow> b \<in> M' - P \<Longrightarrow>
      gc_children h0 b \<subseteq> M'"
  shows "gc_marks h0 M h Q M' h'"
  unfolding gc_marks_def
proof (intro conjI impI allI ballI)
  fix P b
  assume a: "\<not> gc_stack_overflow h'" "\<forall>b \<in> M - (Q \<union> P). gc_children h0 b \<subseteq> M" "b \<in> M' - P"
  show "gc_children h0 b \<subseteq> M'" by (rule assms(5) [OF a(1) bspec [OF a(2)] a(3)])
qed (use assms(1-4) in simp_all)

lemma gc_marks_trans:
  assumes 1: "gc_marks h0 M h Q M1 h1" and 2: "gc_marks h0 M1 h1 Q1 M2 h2"
  shows "gc_marks h0 M h (Q \<union> Q1) M2 h2"
proof (rule gc_marksI)
  show "gc_marked h0 M2 h2" by (rule gc_marksD(1) [OF 2])
  show "M \<subseteq> M2" using gc_marksD(2) [OF 1] gc_marksD(2) [OF 2] by simp
  show "M2 \<subseteq> R" if "M \<subseteq> R" "gc_closed h0 R" for R
    by (rule gc_marksD(3) [OF 2 gc_marksD(3) [OF 1 that] that(2)])
  show "gc_stack_overflow h2" if "gc_stack_overflow h" by (rule gc_marksD(4) [OF 2 gc_marksD(4) [OF 1 that]])
  fix P b
  assume no: "\<not> gc_stack_overflow h2" and P: "\<And>b. b \<in> M - (Q \<union> Q1 \<union> P) \<Longrightarrow> gc_children h0 b \<subseteq> M" and b: "b \<in> M2 - P"
  from no have no1: "\<not> gc_stack_overflow h1" using gc_marksD(4) [OF 2] by blast
  show "gc_children h0 b \<subseteq> M2"
  proof (rule gc_marksD(5) [OF 2 no _ b])
    fix c
    assume "c \<in> M1 - (Q1 \<union> P)"
    then show "gc_children h0 c \<subseteq> M1"
      by (rule gc_marksD(5) [OF 1 no1, of "Q1 \<union> P", rotated]) (use P in \<open>simp add: Un_assoc\<close>)
  qed
qed

lemma gc_mark_subtree_val:
  "gc_marked h0 M h \<Longrightarrow> block \<in> M \<Longrightarrow> set st \<subseteq> M \<Longrightarrow>
   \<exists>M'. gc_marks h0 M h ({block} \<union> set st) M' (gc_mark_subtree h block st)"
proof (induction h block st arbitrary: M rule: gc_mark_subtree.induct)
  case (1 h block st)
  obtain h1 st1 where run: "fold gc_mark_ptr (gc_chain_ptrs h block) (h, st) = (h1, st1)"
    by (cases "fold gc_mark_ptr (gc_chain_ptrs h block) (h, st)")
  note same = gc_marked_same [OF "1.prems"(1)]
  define M1 where "M1 = M \<union> gc_children h0 block"
  have m: "gc_marked h0 M1 h1" "set st \<subseteq> set st1" "set st1 \<subseteq> M1" "gc_stack_overflow h \<Longrightarrow> gc_stack_overflow h1"
    "\<not> gc_stack_overflow h1 \<Longrightarrow> gc_children h0 block \<subseteq> M \<union> set st1"
    using gc_mark_ptrs_val [OF "1.prems"(1,3) run] unfolding same M1_def by blast+
  have R: "M1 \<subseteq> R" if "M \<subseteq> R" "gc_closed h0 R" for R
    using that "1.prems"(2) unfolding M1_def gc_closed_def by blast
  have here: "gc_marks h0 M h ({block} \<union> set st) M1 h1" if nil: "set st1 = {}"
  proof (rule gc_marksI)
    show "gc_marked h0 M1 h1" "M \<subseteq> M1" using m(1) by (auto simp: M1_def)
    show "M1 \<subseteq> R" if "M \<subseteq> R" "gc_closed h0 R" for R by (rule R [OF that])
    show "gc_stack_overflow h1" if "gc_stack_overflow h" by (rule m(4) [OF that])
    fix P b
    assume no: "\<not> gc_stack_overflow h1" and P: "\<And>b. b \<in> M - ({block} \<union> set st \<union> P) \<Longrightarrow> gc_children h0 b \<subseteq> M"
      and b: "b \<in> M1 - P"
    have "M1 = M" using m(5) [OF no] nil unfolding M1_def by auto
    moreover have "set st = {}" using m(2) nil by auto
    ultimately show "gc_children h0 b \<subseteq> M1" using P [of b] b unfolding M1_def by (cases "b = block") auto
  qed
  show ?case
  proof (cases st1)
    case Nil
    then have "gc_mark_subtree h block st = h1" by (simp add: gc_mark_subtree.simps [of h] run)
    with here Nil show ?thesis by auto
  next
    case (Cons b1 st2)
    have eq: "gc_mark_subtree h block st = gc_mark_subtree h1 b1 st2"
      by (simp add: gc_mark_subtree.simps [of h] run Cons)
    obtain M' where M': "gc_marks h0 M1 h1 ({b1} \<union> set st2) M' (gc_mark_subtree h1 b1 st2)"
      using "1.IH" [OF run [symmetric] Cons m(1)] m(3) Cons by auto
    have "gc_marks h0 M h ({block} \<union> set st) M' (gc_mark_subtree h1 b1 st2)"
    proof (rule gc_marksI)
      show "gc_marked h0 M' (gc_mark_subtree h1 b1 st2)" by (rule gc_marksD(1) [OF M'])
      show "M \<subseteq> M'" using gc_marksD(2) [OF M'] by (simp add: M1_def)
      show "M' \<subseteq> R" if "M \<subseteq> R" "gc_closed h0 R" for R by (rule gc_marksD(3) [OF M' R [OF that] that(2)])
      show "gc_stack_overflow (gc_mark_subtree h1 b1 st2)" if "gc_stack_overflow h"
        by (rule gc_marksD(4) [OF M' m(4) [OF that]])
      fix P b
      assume no: "\<not> gc_stack_overflow (gc_mark_subtree h1 b1 st2)"
        and P: "\<And>b. b \<in> M - ({block} \<union> set st \<union> P) \<Longrightarrow> gc_children h0 b \<subseteq> M" and b: "b \<in> M' - P"
      from no have "\<not> gc_stack_overflow h1" using gc_marksD(4) [OF M'] by blast
      note new = m(5) [OF this]
      show "gc_children h0 b \<subseteq> M'"
      proof (rule gc_marksD(5) [OF M' no _ b])
        fix c
        assume c: "c \<in> M1 - ({b1} \<union> set st2 \<union> P)"
        then have "c \<notin> set st1" using Cons by simp
        with c m(2) new have "c = block \<or> c \<in> M - ({block} \<union> set st \<union> P)" by (auto simp: M1_def)
        then show "gc_children h0 c \<subseteq> M1" using P [of c] unfolding M1_def by auto
      qed
    qed
    with eq show ?thesis by auto
  qed
qed

lemma gc_scan_blocks_val:
  assumes "gc_no_marks h0"
  shows "gc_marked h0 M h \<Longrightarrow> set bs \<subseteq> {..< gc_blocks h0} \<Longrightarrow> \<exists>M'. gc_marks h0 M h (set bs) M' (fold gc_scan_block bs h)"
proof (induction bs arbitrary: M h)
  case Nil
  then show ?case using gc_marks_refl by auto
next
  case (Cons b bs)
  have "\<exists>M1. gc_marks h0 M h {b} M1 (gc_scan_block b h)"
  proof (cases "gc_kind h b = AT_MARK")
    case True
    have "gc_kind h0 b \<noteq> AT_MARK" using assms Cons.prems(2) by (simp add: gc_no_marks_def)
    with True have "b \<in> M" using gc_markedD(1) [OF Cons.prems(1), of b] by (simp split: if_splits)
    from gc_mark_subtree_val [OF Cons.prems(1) this, of "[]"] True show ?thesis by (simp add: gc_scan_block_def)
  next
    case False
    then have "b \<notin> M" using gc_markedD(1) [OF Cons.prems(1), of b] by (simp split: if_splits)
    have "gc_marks h0 M h {b} M h"
    proof (rule gc_marksI)
      fix P c
      assume "\<And>c. c \<in> M - ({b} \<union> P) \<Longrightarrow> gc_children h0 c \<subseteq> M" "c \<in> M - P"
      with \<open>b \<notin> M\<close> show "gc_children h0 c \<subseteq> M" by auto
    qed (use Cons.prems(1) in simp_all)
    with False show ?thesis by (auto simp: gc_scan_block_def)
  qed
  then obtain M1 where 1: "gc_marks h0 M h {b} M1 (gc_scan_block b h)" ..
  obtain M2 where 2: "gc_marks h0 M1 (gc_scan_block b h) (set bs) M2 (fold gc_scan_block bs (gc_scan_block b h))"
    using Cons.IH [OF gc_marksD(1) [OF 1]] Cons.prems(2) by auto
  from gc_marks_trans [OF 1 2] show ?case by auto
qed

text \<open>Scanning until the stack does not overflow closes the set of marked blocks.\<close>

lemma gc_deal_with_stack_overflow_val:
  assumes "gc_no_marks h0"
  shows "gc_marked h0 M h \<Longrightarrow> (\<not> gc_stack_overflow h \<Longrightarrow> gc_closed h0 M) \<Longrightarrow>
    \<exists>M'. gc_marked h0 M' (gc_deal_with_stack_overflow h) \<and> M \<subseteq> M' \<and> gc_closed h0 M' \<and>
      (\<forall>R. M \<subseteq> R \<longrightarrow> gc_closed h0 R \<longrightarrow> M' \<subseteq> R) \<and> \<not> gc_stack_overflow (gc_deal_with_stack_overflow h)"
proof (induction h arbitrary: M rule: gc_deal_with_stack_overflow.induct)
  case (1 h)
  show ?case
  proof (cases "gc_stack_overflow h")
    case False
    with 1 show ?thesis by (auto simp: gc_deal_with_stack_overflow.simps [of h])
  next
    case True
    let ?h = "h\<lparr>gc_stack_overflow := False\<rparr>"
    have n: "gc_blocks ?h = gc_blocks h0"
      using gc_marked_same(4) [OF "1.prems"(1)] by (simp add: gc_blocks_def)
    obtain M1 where M1: "gc_marks h0 M ?h {..< gc_blocks h0} M1 (gc_scan_marked ?h)"
      using gc_scan_blocks_val [OF assms gc_marked_overflow [OF "1.prems"(1)], of "[0 ..< gc_blocks h0]" False]
      by (auto simp: gc_scan_marked_def n atLeast0LessThan)
    have "gc_closed h0 M1" if no: "\<not> gc_stack_overflow (gc_scan_marked ?h)"
      unfolding gc_closed_def
    proof
      fix b
      assume "b \<in> M1"
      then show "gc_children h0 b \<subseteq> M1"
        by (intro gc_marksD(5) [OF M1 no, of "{}"]) (use gc_markedD(2) [OF "1.prems"(1)] in auto)
    qed
    from "1.IH" [OF True gc_marksD(1) [OF M1] this] obtain M'
      where "gc_marked h0 M' (gc_deal_with_stack_overflow (gc_scan_marked ?h))" "M1 \<subseteq> M'" "gc_closed h0 M'"
        "\<forall>R. M1 \<subseteq> R \<longrightarrow> gc_closed h0 R \<longrightarrow> M' \<subseteq> R"
        "\<not> gc_stack_overflow (gc_deal_with_stack_overflow (gc_scan_marked ?h))" by blast
    moreover have "gc_deal_with_stack_overflow h = gc_deal_with_stack_overflow (gc_scan_marked ?h)"
      using True by (simp add: gc_deal_with_stack_overflow.simps [of h])
    ultimately show ?thesis using gc_marksD(2) [OF M1] gc_marksD(3) [OF M1] by (intro exI [of _ M']) auto
  qed
qed

lemma gc_collect_root_val:
  "gc_marked h0 M h \<Longrightarrow>
   \<exists>M'. gc_marked h0 M' (gc_collect_root ps h) \<and> M \<union> gc_targets h0 ps \<subseteq> M' \<and>
     (\<forall>R. M \<union> gc_targets h0 ps \<subseteq> R \<longrightarrow> gc_closed h0 R \<longrightarrow> M' \<subseteq> R) \<and>
     (gc_stack_overflow h \<longrightarrow> gc_stack_overflow (gc_collect_root ps h)) \<and>
     (\<not> gc_stack_overflow (gc_collect_root ps h) \<longrightarrow> gc_closed h0 M \<longrightarrow> gc_closed h0 M')"
proof (induction ps arbitrary: M h)
  case Nil
  then show ?case by (intro exI [of _ M]) (simp add: gc_collect_root_def)
next
  case (Cons p ps)
  have "\<exists>M1. gc_marked h0 M1 (gc_root_ptr p h) \<and> M \<union> gc_targets h0 [p] \<subseteq> M1 \<and>
     (\<forall>R. M \<union> gc_targets h0 [p] \<subseteq> R \<longrightarrow> gc_closed h0 R \<longrightarrow> M1 \<subseteq> R) \<and>
     (gc_stack_overflow h \<longrightarrow> gc_stack_overflow (gc_root_ptr p h)) \<and>
     (\<not> gc_stack_overflow (gc_root_ptr p h) \<longrightarrow> gc_closed h0 M \<longrightarrow> gc_closed h0 M1)"
  proof (cases "VERIFY_PTR h0 p \<and> gc_kind h (BLOCK_FROM_PTR h0 p) = AT_HEAD")
    case True
    define b where "b = BLOCK_FROM_PTR h0 p"
    note same = gc_marked_same [OF Cons.prems]
    have "gc_kind h0 b = AT_HEAD" using True gc_markedD(1) [OF Cons.prems, of b] by (auto simp: b_def split: if_splits)
    with True have T: "gc_targets h0 [p] = {b}" by (auto simp: gc_targets_def b_def)
    let ?h = "h\<lparr>gc_alloc_table := ATB_HEAD_TO_MARK (gc_alloc_table h) b\<rparr>"
    have mk: "gc_marked h0 (insert b M) ?h"
      using gc_marked_mark [OF Cons.prems] True gc_verify_block [of h0 p] by (simp add: b_def)
    have run: "gc_root_ptr p h = gc_mark_subtree ?h b []"
      using True by (simp add: gc_root_ptr_def Let_def same b_def)
    obtain M1 where "gc_marks h0 (insert b M) ?h {b} M1 (gc_mark_subtree ?h b [])"
      using gc_mark_subtree_val [OF mk, of b "[]"] by auto
    then have M1: "gc_marks h0 (insert b M) ?h {b} M1 (gc_root_ptr p h)" by (simp only: run)
    show ?thesis
    proof (intro exI [of _ M1] conjI allI impI)
      show "gc_marked h0 M1 (gc_root_ptr p h)" by (rule gc_marksD(1) [OF M1])
      show "M \<union> gc_targets h0 [p] \<subseteq> M1" using gc_marksD(2) [OF M1] T by simp
      show "M1 \<subseteq> R" if "M \<union> gc_targets h0 [p] \<subseteq> R" "gc_closed h0 R" for R
        by (rule gc_marksD(3) [OF M1 _ that(2)]) (use that(1) T in simp)
      show "gc_stack_overflow (gc_root_ptr p h)" if "gc_stack_overflow h"
        by (rule gc_marksD(4) [OF M1]) (use that in simp)
      assume no: "\<not> gc_stack_overflow (gc_root_ptr p h)" and closed: "gc_closed h0 M"
      show "gc_closed h0 M1"
        unfolding gc_closed_def
      proof
        fix c
        assume "c \<in> M1"
        show "gc_children h0 c \<subseteq> M1"
        proof (rule gc_marksD(5) [OF M1 no, of "{}"])
          show "c \<in> M1 - {}" using \<open>c \<in> M1\<close> by simp
          fix d
          assume "d \<in> insert b M - ({b} \<union> {})"
          with closed show "gc_children h0 d \<subseteq> insert b M" by (auto simp: gc_closed_def)
        qed
      qed
    qed
  next
    case False
    note same = gc_marked_same [OF Cons.prems]
    have "gc_root_ptr p h = h" using False by (auto simp: gc_root_ptr_def Let_def same)
    moreover have "gc_targets h0 [p] \<subseteq> M"
      using False gc_markedD(1) [OF Cons.prems] by (auto simp: gc_targets_def split: if_splits)
    ultimately show ?thesis using Cons.prems by (intro exI [of _ M]) auto
  qed
  then obtain M1 where 1: "gc_marked h0 M1 (gc_root_ptr p h)" "M \<union> gc_targets h0 [p] \<subseteq> M1"
     "\<And>R. M \<union> gc_targets h0 [p] \<subseteq> R \<Longrightarrow> gc_closed h0 R \<Longrightarrow> M1 \<subseteq> R"
     "gc_stack_overflow h \<Longrightarrow> gc_stack_overflow (gc_root_ptr p h)"
     "\<not> gc_stack_overflow (gc_root_ptr p h) \<Longrightarrow> gc_closed h0 M \<Longrightarrow> gc_closed h0 M1" by blast
  have step: "gc_collect_root (p # ps) h = gc_collect_root ps (gc_root_ptr p h)" by (simp add: gc_collect_root_def)
  from Cons.IH [OF 1(1)] obtain M2 where 2: "gc_marked h0 M2 (gc_collect_root (p # ps) h)"
     "M1 \<union> gc_targets h0 ps \<subseteq> M2" "\<And>R. M1 \<union> gc_targets h0 ps \<subseteq> R \<Longrightarrow> gc_closed h0 R \<Longrightarrow> M2 \<subseteq> R"
     "gc_stack_overflow (gc_root_ptr p h) \<Longrightarrow> gc_stack_overflow (gc_collect_root (p # ps) h)"
     "\<not> gc_stack_overflow (gc_collect_root (p # ps) h) \<Longrightarrow> gc_closed h0 M1 \<Longrightarrow> gc_closed h0 M2"
    unfolding step by blast
  show ?case
  proof (intro exI [of _ M2] conjI allI impI)
    show "gc_marked h0 M2 (gc_collect_root (p # ps) h)" by (rule 2(1))
    show "M \<union> gc_targets h0 (p # ps) \<subseteq> M2" using 1(2) 2(2) gc_targets_Cons [of h0 p ps] by blast
    show "M2 \<subseteq> R" if R: "M \<union> gc_targets h0 (p # ps) \<subseteq> R" "gc_closed h0 R" for R
    proof (rule 2(3) [OF _ R(2)])
      have "M1 \<subseteq> R" by (rule 1(3) [OF _ R(2)]) (use R(1) gc_targets_Cons [of h0 p ps] in blast)
      with R(1) gc_targets_Cons [of h0 p ps] show "M1 \<union> gc_targets h0 ps \<subseteq> R" by blast
    qed
    show "gc_stack_overflow (gc_collect_root (p # ps) h)" if "gc_stack_overflow h" by (rule 2(4) [OF 1(4) [OF that]])
    assume no: "\<not> gc_stack_overflow (gc_collect_root (p # ps) h)" and "gc_closed h0 M"
    moreover have "\<not> gc_stack_overflow (gc_root_ptr p h)" using no 2(4) by blast
    ultimately show "gc_closed h0 M2" using 1(5) 2(5) by blast
  qed
qed

text \<open>The heap in which the marking starts, and what is marked at its end.\<close>

definition gc_begun :: "gc_heap \<Rightarrow> gc_heap" where
  "gc_begun h = h\<lparr>gc_lock_depth := gc_lock_depth h + 1, gc_alloc_amount := 0, gc_stack_overflow := False\<rparr>"

lemma gc_begun_simps [simp]:
  "gc_alloc_table (gc_begun h) = gc_alloc_table h" "gc_blocks (gc_begun h) = gc_blocks h"
  "gc_targets (gc_begun h) = gc_targets h" "gc_chain_ptrs (gc_begun h) = gc_chain_ptrs h"
  by (auto simp: gc_begun_def gc_blocks_def gc_targets_def VERIFY_PTR_def BLOCK_FROM_PTR_def gc_pool_end_def
      gc_chain_ptrs_def gc_word_def fun_eq_iff)

lemma gc_reach_begun [simp]: "gc_reach (gc_begun h) roots = gc_reach h roots"
proof -
  have "b \<in> gc_reach (gc_begun h) roots \<Longrightarrow> b \<in> gc_reach h roots" for b
    by (induction rule: gc_reach.induct) (auto intro: gc_reach.intros)
  moreover have "b \<in> gc_reach h roots \<Longrightarrow> b \<in> gc_reach (gc_begun h) roots" for b
    by (induction rule: gc_reach.induct) (auto intro: gc_reach.intros)
  ultimately show ?thesis by blast
qed

lemma gc_mark_phase:
  assumes "gc_no_marks h"
  shows "gc_marked (gc_begun h) (gc_reach h (state @ stack))
    (gc_deal_with_stack_overflow (gc_collect_root stack (gc_collect_start state h)))"
    and "\<not> gc_stack_overflow (gc_deal_with_stack_overflow (gc_collect_root stack (gc_collect_start state h)))"
proof -
  let ?h0 = "gc_begun h"
  let ?h2 = "gc_collect_root stack (gc_collect_start state h)"
  have "gc_collect_start state h = gc_collect_root state ?h0" by (simp add: gc_collect_start_def gc_begun_def)
  then have run: "?h2 = gc_collect_root (state @ stack) ?h0" by (simp add: gc_collect_root_def)
  have no: "gc_no_marks ?h0" using assms by (simp add: gc_no_marks_def)
  obtain M where M: "gc_marked ?h0 M ?h2" "gc_targets ?h0 (state @ stack) \<subseteq> M"
    "\<And>R. gc_targets ?h0 (state @ stack) \<subseteq> R \<Longrightarrow> gc_closed ?h0 R \<Longrightarrow> M \<subseteq> R"
    "\<not> gc_stack_overflow ?h2 \<Longrightarrow> gc_closed ?h0 M"
    using gc_collect_root_val [OF gc_marked_start, of ?h0 "state @ stack"] unfolding run
    by (auto simp: gc_closed_def)
  obtain M' where M': "gc_marked ?h0 M' (gc_deal_with_stack_overflow ?h2)" "M \<subseteq> M'" "gc_closed ?h0 M'"
    "\<And>R. M \<subseteq> R \<Longrightarrow> gc_closed ?h0 R \<Longrightarrow> M' \<subseteq> R" "\<not> gc_stack_overflow (gc_deal_with_stack_overflow ?h2)"
    using gc_deal_with_stack_overflow_val [OF no M(1,4)] by blast
  have "M' \<subseteq> gc_reach ?h0 (state @ stack)"
    by (intro M'(4) M(3) gc_reach_closed) (auto intro: gc_reach.root)
  moreover have "gc_reach ?h0 (state @ stack) \<subseteq> M'"
    by (rule gc_reach_least) (use M(2) M'(2,3) in auto)
  ultimately have "M' = gc_reach h (state @ stack)" by auto
  with M'(1,5) show "gc_marked (gc_begun h) (gc_reach h (state @ stack))
      (gc_deal_with_stack_overflow (gc_collect_root stack (gc_collect_start state h)))"
    and "\<not> gc_stack_overflow (gc_deal_with_stack_overflow (gc_collect_root stack (gc_collect_start state h)))"
    by simp_all
qed

section \<open>Sweeping\<close>

text \<open>The head of the chain that a block is in.\<close>

fun gc_owner :: "(nat \<Rightarrow> at_kind) \<Rightarrow> nat \<Rightarrow> nat" where
  "gc_owner K 0 = 0"
| "gc_owner K (Suc b) = (if K (Suc b) = AT_TAIL then gc_owner K b else Suc b)"

text \<open>Tails come behind the block that they go on from.\<close>

definition gc_tails_ok :: "nat \<Rightarrow> (nat \<Rightarrow> at_kind) \<Rightarrow> bool" where
  "gc_tails_ok n K \<longleftrightarrow> (\<forall>b < n. K b = AT_TAIL \<longrightarrow> 0 < b \<and> K (b - 1) \<noteq> AT_FREE)"

definition gc_swept :: "(nat \<Rightarrow> at_kind) \<Rightarrow> nat \<Rightarrow> at_kind" where
  "gc_swept K b =
     (case K b of
        AT_FREE \<Rightarrow> AT_FREE
      | AT_HEAD \<Rightarrow> AT_FREE
      | AT_MARK \<Rightarrow> AT_HEAD
      | AT_TAIL \<Rightarrow> if K (gc_owner K b) = AT_HEAD then AT_FREE else AT_TAIL)"

lemma gc_owner_cong: "(\<And>b. K b = AT_TAIL \<longleftrightarrow> L b = AT_TAIL) \<Longrightarrow> gc_owner K b = gc_owner L b"
  by (induction b) auto

lemma gc_owner_self: "K b \<noteq> AT_TAIL \<Longrightarrow> gc_owner K b = b"
  by (cases b) auto

lemma gc_owner_tail: "0 < b \<Longrightarrow> K b = AT_TAIL \<Longrightarrow> gc_owner K b = gc_owner K (b - 1)"
  by (cases b) auto

lemma gc_owner_le: "gc_owner K b \<le> b"
  by (induction b) auto

lemma gc_owner_kind:
  "gc_tails_ok n K \<Longrightarrow> b < n \<Longrightarrow> K b \<noteq> AT_FREE \<Longrightarrow> K (gc_owner K b) = AT_HEAD \<or> K (gc_owner K b) = AT_MARK"
proof (induction b)
  case 0
  then show ?case by (cases "K 0") (auto simp: gc_tails_ok_def)
next
  case (Suc b)
  show ?case
  proof (cases "K (Suc b) = AT_TAIL")
    case True
    with Suc.prems have "K b \<noteq> AT_FREE" by (auto simp: gc_tails_ok_def)
    with True Suc show ?thesis by simp
  next
    case False
    with Suc.prems(3) show ?thesis by (cases "K (Suc b)") auto
  qed
qed

lemma gc_sweep_blocks:
  assumes "gc_tails_ok n (ATB_GET_KIND t)" and "n \<le> 4 * length t" and "m \<le> n"
    and "fold gc_sweep_block [0 ..< m] (t, False) = (t', free_tail)"
  shows "length t' = length t \<and>
    (\<forall>b. ATB_GET_KIND t' b = (if b < m then gc_swept (ATB_GET_KIND t) b else ATB_GET_KIND t b)) \<and>
    (0 < m \<and> ATB_GET_KIND t (m - 1) \<noteq> AT_FREE \<longrightarrow>
       free_tail = (ATB_GET_KIND t (gc_owner (ATB_GET_KIND t) (m - 1)) = AT_HEAD))"
  using assms(3,4)
proof (induction m arbitrary: t' free_tail)
  case 0
  then show ?case by simp
next
  case (Suc m)
  let ?K = "ATB_GET_KIND t"
  obtain t1 ft where run: "fold gc_sweep_block [0 ..< m] (t, False) = (t1, ft)"
    by (cases "fold gc_sweep_block [0 ..< m] (t, False)")
  with Suc have IH: "length t1 = length t" "\<And>b. ATB_GET_KIND t1 b = (if b < m then gc_swept ?K b else ?K b)"
    "0 < m \<Longrightarrow> ?K (m - 1) \<noteq> AT_FREE \<Longrightarrow> ft = (?K (gc_owner ?K (m - 1)) = AT_HEAD)" by auto
  have step: "gc_sweep_block m (t1, ft) = (t', free_tail)" using Suc.prems(2) run by simp
  have here: "ATB_GET_KIND t1 m = ?K m" by (simp add: IH(2))
  have m: "m < 4 * length t1" using Suc.prems(1) assms(2) IH(1) by simp
  show ?case
  proof (cases "?K m")
    case AT_FREE
    with step here have "t' = t1" "free_tail = ft" by (simp_all add: gc_sweep_block_def)
    with AT_FREE IH show ?thesis by (auto simp: gc_swept_def less_Suc_eq)
  next
    case AT_HEAD
    with step here have "t' = ATB_ANY_TO_FREE t1 m" "free_tail" by (simp_all add: gc_sweep_block_def)
    with AT_HEAD IH show ?thesis by (auto simp: gc_swept_def less_Suc_eq kind_any_to_free gc_owner_self)
  next
    case AT_MARK
    with step here have "t' = ATB_MARK_TO_HEAD t1 m" "\<not> free_tail" by (simp_all add: gc_sweep_block_def)
    with AT_MARK IH m here show ?thesis by (auto simp: gc_swept_def less_Suc_eq kind_mark_to_head gc_owner_self)
  next
    case AT_TAIL
    with assms(1) Suc.prems(1) have pos: "0 < m" "?K (m - 1) \<noteq> AT_FREE" by (auto simp: gc_tails_ok_def)
    have own: "gc_owner ?K m = gc_owner ?K (m - 1)" using gc_owner_tail [of m ?K] pos(1) AT_TAIL by simp
    have ft: "ft = (?K (gc_owner ?K m) = AT_HEAD)" using IH(3) pos own by simp
    have "t' = (if ft then ATB_ANY_TO_FREE t1 m else t1)" "free_tail = ft"
      using step here AT_TAIL by (auto simp: gc_sweep_block_def)
    with AT_TAIL IH ft show ?thesis by (auto simp: gc_swept_def less_Suc_eq kind_any_to_free)
  qed
qed

section \<open>The invariant, and what a collection does\<close>

text \<open>
  The table is there with at least one byte of memory behind it, and that memory does not go on with a
  tail; blocks in front of \<open>gc_last_free_atb_index\<close> are in use.
\<close>

definition gc_inv :: "gc_heap \<Rightarrow> bool" where
  "gc_inv h \<longleftrightarrow>
     gc_alloc_table_byte_len h < length (gc_alloc_table h) \<and> gc_kind h (gc_blocks h) \<noteq> AT_TAIL \<and>
     length (gc_pool h) = gc_blocks h * BYTES_PER_BLOCK \<and> gc_pool_start h mod BYTES_PER_BLOCK = 0 \<and>
     gc_no_marks h \<and> gc_tails_ok (gc_blocks h) (gc_kind h) \<and>
     (\<forall>b < gc_blocks h. b < gc_last_free_atb_index h * BLOCKS_PER_ATB \<longrightarrow> gc_kind h b \<noteq> AT_FREE)"

lemma gc_inv_table: "gc_inv h \<Longrightarrow> gc_blocks h < 4 * length (gc_alloc_table h)"
  by (simp add: gc_inv_def gc_blocks_def BLOCKS_PER_ATB_def)

text \<open>
  After a collection the chains of the reachable heads are what they were, all other blocks are free,
  and the memory of the pool is not touched.
\<close>

lemma gc_collect_val:
  assumes "gc_inv h"
  shows "\<exists>t. gc_collect (state, stack) h =
      h\<lparr>gc_alloc_table := t, gc_stack_overflow := False, gc_alloc_amount := 0, gc_last_free_atb_index := 0\<rparr> \<and>
    length t = length (gc_alloc_table h) \<and>
    (\<forall>b. ATB_GET_KIND t b =
      (if b < gc_blocks h \<and> gc_owner (gc_kind h) b \<notin> gc_reach h (state @ stack) then AT_FREE else gc_kind h b))"
proof -
  let ?R = "gc_reach h (state @ stack)"
  let ?hm = "gc_deal_with_stack_overflow (gc_collect_root stack (gc_collect_start state h))"
  have no: "gc_no_marks h" and tails: "gc_tails_ok (gc_blocks h) (gc_kind h)" using assms by (simp_all add: gc_inv_def)
  note marked = gc_mark_phase [OF no, where state = state and stack = stack]
  have kind: "gc_kind ?hm b = (if b \<in> ?R then AT_MARK else gc_kind h b)" for b
    using gc_markedD(1) [OF marked(1), of b] by simp
  have head: "b \<in> ?R \<Longrightarrow> gc_kind h b = AT_HEAD" for b using gc_markedD(2) [OF marked(1), of b] by simp
  have tail: "gc_kind ?hm b = AT_TAIL \<longleftrightarrow> gc_kind h b = AT_TAIL" for b using kind [of b] head [of b] by auto
  have tails_m: "gc_tails_ok (gc_blocks h) (gc_kind ?hm)"
    using tails kind by (auto simp: gc_tails_ok_def tail)
  have len: "length (gc_alloc_table ?hm) = length (gc_alloc_table h)" using gc_markedD(3) [OF marked(1)] by simp
  obtain t ft where sweep: "fold gc_sweep_block [0 ..< gc_blocks h] (gc_alloc_table ?hm, False) = (t, ft)"
    by (cases "fold gc_sweep_block [0 ..< gc_blocks h] (gc_alloc_table ?hm, False)")
  have t: "length t = length (gc_alloc_table h)"
    "\<And>b. ATB_GET_KIND t b = (if b < gc_blocks h then gc_swept (gc_kind ?hm) b else gc_kind ?hm b)"
    using gc_sweep_blocks [OF tails_m _ order_refl sweep] gc_inv_table [OF assms] len by auto
  obtain u v where "?hm = (gc_begun h)\<lparr>gc_alloc_table := u, gc_stack_overflow := v\<rparr>" by (rule gc_marked_eq [OF marked(1)])
  then have hm: "?hm = (gc_begun h)\<lparr>gc_alloc_table := u, gc_stack_overflow := False\<rparr>" using marked(2) by (cases v) simp_all
  have "gc_collect (state, stack) h =
      (gc_sweep ?hm)\<lparr>gc_last_free_atb_index := 0, gc_lock_depth := gc_lock_depth (gc_sweep ?hm) - 1\<rparr>"
    by (simp add: gc_collect_def gc_collect_end_def Let_def)
  also have "gc_sweep ?hm = ?hm\<lparr>gc_alloc_table := t\<rparr>"
    using sweep by (simp add: gc_sweep_def gc_marked_same(4) [OF marked(1)])
  also have "?hm\<lparr>gc_alloc_table := t\<rparr> = (gc_begun h)\<lparr>gc_alloc_table := t, gc_stack_overflow := False\<rparr>"
    by (subst hm) simp
  finally have run: "gc_collect (state, stack) h =
      h\<lparr>gc_alloc_table := t, gc_stack_overflow := False, gc_alloc_amount := 0, gc_last_free_atb_index := 0\<rparr>"
    by (simp add: gc_begun_def)
  have owner: "gc_owner (gc_kind ?hm) b = gc_owner (gc_kind h) b" for b by (rule gc_owner_cong [OF tail])
  have "gc_swept (gc_kind ?hm) b = (if gc_owner (gc_kind h) b \<notin> ?R then AT_FREE else gc_kind h b)" if b: "b < gc_blocks h" for b
  proof (cases "gc_kind h b")
    case AT_FREE
    then show ?thesis using head [of b] by (auto simp: gc_swept_def kind)
  next
    case AT_HEAD
    then show ?thesis by (simp add: gc_swept_def kind gc_owner_self)
  next
    case AT_MARK
    then show ?thesis using no b by (simp add: gc_no_marks_def)
  next
    case AT_TAIL
    have "gc_owner (gc_kind h) b < gc_blocks h" using gc_owner_le [of "gc_kind h" b] b by simp
    moreover have "gc_kind h (gc_owner (gc_kind h) b) = AT_HEAD \<or> gc_kind h (gc_owner (gc_kind h) b) = AT_MARK"
      using gc_owner_kind [OF tails b] AT_TAIL by simp
    ultimately have "gc_kind h (gc_owner (gc_kind h) b) = AT_HEAD" using no by (auto simp: gc_no_marks_def)
    moreover have "gc_kind ?hm b = AT_TAIL" using AT_TAIL tail by simp
    ultimately show ?thesis using AT_TAIL kind [of "gc_owner (gc_kind h) b"] by (simp add: gc_swept_def owner)
  qed
  moreover have "gc_kind ?hm b = gc_kind h b" if "\<not> b < gc_blocks h" for b
    using that gc_markedD(2) [OF marked(1), of b] kind [of b] by auto
  ultimately show ?thesis using run t by (intro exI [of _ t]) auto
qed

lemma gc_inv_collect:
  assumes "gc_inv h"
  shows "gc_inv (gc_collect roots h)"
proof -
  obtain state stack where roots: "roots = (state, stack)" by (cases roots)
  let ?R = "gc_reach h (state @ stack)"
  obtain t where c: "gc_collect roots h =
      h\<lparr>gc_alloc_table := t, gc_stack_overflow := False, gc_alloc_amount := 0, gc_last_free_atb_index := 0\<rparr>"
    and len: "length t = length (gc_alloc_table h)"
    and kind: "\<And>b. ATB_GET_KIND t b =
      (if b < gc_blocks h \<and> gc_owner (gc_kind h) b \<notin> ?R then AT_FREE else gc_kind h b)"
    using gc_collect_val [OF assms, of state stack] unfolding roots by blast
  have tails: "gc_tails_ok (gc_blocks h) (ATB_GET_KIND t)"
    unfolding gc_tails_ok_def
  proof (intro allI impI)
    fix b
    assume b: "b < gc_blocks h" "ATB_GET_KIND t b = AT_TAIL"
    then have "gc_kind h b = AT_TAIL" "gc_owner (gc_kind h) b \<in> ?R" using kind [of b] by (auto split: if_splits)
    with assms b have "0 < b" "gc_kind h (b - 1) \<noteq> AT_FREE" by (auto simp: gc_inv_def gc_tails_ok_def)
    moreover from this have "gc_owner (gc_kind h) (b - 1) \<in> ?R"
      using gc_owner_tail [of b "gc_kind h"] \<open>gc_kind h b = AT_TAIL\<close> \<open>gc_owner (gc_kind h) b \<in> ?R\<close> by simp
    ultimately show "0 < b \<and> ATB_GET_KIND t (b - 1) \<noteq> AT_FREE" using kind [of "b - 1"] by auto
  qed
  with assms len show ?thesis
    by (auto simp: gc_inv_def c gc_blocks_def gc_no_marks_def kind split: if_splits)
qed

end
