(* ===== verification/GcAlloc.thy ===== *)
theory GcAlloc
  imports GcLaws
begin

text \<open>
  Allocation, freeing and resizing in \<open>py/gc.c\<close>: what each does to the table and to the pool, that the
  invariant of the heap is kept, and the run of blocks that a stale count makes up.
\<close>

section \<open>Searching\<close>

lemma gc_blocks_for_val:
  "gc_blocks_for n = (if unat n \<le> 18446744073709551584 then (unat n + 31) div 32 else 0)"
proof -
  have and_div: "unat ((x :: 64 word) AND NOT 31) div 32 = unat x div 32" for x
  proof -
    have "drop_bit 5 (x AND NOT 31) = drop_bit 5 x"
    proof (rule bit_word_eqI)
      fix i
      assume "i < LENGTH(64)"
      have "(31 :: 64 word) = mask 5" by (simp add: mask_eq_exp_minus_1)
      then have not31: "\<not> bit (31 :: 64 word) (5 + i)" by (simp only: bit_mask_iff) simp
      show "bit (drop_bit 5 (x AND NOT 31)) i = bit (drop_bit 5 x) i"
        unfolding bit_drop_bit_eq o_def bit_and_iff bit_not_iff
        using not31 bit_imp_le_length [of x "5 + i"] by auto
    qed
    then have "unat (x AND NOT 31) div 2 ^ 5 = unat x div 2 ^ 5" by (simp only: unat_drop_bit_div [symmetric])
    then show ?thesis by simp
  qed
  have plus: "unat (n + 31) = (unat n + 31) mod 18446744073709551616" by (simp add: unat_word_ariths)
  have "gc_blocks_for n = unat (n + 31) div 32"
    using and_div [of "31 + n"] by (simp add: gc_blocks_for_def BYTES_PER_BLOCK_def add.commute)
  also have "\<dots> = (if unat n \<le> 18446744073709551584 then (unat n + 31) div 32 else 0)"
  proof (cases "unat n \<le> 18446744073709551584")
    case False
    moreover have "unat n < 18446744073709551616" using unat_lt_2p [of n] by simp
    ultimately have "(unat n + 31) mod 18446744073709551616 = unat n + 31 - 18446744073709551616"
      by (subst mod_if) (simp add: mod_less)
    with False \<open>unat n < 18446744073709551616\<close> plus show ?thesis by simp
  qed (simp add: plus)
  finally show ?thesis .
qed

lemma gc_blocks_for_bound: "gc_blocks_for n \<noteq> 0 \<Longrightarrow> unat n \<le> gc_blocks_for n * 32"
  by (simp add: gc_blocks_for_val split: if_splits)

lemma table_is_free:
  "b < 4 * length t \<Longrightarrow> ATB_IS_FREE (b mod BLOCKS_PER_ATB) (table_byte t (b div BLOCKS_PER_ATB)) \<longleftrightarrow> ATB_GET_KIND t b = AT_FREE"
  using atb_is_free [of b t] by (simp add: table_byte_def BLOCKS_PER_ATB_def) linarith

text \<open>A run that is found is free and has the length asked for.\<close>

lemma gc_find_run_Inl:
  "gc_find_run t n k block f = Inl (i, g) \<Longrightarrow> n \<le> 4 * length t \<Longrightarrow> f < k \<Longrightarrow> f \<le> block \<Longrightarrow>
   (\<And>b. block - f \<le> b \<Longrightarrow> b < block \<Longrightarrow> ATB_GET_KIND t b = AT_FREE) \<Longrightarrow>
   g = k \<and> i < n \<and> g \<le> i + 1 \<and> block \<le> i \<and> (\<forall>b. i + 1 - g \<le> b \<and> b \<le> i \<longrightarrow> ATB_GET_KIND t b = AT_FREE) \<and>
   (k = 1 \<longrightarrow> (\<forall>b. block \<le> b \<and> b < i \<longrightarrow> ATB_GET_KIND t b \<noteq> AT_FREE))"
proof (induction t n k block f rule: gc_find_run.induct)
  case (1 t n k block f)
  from "1.prems"(1) have lt: "block < n" by (subst (asm) gc_find_run.simps) (simp split: if_splits)
  have free: "ATB_IS_FREE (block mod BLOCKS_PER_ATB) (table_byte t (block div BLOCKS_PER_ATB)) \<longleftrightarrow>
      ATB_GET_KIND t block = AT_FREE" by (rule table_is_free) (use lt "1.prems"(2) in simp)
  show ?case
  proof (cases "ATB_GET_KIND t block = AT_FREE")
    case False
    with "1.prems"(1) lt free have run: "gc_find_run t n k (block + 1) 0 = Inl (i, g)"
      by (subst (asm) gc_find_run.simps) simp
    from "1.IH"(2) [OF lt _ run "1.prems"(2)] False free "1.prems"(3) have IH:
      "g = k \<and> i < n \<and> g \<le> i + 1 \<and> block + 1 \<le> i \<and> (\<forall>b. i + 1 - g \<le> b \<and> b \<le> i \<longrightarrow> ATB_GET_KIND t b = AT_FREE) \<and>
       (k = 1 \<longrightarrow> (\<forall>b. block + 1 \<le> b \<and> b < i \<longrightarrow> ATB_GET_KIND t b \<noteq> AT_FREE))" by simp
    have "ATB_GET_KIND t b \<noteq> AT_FREE" if "k = 1" "block \<le> b" "b < i" for b
      using IH that False by (cases "b = block") auto
    with IH show ?thesis by auto
  next
    case True
    have run_free: "ATB_GET_KIND t b = AT_FREE" if "block - f \<le> b" "b < block + 1" for b
      using "1.prems"(5) [of b] True that by (cases "b = block") auto
    show ?thesis
    proof (cases "k \<le> f + 1")
      case stop: True
      with "1.prems"(1,3) lt free True have "i = block" "g = f + 1" "f + 1 = k"
        by (subst (asm) gc_find_run.simps; simp)+
      with lt "1.prems"(4) run_free show ?thesis by auto
    next
      case more: False
      with "1.prems"(1) lt free True have run: "gc_find_run t n k (block + 1) (f + 1) = Inl (i, g)"
        by (subst (asm) gc_find_run.simps) simp
      from "1.IH"(1) [OF lt _ _ run "1.prems"(2)] more free True "1.prems"(4) run_free have
        "g = k \<and> i < n \<and> g \<le> i + 1 \<and> block + 1 \<le> i \<and> (\<forall>b. i + 1 - g \<le> b \<and> b \<le> i \<longrightarrow> ATB_GET_KIND t b = AT_FREE)"
        by simp
      with more show ?thesis by auto
    qed
  qed
qed

text \<open>When no run is found there is none, and the count that is left is 0 if the last block is in use.\<close>

lemma gc_find_run_Inr:
  "gc_find_run t n k block f = Inr g \<Longrightarrow> n \<le> 4 * length t \<Longrightarrow> f < k \<Longrightarrow> f \<le> block \<Longrightarrow>
   (\<forall>s. block - f \<le> s \<and> s + k \<le> n \<longrightarrow> (\<exists>b. s \<le> b \<and> b < s + k \<and> ATB_GET_KIND t b \<noteq> AT_FREE)) \<and>
   (ATB_GET_KIND t (n - 1) \<noteq> AT_FREE \<and> (n \<le> block \<longrightarrow> f = 0) \<longrightarrow> g = 0)"
proof (induction t n k block f rule: gc_find_run.induct)
  case (1 t n k block f)
  show ?case
  proof (cases "block < n")
    case False
    with "1.prems"(1) have "g = f" by (subst (asm) gc_find_run.simps) simp
    with False "1.prems"(3,4) show ?thesis by auto
  next
    case lt: True
    have free: "ATB_IS_FREE (block mod BLOCKS_PER_ATB) (table_byte t (block div BLOCKS_PER_ATB)) \<longleftrightarrow>
        ATB_GET_KIND t block = AT_FREE" by (rule table_is_free) (use lt "1.prems"(2) in simp)
    show ?thesis
    proof (cases "ATB_GET_KIND t block = AT_FREE")
      case False
      with "1.prems"(1) lt free have run: "gc_find_run t n k (block + 1) 0 = Inr g"
        by (subst (asm) gc_find_run.simps) simp
      from "1.IH"(2) [OF lt _ run "1.prems"(2)] False free "1.prems"(3) have IH:
        "\<And>s. block + 1 \<le> s \<Longrightarrow> s + k \<le> n \<Longrightarrow> \<exists>b. s \<le> b \<and> b < s + k \<and> ATB_GET_KIND t b \<noteq> AT_FREE"
        "ATB_GET_KIND t (n - 1) \<noteq> AT_FREE \<Longrightarrow> g = 0" by simp_all
      have "\<exists>b. s \<le> b \<and> b < s + k \<and> ATB_GET_KIND t b \<noteq> AT_FREE" if "block - f \<le> s" "s + k \<le> n" for s
      proof (cases "block + 1 \<le> s")
        case False
        with that "1.prems"(3) \<open>ATB_GET_KIND t block \<noteq> AT_FREE\<close> show ?thesis by (intro exI [of _ block]) auto
      qed (use IH(1) that in blast)
      with IH(2) show ?thesis by blast
    next
      case True
      have more: "\<not> k \<le> f + 1" and run: "gc_find_run t n k (block + 1) (f + 1) = Inr g"
        using "1.prems"(1) lt free True by (subst (asm) gc_find_run.simps; simp split: if_splits)+
      from "1.IH"(1) [OF lt _ _ run "1.prems"(2)] more free True "1.prems"(4) have IH:
        "\<And>s. block - f \<le> s \<Longrightarrow> s + k \<le> n \<Longrightarrow> \<exists>b. s \<le> b \<and> b < s + k \<and> ATB_GET_KIND t b \<noteq> AT_FREE"
        "ATB_GET_KIND t (n - 1) \<noteq> AT_FREE \<Longrightarrow> (n \<le> block + 1 \<longrightarrow> f + 1 = 0) \<Longrightarrow> g = 0" by simp_all
      have "g = 0" if last: "ATB_GET_KIND t (n - 1) \<noteq> AT_FREE"
      proof (rule IH(2) [OF last])
        have "n \<noteq> block + 1" using last True by auto
        with lt show "n \<le> block + 1 \<longrightarrow> f + 1 = 0" by simp
      qed
      with IH(1) show ?thesis by blast
    qed
  qed
qed

section \<open>Chains in the table\<close>

text \<open>The table \<open>t'\<close> is \<open>t\<close> with a chain of \<open>k\<close> blocks at \<open>s\<close>.\<close>

definition gc_chain_at :: "byte list \<Rightarrow> byte list \<Rightarrow> nat \<Rightarrow> nat \<Rightarrow> bool" where
  "gc_chain_at t t' s k \<longleftrightarrow>
     length t' = length t \<and>
     (\<forall>b. ATB_GET_KIND t' b = (if b = s then AT_HEAD else if s < b \<and> b < s + k then AT_TAIL else ATB_GET_KIND t b))"

lemma fold_free_to_tail:
  "c \<le> 4 * length t \<Longrightarrow> (\<And>b. a \<le> b \<Longrightarrow> b < c \<Longrightarrow> ATB_GET_KIND t b = AT_FREE) \<Longrightarrow>
   length (fold (\<lambda>bl t. ATB_FREE_TO_TAIL t bl) [a ..< c] t) = length t \<and>
   (\<forall>b. ATB_GET_KIND (fold (\<lambda>bl t. ATB_FREE_TO_TAIL t bl) [a ..< c] t) b =
     (if a \<le> b \<and> b < c then AT_TAIL else ATB_GET_KIND t b))"
proof (induction c)
  case (Suc c)
  show ?case
  proof (cases "a \<le> c")
    case True
    let ?t = "fold (\<lambda>bl t. ATB_FREE_TO_TAIL t bl) [a ..< c] t"
    from Suc have IH: "length ?t = length t" "\<And>b. ATB_GET_KIND ?t b = (if a \<le> b \<and> b < c then AT_TAIL else ATB_GET_KIND t b)"
      by simp_all
    have "c < 4 * length ?t" "ATB_GET_KIND ?t c = AT_FREE" using Suc.prems True IH by simp_all
    with True IH show ?thesis by (auto simp: kind_free_to_tail less_Suc_eq)
  qed auto
qed simp

text \<open>The assertion of the expansion holds on a run of free blocks.\<close>

lemma gc_take_tails_val:
  "a \<le> e \<Longrightarrow> e \<le> 4 * length t \<Longrightarrow> (\<And>b. a \<le> b \<Longrightarrow> b < e \<Longrightarrow> ATB_GET_KIND t b = AT_FREE) \<Longrightarrow>
   gc_take_tails t [a ..< e] = Some (fold (\<lambda>bl t. ATB_FREE_TO_TAIL t bl) [a ..< e] t)"
proof (induction "e - a" arbitrary: a t)
  case (Suc m)
  then have a: "a < e" by simp
  have "gc_take_tails (ATB_FREE_TO_TAIL t a) [Suc a ..< e] =
      Some (fold (\<lambda>bl t. ATB_FREE_TO_TAIL t bl) [Suc a ..< e] (ATB_FREE_TO_TAIL t a))"
    using Suc.hyps(2) Suc.prems a kind_free_to_tail [of a t] by (intro Suc.hyps(1)) auto
  with a Suc.prems(3) [of a] show ?case by (simp add: upt_rec [of a e])
qed simp

lemma fold_any_to_free:
  "length (fold (\<lambda>bl t. ATB_ANY_TO_FREE t bl) [a ..< c] t) = length t \<and>
   ATB_GET_KIND (fold (\<lambda>bl t. ATB_ANY_TO_FREE t bl) [a ..< c] t) b =
     (if a \<le> b \<and> b < c then AT_FREE else ATB_GET_KIND t b)"
  by (induction c) (auto simp: kind_any_to_free less_Suc_eq)

lemma gc_chain_len_pos: "0 < gc_chain_len t b"
  by (subst gc_chain_len.simps) simp

lemma gc_chain_len_blocks:
  "(b < c \<and> c < b + gc_chain_len t b \<longrightarrow> ATB_GET_KIND t c = AT_TAIL) \<and> ATB_GET_KIND t (b + gc_chain_len t b) \<noteq> AT_TAIL"
proof (induction t b rule: gc_chain_len.induct)
  case (1 t b)
  show ?case
  proof (cases "ATB_GET_KIND t (b + 1) = AT_TAIL")
    case True
    then have eq: "gc_chain_len t b = Suc (gc_chain_len t (b + 1))" by (subst gc_chain_len.simps) simp
    with True 1 show ?thesis by (cases "c = b + 1") auto
  next
    case False
    then have "gc_chain_len t b = 1" by (subst gc_chain_len.simps) simp
    with False show ?thesis by auto
  qed
qed

lemma gc_chain_len_eqI:
  assumes "\<And>c. b < c \<Longrightarrow> c < b + k \<Longrightarrow> ATB_GET_KIND t c = AT_TAIL" and "ATB_GET_KIND t (b + k) \<noteq> AT_TAIL" and "0 < k"
  shows "gc_chain_len t b = k"
proof (rule linorder_cases [of "gc_chain_len t b" k])
  assume "gc_chain_len t b < k"
  with assms(1) [of "b + gc_chain_len t b"] gc_chain_len_pos [of t b] gc_chain_len_blocks [of b b t] show ?thesis by simp
next
  assume "k < gc_chain_len t b"
  with assms(2,3) gc_chain_len_blocks [of b "b + k" t] show ?thesis by simp
qed

lemma gc_chain_len_bound:
  assumes "b < n" and "ATB_GET_KIND t n \<noteq> AT_TAIL"
  shows "b + gc_chain_len t b \<le> n"
  using assms gc_chain_len_blocks [of b n t] by (cases "n < b + gc_chain_len t b") auto

lemma gc_chain_at_len:
  assumes "gc_chain_at t t' s k" and "0 < k" and "ATB_GET_KIND t (s + k) \<noteq> AT_TAIL"
  shows "gc_chain_len t' s = k"
  by (rule gc_chain_len_eqI) (use assms in \<open>auto simp: gc_chain_at_def\<close>)

lemma gc_free_chain_val:
  "length (gc_free_chain t b) = length t \<and>
   (\<forall>c. ATB_GET_KIND (gc_free_chain t b) c = (if b \<le> c \<and> c < b + gc_chain_len t b then AT_FREE else ATB_GET_KIND t c))"
proof (induction t b rule: gc_free_chain.induct)
  case (1 t b)
  let ?t = "ATB_ANY_TO_FREE t b"
  have next_kind: "ATB_GET_KIND ?t (b + 1) = ATB_GET_KIND t (b + 1)" by (simp add: kind_any_to_free)
  show ?case
  proof (cases "ATB_GET_KIND t (b + 1) = AT_TAIL")
    case True
    have len: "gc_chain_len t b = Suc (gc_chain_len t (b + 1))" using True by (subst gc_chain_len.simps) simp
    have same: "gc_chain_len ?t (b + 1) = gc_chain_len t (b + 1)"
    proof (rule gc_chain_len_eqI)
      show "ATB_GET_KIND ?t c = AT_TAIL" if "b + 1 < c" "c < b + 1 + gc_chain_len t (b + 1)" for c
        using that gc_chain_len_blocks [of "b + 1" c t] by (simp add: kind_any_to_free)
      show "ATB_GET_KIND ?t (b + 1 + gc_chain_len t (b + 1)) \<noteq> AT_TAIL"
        using gc_chain_len_blocks [of "b + 1" b t] by (simp add: kind_any_to_free)
    qed (rule gc_chain_len_pos)
    have "gc_free_chain t b = gc_free_chain ?t (b + 1)"
      using True next_kind by (subst gc_free_chain.simps) simp
    moreover have "length (gc_free_chain ?t (b + 1)) = length t \<and>
      (\<forall>c. ATB_GET_KIND (gc_free_chain ?t (b + 1)) c =
        (if b + 1 \<le> c \<and> c < b + 1 + gc_chain_len t (b + 1) then AT_FREE else ATB_GET_KIND ?t c))"
      using "1.IH" [OF refl] True next_kind unfolding same by simp
    ultimately show ?thesis using len by (auto simp: kind_any_to_free)
  next
    case False
    then have "gc_free_chain t b = ?t" "gc_chain_len t b = 1"
      using next_kind by (subst gc_free_chain.simps, simp, subst gc_chain_len.simps, simp)
    then show ?thesis by (auto simp: kind_any_to_free)
  qed
qed

section \<open>Allocating\<close>

text \<open>The contract of an allocation that found a run.\<close>

definition gc_fresh :: "gc_heap \<Rightarrow> gc_heap \<Rightarrow> nat \<Rightarrow> 64 word \<Rightarrow> bool" where
  "gc_fresh h h' s n_bytes \<longleftrightarrow>
     (let k = gc_blocks_for n_bytes
      in s + k \<le> gc_blocks h \<and> (\<forall>b. s \<le> b \<and> b < s + k \<longrightarrow> gc_kind h b = AT_FREE) \<and>
         gc_chain_at (gc_alloc_table h) (gc_alloc_table h') s k \<and>
         gc_pool h' = gc_zero (s * BYTES_PER_BLOCK) ((s + k) * BYTES_PER_BLOCK) (gc_pool h) \<and>
         gc_alloc_table_byte_len h' = gc_alloc_table_byte_len h \<and> gc_pool_start h' = gc_pool_start h \<and>
         gc_lock_depth h' = gc_lock_depth h)"

lemma length_gc_zero: "a \<le> b \<Longrightarrow> b \<le> length p \<Longrightarrow> length (gc_zero a b p) = length p"
  by (simp add: gc_zero_def)

lemma gc_claim_val:
  assumes inv: "gc_inv h" and k: "gc_blocks_for n_bytes = k" "k \<noteq> 0"
    and found: "gc_find_free h k 0 = Inl (i, g)"
  shows "\<exists>h'. gc_claim h k i g = Some (h', Some (PTR_FROM_BLOCK h (i + 1 - k))) \<and>
    gc_fresh h h' (i + 1 - k) n_bytes \<and> gc_inv h'"
proof -
  note table = gc_inv_table [OF inv]
  let ?t = "gc_alloc_table h" and ?s = "i + 1 - k"
  let ?b0 = "gc_last_free_atb_index h * BLOCKS_PER_ATB"
  have run: "gc_find_run ?t (gc_blocks h) k ?b0 0 = Inl (i, g)" using found by (simp add: gc_find_free_def)
  have g: "g = k" "i < gc_blocks h" "k \<le> i + 1" "?b0 \<le> i"
    "\<And>b. ?s \<le> b \<Longrightarrow> b \<le> i \<Longrightarrow> gc_kind h b = AT_FREE"
    "\<And>b. k = 1 \<Longrightarrow> ?b0 \<le> b \<Longrightarrow> b < i \<Longrightarrow> gc_kind h b \<noteq> AT_FREE"
    using gc_find_run_Inl [OF run] table k(2) by auto
  have s: "?s + k = i + 1" using g(3) by simp
  define t1 where "t1 = ATB_FREE_TO_HEAD ?t ?s"
  define t2 where "t2 = fold (\<lambda>bl t. ATB_FREE_TO_TAIL t bl) [?s + 1 ..< i + 1] t1"
  have t1: "length t1 = length ?t" "\<And>b. ATB_GET_KIND t1 b = (if b = ?s then AT_HEAD else gc_kind h b)"
    using kind_free_to_head [of ?s ?t] g(2) g(5) [of ?s] table k(2) by (simp_all add: t1_def)
  have t2: "length t2 = length ?t"
    "\<And>b. ATB_GET_KIND t2 b = (if ?s + 1 \<le> b \<and> b < i + 1 then AT_TAIL else ATB_GET_KIND t1 b)"
    using fold_free_to_tail [of "i + 1" t1 "?s + 1"] t1 g(2,5) table unfolding t2_def by auto
  have chain: "gc_chain_at ?t t2 ?s k"
    unfolding gc_chain_at_def using t1 t2 s by auto
  define last where "last = (if k = 1 then (i + 1) div BLOCKS_PER_ATB else gc_last_free_atb_index h)"
  define pool where "pool = gc_zero (?s * BYTES_PER_BLOCK) ((i + 1) * BYTES_PER_BLOCK) (gc_pool h)"
  define h' where "h' = h\<lparr>gc_last_free_atb_index := last, gc_alloc_table := t2,
      gc_alloc_amount := gc_alloc_amount h + of_nat k, gc_pool := pool\<rparr>"
  have start: "\<not> gc_start_block i k < 0" "nat (gc_start_block i k) = ?s" using g(3) by (simp_all add: gc_start_block_def)
  have claim: "gc_claim h k i g = Some (h', Some (PTR_FROM_BLOCK h ?s))"
    using g(1,3) start by (simp add: gc_claim_def Let_def h'_def last_def pool_def t1_def t2_def PTR_FROM_BLOCK_def)
  have fresh: "gc_fresh h h' ?s n_bytes"
    using k(1) s g(2,5) chain by (simp add: gc_fresh_def Let_def h'_def pool_def)
  have bytes: "?s * BYTES_PER_BLOCK \<le> (i + 1) * BYTES_PER_BLOCK" by (simp add: BYTES_PER_BLOCK_def)
  have kind: "ATB_GET_KIND t2 b = (if b = ?s then AT_HEAD else if ?s < b \<and> b < i + 1 then AT_TAIL else gc_kind h b)" for b
    using chain s by (auto simp: gc_chain_at_def)
  have "gc_inv h'"
    unfolding gc_inv_def
  proof (intro conjI allI impI)
    show "gc_alloc_table_byte_len h' < length (gc_alloc_table h')" using inv t2(1) by (simp add: gc_inv_def h'_def)
    have n: "gc_blocks h' = gc_blocks h" by (simp add: gc_blocks_def h'_def)
    show "gc_kind h' (gc_blocks h') \<noteq> AT_TAIL" using inv kind [of "gc_blocks h"] g(2) n by (simp add: gc_inv_def h'_def)
    have "length pool = length (gc_pool h)"
      unfolding pool_def using bytes g(2) inv by (intro length_gc_zero) (simp_all add: gc_inv_def BYTES_PER_BLOCK_def)
    with inv n show "length (gc_pool h') = gc_blocks h' * BYTES_PER_BLOCK" by (simp add: gc_inv_def h'_def)
    show "gc_pool_start h' mod BYTES_PER_BLOCK = 0" using inv by (simp add: gc_inv_def h'_def)
    show "gc_no_marks h'" using inv kind n by (simp add: gc_inv_def h'_def gc_no_marks_def)
    show "gc_tails_ok (gc_blocks h') (gc_kind h')"
      unfolding gc_tails_ok_def n
    proof (intro allI impI)
      fix b
      assume b: "b < gc_blocks h" "gc_kind h' b = AT_TAIL"
      show "0 < b \<and> gc_kind h' (b - 1) \<noteq> AT_FREE"
      proof (cases "?s < b \<and> b < i + 1")
        case True
        then show ?thesis using kind [of "b - 1"] by (auto simp: h'_def)
      next
        case False
        with b kind [of b] have tail: "gc_kind h b = AT_TAIL" by (simp add: h'_def split: if_splits)
        with inv b(1) have "0 < b" "gc_kind h (b - 1) \<noteq> AT_FREE" by (auto simp: gc_inv_def gc_tails_ok_def)
        with kind [of "b - 1"] show ?thesis by (simp add: h'_def)
      qed
    qed
    fix b
    assume b: "b < gc_blocks h'" "b < gc_last_free_atb_index h' * BLOCKS_PER_ATB"
    show "gc_kind h' b \<noteq> AT_FREE"
    proof (cases "?s \<le> b \<and> b \<le> i")
      case True
      then show ?thesis using kind [of b] by (simp add: h'_def)
    next
      case False
      have "gc_kind h b \<noteq> AT_FREE"
      proof (cases "b < ?b0")
        case True
        with inv b(1) n show ?thesis by (simp add: gc_inv_def)
      next
        case ge: False
        with b(2) have "k = 1" by (auto simp: h'_def last_def split: if_splits)
        with b(2) have "b < i + 1" by (simp add: h'_def last_def BLOCKS_PER_ATB_def)
        with g(6) [OF \<open>k = 1\<close>, of b] ge False \<open>k = 1\<close> show ?thesis by auto
      qed
      with False kind [of b] show ?thesis by (simp add: h'_def)
    qed
  qed
  with claim fresh show ?thesis by blast
qed

text \<open>The heap in which \<open>gc_alloc\<close> searches first.\<close>

definition gc_tried :: "nat list \<times> nat list \<Rightarrow> gc_heap \<Rightarrow> gc_heap" where
  "gc_tried roots h =
     (if gc_auto_collect_enabled h \<and> gc_alloc_amount h \<ge> gc_alloc_threshold h then gc_collect roots h else h)"

lemma gc_inv_tried: "gc_inv h \<Longrightarrow> gc_inv (gc_tried roots h)"
  by (simp add: gc_tried_def gc_inv_collect)

lemma gc_collect_fields:
  assumes "gc_inv h"
  shows "gc_blocks (gc_collect roots h) = gc_blocks h" "gc_lock_depth (gc_collect roots h) = gc_lock_depth h"
    "gc_pool_start (gc_collect roots h) = gc_pool_start h" "gc_pool (gc_collect roots h) = gc_pool h"
    "gc_auto_collect_enabled (gc_collect roots h) = gc_auto_collect_enabled h"
    "gc_alloc_table_byte_len (gc_collect roots h) = gc_alloc_table_byte_len h"
proof -
  obtain state stack where roots: "roots = (state, stack)" by (cases roots)
  obtain t where "gc_collect roots h =
      h\<lparr>gc_alloc_table := t, gc_stack_overflow := False, gc_alloc_amount := 0, gc_last_free_atb_index := 0\<rparr>"
    using gc_collect_val [OF assms, of state stack] unfolding roots by blast
  then show "gc_blocks (gc_collect roots h) = gc_blocks h" "gc_lock_depth (gc_collect roots h) = gc_lock_depth h"
    "gc_pool_start (gc_collect roots h) = gc_pool_start h" "gc_pool (gc_collect roots h) = gc_pool h"
    "gc_auto_collect_enabled (gc_collect roots h) = gc_auto_collect_enabled h"
    "gc_alloc_table_byte_len (gc_collect roots h) = gc_alloc_table_byte_len h"
    by (simp_all add: gc_blocks_def)
qed

lemma gc_find_free_Inr:
  assumes "gc_inv h" and "0 < k" and "gc_find_free h k 0 = Inr g"
  shows "s + k \<le> gc_blocks h \<Longrightarrow> \<exists>b. s \<le> b \<and> b < s + k \<and> gc_kind h b \<noteq> AT_FREE"
    and "gc_kind h (gc_blocks h - 1) \<noteq> AT_FREE \<Longrightarrow> g = 0"
proof -
  have run: "gc_find_run (gc_alloc_table h) (gc_blocks h) k (gc_last_free_atb_index h * BLOCKS_PER_ATB) 0 = Inr g"
    using assms(3) by (simp add: gc_find_free_def)
  note found = gc_find_run_Inr [OF run less_imp_le [OF gc_inv_table [OF assms(1)]] assms(2)]
  show "g = 0" if "gc_kind h (gc_blocks h - 1) \<noteq> AT_FREE" using found that by simp
  assume s: "s + k \<le> gc_blocks h"
  show "\<exists>b. s \<le> b \<and> b < s + k \<and> gc_kind h b \<noteq> AT_FREE"
  proof (cases "s < gc_last_free_atb_index h * BLOCKS_PER_ATB")
    case True
    with assms(1,2) s have "gc_kind h s \<noteq> AT_FREE" by (simp add: gc_inv_def)
    with assms(2) show ?thesis by (intro exI [of _ s]) simp
  next
    case False
    with found s show ?thesis by simp
  qed
qed

text \<open>
  The second search goes on with the count of the first one. It does no harm when the last block was in
  use, which makes the count 0, or when the first block is in use after the collection, which resets it.
\<close>

definition gc_settled :: "nat list \<times> nat list \<Rightarrow> gc_heap \<Rightarrow> bool" where
  "gc_settled roots h \<longleftrightarrow>
     gc_kind (gc_tried roots h) (gc_blocks h - 1) \<noteq> AT_FREE \<or>
     gc_kind (gc_collect roots (gc_tried roots h)) 0 \<noteq> AT_FREE"

lemma gc_find_free_count:
  assumes inv: "gc_inv h" and first: "gc_kind h 0 \<noteq> AT_FREE" and last: "gc_last_free_atb_index h = 0"
    and n: "0 < gc_blocks h"
  shows "gc_find_free h k g = gc_find_free h k 0"
proof -
  have "\<not> ATB_IS_FREE (0 mod BLOCKS_PER_ATB) (table_byte (gc_alloc_table h) (0 div BLOCKS_PER_ATB))"
    using table_is_free [of 0 "gc_alloc_table h"] first gc_inv_table [OF inv] n by (cases "gc_alloc_table h") simp_all
  then have "gc_find_run (gc_alloc_table h) (gc_blocks h) k 0 f = gc_find_run (gc_alloc_table h) (gc_blocks h) k 1 0" for f
    using n by (subst gc_find_run.simps) simp
  then show ?thesis unfolding gc_find_free_def last by simp
qed

lemma gc_settled_count:
  assumes inv: "gc_inv h" and "gc_settled roots h" and k: "0 < k"
    and first: "gc_find_free (gc_tried roots h) k 0 = Inr g"
  shows "gc_find_free (gc_collect roots (gc_tried roots h)) k g = gc_find_free (gc_collect roots (gc_tried roots h)) k 0"
proof -
  note inv1 = gc_inv_tried [OF inv, of roots]
  have n: "gc_blocks (gc_tried roots h) = gc_blocks h" using gc_collect_fields [OF inv] by (simp add: gc_tried_def)
  consider "gc_kind (gc_tried roots h) (gc_blocks h - 1) \<noteq> AT_FREE" | "gc_kind (gc_collect roots (gc_tried roots h)) 0 \<noteq> AT_FREE"
    using assms(2) unfolding gc_settled_def by blast
  then show ?thesis
  proof cases
    case 1
    then have "g = 0" using gc_find_free_Inr(2) [OF inv1 k first] n by simp
    then show ?thesis by simp
  next
    case 2
    obtain state stack where roots: "roots = (state, stack)" by (cases roots)
    have "gc_last_free_atb_index (gc_collect roots (gc_tried roots h)) = 0"
      using gc_collect_val [OF inv1, of state stack] roots by auto
    note same = gc_find_free_count [OF gc_inv_collect [OF inv1] 2 this]
    show ?thesis
    proof (cases "gc_blocks h = 0")
      case True
      have "gc_find_run t 0 k 0 f = Inr f" for t f by (subst gc_find_run.simps) simp
      with True first n have "g = 0"
        unfolding gc_find_free_def by (cases "gc_last_free_atb_index (gc_tried roots h) * BLOCKS_PER_ATB")
          (simp_all add: gc_find_run.simps)
      then show ?thesis by simp
    next
      case False
      then show ?thesis by (intro same) (simp add: gc_collect_fields(1) [OF inv1] n)
    qed
  qed
qed

text \<open>
  \<open>gc_alloc\<close> on an unlocked, settled heap: it either takes a run of free blocks of the heap before or after
  a collection, or there is no such run.
\<close>

lemma gc_alloc_val:
  assumes inv: "gc_inv h" and lock: "gc_lock_depth h = 0" and k: "gc_blocks_for n_bytes \<noteq> 0"
    and last: "gc_settled roots h"
  obtains h' r h1 where "gc_alloc roots h n_bytes = Some (h', r)" and "gc_inv h'"
    and "h1 = gc_tried roots h \<or> h1 = gc_collect roots (gc_tried roots h)"
    and "case r of
        Some p \<Rightarrow> \<exists>s. p = PTR_FROM_BLOCK h s \<and> gc_fresh h1 h' s n_bytes
      | None \<Rightarrow> h' = h1 \<and> (\<forall>s. s + gc_blocks_for n_bytes \<le> gc_blocks h \<longrightarrow>
          (\<exists>b. s \<le> b \<and> b < s + gc_blocks_for n_bytes \<and> gc_kind h' b \<noteq> AT_FREE))"
proof -
  define h1 where "h1 = gc_tried roots h"
  define k where "k = gc_blocks_for n_bytes"
  have inv1: "gc_inv h1" unfolding h1_def by (rule gc_inv_tried [OF inv])
  have same: "gc_blocks h1 = gc_blocks h" "gc_pool_start h1 = gc_pool_start h"
    using gc_collect_fields [OF inv, of roots] by (simp_all add: h1_def gc_tried_def)
  have ptr: "PTR_FROM_BLOCK h1 s = PTR_FROM_BLOCK h s" for s using same(2) by (simp add: PTR_FROM_BLOCK_def)
  have kpos: "0 < k" using k by (simp add: k_def)
  have run: "gc_alloc roots h n_bytes =
      (case gc_find_free h1 k 0 of
         Inl (i, n_free) \<Rightarrow> gc_claim h1 k i n_free
       | Inr n_free \<Rightarrow>
           (if \<not> gc_auto_collect_enabled h then Some (h1, None)
            else case gc_find_free (gc_collect roots h1) k n_free of
              Inl (i, n_free) \<Rightarrow> gc_claim (gc_collect roots h1) k i n_free
            | Inr n_free \<Rightarrow> Some (gc_collect roots h1, None)))"
    unfolding gc_alloc_def Let_def k_def h1_def gc_tried_def not_not using lock k by simp
  show thesis
  proof (cases "gc_find_free h1 k 0")
    case (Inl ig)
    obtain i g where ig: "ig = (i, g)" by (cases ig)
    obtain h' where c: "gc_claim h1 k i g = Some (h', Some (PTR_FROM_BLOCK h1 (i + 1 - k)))"
      "gc_fresh h1 h' (i + 1 - k) n_bytes" "gc_inv h'"
      using gc_claim_val [OF inv1 k_def [symmetric] _ Inl [unfolded ig]] kpos by auto
    show thesis
    proof (rule that [of h' "Some (PTR_FROM_BLOCK h1 (i + 1 - k))" h1])
      show "gc_alloc roots h n_bytes = Some (h', Some (PTR_FROM_BLOCK h1 (i + 1 - k)))" using run Inl ig c(1) by simp
    qed (use c ptr h1_def in auto)
  next
    case (Inr g)
    note none = gc_find_free_Inr [OF inv1 kpos Inr]
    show thesis
    proof (cases "gc_auto_collect_enabled h")
      case False
      with run Inr have "gc_alloc roots h n_bytes = Some (h1, None)" by simp
      from that [OF this inv1, of h1] none(1) same h1_def k_def show thesis by auto
    next
      case True
      let ?h2 = "gc_collect roots h1"
      have g: "gc_find_free ?h2 k g = gc_find_free ?h2 k 0"
        using gc_settled_count [OF inv last kpos Inr [unfolded h1_def]] by (simp add: h1_def)
      have inv2: "gc_inv ?h2" by (rule gc_inv_collect [OF inv1])
      note same2 = gc_collect_fields [OF inv1, of roots]
      have ptr2: "PTR_FROM_BLOCK ?h2 s = PTR_FROM_BLOCK h s" for s using same(2) same2(3) by (simp add: PTR_FROM_BLOCK_def)
      show thesis
      proof (cases "gc_find_free ?h2 k 0")
        case found: (Inl ig)
        obtain i g' where ig: "ig = (i, g')" by (cases ig)
        obtain h' where c: "gc_claim ?h2 k i g' = Some (h', Some (PTR_FROM_BLOCK ?h2 (i + 1 - k)))"
          "gc_fresh ?h2 h' (i + 1 - k) n_bytes" "gc_inv h'"
          using gc_claim_val [OF inv2 k_def [symmetric] _ found [unfolded ig]] kpos by auto
        show thesis
        proof (rule that [of h' "Some (PTR_FROM_BLOCK ?h2 (i + 1 - k))" ?h2])
          show "gc_alloc roots h n_bytes = Some (h', Some (PTR_FROM_BLOCK ?h2 (i + 1 - k)))"
            using run Inr g True found ig c(1) by simp
        qed (use c ptr2 h1_def in auto)
      next
        case not_found: (Inr g')
        with run Inr g True have "gc_alloc roots h n_bytes = Some (?h2, None)" by simp
        from that [OF this inv2, of ?h2] gc_find_free_Inr(1) [OF inv2 kpos not_found] same(1) same2(1) h1_def k_def
        show thesis by auto
      qed
    qed
  qed
qed

end
