(* ===== verification/GcRealloc.thy ===== *)
theory GcRealloc
  imports GcAlloc
begin

text \<open>
  Freeing and resizing in \<open>py/gc.c\<close>: a chain is freed as a whole, and a chain that is resized keeps its
  contents, whether it shrinks, grows in place or moves, with the collections that a move may start.
\<close>

section \<open>What a collection keeps\<close>

lemma gc_owner_chain:
  assumes "ATB_GET_KIND t b \<noteq> AT_TAIL" and "b \<le> c" and "c < b + gc_chain_len t b"
  shows "gc_owner (ATB_GET_KIND t) c = b"
  using assms(2,3)
proof (induction c)
  case 0
  then show ?case by simp
next
  case (Suc c)
  show ?case
  proof (cases "Suc c = b")
    case True
    with assms(1) show ?thesis by (intro trans [OF gc_owner_self]) auto
  next
    case False
    with Suc.prems have "ATB_GET_KIND t (Suc c) = AT_TAIL" using gc_chain_len_blocks [of b "Suc c" t] by simp
    with False Suc show ?thesis by simp
  qed
qed

lemma gc_reach_head: "b \<in> gc_reach h roots \<Longrightarrow> b < gc_blocks h \<and> gc_kind h b = AT_HEAD"
  by (induction rule: gc_reach.induct) (auto dest: gc_targets_blocks)

lemma gc_collect_keeps:
  assumes inv: "gc_inv h" and b: "b \<in> gc_reach h (state @ stack)"
  shows "gc_kind (gc_collect (state, stack) h) b = AT_HEAD"
    and "gc_chain_len (gc_alloc_table (gc_collect (state, stack) h)) b = gc_chain_len (gc_alloc_table h) b"
    and "b \<in> gc_reach (gc_collect (state, stack) h) (state @ stack)"
proof -
  let ?h' = "gc_collect (state, stack) h" and ?R = "gc_reach h (state @ stack)"
  obtain t where c: "?h' =
      h\<lparr>gc_alloc_table := t, gc_stack_overflow := False, gc_alloc_amount := 0, gc_last_free_atb_index := 0\<rparr>"
    and kind: "\<And>b. ATB_GET_KIND t b =
      (if b < gc_blocks h \<and> gc_owner (gc_kind h) b \<notin> ?R then AT_FREE else gc_kind h b)"
    using gc_collect_val [OF inv, of state stack] by blast
  have head: "gc_kind ?h' x = AT_HEAD" if "x \<in> ?R" for x
    using gc_reach_head [OF that] kind [of x] that by (simp add: c gc_owner_self)
  have len: "gc_chain_len (gc_alloc_table ?h') x = gc_chain_len (gc_alloc_table h) x" if x: "x \<in> ?R" for x
  proof (rule gc_chain_len_eqI)
    fix y
    assume y: "x < y" "y < x + gc_chain_len (gc_alloc_table h) x"
    have "gc_owner (gc_kind h) y = x" by (rule gc_owner_chain) (use gc_reach_head [OF x] y in simp_all)
    with x have "ATB_GET_KIND t y = gc_kind h y" using kind [of y] by simp
    with y show "ATB_GET_KIND (gc_alloc_table ?h') y = AT_TAIL"
      using gc_chain_len_blocks [of x y "gc_alloc_table h"] by (simp add: c)
  next
    show "ATB_GET_KIND (gc_alloc_table ?h') (x + gc_chain_len (gc_alloc_table h) x) \<noteq> AT_TAIL"
      using kind gc_chain_len_blocks [of x x "gc_alloc_table h"] by (simp add: c)
  qed (rule gc_chain_len_pos)
  have targets: "x \<in> gc_targets ?h' ps" if "x \<in> gc_targets h ps" "x \<in> ?R" for x ps
  proof -
    from that(1) obtain p where p: "x = BLOCK_FROM_PTR h p" "p \<in> set ps" "VERIFY_PTR h p" by (auto simp: gc_targets_def)
    then have "x = BLOCK_FROM_PTR ?h' p" "VERIFY_PTR ?h' p"
      by (simp_all add: c BLOCK_FROM_PTR_def VERIFY_PTR_def gc_pool_end_def gc_blocks_def)
    with p(2) head [OF that(2)] show ?thesis by (auto simp: gc_targets_def)
  qed
  have ptrs: "gc_chain_ptrs ?h' x = gc_chain_ptrs h x" if "x \<in> ?R" for x
    using len [OF that] by (simp add: gc_chain_ptrs_def gc_word_def [abs_def] c)
  have "x \<in> gc_reach ?h' (state @ stack)" if "x \<in> ?R" for x
    using that
  proof (induction rule: gc_reach.induct)
    case (root x)
    then show ?case by (intro gc_reach.root targets gc_reach.root)
  next
    case (child x y)
    then have "y \<in> gc_targets ?h' (gc_chain_ptrs ?h' x)"
      unfolding ptrs [OF child.hyps(1)] by (intro targets) (auto intro: gc_reach.child)
    with child.IH show ?case by (rule gc_reach.child)
  qed
  with head len b show "gc_kind ?h' b = AT_HEAD" "gc_chain_len (gc_alloc_table ?h') b = gc_chain_len (gc_alloc_table h) b"
    "b \<in> gc_reach ?h' (state @ stack)" by blast+
qed

section \<open>Freeing\<close>

lemma gc_inv_less_chain:
  assumes "gc_inv h" and "b < gc_blocks h"
  shows "b + gc_chain_len (gc_alloc_table h) b \<le> gc_blocks h"
  using assms by (intro gc_chain_len_bound) (simp_all add: gc_inv_def)

text \<open>Freeing the end of a chain, or all of it, keeps the invariant.\<close>

lemma gc_inv_free_blocks:
  assumes inv: "gc_inv h" and b: "b < gc_blocks h" and len: "length t = length (gc_alloc_table h)"
    and kind: "\<And>c. ATB_GET_KIND t c =
      (if b + k \<le> c \<and> c < b + gc_chain_len (gc_alloc_table h) b then AT_FREE else gc_kind h c)"
    and last: "i * BLOCKS_PER_ATB \<le> gc_last_free_atb_index h * BLOCKS_PER_ATB" "i * BLOCKS_PER_ATB \<le> b + k"
  shows "gc_inv (h\<lparr>gc_alloc_table := t, gc_last_free_atb_index := i\<rparr>)"
proof -
  have "0 < c \<and> ATB_GET_KIND t (c - 1) \<noteq> AT_FREE" if c: "c < gc_blocks h" "ATB_GET_KIND t c = AT_TAIL" for c
  proof -
    from c(2) kind [of c] have tail: "gc_kind h c = AT_TAIL"
      and out: "\<not> (b + k \<le> c \<and> c < b + gc_chain_len (gc_alloc_table h) b)" by (auto split: if_splits)
    from tail inv c(1) have "0 < c" "gc_kind h (c - 1) \<noteq> AT_FREE" by (auto simp: gc_inv_def gc_tails_ok_def)
    moreover have "c \<noteq> b + gc_chain_len (gc_alloc_table h) b"
      using tail gc_chain_len_blocks [of b b "gc_alloc_table h"] by auto
    ultimately show ?thesis using kind [of "c - 1"] out by auto
  qed
  moreover have "gc_kind h (gc_blocks h) \<noteq> AT_TAIL" using inv by (simp add: gc_inv_def)
  moreover have "gc_kind h c \<noteq> AT_FREE" if "c < i * BLOCKS_PER_ATB" "c < gc_blocks h" for c
    using inv that(2) less_le_trans [OF that(1) last(1)] by (simp add: gc_inv_def)
  ultimately show ?thesis
    using inv len last(2) by (auto simp: gc_inv_def gc_blocks_def gc_no_marks_def gc_tails_ok_def kind split: if_splits)
qed

lemma gc_free_val:
  assumes inv: "gc_inv h" and lock: "gc_lock_depth h = 0" and ptr: "VERIFY_PTR h p"
    and head: "gc_kind h (BLOCK_FROM_PTR h p) = AT_HEAD"
  obtains t i where "gc_free h (Some p) = Some (h\<lparr>gc_alloc_table := t, gc_last_free_atb_index := i\<rparr>)"
    and "gc_inv (h\<lparr>gc_alloc_table := t, gc_last_free_atb_index := i\<rparr>)"
    and "\<And>c. ATB_GET_KIND t c =
      (if BLOCK_FROM_PTR h p \<le> c \<and> c < BLOCK_FROM_PTR h p + gc_chain_len (gc_alloc_table h) (BLOCK_FROM_PTR h p)
       then AT_FREE else gc_kind h c)"
proof -
  define b where "b = BLOCK_FROM_PTR h p"
  define t where "t = gc_free_chain (gc_alloc_table h) b"
  define i where "i = (if b div BLOCKS_PER_ATB < gc_last_free_atb_index h then b div BLOCKS_PER_ATB
    else gc_last_free_atb_index h)"
  have b: "b < gc_blocks h" unfolding b_def by (rule gc_verify_block [OF ptr])
  note chain = gc_free_chain_val [of "gc_alloc_table h" b, folded t_def]
  have run: "gc_free h (Some p) = Some (h\<lparr>gc_alloc_table := t, gc_last_free_atb_index := i\<rparr>)"
    using lock ptr head by (simp add: gc_free_def Let_def b_def [symmetric] t_def i_def)
  have "gc_inv (h\<lparr>gc_alloc_table := t, gc_last_free_atb_index := i\<rparr>)"
    by (rule gc_inv_free_blocks [OF inv b, where t = t and k = 0 and i = i]) (use chain in \<open>auto simp: i_def BLOCKS_PER_ATB_def\<close>)
  with run chain show thesis by (intro that [where t = t and i = i]) (simp_all add: b_def)
qed

section \<open>Counting\<close>

lemma gc_count_free_val:
  "gc_count t n new bl k f = (N, F) \<Longrightarrow> gc_tails_ok n (ATB_GET_KIND t) \<Longrightarrow> bl \<le> n \<Longrightarrow> 0 < bl \<Longrightarrow>
   ATB_GET_KIND t (bl - 1) = AT_FREE \<Longrightarrow>
   N = k \<and> f \<le> F \<and> bl + F \<le> n + f \<and> (\<forall>c. bl \<le> c \<and> c + f < bl + F \<longrightarrow> ATB_GET_KIND t c = AT_FREE)"
proof (induction t n new bl k f rule: gc_count.induct)
  case (1 t n new bl k f)
  have ended: ?case if "N = k" "F = f" using that "1.prems"(3) by auto
  show ?case
  proof (cases "bl < n \<and> ATB_GET_KIND t bl = AT_FREE")
    case False
    moreover have "bl < n \<Longrightarrow> ATB_GET_KIND t bl \<noteq> AT_TAIL" using "1.prems"(2,5) by (auto simp: gc_tails_ok_def)
    ultimately show ?thesis
      using "1.prems"(1) by (intro ended) (auto simp: gc_count.simps [of t n new bl] split: at_kind.splits if_splits)
  next
    case True
    show ?thesis
    proof (cases "new \<le> k + (f + 1)")
      case stop: True
      with "1.prems"(1) True have "N = k" "F = f + 1" by (simp_all add: gc_count.simps [of t n new bl])
      with True show ?thesis by (auto simp: less_Suc_eq)
    next
      case False
      with "1.prems"(1) True have "gc_count t n new (bl + 1) k (f + 1) = (N, F)"
        by (simp add: gc_count.simps [of t n new bl])
      then have IH: "N = k \<and> f + 1 \<le> F \<and> bl + 1 + F \<le> n + (f + 1) \<and>
        (\<forall>c. bl + 1 \<le> c \<and> c + (f + 1) < bl + 1 + F \<longrightarrow> ATB_GET_KIND t c = AT_FREE)"
        using "1.IH"(1) True False "1.prems"(2) by simp
      have "ATB_GET_KIND t c = AT_FREE" if "bl \<le> c" "c + f < bl + F" for c
        using IH that True by (cases "c = bl") auto
      with IH show ?thesis by simp
    qed
  qed
qed

lemma gc_count_val:
  "gc_count t n new bl k f = (N, F) \<Longrightarrow> f = 0 \<Longrightarrow> gc_tails_ok n (ATB_GET_KIND t) \<Longrightarrow> ATB_GET_KIND t n \<noteq> AT_TAIL \<Longrightarrow>
   bl \<le> n \<Longrightarrow> 0 < bl \<Longrightarrow>
   N + 1 = k + gc_chain_len t (bl - 1) \<and> bl + N + F \<le> n + k \<and>
   (\<forall>c. bl + N \<le> c + k \<and> c + k < bl + N + F \<longrightarrow> ATB_GET_KIND t c = AT_FREE)"
proof (induction t n new bl k f rule: gc_count.induct)
  case (1 t n new bl k f)
  have one: "gc_chain_len t (bl - 1) = 1" if "ATB_GET_KIND t bl \<noteq> AT_TAIL"
    using that "1.prems"(6) by (subst gc_chain_len.simps) simp
  show ?case
  proof (cases "bl < n \<and> ATB_GET_KIND t bl = AT_TAIL")
    case True
    then have len: "gc_chain_len t (bl - 1) = Suc (gc_chain_len t bl)"
      using "1.prems"(6) by (subst gc_chain_len.simps) simp
    have "gc_count t n new (bl + 1) (k + 1) f = (N, F)"
      using "1.prems"(1) True by (simp add: gc_count.simps [of t n new bl])
    with "1.IH"(2) True "1.prems"(2-4) have IH: "N + 1 = k + 1 + gc_chain_len t bl \<and> bl + 1 + N + F \<le> n + (k + 1) \<and>
        (\<forall>c. bl + 1 + N \<le> c + (k + 1) \<and> c + (k + 1) < bl + 1 + N + F \<longrightarrow> ATB_GET_KIND t c = AT_FREE)" by simp
    have "ATB_GET_KIND t c = AT_FREE" if "bl + N \<le> c + k" "c + k < bl + N + F" for c
      using IH that by simp
    with IH len show ?thesis by simp
  next
    case False
    then have end_chain: "ATB_GET_KIND t bl \<noteq> AT_TAIL" using "1.prems"(4,5) by (cases "bl = n") auto
    have "N = k \<and> bl + F \<le> n \<and> (\<forall>c. bl \<le> c \<and> c < bl + F \<longrightarrow> ATB_GET_KIND t c = AT_FREE)"
    proof (cases "bl < n \<and> ATB_GET_KIND t bl = AT_FREE")
      case free: True
      have "N = k \<and> 1 \<le> F \<and> bl + 1 + F \<le> n + 1 \<and> (\<forall>c. bl + 1 \<le> c \<and> c + 1 < bl + 1 + F \<longrightarrow> ATB_GET_KIND t c = AT_FREE)"
      proof (cases "new \<le> k + 1")
        case True
        with "1.prems"(1,2) free have "N = k" "F = 1" by (simp_all add: gc_count.simps [of t n new bl])
        with free show ?thesis by auto
      next
        case False
        with "1.prems"(1,2) free have "gc_count t n new (bl + 1) k 1 = (N, F)" by (simp add: gc_count.simps [of t n new bl])
        from gc_count_free_val [OF this "1.prems"(3)] free show ?thesis by simp
      qed
      note counted = this
      have "ATB_GET_KIND t c = AT_FREE" if "bl \<le> c" "c < bl + F" for c
        using counted free that by (cases "c = bl") auto
      with counted show ?thesis by simp
    next
      case False
      with end_chain "1.prems"(1,2,5) show ?thesis
        by (auto simp: gc_count.simps [of t n new bl] split: at_kind.splits if_splits)
    qed
    with one [OF end_chain] show ?thesis by simp
  qed
qed

section \<open>Contents\<close>

text \<open>The first \<open>m\<close> bytes of a chain.\<close>

definition gc_contents :: "gc_heap \<Rightarrow> nat \<Rightarrow> nat \<Rightarrow> byte list" where
  "gc_contents h b m = take m (drop (b * BYTES_PER_BLOCK) (gc_pool h))"

lemma take_drop_zero_before:
  "d + m \<le> a \<Longrightarrow> a \<le> length p \<Longrightarrow> take m (drop d (gc_zero a e p)) = take m (drop d p)"
  by (rule nth_equalityI) (auto simp: gc_zero_def nth_append)

lemma take_drop_zero_after:
  assumes "a \<le> e" "e \<le> d" "e \<le> length p"
  shows "take m (drop d (gc_zero a e p)) = take m (drop d p)"
proof -
  have "length (gc_zero a e p) = length p" by (rule length_gc_zero) (use assms in simp_all)
  moreover have "drop d (gc_zero a e p) = drop d p"
    by (rule nth_equalityI) (use assms calculation in \<open>auto simp: gc_zero_def nth_append\<close>)
  ultimately show ?thesis by simp
qed

lemma take_drop_copy:
  assumes "dest + n \<le> length p" "src + n \<le> length p" "m \<le> n"
  shows "take m (drop dest (gc_copy dest src n p)) = take m (drop src p)"
  using assms by (auto simp: gc_copy_def)

lemma gc_contents_same_pool: "gc_pool h' = gc_pool h \<Longrightarrow> gc_contents h' b m = gc_contents h b m"
  by (simp add: gc_contents_def)

lemma take_drop_copy_other:
  assumes "dest + n \<le> length p" "src + n \<le> length p" "d + m \<le> dest \<or> dest + n \<le> d"
  shows "take m (drop d (gc_copy dest src n p)) = take m (drop d p)"
  using assms(3)
proof
  assume "d + m \<le> dest"
  with assms(1) show ?thesis by (intro nth_equalityI) (auto simp: gc_copy_def nth_append)
next
  assume "dest + n \<le> d"
  with assms(1,2) show ?thesis by (simp add: gc_copy_def)
qed

section \<open>What stays\<close>

text \<open>The chain at \<open>c\<close> is as it was, with its contents.\<close>

definition gc_kept :: "gc_heap \<Rightarrow> gc_heap \<Rightarrow> nat \<Rightarrow> bool" where
  "gc_kept h h' c \<longleftrightarrow>
     (let m = gc_chain_len (gc_alloc_table h) c * BYTES_PER_BLOCK
      in gc_kind h' c = AT_HEAD \<and> gc_chain_len (gc_alloc_table h') c = gc_chain_len (gc_alloc_table h) c \<and>
         gc_contents h' c m = gc_contents h c m)"

lemma gc_kept_trans: "gc_kept h h1 c \<Longrightarrow> gc_kept h1 h2 c \<Longrightarrow> gc_kept h h2 c"
  by (simp add: gc_kept_def Let_def)

lemma gc_kept_refl: "gc_kind h c = AT_HEAD \<Longrightarrow> gc_kept h h c"
  by (simp add: gc_kept_def Let_def)

lemma gc_keptI:
  assumes "gc_kind h c = AT_HEAD"
    and "\<And>x. c \<le> x \<Longrightarrow> x < c + gc_chain_len (gc_alloc_table h) c \<Longrightarrow> gc_kind h' x = gc_kind h x"
    and "gc_kind h' (c + gc_chain_len (gc_alloc_table h) c) \<noteq> AT_TAIL"
    and "gc_contents h' c (gc_chain_len (gc_alloc_table h) c * BYTES_PER_BLOCK) =
      gc_contents h c (gc_chain_len (gc_alloc_table h) c * BYTES_PER_BLOCK)"
  shows "gc_kept h h' c"
proof -
  have "gc_chain_len (gc_alloc_table h') c = gc_chain_len (gc_alloc_table h) c"
    by (rule gc_chain_len_eqI)
      (use assms(2,3) gc_chain_len_blocks [of c _ "gc_alloc_table h"] gc_chain_len_pos [of "gc_alloc_table h" c] in auto)
  with assms(1,4) assms(2) [of c] gc_chain_len_pos [of "gc_alloc_table h" c] show ?thesis by (simp add: gc_kept_def Let_def)
qed

lemma gc_chain_used:
  "gc_kind h c = AT_HEAD \<Longrightarrow> c \<le> x \<Longrightarrow> x < c + gc_chain_len (gc_alloc_table h) c \<Longrightarrow> gc_kind h x \<noteq> AT_FREE"
  using gc_chain_len_blocks [of c x "gc_alloc_table h"] by (cases "x = c") auto

text \<open>Two chains do not meet.\<close>

lemma gc_chains_apart:
  assumes "gc_kind h b = AT_HEAD" "gc_kind h c = AT_HEAD" "b \<noteq> c"
  shows "b + gc_chain_len (gc_alloc_table h) b \<le> c \<or> c + gc_chain_len (gc_alloc_table h) c \<le> b"
proof (rule ccontr)
  assume "\<not> ?thesis"
  with assms(3) have "b < c \<and> c < b + gc_chain_len (gc_alloc_table h) b \<or> c < b \<and> b < c + gc_chain_len (gc_alloc_table h) c"
    by auto
  with assms(1,2) gc_chain_len_blocks [of b c "gc_alloc_table h"] gc_chain_len_blocks [of c b "gc_alloc_table h"]
  show False by auto
qed

text \<open>Freeing blocks of one chain keeps the others.\<close>

lemma gc_kept_freed:
  assumes "gc_kind h b = AT_HEAD" "gc_kind h c = AT_HEAD" "b \<noteq> c"
    and kind: "\<And>x. gc_kind h' x =
      (if b + k \<le> x \<and> x < b + gc_chain_len (gc_alloc_table h) b then AT_FREE else gc_kind h x)"
    and pool: "gc_pool h' = gc_pool h"
  shows "gc_kept h h' c"
  by (rule gc_keptI [OF assms(2)])
    (use kind gc_chains_apart [OF assms(1-3)] gc_chain_len_blocks [of c c "gc_alloc_table h"]
      gc_contents_same_pool [OF pool] in auto)

section \<open>The three ways to resize\<close>

lemma gc_shrink_val:
  assumes inv: "gc_inv h" and b: "b < gc_blocks h" "gc_kind h b = AT_HEAD"
    and k: "0 < k" "k < gc_chain_len (gc_alloc_table h) b"
  shows "gc_inv (gc_shrink h b (gc_chain_len (gc_alloc_table h) b) k)"
    and "gc_kind (gc_shrink h b (gc_chain_len (gc_alloc_table h) b) k) b = AT_HEAD"
    and "gc_chain_len (gc_alloc_table (gc_shrink h b (gc_chain_len (gc_alloc_table h) b) k)) b = k"
    and "gc_pool (gc_shrink h b (gc_chain_len (gc_alloc_table h) b) k) = gc_pool h"
    and "\<And>c. gc_kind h c = AT_HEAD \<Longrightarrow> c \<noteq> b \<Longrightarrow> gc_kept h (gc_shrink h b (gc_chain_len (gc_alloc_table h) b) k) c"
proof -
  let ?len = "gc_chain_len (gc_alloc_table h) b"
  define t where "t = fold (\<lambda>bl t. ATB_ANY_TO_FREE t bl) [b + k ..< b + ?len] (gc_alloc_table h)"
  define i where "i = (if (b + k) div BLOCKS_PER_ATB < gc_last_free_atb_index h then (b + k) div BLOCKS_PER_ATB
    else gc_last_free_atb_index h)"
  have run: "gc_shrink h b ?len k = h\<lparr>gc_alloc_table := t, gc_last_free_atb_index := i\<rparr>"
    by (simp add: gc_shrink_def Let_def t_def i_def)
  have t: "length t = length (gc_alloc_table h)"
    "\<And>c. ATB_GET_KIND t c = (if b + k \<le> c \<and> c < b + ?len then AT_FREE else gc_kind h c)"
    by (simp_all add: t_def fold_any_to_free)
  show "gc_inv (gc_shrink h b ?len k)"
    unfolding run
    by (rule gc_inv_free_blocks [OF inv b(1), where t = t and k = k and i = i])
      (use t in \<open>auto simp: i_def BLOCKS_PER_ATB_def\<close>)
  show "gc_kind (gc_shrink h b ?len k) b = AT_HEAD" using b(2) k(1) by (simp add: run t(2))
  show "gc_chain_len (gc_alloc_table (gc_shrink h b ?len k)) b = k"
    by (rule gc_chain_len_eqI) (use k gc_chain_len_blocks [of b _ "gc_alloc_table h"] in \<open>auto simp: run t(2)\<close>)
  show "gc_pool (gc_shrink h b ?len k) = gc_pool h" by (simp add: run)
  show "gc_kept h (gc_shrink h b ?len k) c" if "gc_kind h c = AT_HEAD" "c \<noteq> b" for c
    unfolding run by (rule gc_kept_freed [OF b(2) that(1) that(2) [symmetric]]) (simp_all add: t(2))
qed

lemma gc_expand_val:
  assumes inv: "gc_inv h" and b: "b < gc_blocks h" "gc_kind h b = AT_HEAD"
    and len: "len = gc_chain_len (gc_alloc_table h) b" "len \<le> k" and fits: "b + k \<le> gc_blocks h"
    and free: "\<And>c. b + len \<le> c \<Longrightarrow> c < b + k \<Longrightarrow> gc_kind h c = AT_FREE"
    and next_kind: "gc_kind h (b + k) \<noteq> AT_TAIL"
  obtains h' where "gc_expand h b len k = Some h'" and "gc_inv h'" and "gc_kind h' b = AT_HEAD"
    and "gc_chain_len (gc_alloc_table h') b = k"
    and "gc_contents h' b (len * BYTES_PER_BLOCK) = gc_contents h b (len * BYTES_PER_BLOCK)"
    and "\<And>c. gc_kind h c = AT_HEAD \<Longrightarrow> c \<noteq> b \<Longrightarrow> gc_kept h h' c"
    and "gc_blocks h' = gc_blocks h" "gc_pool_start h' = gc_pool_start h"
proof -
  define t where "t = fold (\<lambda>bl t. ATB_FREE_TO_TAIL t bl) [b + len ..< b + k] (gc_alloc_table h)"
  define pool where "pool = gc_zero ((b + len) * BYTES_PER_BLOCK) ((b + k) * BYTES_PER_BLOCK) (gc_pool h)"
  define h' where "h' = h\<lparr>gc_alloc_table := t, gc_pool := pool\<rparr>"
  have "gc_take_tails (gc_alloc_table h) [b + len ..< b + k] = Some t"
    unfolding t_def by (rule gc_take_tails_val) (use fits free len(2) gc_inv_table [OF inv] in simp_all)
  then have run: "gc_expand h b len k = Some h'" by (simp add: gc_expand_def h'_def pool_def)
  have size: "length (gc_pool h) = gc_blocks h * BYTES_PER_BLOCK" using inv by (simp add: gc_inv_def)
  have t: "length t = length (gc_alloc_table h)"
    "\<And>c. ATB_GET_KIND t c = (if b + len \<le> c \<and> c < b + k then AT_TAIL else gc_kind h c)"
    using fold_free_to_tail [of "b + k" "gc_alloc_table h" "b + len"] fits free gc_inv_table [OF inv] unfolding t_def by auto
  have pos: "0 < len" using len(1) gc_chain_len_pos by simp
  have ends: "(b + len) * BYTES_PER_BLOCK \<le> (b + k) * BYTES_PER_BLOCK" "(b + k) * BYTES_PER_BLOCK \<le> length (gc_pool h)"
    using len(2) fits size by (simp_all add: BYTES_PER_BLOCK_def)
  have "gc_inv (h\<lparr>gc_alloc_table := t, gc_pool := pool\<rparr>)"
  proof -
    have "0 < c \<and> ATB_GET_KIND t (c - 1) \<noteq> AT_FREE" if c: "c < gc_blocks h" "ATB_GET_KIND t c = AT_TAIL" for c
    proof (cases "b + len \<le> c \<and> c < b + k")
      case True
      have "ATB_GET_KIND t (c - 1) \<noteq> AT_FREE"
      proof (cases "c = b + len")
        case True
        have "gc_kind h (b + len - 1) \<noteq> AT_FREE"
        proof (cases "len = 1")
          case False
          with pos gc_chain_len_blocks [of b "b + len - 1" "gc_alloc_table h"] len(1) show ?thesis by simp
        qed (use b(2) in simp)
        with True pos show ?thesis by (simp add: t(2))
      qed (use True in \<open>auto simp: t(2)\<close>)
      with True pos show ?thesis by simp
    next
      case False
      with c t(2) have "gc_kind h c = AT_TAIL" by (simp split: if_splits)
      with inv c(1) have "0 < c" "gc_kind h (c - 1) \<noteq> AT_FREE" by (auto simp: gc_inv_def gc_tails_ok_def)
      then show ?thesis by (simp add: t(2))
    qed
    moreover have "length pool = gc_blocks h * BYTES_PER_BLOCK"
      unfolding pool_def using length_gc_zero [OF ends] size by simp
    ultimately show ?thesis
      using inv t fits by (auto simp: gc_inv_def gc_blocks_def gc_no_marks_def gc_tails_ok_def split: if_splits)
  qed
  then have inv': "gc_inv h'" by (simp only: h'_def)
  have kind': "gc_kind h' b = AT_HEAD" using b(2) pos by (simp add: h'_def t(2))
  have len': "gc_chain_len (gc_alloc_table h') b = k"
    unfolding h'_def
    by (rule gc_chain_len_eqI)
      (use pos len next_kind gc_chain_len_blocks [of b _ "gc_alloc_table h"] in \<open>auto simp: t(2)\<close>)
  have contents': "gc_contents h' b (len * BYTES_PER_BLOCK) = gc_contents h b (len * BYTES_PER_BLOCK)"
    unfolding gc_contents_def h'_def pool_def using ends
    by (simp add: take_drop_zero_before BYTES_PER_BLOCK_def)
  have kept': "gc_kept h h' c" if c: "gc_kind h c = AT_HEAD" "c \<noteq> b" for c
  proof -
    let ?m = "gc_chain_len (gc_alloc_table h) c"
    have cpos: "0 < ?m" by (rule gc_chain_len_pos)
    have apart: "b + k \<le> c \<or> c + ?m \<le> b"
    proof (cases "b + len \<le> c")
      case True
      with free [of c] c(1) show ?thesis by (cases "c < b + k") auto
    qed (use gc_chains_apart [OF b(2) c(1)] c(2) len(1) in auto)
    have "gc_contents h' c (?m * BYTES_PER_BLOCK) = gc_contents h c (?m * BYTES_PER_BLOCK)"
      using apart
    proof
      assume "b + k \<le> c"
      then show ?thesis
        unfolding gc_contents_def h'_def pool_def using ends by (simp add: take_drop_zero_after BYTES_PER_BLOCK_def)
    next
      assume "c + ?m \<le> b"
      then show ?thesis
        unfolding gc_contents_def h'_def pool_def using ends by (simp add: take_drop_zero_before BYTES_PER_BLOCK_def)
    qed
    then show ?thesis
      unfolding h'_def
      by (intro gc_keptI [OF c(1)])
        (use apart pos t(2) gc_chain_len_blocks [of c c "gc_alloc_table h"] in auto)
  qed
  show thesis
    by (rule that [OF run inv' kind' len' contents' kept']) (simp_all add: h'_def gc_blocks_def)
qed

lemma gc_fresh_fields:
  assumes "gc_fresh h1 h2 s n" and "gc_blocks_for n = k"
  shows "s + k \<le> gc_blocks h1" "\<And>c. s \<le> c \<Longrightarrow> c < s + k \<Longrightarrow> gc_kind h1 c = AT_FREE"
    "length (gc_alloc_table h2) = length (gc_alloc_table h1)"
    "\<And>c. gc_kind h2 c = (if c = s then AT_HEAD else if s < c \<and> c < s + k then AT_TAIL else gc_kind h1 c)"
    "gc_pool h2 = gc_zero (s * BYTES_PER_BLOCK) ((s + k) * BYTES_PER_BLOCK) (gc_pool h1)"
    "gc_blocks h2 = gc_blocks h1" "gc_pool_start h2 = gc_pool_start h1" "gc_lock_depth h2 = gc_lock_depth h1"
  using assms by (simp_all add: gc_fresh_def gc_chain_at_def Let_def gc_blocks_def)

lemma gc_inv_next_kind:
  assumes "gc_inv h" and "gc_kind h c = AT_FREE" and "c < gc_blocks h"
  shows "gc_kind h (Suc c) \<noteq> AT_TAIL"
proof (cases "Suc c < gc_blocks h")
  case True
  with assms show ?thesis by (auto simp: gc_inv_def gc_tails_ok_def)
next
  case False
  with assms(3) have "Suc c = gc_blocks h" by simp
  with assms(1) show ?thesis by (simp add: gc_inv_def)
qed

lemma gc_fresh_len:
  assumes inv: "gc_inv h1" and fresh: "gc_fresh h1 h2 s n" and k: "gc_blocks_for n = k" "0 < k"
  shows "gc_chain_len (gc_alloc_table h2) s = k"
proof (rule gc_chain_len_eqI)
  note f = gc_fresh_fields [OF fresh k(1)]
  have "gc_kind h1 (Suc (s + k - 1)) \<noteq> AT_TAIL"
    using gc_inv_next_kind [OF inv, of "s + k - 1"] f(1) f(2) [of "s + k - 1"] k(2) by simp
  then show "gc_kind h2 (s + k) \<noteq> AT_TAIL" using f(4) [of "s + k"] k(2) by simp
  show "gc_kind h2 c = AT_TAIL" if "s < c" "c < s + k" for c using f(4) [of c] that by simp
qed (rule k(2))

text \<open>A chain that was there stays, apart from the new one, and keeps its contents.\<close>

lemma gc_fresh_other:
  assumes inv: "gc_inv h1" and fresh: "gc_fresh h1 h2 s n" and k: "gc_blocks_for n = k" "0 < k"
    and b: "b < gc_blocks h1" "gc_kind h1 b = AT_HEAD"
  shows "gc_kind h2 b = AT_HEAD" and "gc_chain_len (gc_alloc_table h2) b = gc_chain_len (gc_alloc_table h1) b"
    and "b + gc_chain_len (gc_alloc_table h1) b \<le> s \<or> s + k \<le> b"
    and "gc_chain_len (gc_alloc_table h2) s = k"
    and "gc_contents h2 b (gc_chain_len (gc_alloc_table h1) b * BYTES_PER_BLOCK) =
      gc_contents h1 b (gc_chain_len (gc_alloc_table h1) b * BYTES_PER_BLOCK)"
proof -
  note f = gc_fresh_fields [OF fresh k(1)]
  let ?len = "gc_chain_len (gc_alloc_table h1) b"
  have used: "gc_kind h1 c \<noteq> AT_FREE" if "b \<le> c" "c < b + ?len" for c
    using that b(2) gc_chain_len_blocks [of b c "gc_alloc_table h1"] by (cases "c = b") auto
  show apart: "b + ?len \<le> s \<or> s + k \<le> b"
  proof (rule ccontr)
    assume "\<not> ?thesis"
    then have "b \<le> max b s" "max b s < b + ?len" "s \<le> max b s" "max b s < s + k"
      using k(2) gc_chain_len_pos [of "gc_alloc_table h1" b] by auto
    with used f(2) show False by blast
  qed
  have bs: "b \<noteq> s" "\<not> (s < b \<and> b < s + k)" using apart k(2) gc_chain_len_pos [of "gc_alloc_table h1" b] by auto
  then show "gc_kind h2 b = AT_HEAD" using f(4) [of b] b(2) by simp
  show "gc_chain_len (gc_alloc_table h2) b = ?len"
  proof (rule gc_chain_len_eqI)
    show "gc_kind h2 c = AT_TAIL" if "b < c" "c < b + ?len" for c
    proof -
      have "gc_kind h1 c = AT_TAIL" using that gc_chain_len_blocks [of b c "gc_alloc_table h1"] by simp
      moreover have "c \<noteq> s" using apart that by auto
      ultimately show ?thesis using f(4) [of c] by simp
    qed
    have "gc_kind h1 (b + ?len) \<noteq> AT_TAIL" using gc_chain_len_blocks [of b b "gc_alloc_table h1"] by simp
    moreover have "\<not> (s < b + ?len \<and> b + ?len < s + k)" using apart by auto
    ultimately show "gc_kind h2 (b + ?len) \<noteq> AT_TAIL" using f(4) [of "b + ?len"] by (simp split: if_splits)
  qed (rule gc_chain_len_pos)
  show "gc_chain_len (gc_alloc_table h2) s = k" by (rule gc_fresh_len [OF inv fresh k])
  have size: "length (gc_pool h1) = gc_blocks h1 * BYTES_PER_BLOCK" using inv by (simp add: gc_inv_def)
  show "gc_contents h2 b (?len * BYTES_PER_BLOCK) = gc_contents h1 b (?len * BYTES_PER_BLOCK)"
    using apart
  proof
    assume "b + ?len \<le> s"
    then show ?thesis
      unfolding gc_contents_def f(5)
      by (intro take_drop_zero_before) (use f(1) size k(2) in \<open>simp_all add: BYTES_PER_BLOCK_def\<close>)
  next
    assume "s + k \<le> b"
    then show ?thesis
      unfolding gc_contents_def f(5)
      by (intro take_drop_zero_after) (use f(1) size in \<open>simp_all add: BYTES_PER_BLOCK_def\<close>)
  qed
qed

lemma gc_tried_keeps:
  assumes inv: "gc_inv h" and b: "b \<in> gc_reach h (state @ stack)"
    and h1: "h1 = gc_tried (state, stack) h \<or> h1 = gc_collect (state, stack) (gc_tried (state, stack) h)"
  shows "gc_inv h1" "gc_kind h1 b = AT_HEAD" "gc_chain_len (gc_alloc_table h1) b = gc_chain_len (gc_alloc_table h) b"
    "gc_pool h1 = gc_pool h" "gc_blocks h1 = gc_blocks h" "gc_pool_start h1 = gc_pool_start h"
    "gc_lock_depth h1 = gc_lock_depth h"
proof -
  let ?C = "gc_collect (state, stack)"
  have tried: "gc_tried (state, stack) h = h \<or> gc_tried (state, stack) h = ?C h" by (simp add: gc_tried_def)
  note inv1 = gc_inv_collect [OF inv, of "(state, stack)"]
  note f = gc_collect_fields [OF inv, of "(state, stack)"] gc_collect_fields [OF inv1, of "(state, stack)"]
  note k = gc_collect_keeps [OF inv b]
  note k2 = gc_collect_keeps [OF inv1 k(3)]
  from tried h1 have "h1 \<in> {h, ?C h, ?C (?C h)}" by auto
  then show "gc_inv h1" "gc_kind h1 b = AT_HEAD" "gc_chain_len (gc_alloc_table h1) b = gc_chain_len (gc_alloc_table h) b"
    "gc_pool h1 = gc_pool h" "gc_blocks h1 = gc_blocks h" "gc_pool_start h1 = gc_pool_start h"
    "gc_lock_depth h1 = gc_lock_depth h"
    using inv inv1 gc_inv_collect [OF inv1, of "(state, stack)"] f k k2 gc_reach_head [OF b] by auto
qed

lemma gc_fresh_kept:
  assumes "gc_inv h1" "gc_fresh h1 h2 s n" "gc_blocks_for n = k" "0 < k" "b < gc_blocks h1" "gc_kind h1 b = AT_HEAD"
  shows "gc_kept h1 h2 b"
  using gc_fresh_other [OF assms] by (simp add: gc_kept_def Let_def)

text \<open>Copying the old chain into the new one, and freeing it.\<close>

lemma gc_inv_pool: "gc_inv h \<Longrightarrow> length pool = length (gc_pool h) \<Longrightarrow> gc_inv (h\<lparr>gc_pool := pool\<rparr>)"
  by (simp add: gc_inv_def gc_blocks_def gc_no_marks_def)

lemma gc_ptr_block:
  assumes "gc_inv h" and "VERIFY_PTR h p"
  shows "p - gc_pool_start h = BLOCK_FROM_PTR h p * BYTES_PER_BLOCK"
proof -
  have "BYTES_PER_BLOCK dvd p" "BYTES_PER_BLOCK dvd gc_pool_start h"
    using assms by (simp_all add: VERIFY_PTR_def gc_inv_def mod_eq_0_iff_dvd)
  then have "BYTES_PER_BLOCK dvd p - gc_pool_start h" by (rule dvd_diff_nat)
  then show ?thesis unfolding BLOCK_FROM_PTR_def by (rule dvd_div_mult_self [symmetric])
qed

lemma gc_copy_free_val:
  assumes inv: "gc_inv h" and lock: "gc_lock_depth h = 0" and p: "VERIFY_PTR h p" "BLOCK_FROM_PTR h p = b"
    and b: "gc_kind h b = AT_HEAD" "gc_chain_len (gc_alloc_table h) b = len"
    and s: "gc_kind h s = AT_HEAD" "gc_chain_len (gc_alloc_table h) s = k" "s < gc_blocks h"
    and len: "len \<le> k" and apart: "b + len \<le> s \<or> s + k \<le> b"
  obtains h' where "gc_free (h\<lparr>gc_pool := gc_copy (PTR_FROM_BLOCK h s - gc_pool_start h) (p - gc_pool_start h)
      (len * BYTES_PER_BLOCK) (gc_pool h)\<rparr>) (Some p) = Some h'"
    and "gc_inv h'" "gc_kind h' s = AT_HEAD" "gc_chain_len (gc_alloc_table h') s = k"
    and "gc_contents h' s (len * BYTES_PER_BLOCK) = gc_contents h b (len * BYTES_PER_BLOCK)"
    and "\<And>c. gc_kind h c = AT_HEAD \<Longrightarrow> c \<noteq> b \<Longrightarrow> c \<noteq> s \<Longrightarrow> gc_kept h h' c"
    and "gc_blocks h' = gc_blocks h" "gc_pool_start h' = gc_pool_start h"
proof -
  define n where "n = len * BYTES_PER_BLOCK"
  define pool where "pool = gc_copy (s * BYTES_PER_BLOCK) (b * BYTES_PER_BLOCK) n (gc_pool h)"
  define h1 where "h1 = h\<lparr>gc_pool := pool\<rparr>"
  have blocks: "b < gc_blocks h" using gc_verify_block [OF p(1)] p(2) by simp
  have fits: "s + k \<le> gc_blocks h" "b + len \<le> gc_blocks h"
    using gc_inv_less_chain [OF inv s(3)] gc_inv_less_chain [OF inv blocks] s(2) b(2) by simp_all
  have size: "length (gc_pool h) = gc_blocks h * BYTES_PER_BLOCK" using inv by (simp add: gc_inv_def)
  have ends: "s * BYTES_PER_BLOCK + n \<le> length (gc_pool h)" "b * BYTES_PER_BLOCK + n \<le> length (gc_pool h)"
    using fits len size by (simp_all add: n_def BYTES_PER_BLOCK_def)
  have "length pool = length (gc_pool h)" using ends by (simp add: pool_def gc_copy_def)
  then have inv1: "gc_inv h1" unfolding h1_def by (rule gc_inv_pool [OF inv])
  have same: "gc_lock_depth h1 = 0" "VERIFY_PTR h1 p" "BLOCK_FROM_PTR h1 p = b" "gc_alloc_table h1 = gc_alloc_table h"
    using lock p by (simp_all add: h1_def VERIFY_PTR_def BLOCK_FROM_PTR_def gc_pool_end_def gc_blocks_def)
  obtain t i where t: "gc_free h1 (Some p) = Some (h1\<lparr>gc_alloc_table := t, gc_last_free_atb_index := i\<rparr>)"
    "gc_inv (h1\<lparr>gc_alloc_table := t, gc_last_free_atb_index := i\<rparr>)"
    "\<And>c. ATB_GET_KIND t c = (if b \<le> c \<and> c < b + len then AT_FREE else gc_kind h c)"
    using gc_free_val [OF inv1 same(1,2)] b unfolding same(3,4) by blast
  let ?h' = "h1\<lparr>gc_alloc_table := t, gc_last_free_atb_index := i\<rparr>"
  have pos: "0 < k" "0 < len" using s(2) b(2) gc_chain_len_pos by blast+
  have free: "gc_free (h\<lparr>gc_pool := gc_copy (PTR_FROM_BLOCK h s - gc_pool_start h) (p - gc_pool_start h)
      (len * BYTES_PER_BLOCK) (gc_pool h)\<rparr>) (Some p) = Some ?h'"
    using t(1) gc_ptr_block [OF inv p(1)] p(2) by (simp add: PTR_FROM_BLOCK_def h1_def pool_def n_def)
  have head: "gc_kind ?h' s = AT_HEAD" using t(3) [of s] s(1) apart pos by auto
  have chain: "gc_chain_len t s = k"
    by (rule gc_chain_len_eqI)
      (use t(3) pos(1) apart s(2) gc_chain_len_blocks [of s _ "gc_alloc_table h"] in auto)
  have contents: "gc_contents ?h' s (len * BYTES_PER_BLOCK) = gc_contents h b (len * BYTES_PER_BLOCK)"
    using take_drop_copy [OF ends order_refl] by (simp add: gc_contents_def h1_def pool_def n_def)
  have kept: "gc_kept h ?h' c" if c: "gc_kind h c = AT_HEAD" "c \<noteq> b" "c \<noteq> s" for c
  proof (rule gc_kept_trans)
    show "gc_kept h h1 c"
    proof (rule gc_keptI [OF c(1)])
      have "c + gc_chain_len (gc_alloc_table h) c \<le> s \<or> s + len \<le> c"
        using gc_chains_apart [OF s(1) c(1)] c(3) s(2) len by auto
      then show "gc_contents h1 c (gc_chain_len (gc_alloc_table h) c * BYTES_PER_BLOCK) =
          gc_contents h c (gc_chain_len (gc_alloc_table h) c * BYTES_PER_BLOCK)"
        using take_drop_copy_other [OF ends] by (auto simp: gc_contents_def h1_def pool_def n_def BYTES_PER_BLOCK_def)
    qed (use gc_chain_len_blocks [of c c "gc_alloc_table h"] in \<open>simp_all add: same(4)\<close>)
    show "gc_kept h1 ?h' c"
      by (rule gc_kept_freed [of _ b _ _ 0]) (use b c t(3) in \<open>auto simp: same(4)\<close>)
  qed
  show thesis by (rule that [OF free t(2) head _ contents kept]) (simp_all add: chain h1_def gc_blocks_def)
qed

section \<open>Resizing\<close>

text \<open>A chain at \<open>s\<close> of \<open>k\<close> blocks whose first bytes are those of the chain at \<open>b\<close>.\<close>

definition gc_resized :: "gc_heap \<Rightarrow> nat \<Rightarrow> nat \<Rightarrow> gc_heap \<Rightarrow> nat \<Rightarrow> bool" where
  "gc_resized h b k h' s \<longleftrightarrow>
     (let m = min k (gc_chain_len (gc_alloc_table h) b) * BYTES_PER_BLOCK
      in gc_kind h' s = AT_HEAD \<and> gc_chain_len (gc_alloc_table h') s = k \<and> gc_contents h' s m = gc_contents h b m)"

lemma gc_realloc_blocks: "gc_blocks_for n \<noteq> 0 \<Longrightarrow> unat (n + of_nat BYTES_PER_BLOCK - 1) div BYTES_PER_BLOCK = gc_blocks_for n"
proof -
  assume "gc_blocks_for n \<noteq> 0"
  then have n: "unat n \<le> 18446744073709551584" by (simp add: gc_blocks_for_val split: if_splits)
  then have "unat (n + 31) = unat n + 31" by (simp add: unat_word_ariths)
  moreover have "n + of_nat BYTES_PER_BLOCK - 1 = n + 31" by (simp add: BYTES_PER_BLOCK_def)
  ultimately have "unat (n + of_nat BYTES_PER_BLOCK - 1) = unat n + 31" by metis
  with n show ?thesis by (simp add: gc_blocks_for_val BYTES_PER_BLOCK_def)
qed

lemma gc_count_chain:
  assumes inv: "gc_inv h" and b: "b < gc_blocks h"
    and run: "gc_count (gc_alloc_table h) (gc_blocks h) new (b + 1) 1 0 = (N, F)"
  shows "N = gc_chain_len (gc_alloc_table h) b" and "b + N + F \<le> gc_blocks h"
    and "\<And>c. b + N \<le> c \<Longrightarrow> c < b + N + F \<Longrightarrow> gc_kind h c = AT_FREE"
proof -
  have "gc_tails_ok (gc_blocks h) (gc_kind h)" "gc_kind h (gc_blocks h) \<noteq> AT_TAIL" "b + 1 \<le> gc_blocks h"
    using inv b by (simp_all add: gc_inv_def)
  note counted = gc_count_val [OF run refl this]
  show "N = gc_chain_len (gc_alloc_table h) b" "b + N + F \<le> gc_blocks h" using counted by simp_all
  show "gc_kind h c = AT_FREE" if "b + N \<le> c" "c < b + N + F" for c
    using counted that by (auto simp del: ATB_GET_KIND_outside)
qed

lemma gc_move_val:
  assumes inv: "gc_inv h" and lock: "gc_lock_depth h = 0" and ptr: "VERIFY_PTR h p"
    and b: "BLOCK_FROM_PTR h p = b" "b \<in> gc_reach h (state @ stack)"
    and k: "gc_blocks_for n = k" "gc_chain_len (gc_alloc_table h) b \<le> k"
    and last: "gc_settled (state, stack) h"
  obtains h' r where "gc_move (state, stack) h p (gc_chain_len (gc_alloc_table h) b) n = Some (h', r)" and "gc_inv h'"
    and "case r of None \<Rightarrow> gc_resized h b (gc_chain_len (gc_alloc_table h) b) h' b
      | Some q \<Rightarrow> \<exists>s. q = PTR_FROM_BLOCK h s \<and> gc_resized h b k h' s"
    and "\<And>c. c \<in> gc_reach h (state @ stack) \<Longrightarrow> c \<noteq> b \<Longrightarrow> gc_kept h h' c"
    and "gc_blocks h' = gc_blocks h" "gc_pool_start h' = gc_pool_start h"
proof -
  let ?len = "gc_chain_len (gc_alloc_table h) b"
  have pos: "0 < k" using k(2) gc_chain_len_pos [of "gc_alloc_table h" b] by simp
  obtain h2 r h1 where alloc: "gc_alloc (state, stack) h n = Some (h2, r)" "gc_inv h2"
    "h1 = gc_tried (state, stack) h \<or> h1 = gc_collect (state, stack) (gc_tried (state, stack) h)"
    "case r of Some p \<Rightarrow> \<exists>s. p = PTR_FROM_BLOCK h s \<and> gc_fresh h1 h2 s n | None \<Rightarrow> h2 = h1"
    by (rule gc_alloc_val [OF inv lock _ last, of n]) (use k(1) pos in \<open>auto split: option.splits\<close>)
  note keep = gc_tried_keeps [OF inv b(2) alloc(3)]
  have kept: "gc_kept h h1 c" if "c \<in> gc_reach h (state @ stack)" for c
    using gc_tried_keeps(2-4) [OF inv that alloc(3)] by (simp add: gc_kept_def Let_def gc_contents_same_pool [OF keep(4)])
  show thesis
  proof (cases r)
    case None
    then have "gc_move (state, stack) h p ?len n = Some (h1, None)" using alloc(1,4) by (simp add: gc_move_def)
    moreover have "gc_resized h b ?len h1 b"
      using keep(2,3) by (simp add: gc_resized_def Let_def gc_contents_same_pool [OF keep(4)])
    ultimately show thesis using keep(1,5,6) kept by (intro that [of h1 None]) simp_all
  next
    case (Some q)
    with alloc(4) obtain s where s: "q = PTR_FROM_BLOCK h s" "gc_fresh h1 h2 s n" by auto
    note f = gc_fresh_fields [OF s(2) k(1)]
    have blocks: "b < gc_blocks h1" using gc_verify_block [OF ptr] b(1) keep(5) by simp
    note old = gc_fresh_other [OF keep(1) s(2) k(1) pos blocks keep(2)]
    have ptr2: "VERIFY_PTR h2 p" "BLOCK_FROM_PTR h2 p = b" "PTR_FROM_BLOCK h2 s = q" "gc_pool_start h2 = gc_pool_start h"
      using ptr b(1) s(1) f(6,7) keep(5,6)
      by (simp_all add: VERIFY_PTR_def BLOCK_FROM_PTR_def PTR_FROM_BLOCK_def gc_pool_end_def)
    obtain h' where h': "gc_free (h2\<lparr>gc_pool := gc_copy (q - gc_pool_start h2) (p - gc_pool_start h2)
        (?len * BYTES_PER_BLOCK) (gc_pool h2)\<rparr>) (Some p) = Some h'"
      "gc_inv h'" "gc_kind h' s = AT_HEAD" "gc_chain_len (gc_alloc_table h') s = k"
      "gc_contents h' s (?len * BYTES_PER_BLOCK) = gc_contents h2 b (?len * BYTES_PER_BLOCK)"
      "\<And>c. gc_kind h2 c = AT_HEAD \<Longrightarrow> c \<noteq> b \<Longrightarrow> c \<noteq> s \<Longrightarrow> gc_kept h2 h' c"
      "gc_blocks h' = gc_blocks h2" "gc_pool_start h' = gc_pool_start h2"
      by (rule gc_copy_free_val [OF alloc(2) _ ptr2(1,2) old(1), of ?len s k, unfolded ptr2(3)])
        (use f keep(3,7) lock old(2,3,4) k(2) pos in auto)
    have "gc_move (state, stack) h p ?len n = Some (h', Some q)"
      using alloc(1) Some h'(1) ptr2(4) by (simp add: gc_move_def Let_def)
    moreover have "gc_resized h b k h' s"
      using h' old(5) keep(3) k(2) by (simp add: gc_resized_def Let_def min_absorb2 gc_contents_same_pool [OF keep(4)])
    moreover have "gc_kept h h' c" if c: "c \<in> gc_reach h (state @ stack)" "c \<noteq> b" for c
    proof -
      have c1: "gc_kind h1 c = AT_HEAD" using kept [OF c(1)] by (simp add: gc_kept_def Let_def)
      have "c < gc_blocks h1" using gc_reach_head [OF c(1)] keep(5) by simp
      note c2 = gc_fresh_kept [OF keep(1) s(2) k(1) pos this c1]
      have "c \<noteq> s" using f(2) [of s] pos c1 by auto
      with c2 c(2) have "gc_kept h2 h' c" by (intro h'(6)) (simp_all add: gc_kept_def Let_def)
      with kept [OF c(1)] c2 show ?thesis by (blast intro: gc_kept_trans)
    qed
    ultimately show thesis using h'(2,7,8) s(1) f(6,7) keep(5,6) by (intro that [of h' "Some q"]) auto
  qed
qed

text \<open>
  \<open>gc_realloc\<close> of a chain that is in use: it keeps its contents in its own place or in a new one, or
  nothing happens to it because there is no room.
\<close>

lemma gc_realloc_val:
  assumes inv: "gc_inv h" and lock: "gc_lock_depth h = 0" and ptr: "VERIFY_PTR h p"
    and b: "BLOCK_FROM_PTR h p = b" "b \<in> gc_reach h (state @ stack)"
    and k: "gc_blocks_for n = k" "k \<noteq> 0"
    and last: "gc_settled (state, stack) h"
  obtains h' r where "gc_realloc (state, stack) h (Some p) n allow_move = Some (h', r)" and "gc_inv h'"
    and "case r of None \<Rightarrow> gc_resized h b (gc_chain_len (gc_alloc_table h) b) h' b
      | Some q \<Rightarrow> \<exists>s. q = PTR_FROM_BLOCK h s \<and> gc_resized h b k h' s"
    and "\<And>c. c \<in> gc_reach h (state @ stack) \<Longrightarrow> c \<noteq> b \<Longrightarrow> gc_kept h h' c"
    and "gc_blocks h' = gc_blocks h" "gc_pool_start h' = gc_pool_start h"
proof -
  let ?len = "gc_chain_len (gc_alloc_table h) b"
  have other: "gc_kept h h c \<and> gc_kind h c = AT_HEAD" if "c \<in> gc_reach h (state @ stack)" for c
    using gc_reach_head [OF that] by (simp add: gc_kept_refl)
  have head: "b < gc_blocks h" "gc_kind h b = AT_HEAD" using gc_reach_head [OF b(2)] by simp_all
  have here: "PTR_FROM_BLOCK h b = p"
    using gc_ptr_block [OF inv ptr] b(1) ptr unfolding PTR_FROM_BLOCK_def VERIFY_PTR_def by (metis le_add_diff_inverse2)
  obtain N F where count: "gc_count (gc_alloc_table h) (gc_blocks h) k (b + 1) 1 0 = (N, F)"
    by (cases "gc_count (gc_alloc_table h) (gc_blocks h) k (b + 1) 1 0")
  note c = gc_count_chain [OF inv head(1) count]
  have "n \<noteq> 0" using k by (auto simp: gc_blocks_for_val)
  have run: "gc_realloc (state, stack) h (Some p) n allow_move =
      (if k = ?len then Some (h, Some p)
       else if k < ?len then Some (gc_shrink h b ?len k, Some p)
       else if k \<le> ?len + F then (case gc_expand h b ?len k of None \<Rightarrow> None | Some h \<Rightarrow> Some (h, Some p))
       else if \<not> allow_move then Some (h, None)
       else gc_move (state, stack) h p ?len n)"
    using lock ptr head(2) \<open>n \<noteq> 0\<close> count c(1) gc_realloc_blocks [of n] k b(1) by (simp add: gc_realloc_def Let_def)
  consider "k = ?len" | "k < ?len" | "?len < k" "k \<le> ?len + F" | "?len + F < k" "\<not> allow_move"
    | "?len + F < k" "allow_move" by linarith
  then show thesis
  proof cases
    case 1
    with run inv head(2) here other show thesis by (intro that [of h "Some p"]) (auto simp: gc_resized_def)
  next
    case 2
    have "0 < k" using k(2) by simp
    note s = gc_shrink_val [OF inv head this 2]
    have "gc_resized h b k (gc_shrink h b ?len k) b"
      using s 2 by (simp add: gc_resized_def Let_def gc_contents_same_pool [OF s(4)])
    with run 2 s(1,5) here other show thesis
      by (intro that [of "gc_shrink h b ?len k" "Some p"]) (auto simp: gc_shrink_def Let_def gc_blocks_def)
  next
    case 3
    have fits: "b + k \<le> gc_blocks h" using c(1,2) 3(2) by simp
    have free: "gc_kind h x = AT_FREE" if "b + ?len \<le> x" "x < b + k" for x using c(1,3) 3(2) that by simp
    have "gc_kind h (Suc (b + k - 1)) \<noteq> AT_TAIL"
      by (rule gc_inv_next_kind [OF inv]) (use free [of "b + k - 1"] fits 3(1) in simp_all)
    then have next_kind: "gc_kind h (b + k) \<noteq> AT_TAIL" using k(2) by simp
    obtain h' where e: "gc_expand h b ?len k = Some h'" "gc_inv h'" "gc_kind h' b = AT_HEAD"
      "gc_chain_len (gc_alloc_table h') b = k"
      "gc_contents h' b (?len * BYTES_PER_BLOCK) = gc_contents h b (?len * BYTES_PER_BLOCK)"
      "\<And>c. gc_kind h c = AT_HEAD \<Longrightarrow> c \<noteq> b \<Longrightarrow> gc_kept h h' c"
      "gc_blocks h' = gc_blocks h" "gc_pool_start h' = gc_pool_start h"
      by (rule gc_expand_val [OF inv head refl less_imp_le [OF 3(1)] fits free next_kind]) blast+
    have "gc_resized h b k h' b"
      using e(3-5) 3(1) by (simp add: gc_resized_def Let_def)
    with run 3 e here other show thesis by (intro that [of h' "Some p"]) auto
  next
    case 4
    with run inv head(2) other show thesis by (intro that [of h None]) (auto simp: gc_resized_def)
  next
    case 5
    then have "?len \<le> k" by simp
    from gc_move_val [OF inv lock ptr b k(1) this last] obtain h' r
      where "gc_move (state, stack) h p ?len n = Some (h', r)" "gc_inv h'"
        "case r of None \<Rightarrow> gc_resized h b ?len h' b | Some q \<Rightarrow> \<exists>s. q = PTR_FROM_BLOCK h s \<and> gc_resized h b k h' s"
        "\<And>c. c \<in> gc_reach h (state @ stack) \<Longrightarrow> c \<noteq> b \<Longrightarrow> gc_kept h h' c"
        "gc_blocks h' = gc_blocks h" "gc_pool_start h' = gc_pool_start h"
      by blast
    with run 5 show thesis by (intro that [of h' r]) simp_all
  qed
qed

end
