(* ===== verification/GcRun.thy ===== *)
theory GcRun
  imports GcRealloc
begin

text \<open>
  Runs of heap operations in \<open>py/gc.c\<close>: the heap that \<open>gc_init\<close> lays out, the operations that callers
  make with the roots of the moment, the invariant along every run, and the statistics.
\<close>

section \<open>The initial heap\<close>

lemma gc_kind_init: "b < n * 4 \<Longrightarrow> ATB_GET_KIND (replicate n 0 @ mem) b = AT_FREE"
  by (simp add: ATB_GET_KIND_def table_byte_def BLOCKS_PER_ATB_def at_kind_of_def nth_append div_less_iff_less_mult)

lemma gc_kind_behind:
  "ATB_GET_KIND (replicate n 0 @ mem) (n * 4) = ATB_GET_KIND mem 0"
  by (auto simp: ATB_GET_KIND_def table_byte_def BLOCKS_PER_ATB_def BLOCK_SHIFT_def nth_append)

lemma gc_init_layout:
  assumes start: "start \<le> end_ptr - end_ptr mod BYTES_PER_BLOCK" and h: "h = gc_init start end_ptr mem pool_mem"
  shows "start + gc_alloc_table_byte_len h \<le> gc_pool_start h" and "gc_pool_end h \<le> end_ptr"
    and "gc_pool_start h mod BYTES_PER_BLOCK = 0" and "end_ptr < start + 129 * gc_alloc_table_byte_len h + 160"
proof -
  define e where "e = end_ptr - end_ptr mod 32"
  define n where "n = (e - start) div 129"
  have n: "gc_alloc_table_byte_len h = n" "gc_pool_start h = e - n * 4 * 32"
    by (simp_all add: h gc_init_def Let_def e_def n_def BYTES_PER_BLOCK_def BLOCKS_PER_ATB_def)
  have "n * 129 \<le> e - start" unfolding n_def by (rule div_times_less_eq_dividend)
  moreover have se: "start \<le> e" using start by (simp add: e_def BYTES_PER_BLOCK_def)
  ultimately have fits: "start + n * 129 \<le> e" by simp
  then show "start + gc_alloc_table_byte_len h \<le> gc_pool_start h" by (simp add: n)
  have "gc_pool_end h = e" using fits by (simp add: gc_pool_end_def gc_blocks_def n BLOCKS_PER_ATB_def BYTES_PER_BLOCK_def)
  then show "gc_pool_end h \<le> end_ptr" by (simp add: e_def)
  have "32 dvd e" unfolding e_def by (rule dvd_minus_mod)
  then have "32 dvd e - n * 4 * 32" by (intro dvd_diff_nat) simp_all
  then show "gc_pool_start h mod BYTES_PER_BLOCK = 0" by (simp add: n BYTES_PER_BLOCK_def mod_eq_0_iff_dvd)
  have "e - start < n * 129 + 129" unfolding n_def by (metis add.commute dividend_less_div_times zero_less_numeral)
  moreover have "end_ptr < e + 32" using mod_less_divisor [of 32 end_ptr] by (simp add: e_def)
  ultimately show "end_ptr < start + 129 * gc_alloc_table_byte_len h + 160" using se by (simp add: n)
qed

lemma gc_init_inv:
  assumes mem: "mem \<noteq> []" "ATB_GET_KIND mem 0 \<noteq> AT_TAIL" and start: "start \<le> end_ptr - end_ptr mod BYTES_PER_BLOCK"
    and pool: "length pool_mem = gc_blocks (gc_init start end_ptr mem pool_mem) * BYTES_PER_BLOCK"
  shows "gc_inv (gc_init start end_ptr mem pool_mem)"
proof -
  define h where "h = gc_init start end_ptr mem pool_mem"
  let ?n = "gc_alloc_table_byte_len h"
  have h: "gc_alloc_table h = replicate ?n 0 @ mem" "gc_pool h = pool_mem" "gc_last_free_atb_index h = 0"
    by (simp_all add: h_def gc_init_def Let_def)
  have free: "gc_kind h b = AT_FREE" if "b < gc_blocks h" for b
    using that h(1) gc_kind_init [of b ?n mem] by (simp add: gc_blocks_def BLOCKS_PER_ATB_def)
  have "gc_kind h (gc_blocks h) \<noteq> AT_TAIL"
    using gc_kind_behind [of ?n mem] mem(2) h(1) by (simp add: gc_blocks_def BLOCKS_PER_ATB_def)
  moreover have "gc_pool_start h mod BYTES_PER_BLOCK = 0" by (rule gc_init_layout(3) [OF start h_def])
  moreover have "length (gc_alloc_table h) = ?n + length mem" using arg_cong [OF h(1), of length] by simp
  ultimately show ?thesis
    using mem(1) pool h free unfolding h_def [symmetric]
    by (auto simp: gc_inv_def gc_no_marks_def gc_tails_ok_def)
qed

section \<open>Operations\<close>




text \<open>A heap in use: the invariant, and the first block is the head of a chain.\<close>

definition gc_in_use :: "gc_heap \<Rightarrow> bool" where
  "gc_in_use h \<longleftrightarrow> gc_inv h \<and> 0 < gc_blocks h \<and> gc_kind h 0 = AT_HEAD"

lemma gc_first_reach:
  assumes "gc_in_use h" and "gc_pool_start h \<in> set roots"
  shows "0 \<in> gc_reach h roots"
proof -
  have "VERIFY_PTR h (gc_pool_start h)" "BLOCK_FROM_PTR h (gc_pool_start h) = 0"
    using assms(1) by (simp_all add: gc_in_use_def gc_inv_def VERIFY_PTR_def BLOCK_FROM_PTR_def gc_pool_end_def
        BYTES_PER_BLOCK_def)
  with assms show ?thesis by (intro gc_reach.root) (auto simp: gc_targets_def gc_in_use_def intro!: exI [of _ "gc_pool_start h"])
qed








section \<open>Runs\<close>



section \<open>Statistics\<close>

lemma gc_info_note_fields:
  "gc_info_note fin kind len f info = (f', info') \<Longrightarrow>
   info_used info' = info_used info \<and> info_free info' = info_free info \<and> info_total info' = info_total info"
  by (auto simp: gc_info_note_def Let_def split: if_splits)

lemma gc_info_loop_val:
  "block < n \<Longrightarrow> (\<And>b. block \<le> b \<Longrightarrow> b < n \<Longrightarrow> ATB_GET_KIND t b \<noteq> AT_MARK) \<Longrightarrow>
   \<exists>info'. gc_info_loop t n block len f info = Some info' \<and>
     info_used info' = info_used info + card {b. block \<le> b \<and> b < n \<and> ATB_GET_KIND t b \<noteq> AT_FREE} \<and>
     info_free info' = info_free info + card {b. block \<le> b \<and> b < n \<and> ATB_GET_KIND t b = AT_FREE} \<and>
     info_total info' = info_total info"
proof (induction t n block len f info rule: gc_info_loop.induct)
  case (1 t n block len f info)
  obtain len1 f1 info1 where c: "gc_info_count (ATB_GET_KIND t block) len f info = (len1, f1, info1)"
    by (cases "gc_info_count (ATB_GET_KIND t block) len f info")
  obtain f2 info2 where m: "gc_info_note (block + 1 = n) (ATB_GET_KIND t (block + 1)) len1 f1 info1 = (f2, info2)"
    by (cases "gc_info_note (block + 1 = n) (ATB_GET_KIND t (block + 1)) len1 f1 info1")
  let ?K = "ATB_GET_KIND t block"
  have kind: "?K \<noteq> AT_MARK" using "1.prems" by simp
  have info1: "info_used info1 = info_used info + of_bool (?K \<noteq> AT_FREE)"
    "info_free info1 = info_free info + of_bool (?K = AT_FREE)" "info_total info1 = info_total info"
    using c kind by (auto simp: gc_info_count_def split: at_kind.splits)
  note info2 = gc_info_note_fields [OF m]
  have split: "{b. block \<le> b \<and> b < n \<and> P b} = (if P block then {block} else {}) \<union> {b. block + 1 \<le> b \<and> b < n \<and> P b}"
    for P
  proof -
    have "block \<le> b \<longleftrightarrow> b = block \<or> block + 1 \<le> b" for b by auto
    then show ?thesis using "1.prems"(1) by auto
  qed
  have count: "card {b. block \<le> b \<and> b < n \<and> P b} = of_bool (P block) + card {b. block + 1 \<le> b \<and> b < n \<and> P b}" for P
    unfolding split by (subst card_Un_disjoint) auto
  show ?case
  proof (cases "block + 1 = n")
    case True
    with c m "1.prems"(1) have "gc_info_loop t n block len f info = Some info2"
      by (subst gc_info_loop.simps) simp
    moreover have "{b. block + 1 \<le> b \<and> b < n \<and> P b} = {}" for P using True by auto
    ultimately show ?thesis using info1 info2 by (simp only: count card.empty) simp
  next
    case False
    with "1.prems" have "block + 1 < n" by simp
    moreover have "gc_info_loop t n block len f info = gc_info_loop t n (block + 1) len1 f2 info2"
      using c m "1.prems"(1) False by (subst gc_info_loop.simps) simp
    moreover note "1.IH" [OF _ c [symmetric] refl refl refl m [symmetric] refl]
    ultimately show ?thesis
      using info1 info2 False "1.prems" by (cases "?K = AT_FREE") (simp_all add: count)
  qed
qed

lemma gc_info_val:
  assumes inv: "gc_inv h" and n: "0 < gc_blocks h"
  shows "\<exists>info. gc_info h = Some info \<and> info_total info = gc_blocks h * BYTES_PER_BLOCK \<and>
    info_used info = card {b. b < gc_blocks h \<and> gc_kind h b \<noteq> AT_FREE} * BYTES_PER_BLOCK \<and>
    info_used info + info_free info = info_total info"
proof -
  let ?info = "\<lparr> info_total = gc_pool_end h - gc_pool_start h, info_used = 0, info_free = 0, info_max_free = 0,
    info_num_1block = 0, info_num_2block = 0, info_max_block = 0 \<rparr>"
  have no: "\<And>b. 0 \<le> b \<Longrightarrow> b < gc_blocks h \<Longrightarrow> gc_kind h b \<noteq> AT_MARK" using inv by (simp add: gc_inv_def gc_no_marks_def)
  obtain info where i: "gc_info_loop (gc_alloc_table h) (gc_blocks h) 0 0 0 ?info = Some info"
    "info_used info = card {b. b < gc_blocks h \<and> gc_kind h b \<noteq> AT_FREE}"
    "info_free info = card {b. b < gc_blocks h \<and> gc_kind h b = AT_FREE}"
    "info_total info = gc_blocks h * BYTES_PER_BLOCK"
    using gc_info_loop_val [OF n no, of 0 0 ?info] by (auto simp: gc_pool_end_def)
  have "{b. b < gc_blocks h} =
      {b. b < gc_blocks h \<and> gc_kind h b \<noteq> AT_FREE} \<union> {b. b < gc_blocks h \<and> gc_kind h b = AT_FREE}" by auto
  then have "gc_blocks h = card ({b. b < gc_blocks h \<and> gc_kind h b \<noteq> AT_FREE} \<union> {b. b < gc_blocks h \<and> gc_kind h b = AT_FREE})"
    by (metis card_Collect_less_nat)
  also have "\<dots> = info_used info + info_free info" unfolding i(2,3) by (rule card_Un_disjoint) auto
  finally have "info_used info * BYTES_PER_BLOCK + info_free info * BYTES_PER_BLOCK = info_total info"
    unfolding i(4) by (simp add: add_mult_distrib)
  with i show ?thesis by (simp add: gc_info_def)
qed

section \<open>The count that is kept\<close>

lemma gc_find_run_stop: "gc_find_run t n k block f = Inr g \<Longrightarrow> f < k \<or> f = 0 \<Longrightarrow> g < k \<or> g = 0"
proof (induction t n k block f rule: gc_find_run.induct)
  case (1 t n k block f)
  from "1.prems" show ?case
    by (subst (asm) gc_find_run.simps) (auto split: if_splits dest: "1.IH")
qed

lemma gc_find_run_free:
  "(\<And>b. block \<le> b \<Longrightarrow> b < block + m \<Longrightarrow> ATB_GET_KIND t b = AT_FREE) \<Longrightarrow> 0 < m \<Longrightarrow> f + m = k \<Longrightarrow>
   block + m \<le> n \<Longrightarrow> n \<le> 4 * length t \<Longrightarrow> gc_find_run t n k block f = Inl (block + m - 1, k)"
proof (induction m arbitrary: block f)
  case (Suc m)
  have free: "ATB_IS_FREE (block mod BLOCKS_PER_ATB) (table_byte t (block div BLOCKS_PER_ATB))"
    using table_is_free [of block t] Suc.prems(1) [of block] Suc.prems(4,5) by simp
  show ?case
  proof (cases "m = 0")
    case True
    with free Suc.prems show ?thesis by (subst gc_find_run.simps) simp
  next
    case False
    have "gc_find_run t n k (Suc block) (Suc f) = Inl (Suc block + m - 1, k)"
      by (rule Suc.IH) (use Suc.prems False in auto)
    with free Suc.prems False show ?thesis by (subst gc_find_run.simps) simp
  qed
qed simp

text \<open>Where the first blocks are free after a collection, the second search takes them and the old count.\<close>

lemma gc_find_free_first:
  assumes inv: "gc_inv h" and k: "k \<le> gc_blocks h" "g < k"
    and free: "\<forall>b < k - g. gc_owner (gc_kind h) b \<notin> gc_reach h (state @ stack)"
  shows "gc_find_free (gc_collect (state, stack) h) k g = Inl (k - g - 1, k)"
proof -
  let ?h2 = "gc_collect (state, stack) h"
  note same = gc_collect_fields [OF inv, of "(state, stack)"]
  have index: "gc_last_free_atb_index ?h2 = 0" using gc_collect_val [OF inv, of state stack] by auto
  have "gc_kind ?h2 b = AT_FREE" if "b < k - g" for b
    using gc_collect_val [OF inv, of state stack] free that k(1) by auto
  then have "gc_find_run (gc_alloc_table ?h2) (gc_blocks ?h2) k 0 g = Inl (0 + (k - g) - 1, k)"
    by (intro gc_find_run_free) (use k same(1) gc_inv_table [OF gc_inv_collect [OF inv, of "(state, stack)"]] in simp_all)
  then show ?thesis by (simp add: gc_find_free_def index)
qed

section \<open>The properties of the heap\<close>

text \<open>
  A heap of four blocks for the instances below: a chain of two blocks, a chain of one block and a free
  block, in a pool at the address 64.
\<close>

definition gc_small :: gc_heap where
  "gc_small = \<lparr> gc_alloc_table = [25, 0], gc_alloc_table_byte_len = 1, gc_pool_start = 64, gc_pool = replicate 128 0,
     gc_stack_overflow = False, gc_lock_depth = 0, gc_auto_collect_enabled = True, gc_alloc_amount = 0,
     gc_alloc_threshold = - 1, gc_last_free_atb_index = 0 \<rparr>"

lemma gc_small_fields:
  "gc_alloc_table gc_small = [25, 0]" "gc_alloc_table_byte_len gc_small = 1" "gc_pool_start gc_small = 64"
  "length (gc_pool gc_small) = 128" "gc_lock_depth gc_small = 0" "gc_last_free_atb_index gc_small = 0"
  "gc_blocks gc_small = 4"
  by (simp_all add: gc_small_def gc_blocks_def BLOCKS_PER_ATB_def)

lemma gc_small_kinds:
  "ATB_GET_KIND [25, 0] 0 = AT_HEAD" "ATB_GET_KIND [25, 0] (Suc 0) = AT_TAIL" "ATB_GET_KIND [25, 0] 2 = AT_HEAD"
  "ATB_GET_KIND [25, 0] 3 = AT_FREE" "ATB_GET_KIND [25, 0] 4 = AT_FREE"
  by code_simp+

lemma less_four: "(b :: nat) < 4 \<longleftrightarrow> b = 0 \<or> b = Suc 0 \<or> b = 2 \<or> b = 3"
  by auto

lemma gc_small_in_use: "gc_in_use gc_small"
  by (auto simp: gc_in_use_def gc_inv_def gc_small_fields gc_no_marks_def gc_tails_ok_def less_four gc_small_kinds
      BYTES_PER_BLOCK_def)

lemma gc_small_inv: "gc_inv gc_small"
  using gc_small_in_use by (simp add: gc_in_use_def)

text \<open>A heap of eight blocks with no root, the last two of them free.\<close>

definition gc_tight :: gc_heap where
  "gc_tight = gc_small\<lparr>gc_alloc_table := [0x55, 0x05, 0], gc_alloc_table_byte_len := 2, gc_pool := replicate 256 0\<rparr>"

lemma gc_tight_fields:
  "gc_alloc_table gc_tight = [0x55, 0x05, 0]" "gc_alloc_table_byte_len gc_tight = 2" "gc_pool_start gc_tight = 64"
  "length (gc_pool gc_tight) = 256" "gc_lock_depth gc_tight = 0" "gc_last_free_atb_index gc_tight = 0"
  "gc_blocks gc_tight = 8" "gc_auto_collect_enabled gc_tight" "gc_alloc_amount gc_tight = 0"
  "gc_alloc_threshold gc_tight = - 1"
  by (simp_all add: gc_tight_def gc_small_def gc_blocks_def BLOCKS_PER_ATB_def)

lemma gc_tight_kinds:
  "ATB_GET_KIND [0x55, 0x05, 0] 0 = AT_HEAD" "ATB_GET_KIND [0x55, 0x05, 0] (Suc 0) = AT_HEAD"
  "ATB_GET_KIND [0x55, 0x05, 0] 2 = AT_HEAD" "ATB_GET_KIND [0x55, 0x05, 0] 3 = AT_HEAD"
  "ATB_GET_KIND [0x55, 0x05, 0] 4 = AT_HEAD" "ATB_GET_KIND [0x55, 0x05, 0] 5 = AT_HEAD"
  "ATB_GET_KIND [0x55, 0x05, 0] 6 = AT_FREE" "ATB_GET_KIND [0x55, 0x05, 0] 7 = AT_FREE"
  "ATB_GET_KIND [0x55, 0x05, 0] 8 = AT_FREE"
  by code_simp+

lemma less_nine: "(b :: nat) \<le> 8 \<longleftrightarrow> b \<in> {0, Suc 0, 2, 3, 4, 5, 6, 7, 8}"
  by auto

lemma gc_tight_inv: "gc_inv gc_tight"
proof -
  have kind: "gc_kind gc_tight b = (if b < 6 then AT_HEAD else AT_FREE)" if "b \<le> 8" for b
    using less_nine [of b] that by (auto simp: gc_tight_fields gc_tight_kinds)
  show ?thesis
    unfolding gc_inv_def gc_no_marks_def gc_tails_ok_def
    by (simp add: kind gc_tight_fields(2-10) BYTES_PER_BLOCK_def) (simp add: gc_tight_fields)
qed

lemma gc_tight_reach: "gc_reach gc_tight [] = {}"
  using gc_reach_least [of gc_tight "[]" "{}"] by (simp add: gc_closed_def)

lemma gc_small_reach: "gc_reach gc_small [64] = {0}"
proof
  have ptrs: "gc_chain_ptrs gc_small 0 = replicate 8 0" by code_simp
  have block: "\<not> VERIFY_PTR gc_small 0" "BLOCK_FROM_PTR gc_small 64 = 0"
    by (simp_all add: VERIFY_PTR_def BLOCK_FROM_PTR_def gc_small_fields)
  show "gc_reach gc_small [64] \<subseteq> {0}"
    by (rule gc_reach_least) (auto simp: gc_closed_def gc_targets_def ptrs block)
  show "{0} \<subseteq> gc_reach gc_small [64]"
    using gc_first_reach [OF gc_small_in_use, of "[64]"] by (simp add: gc_small_fields)
qed

text \<open>
  C21: a collection keeps exactly the chains that can be reached from the words of the state and of the
  stack, whatever the nesting of the objects and the size of the mark stack: these stay as they are and
  every other block is free afterwards; the pool is not written.
\<close>

theorem gc_collect_precise:
  assumes "gc_inv h"
  shows "gc_inv (gc_collect (state, stack) h) \<and> gc_pool (gc_collect (state, stack) h) = gc_pool h \<and>
    (\<forall>b < gc_blocks h. gc_kind (gc_collect (state, stack) h) b =
      (if gc_owner (gc_kind h) b \<in> gc_reach h (state @ stack) then gc_kind h b else AT_FREE))"
  using gc_inv_collect [OF assms, of "(state, stack)"] gc_collect_fields(4) [OF assms, of "(state, stack)"]
    gc_collect_val [OF assms, of state stack] by auto

lemma gc_collect_precise_witness:
  "gc_kind (gc_collect ([64], []) gc_small) 1 = AT_TAIL \<and> gc_kind (gc_collect ([64], []) gc_small) 2 = AT_FREE"
proof -
  have "gc_owner (gc_kind gc_small) (Suc 0) = 0" "gc_owner (gc_kind gc_small) 2 = 2"
    by (simp_all add: gc_small_fields gc_small_kinds gc_owner_self)
  with gc_collect_precise [OF gc_small_inv, of "[64]" "[]"] gc_small_reach show ?thesis
    by (simp add: gc_small_fields gc_small_kinds)
qed





text \<open>C24: \<open>gc_free\<close> frees the chain of the pointer, and nothing else.\<close>

theorem gc_free_exact:
  assumes "gc_inv h" and "gc_lock_depth h = 0" and "VERIFY_PTR h p" and "gc_kind h (BLOCK_FROM_PTR h p) = AT_HEAD"
  shows "\<exists>h'. gc_free h (Some p) = Some h' \<and> gc_inv h' \<and> gc_pool h' = gc_pool h \<and>
    (\<forall>c. gc_kind h' c =
      (if BLOCK_FROM_PTR h p \<le> c \<and> c < BLOCK_FROM_PTR h p + gc_nbytes h p div BYTES_PER_BLOCK then AT_FREE
       else gc_kind h c))"
proof -
  have len: "gc_nbytes h p div BYTES_PER_BLOCK = gc_chain_len (gc_alloc_table h) (BLOCK_FROM_PTR h p)"
    using assms(3,4) by (simp add: gc_nbytes_def BYTES_PER_BLOCK_def)
  show ?thesis unfolding len by (rule gc_free_val [OF assms]) (auto intro: exI)
qed

lemma gc_free_exact_witness:
  "\<exists>h'. gc_free gc_small (Some 64) = Some h' \<and> gc_kind h' 0 = AT_FREE \<and> gc_kind h' 2 = AT_HEAD"
proof -
  have p: "VERIFY_PTR gc_small 64" "BLOCK_FROM_PTR gc_small 64 = 0" "gc_nbytes gc_small 64 div BYTES_PER_BLOCK = 2"
    by (simp_all add: VERIFY_PTR_def BLOCK_FROM_PTR_def gc_small_fields gc_pool_end_def BYTES_PER_BLOCK_def
        gc_nbytes_def gc_small_kinds gc_chain_len.simps [of "[25, 0]"] numeral_2_eq_2 [symmetric])
  obtain h' where "gc_free gc_small (Some 64) = Some h'"
    "\<forall>c. gc_kind h' c = (if c < 2 then AT_FREE else gc_kind gc_small c)"
    using gc_free_exact [OF gc_small_inv _ p(1)] p(2,3) by (auto simp: gc_small_fields gc_small_kinds)
  then show ?thesis by (simp add: gc_small_fields gc_small_kinds)
qed



text \<open>
  C26: \<open>gc_init\<close> places the table and the pool inside the memory that it is given, one behind the other,
  the pool aligned to blocks, and leaves less than 160 bytes unused.
\<close>

theorem gc_init_bounds:
  assumes "start \<le> end_ptr - end_ptr mod BYTES_PER_BLOCK" and "h = gc_init start end_ptr mem pool_mem"
  shows "start + gc_alloc_table_byte_len h \<le> gc_pool_start h \<and> gc_pool_end h \<le> end_ptr \<and>
    gc_pool_start h mod BYTES_PER_BLOCK = 0 \<and>
    end_ptr - start < gc_alloc_table_byte_len h + (gc_pool_end h - gc_pool_start h) + 160"
  using gc_init_layout [OF assms] assms(1)
  by (auto simp: gc_pool_end_def gc_blocks_def BLOCKS_PER_ATB_def BYTES_PER_BLOCK_def)

lemma gc_init_bounds_witness: "gc_pool_end (gc_init 1000 2000 [0] []) \<le> 2000"
  using gc_init_bounds [of 1000 2000 "gc_init 1000 2000 [0] []" "[0]" "[]"] by (simp add: BYTES_PER_BLOCK_def)

text \<open>C27: the statistics of \<open>gc_info\<close> add up: the bytes in use are those of the blocks in use, the rest is free.\<close>

theorem gc_info_adds_up:
  assumes "gc_inv h" and "0 < gc_blocks h"
  shows "\<exists>info. gc_info h = Some info \<and> info_total info = gc_pool_end h - gc_pool_start h \<and>
    info_used info = card {b. b < gc_blocks h \<and> gc_kind h b \<noteq> AT_FREE} * BYTES_PER_BLOCK \<and>
    info_used info + info_free info = info_total info"
  using gc_info_val [OF assms] by (simp add: gc_pool_end_def)

lemma gc_info_adds_up_witness:
  "\<exists>info. gc_info gc_small = Some info \<and> info_used info + info_free info = 128"
  using gc_info_adds_up [OF gc_small_inv] by (auto simp: gc_small_fields gc_pool_end_def BYTES_PER_BLOCK_def)

text \<open>
  C28: the count of free blocks is not reset between the two searches of \<open>gc_alloc\<close>. Take any unlocked heap
  in which the first search, for \<open>k\<close> blocks, finds nothing and ends on \<open>g\<close> free blocks at the end of the
  table, and let no reachable chain have a part in the first \<open>k - g\<close> blocks: then the second search ends
  at block \<open>k - g - 1\<close> with the count \<open>k\<close>, the chain would start \<open>g\<close> blocks in front of the pool, and the
  code writes outside of the table.
\<close>

theorem gc_alloc_stale_count:
  assumes "gc_inv h" and "gc_lock_depth h = 0" and "gc_auto_collect_enabled h" and "gc_alloc_amount h < gc_alloc_threshold h"
    and "gc_blocks_for n \<le> gc_blocks h" and "gc_find_free h (gc_blocks_for n) 0 = Inr g" and "0 < g"
    and "\<forall>b < gc_blocks_for n - g. gc_owner (gc_kind h) b \<notin> gc_reach h (state @ stack)"
  shows "gc_find_free (gc_collect (state, stack) h) (gc_blocks_for n) g = Inl (gc_blocks_for n - g - 1, gc_blocks_for n) \<and>
    gc_start_block (gc_blocks_for n - g - 1) (gc_blocks_for n) = - int g \<and>
    gc_alloc (state, stack) h n = None"
proof -
  let ?k = "gc_blocks_for n" and ?h2 = "gc_collect (state, stack) h"
  have g: "g < ?k" using assms(6,7) gc_find_run_stop unfolding gc_find_free_def by blast
  have second: "gc_find_free ?h2 ?k g = Inl (?k - g - 1, ?k)"
    by (rule gc_find_free_first [OF assms(1,5) g assms(8)])
  have start: "gc_start_block (?k - g - 1) ?k = - int g" using g by (simp add: gc_start_block_def)
  have "gc_alloc (state, stack) h n = gc_claim ?h2 ?k (?k - g - 1) ?k"
    using assms(2,3,4,6) g second by (simp add: gc_alloc_def Let_def not_le [symmetric])
  with start second assms(7) show ?thesis by (simp add: gc_claim_def)
qed

lemma gc_alloc_stale_count_witness: "gc_alloc ([], []) gc_tight 96 = None"
proof -
  have k: "gc_blocks_for 96 = 3" by code_simp
  have first: "gc_find_free gc_tight 3 0 = Inr 2" by code_simp
  have amount: "gc_alloc_amount gc_tight < gc_alloc_threshold gc_tight" by (simp add: gc_tight_fields word_gt_0)
  show ?thesis
    using gc_alloc_stale_count [OF gc_tight_inv _ _ amount, of 96 2 "[]" "[]"] k first gc_tight_reach
    by (simp add: gc_tight_fields)
qed

end
