(* ===== verification/ListSort.thy ===== *)
theory ListSort
  imports Prelude "HOL-Library.Multiset"
begin

text \<open>
  The quicksort of \<open>py/objlist.c\<close>, which \<open>omv/array.c\<close> repeats for its own arrays. The comparison is the
  test \<open>mp_binary_op(MP_BINARY_OP_LESS, key(a), key(b)) == binop_less_result\<close>, a function that does not
  raise and does not touch the list. \<open>MP_STACK_CHECK\<close> raises when the recursion has no room left: the
  model counts the calls that still fit.
\<close>

section \<open>The sort\<close>

text \<open>The two scans, from the position after the step and with \<open>h < t\<close> tested first.\<close>

function scan_up :: "('o \<Rightarrow> 'o \<Rightarrow> bool) \<Rightarrow> 'o list \<Rightarrow> 'o \<Rightarrow> nat \<Rightarrow> nat \<Rightarrow> nat" where
  "scan_up lt items v h t = (if h < t \<and> lt (items ! h) v then scan_up lt items v (h + 1) t else h)"
  by auto
termination
  by (relation "measure (\<lambda>(lt, items, v, h, t). t - h)") auto

function scan_down :: "('o \<Rightarrow> 'o \<Rightarrow> bool) \<Rightarrow> 'o list \<Rightarrow> 'o \<Rightarrow> nat \<Rightarrow> nat \<Rightarrow> nat" where
  "scan_down lt items v h t = (if h < t \<and> lt v (items ! t) then scan_down lt items v h (t - 1) else t)"
  by auto
termination
  by (relation "measure (\<lambda>(lt, items, v, h, t). t)") auto

declare scan_up.simps [simp del] scan_down.simps [simp del]

definition swap_items :: "'o list \<Rightarrow> nat \<Rightarrow> nat \<Rightarrow> 'o list" where
  "swap_items items i j = (let x = items ! i in (items[i := items ! j])[j := x])"

lemma scan_up_bounds: "h \<le> t \<Longrightarrow> h \<le> scan_up lt items v h t \<and> scan_up lt items v h t \<le> t"
proof (induction lt items v h t rule: scan_up.induct)
  case (1 lt items v h t)
  show ?case
  proof (cases "h < t \<and> lt (items ! h) v")
    case True
    with 1 show ?thesis by (subst (1 2) scan_up.simps) simp
  next
    case False
    then have "scan_up lt items v h t = h" by (subst scan_up.simps) auto
    with 1 show ?thesis by simp
  qed
qed

lemma scan_down_bounds: "scan_down lt items v h t \<le> t \<and> (h \<le> t \<longrightarrow> h \<le> scan_down lt items v h t)"
proof (induction lt items v h t rule: scan_down.induct)
  case (1 lt items v h t)
  show ?case
  proof (cases "h < t \<and> lt v (items ! t)")
    case True
    then have "scan_down lt items v h t = scan_down lt items v h (t - 1)" by (subst scan_down.simps) simp
    with 1 True show ?thesis by auto
  next
    case False
    then have "scan_down lt items v h t = t" by (subst scan_down.simps) auto
    then show ?thesis by simp
  qed
qed

text \<open>The loop around the scans, with \<open>h\<close> already one step on: the items, \<open>h\<close> and \<open>t\<close> where it breaks.\<close>

function qsort_partition ::
  "('o \<Rightarrow> 'o \<Rightarrow> bool) \<Rightarrow> 'o list \<Rightarrow> 'o \<Rightarrow> nat \<Rightarrow> nat \<Rightarrow> 'o list \<times> nat \<times> nat" where
  "qsort_partition lt items v h t =
     (let h = scan_up lt items v h t;
          t = scan_down lt items v h (t - 1)
      in if h \<ge> t then (items, h, t)
         else qsort_partition lt (swap_items items h t) v (h + 1) t)"
  by auto
termination
proof (relation "measure (\<lambda>(lt, items, v, h, t). t)", simp, goal_cases)
  case (1 lt items v h t x xa)
  have "xa \<le> t - 1" using scan_down_bounds [of lt items v x "t - 1"] 1 by simp
  with 1 show ?case by simp
qed

declare qsort_partition.simps [simp del]

text \<open>What the loop keeps: \<open>h\<close> and \<open>t\<close> stay between the ends, and meet.\<close>

lemma qsort_partition_bounds:
  "qsort_partition lt items v h t = (items', h', t') \<Longrightarrow> h \<le> t \<Longrightarrow> 0 < t \<Longrightarrow>
   length items' = length items \<and> h \<le> h' \<and> h' \<le> t \<and> t' < t \<and> (t' = h' \<or> h' = Suc t')"
proof (induction lt items v h t rule: qsort_partition.induct)
  case (1 lt items v h t)
  define h1 where "h1 = scan_up lt items v h t"
  define t1 where "t1 = scan_down lt items v h1 (t - 1)"
  have h1: "h \<le> h1" "h1 \<le> t" using scan_up_bounds [OF "1.prems"(2), of lt items v] by (simp_all add: h1_def)
  have t1: "t1 \<le> t - 1" "h1 \<le> t - 1 \<Longrightarrow> h1 \<le> t1" using scan_down_bounds [of lt items v h1 "t - 1"] by (simp_all add: t1_def)
  show ?case
  proof (cases "h1 \<ge> t1")
    case True
    then have "qsort_partition lt items v h t = (items, h1, t1)"
      by (subst qsort_partition.simps) (simp add: Let_def h1_def t1_def)
    with "1.prems"(1) have r: "items' = items" "h' = h1" "t' = t1" by simp_all
    have "h1 \<le> t - 1 \<or> h1 = t" using h1(2) by linarith
    moreover have "t1 = t - 1" if "h1 = t"
      using that by (subst t1_def, subst scan_down.simps) auto
    ultimately have "t' = h' \<or> h' = Suc t'" using r True t1(2) "1.prems"(3) by auto
    with r h1 t1(1) "1.prems"(3) show ?thesis by auto
  next
    case False
    then have "qsort_partition lt items v h t = qsort_partition lt (swap_items items h1 t1) v (h1 + 1) t1"
      by (subst qsort_partition.simps) (simp add: Let_def h1_def t1_def)
    with "1.prems"(1) have run: "qsort_partition lt (swap_items items h1 t1) v (h1 + 1) t1 = (items', h', t')" by simp
    have "length items' = length (swap_items items h1 t1) \<and> h1 + 1 \<le> h' \<and> h' \<le> t1 \<and> t' < t1 \<and> (t' = h' \<or> h' = Suc t')"
      by (rule "1.IH" [OF h1_def t1_def False run]) (use False in simp_all)
    with h1 t1(1) "1.prems"(3) show ?thesis by (auto simp: swap_items_def Let_def)
  qed
qed

text \<open>\<open>while (head < tail)\<close>, and the call with the check of the stack.\<close>

function mp_quicksort :: "('o \<Rightarrow> 'o \<Rightarrow> bool) \<Rightarrow> nat \<Rightarrow> 'o list \<Rightarrow> nat \<Rightarrow> nat \<Rightarrow> 'o list option"
  and qsort_loop :: "('o \<Rightarrow> 'o \<Rightarrow> bool) \<Rightarrow> nat \<Rightarrow> 'o list \<Rightarrow> nat \<Rightarrow> nat \<Rightarrow> 'o list option" where
  "mp_quicksort lt room items head tail =
     (case room of 0 \<Rightarrow> None | Suc room \<Rightarrow> qsort_loop lt room items head tail)"
| "qsort_loop lt room items head tail =
     (if head < tail then
        (case qsort_partition lt items (items ! tail) head tail of (items, h, t) \<Rightarrow>
          let items = swap_items items h tail
          in if int t - int head < int tail - int h - 1 then
               (case mp_quicksort lt room items head t of
                  None \<Rightarrow> None
                | Some items \<Rightarrow> qsort_loop lt room items (h + 1) tail)
             else
               (case mp_quicksort lt room items (h + 1) tail of
                  None \<Rightarrow> None
                | Some items \<Rightarrow> qsort_loop lt room items head t))
      else Some items)"
  by pat_completeness auto

termination
proof (relation "inv_image (less_than <*lex*> less_than)
    (case_sum (\<lambda>(lt, room, items, head, tail). (2 * room, 0))
      (\<lambda>(lt, room, items, head, tail). (2 * room + 1, tail - head)))", goal_cases)
  case (4 lt room items head tail x y xa ya xb x2)
  then have "qsort_partition lt items (items ! tail) head tail = (x, xa, ya)" by simp
  with qsort_partition_bounds [OF this] 4(1) show ?case by auto
next
  case (6 lt room items head tail x y xa ya xb x2)
  then have "qsort_partition lt items (items ! tail) head tail = (x, xa, ya)" by simp
  with qsort_partition_bounds [OF this] 6(1) show ?case by auto
qed auto

declare mp_quicksort.simps [simp del] qsort_loop.simps [simp del]

section \<open>Lists that agree outside of a range\<close>

definition same_outside :: "nat \<Rightarrow> nat \<Rightarrow> 'o list \<Rightarrow> 'o list \<Rightarrow> bool" where
  "same_outside a b xs ys \<longleftrightarrow>
     length ys = length xs \<and> mset ys = mset xs \<and> (\<forall>i < length xs. i < a \<or> b < i \<longrightarrow> ys ! i = xs ! i)"

lemma same_outside_refl: "same_outside a b xs xs"
  by (simp add: same_outside_def)

lemma same_outside_trans: "same_outside a b xs ys \<Longrightarrow> same_outside a b ys zs \<Longrightarrow> same_outside a b xs zs"
  by (simp add: same_outside_def)

lemma same_outside_mono: "same_outside a b xs ys \<Longrightarrow> c \<le> a \<Longrightarrow> b \<le> d \<Longrightarrow> same_outside c d xs ys"
  by (auto simp: same_outside_def)

lemma same_outside_swap:
  assumes "a \<le> i" "i \<le> b" "a \<le> j" "j \<le> b" "b < length xs"
  shows "same_outside a b xs (swap_items xs i j)"
proof -
  have "mset (swap_items xs i j) = mset xs"
    unfolding swap_items_def Let_def by (rule mset_swap) (use assms in simp_all)
  then show ?thesis using assms by (auto simp: same_outside_def swap_items_def Let_def)
qed

lemma same_outside_elems:
  fixes xs ys :: "'o list"
  assumes same: "same_outside a b xs ys" and b: "b < length xs"
    and P: "\<And>i. a \<le> i \<Longrightarrow> i \<le> b \<Longrightarrow> P (xs ! i)" and i: "a \<le> i" "i \<le> b"
  shows "P (ys ! i)"
proof -
  let ?k = "Suc b - a"
  have len: "length ys = length xs" using same by (simp add: same_outside_def)
  have front: "take a ys = take a xs" by (rule nth_equalityI) (use same b in \<open>auto simp: same_outside_def\<close>)
  have rest: "drop (Suc b) ys = drop (Suc b) xs" by (rule nth_equalityI) (use same b in \<open>auto simp: same_outside_def\<close>)
  have split: "zs = take a zs @ take ?k (drop a zs) @ drop (Suc b) zs" for zs :: "'o list"
    by (metis append_take_drop_id drop_drop i le_SucI le_add_diff_inverse2 le_trans)
  have m: "mset zs = mset (take a zs) + mset (take ?k (drop a zs)) + mset (drop (Suc b) zs)" for zs :: "'o list"
    by (subst (1) split) simp
  have "mset xs = mset ys" using same by (simp add: same_outside_def)
  then have "mset (take ?k (drop a ys)) = mset (take ?k (drop a xs))"
    unfolding m [of xs] m [of ys] front rest by simp
  then have set: "set (take ?k (drop a ys)) = set (take ?k (drop a xs))" by (rule mset_eq_setD)
  have "ys ! i = take ?k (drop a ys) ! (i - a)" using i len b by simp
  also have "\<dots> \<in> set (take ?k (drop a ys))" using i len b by (intro nth_mem) simp
  finally obtain j where "j < ?k" "ys ! i = xs ! (a + j)"
    unfolding set using b i by (auto simp: in_set_conv_nth)
  then show ?thesis using P [of "a + j"] by simp
qed

section \<open>Correctness\<close>

text \<open>
  The order \<open>R\<close> of the result and the comparison \<open>lt\<close>, which may be the strict or the weak order: for
  \<open>reverse\<close> the code tests that \<open>a < b\<close> is false.
\<close>

locale sort_order =
  fixes ok :: "'o \<Rightarrow> bool" and R lt :: "'o \<Rightarrow> 'o \<Rightarrow> bool"
  assumes R_trans: "ok x \<Longrightarrow> ok y \<Longrightarrow> ok z \<Longrightarrow> R x y \<Longrightarrow> R y z \<Longrightarrow> R x z"
    and lt_R: "ok x \<Longrightarrow> ok y \<Longrightarrow> lt x y \<Longrightarrow> R x y"
    and not_lt_R: "ok x \<Longrightarrow> ok y \<Longrightarrow> \<not> lt y x \<Longrightarrow> R x y"
begin

lemma R_refl: "ok x \<Longrightarrow> R x x"
  using lt_R not_lt_R by blast

lemma scan_up_val:
  assumes "h \<le> t"
  shows "(\<forall>i. h \<le> i \<and> i < scan_up lt items v h t \<longrightarrow> lt (items ! i) v) \<and>
    (scan_up lt items v h t < t \<longrightarrow> \<not> lt (items ! scan_up lt items v h t) v)"
  using assms
proof (induction "t - h" arbitrary: h)
  case 0
  then have "scan_up lt items v h t = h" by (subst scan_up.simps) auto
  with 0 show ?case by auto
next
  case (Suc n)
  show ?case
  proof (cases "lt (items ! h) v")
    case True
    then have eq: "scan_up lt items v h t = scan_up lt items v (h + 1) t" using Suc.hyps(2) by (subst scan_up.simps) auto
    have IH: "(\<forall>i. h + 1 \<le> i \<and> i < scan_up lt items v (h + 1) t \<longrightarrow> lt (items ! i) v) \<and>
        (scan_up lt items v (h + 1) t < t \<longrightarrow> \<not> lt (items ! scan_up lt items v (h + 1) t) v)"
      by (rule Suc.hyps(1)) (use Suc.hyps(2) in simp_all)
    show ?thesis
      unfolding eq using IH True by (metis Suc_eq_plus1 le_antisym not_less_eq_eq)
  next
    case False
    then have "scan_up lt items v h t = h" by (subst scan_up.simps) auto
    with False show ?thesis by auto
  qed
qed

lemma scan_down_val:
  "(\<forall>i. scan_down lt items v h t < i \<and> i \<le> t \<longrightarrow> lt v (items ! i)) \<and>
   (h < scan_down lt items v h t \<longrightarrow> \<not> lt v (items ! scan_down lt items v h t))"
proof (induction t)
  case 0
  then have "scan_down lt items v h 0 = 0" by (subst scan_down.simps) auto
  then show ?case by auto
next
  case (Suc t)
  show ?case
  proof (cases "h < Suc t \<and> lt v (items ! Suc t)")
    case True
    then have eq: "scan_down lt items v h (Suc t) = scan_down lt items v h t" by (subst scan_down.simps) simp
    show ?thesis unfolding eq using Suc.IH True by (auto simp: le_Suc_eq)
  next
    case False
    then have "scan_down lt items v h (Suc t) = Suc t" by (subst scan_down.simps) auto
    with False show ?thesis by auto
  qed
qed

text \<open>One pass: what is in front of \<open>h\<close> is at most the pivot, what is behind is at least the pivot.\<close>

lemma qsort_partition_val:
  "qsort_partition lt items v h t = (items', h', t') \<Longrightarrow> h \<le> t \<Longrightarrow> 0 < t \<Longrightarrow> t < length items \<Longrightarrow> ok v \<Longrightarrow>
   (\<And>i. h \<le> i \<Longrightarrow> i \<le> t \<Longrightarrow> ok (items ! i)) \<Longrightarrow> R v (items ! t) \<Longrightarrow>
   same_outside h (t - 1) items items' \<and> (\<forall>i. h \<le> i \<and> i < h' \<longrightarrow> R (items' ! i) v) \<and>
   (\<forall>i. h' \<le> i \<and> i \<le> t \<longrightarrow> R v (items' ! i))"
proof (induction "t" arbitrary: items h rule: less_induct)
  case (less t)
  define h1 where "h1 = scan_up lt items v h t"
  define t1 where "t1 = scan_down lt items v h1 (t - 1)"
  have h1: "h \<le> h1" "h1 \<le> t" using scan_up_bounds [OF less.prems(2), of lt items v] by (simp_all add: h1_def)
  have t1: "t1 \<le> t - 1" "h1 \<le> t - 1 \<Longrightarrow> h1 \<le> t1" using scan_down_bounds [of lt items v h1 "t - 1"] by (simp_all add: t1_def)
  have up: "\<And>i. h \<le> i \<Longrightarrow> i < h1 \<Longrightarrow> lt (items ! i) v" "h1 < t \<Longrightarrow> \<not> lt (items ! h1) v"
    using scan_up_val [OF less.prems(2), of items v] by (simp_all add: h1_def)
  have down: "\<And>i. t1 < i \<Longrightarrow> i \<le> t - 1 \<Longrightarrow> lt v (items ! i)" "h1 < t1 \<Longrightarrow> \<not> lt v (items ! t1)"
    using scan_down_val [of items v h1 "t - 1"] by (simp_all add: t1_def)
  note ok = less.prems(6) and v = less.prems(5)
  have low: "R (items ! i) v" if "h \<le> i" "i < h1" for i
    using up(1) [OF that] ok [of i] that h1(2) v by (intro lt_R) simp_all
  have high: "R v (items ! i)" if "t1 < i" "h1 \<le> i" "i \<le> t" for i
  proof (cases "i = t")
    case False
    with that have "lt v (items ! i)" using down(1) [of i] by simp
    then show ?thesis using ok [of i] that h1(1) v by (intro lt_R) simp_all
  qed (use less.prems(7) in simp)
  have mid: "R v (items ! h1)"
  proof (cases "h1 < t")
    case True
    with up(2) ok [of h1] h1 v show ?thesis by (intro not_lt_R) simp_all
  next
    case False
    with h1(2) less.prems(7) show ?thesis by simp
  qed
  show ?case
  proof (cases "h1 \<ge> t1")
    case True
    then have "qsort_partition lt items v h t = (items, h1, t1)"
      by (subst qsort_partition.simps) (simp add: Let_def h1_def t1_def)
    with less.prems(1) have r: "items' = items" "h' = h1" "t' = t1" by simp_all
    have "R v (items ! i)" if "h1 \<le> i" "i \<le> t" for i
    proof (cases "i = h1")
      case False
      with that True show ?thesis by (intro high) simp_all
    qed (use mid in simp)
    with low show ?thesis by (simp add: r same_outside_refl)
  next
    case False
    let ?items = "swap_items items h1 t1"
    from False have "qsort_partition lt items v h t = qsort_partition lt ?items v (h1 + 1) t1"
      by (subst qsort_partition.simps) (simp add: Let_def h1_def t1_def)
    with less.prems(1) have run: "qsort_partition lt ?items v (h1 + 1) t1 = (items', h', t')" by simp
    have lt: "h1 < t1" "t1 < t" using False t1(1) less.prems(3) by simp_all
    have nth: "?items ! i = (if i = t1 then items ! h1 else if i = h1 then items ! t1 else items ! i)" if "i \<le> t" for i
      using that lt less.prems(4) by (simp add: swap_items_def Let_def nth_list_update)
    have ok': "ok (?items ! i)" if "h1 + 1 \<le> i" "i \<le> t1" for i
      using that lt h1 ok nth [of i] by simp
    have swapped: "R v (?items ! t1)" using mid nth [of t1] lt by simp
    have IH: "same_outside (h1 + 1) (t1 - 1) ?items items'" "\<And>i. h1 + 1 \<le> i \<Longrightarrow> i < h' \<Longrightarrow> R (items' ! i) v"
      "\<And>i. h' \<le> i \<Longrightarrow> i \<le> t1 \<Longrightarrow> R v (items' ! i)"
      using less.IH [OF lt(2) run _ _ _ v ok' swapped] lt less.prems(4) by (simp_all add: swap_items_def Let_def)
    have b: "h1 + 1 \<le> h'" "h' \<le> t1" using qsort_partition_bounds [OF run] lt by simp_all
    have same: "same_outside h (t - 1) items items'"
    proof (rule same_outside_trans)
      show "same_outside h (t - 1) items ?items"
        by (rule same_outside_swap) (use h1 lt less.prems(4) in simp_all)
      show "same_outside h (t - 1) ?items items'"
        by (rule same_outside_mono [OF IH(1)]) (use h1 lt in simp_all)
    qed
    have len: "length ?items = length items" by (simp add: swap_items_def Let_def)
    have keep: "items' ! i = ?items ! i" if "i \<le> h1 \<or> t1 \<le> i" "i \<le> t" for i
      using IH(1) that lt less.prems(4) len by (auto simp: same_outside_def)
    have "R (items' ! i) v" if i: "h \<le> i" "i < h'" for i
    proof (cases "h1 + 1 \<le> i")
      case False
      then have "items' ! i = (if i = h1 then items ! t1 else items ! i)"
        using keep [of i] nth [of i] h1(2) lt by simp
      moreover have "R (items ! t1) v" using down(2) lt ok [of t1] h1(1) v by (intro not_lt_R) simp_all
      ultimately show ?thesis using low [of i] i(1) False by simp
    qed (use IH(2) i(2) in blast)
    moreover have "R v (items' ! i)" if i: "h' \<le> i" "i \<le> t" for i
    proof (cases "i \<le> t1")
      case False
      then have "items' ! i = items ! i" using keep [of i] nth [of i] i(2) lt by simp
      with high [of i] False i(2) lt show ?thesis by simp
    qed (use IH(3) i(1) in blast)
    ultimately show ?thesis using same by blast
  qed
qed

text \<open>
  The whole sort. A call on \<open>n\<close> items needs no more frames than the binary logarithm of \<open>n\<close>, because the
  recursive call is on the smaller part.
\<close>

definition sorted_between :: "nat \<Rightarrow> nat \<Rightarrow> 'o list \<Rightarrow> bool" where
  "sorted_between a b xs \<longleftrightarrow> (\<forall>i j. a \<le> i \<and> i < j \<and> j \<le> b \<longrightarrow> R (xs ! i) (xs ! j))"

definition qsort_done :: "nat \<Rightarrow> nat \<Rightarrow> 'o list \<Rightarrow> 'o list option \<Rightarrow> bool" where
  "qsort_done a b xs r \<longleftrightarrow> (case r of None \<Rightarrow> False | Some ys \<Rightarrow> same_outside a b xs ys \<and> sorted_between a b ys)"

lemma qsort_done_empty: "b \<le> a \<Longrightarrow> qsort_done a b xs (Some xs)"
  by (auto simp: qsort_done_def same_outside_refl sorted_between_def)

lemma sorted_between_outside:
  assumes "same_outside c d xs ys" and "b < length xs" and "d < a \<or> b < c" and "sorted_between a b xs"
  shows "sorted_between a b ys"
proof -
  have "ys ! i = xs ! i" if "a \<le> i" "i \<le> b" for i
    using assms(1-3) that by (auto simp: same_outside_def)
  with assms(4) show ?thesis by (simp add: sorted_between_def)
qed

text \<open>Two sorted parts around the pivot.\<close>

lemma sorted_between_join:
  assumes h: "a \<le> h" "h \<le> b" "t = h \<or> h = Suc t" and ok: "\<And>i. a \<le> i \<Longrightarrow> i \<le> b \<Longrightarrow> ok (xs ! i)" and v: "ok v"
    and low: "\<And>i. a \<le> i \<Longrightarrow> i \<le> h \<Longrightarrow> R (xs ! i) v" and high: "\<And>i. h < i \<Longrightarrow> i \<le> b \<Longrightarrow> R v (xs ! i)"
    and parts: "sorted_between a t xs" "sorted_between (Suc h) b xs" and pivot: "h = Suc t \<Longrightarrow> xs ! h = v"
  shows "sorted_between a b xs"
  unfolding sorted_between_def
proof (intro allI impI, elim conjE)
  fix i j
  assume ij: "a \<le> i" "i < j" "j \<le> b"
  consider "j \<le> t" | "h < i" | "i \<le> h" "h < j" | "h = Suc t" "j = h" using h(3) ij by linarith
  then show "R (xs ! i) (xs ! j)"
  proof cases
    case 1
    with parts(1) ij show ?thesis by (simp add: sorted_between_def)
  next
    case 2
    with parts(2) ij show ?thesis by (simp add: sorted_between_def)
  next
    case 3
    show ?thesis
      by (rule R_trans [of _ v]) (use ok low high v 3 ij h in simp_all)
  next
    case 4
    with pivot low [of i] ij show ?thesis by simp
  qed
qed

end

lemma same_outside_range:
  assumes same: "same_outside c d xs ys" and b: "b < length xs"
    and place: "a \<le> c \<and> d \<le> b \<or> d < a \<or> b < c" and P: "\<And>i. a \<le> i \<Longrightarrow> i \<le> b \<Longrightarrow> P (xs ! i)" and i: "a \<le> i" "i \<le> b"
  shows "P (ys ! i)"
proof (cases "a \<le> c \<and> d \<le> b")
  case True
  then have "same_outside a b xs ys" using same by (blast intro: same_outside_mono)
  then show ?thesis using b P i by (rule same_outside_elems)
next
  case False
  then have "ys ! i = xs ! i" using place i same b by (auto simp: same_outside_def)
  with P i show ?thesis by simp
qed

context sort_order begin

text \<open>The parts \<open>[c, d]\<close> and \<open>[c', d']\<close> are the two sides of \<open>h\<close>, in the order in which they are sorted.\<close>

lemma qsort_done_join:
  assumes b: "b < length xs" and ok: "\<And>i. a \<le> i \<Longrightarrow> i \<le> b \<Longrightarrow> ok (xs ! i)"
    and h: "a \<le> h" "h \<le> b" "t = h \<or> h = Suc t"
    and low: "\<And>i. a \<le> i \<Longrightarrow> i \<le> h \<Longrightarrow> R (xs ! i) (xs ! h)" and high: "\<And>i. h < i \<Longrightarrow> i \<le> b \<Longrightarrow> R (xs ! h) (xs ! i)"
    and 1: "same_outside c d xs ys" "sorted_between c d ys" and 2: "qsort_done c' d' ys r"
    and parts: "c = a \<and> d = t \<and> c' = Suc h \<and> d' = b \<or> c = Suc h \<and> d = b \<and> c' = a \<and> d' = t"
  shows "qsort_done a b xs r"
proof -
  obtain zs where r: "r = Some zs" and 2: "same_outside c' d' ys zs" "sorted_between c' d' zs"
    using 2 by (auto simp: qsort_done_def split: option.splits)
  have len: "length ys = length xs" using 1(1) by (simp add: same_outside_def)
  have ht: "t \<le> h" using h(3) by auto
  have bounds: "h < length xs" "h < length ys" "b < length ys" using h b len by simp_all
  have in1: "a \<le> c" "d \<le> b" and in2: "a \<le> c'" "d' \<le> b" using parts h ht by auto
  have same: "same_outside a b xs zs"
    by (rule same_outside_trans [OF same_outside_mono [OF 1(1) in1] same_outside_mono [OF 2(1) in2]])
  have place: "a \<le> c \<and> d \<le> h \<or> d < a \<or> h < c" "a \<le> c' \<and> d' \<le> h \<or> d' < a \<or> h < c'"
    "Suc h \<le> c \<and> d \<le> b \<or> d < Suc h \<or> b < c" "Suc h \<le> c' \<and> d' \<le> b \<or> d' < Suc h \<or> b < c'"
    using parts ht by auto
  have "sorted_between a b zs"
  proof (rule sorted_between_join [OF h])
    show "ok (zs ! i)" if "a \<le> i" "i \<le> b" for i by (rule same_outside_range [OF same b, of a]) (use ok that in auto)
    show "ok (xs ! h)" using ok h by blast
    show "R (zs ! i) (xs ! h)" if "a \<le> i" "i \<le> h" for i
      by (rule same_outside_range [where P = "\<lambda>x. R x (xs ! h)", OF 2(1) bounds(2) place(2) _ that])
        (rule same_outside_range [where P = "\<lambda>x. R x (xs ! h)", OF 1(1) bounds(1) place(1) low])
    show "R (xs ! h) (zs ! i)" if "h < i" "i \<le> b" for i
      by (rule same_outside_range [where P = "R (xs ! h)" and a = "Suc h", OF 2(1) bounds(3) place(4)])
        (use same_outside_range [where P = "R (xs ! h)" and a = "Suc h", OF 1(1) b place(3)] high that in auto)
    show "sorted_between a t zs" "sorted_between (Suc h) b zs"
      using parts 1(2) 2 sorted_between_outside [OF 2(1)] bounds ht by auto
    show "zs ! h = xs ! h" if "h = Suc t"
      using that parts 1(1) 2(1) bounds by (auto simp: same_outside_def)
  qed
  with same r show ?thesis by (simp add: qsort_done_def)
qed

lemma qsort_done_ok:
  assumes "same_outside a b xs ys" and "b < length xs" and "\<And>i. a \<le> i \<Longrightarrow> i \<le> b \<Longrightarrow> ok (xs ! i)"
    and "a \<le> i" "i \<le> b"
  shows "ok (ys ! i)"
  using assms(1,2) _ assms(4,5) by (rule same_outside_elems) (rule assms(3))

definition qsort_pre :: "'o list \<Rightarrow> nat \<Rightarrow> nat \<Rightarrow> bool" where
  "qsort_pre items head tail \<longleftrightarrow>
     (tail < length items \<or> tail \<le> head) \<and> (\<forall>i. head \<le> i \<and> i \<le> tail \<and> i < length items \<longrightarrow> ok (items ! i))"

text \<open>The state after one pass and the exchange with the pivot.\<close>

lemma qsort_pass:
  assumes lt: "head < tail" and tail: "tail < length items" and ok: "\<And>i. head \<le> i \<Longrightarrow> i \<le> tail \<Longrightarrow> ok (items ! i)"
    and run: "qsort_partition lt items (items ! tail) head tail = (items', h, t)"
  shows "same_outside head tail items (swap_items items' h tail)"
    and "head \<le> h" "h \<le> tail" "t < tail" "t = h \<or> h = Suc t"
    and "\<And>i. head \<le> i \<Longrightarrow> i \<le> h \<Longrightarrow> R (swap_items items' h tail ! i) (swap_items items' h tail ! h)"
    and "\<And>i. h < i \<Longrightarrow> i \<le> tail \<Longrightarrow> R (swap_items items' h tail ! h) (swap_items items' h tail ! i)"
proof -
  let ?v = "items ! tail"
  have b: "length items' = length items" "head \<le> h" "h \<le> tail" "t < tail" "t = h \<or> h = Suc t"
    using qsort_partition_bounds [OF run] lt by simp_all
  then show "head \<le> h" "h \<le> tail" "t < tail" "t = h \<or> h = Suc t" by simp_all
  have v: "ok ?v" using ok lt by simp
  have p: "same_outside head (tail - 1) items items'" "\<And>i. head \<le> i \<Longrightarrow> i < h \<Longrightarrow> R (items' ! i) ?v"
    "\<And>i. h \<le> i \<Longrightarrow> i \<le> tail \<Longrightarrow> R ?v (items' ! i)"
    using qsort_partition_val [OF run _ _ tail v ok R_refl [OF v]] lt by simp_all
  have pivot: "items' ! tail = ?v" using p(1) lt tail by (simp add: same_outside_def)
  show "same_outside head tail items (swap_items items' h tail)"
    by (rule same_outside_trans [OF same_outside_mono [OF p(1)] same_outside_swap]) (use b lt tail in simp_all)
  have nth: "swap_items items' h tail ! i = (if i = tail then items' ! h else if i = h then ?v else items' ! i)"
    if "i \<le> tail" for i
    using that b(1,3) tail pivot by (auto simp: swap_items_def Let_def nth_list_update)
  have at_h: "swap_items items' h tail ! h = ?v" using nth [of h] b(3) pivot by (cases "h = tail") simp_all
  show "R (swap_items items' h tail ! i) (swap_items items' h tail ! h)" if "head \<le> i" "i \<le> h" for i
    unfolding at_h using that nth [of i] p(2) [of i] b(3) at_h R_refl [OF v] by (cases "i = h") auto
  show "R (swap_items items' h tail ! h) (swap_items items' h tail ! i)" if "h < i" "i \<le> tail" for i
    unfolding at_h using that nth [of i] p(3) [of i] p(3) [of h] b(3) by auto
qed

lemma qsort_loop_val:
  assumes call: "\<And>items head tail. qsort_pre items head tail \<Longrightarrow> 0 < room \<Longrightarrow> tail + 1 - head < 2 ^ room \<Longrightarrow>
      qsort_done head tail items (mp_quicksort lt room items head tail)"
  shows "qsort_pre items head tail \<Longrightarrow> tail + 1 - head < 2 ^ (room + 1) \<Longrightarrow>
    qsort_done head tail items (qsort_loop lt room items head tail)"
proof (induction "tail - head" arbitrary: items head tail rule: less_induct)
  case less
  show ?case
  proof (cases "head < tail")
    case False
    then show ?thesis by (subst qsort_loop.simps) (simp add: qsort_done_empty)
  next
    case True
    then have tail: "tail < length items" and ok: "\<And>i. head \<le> i \<Longrightarrow> i \<le> tail \<Longrightarrow> ok (items ! i)"
      using less.prems(1) by (auto simp: qsort_pre_def)
    obtain items' h t where run: "qsort_partition lt items (items ! tail) head tail = (items', h, t)"
      by (cases "qsort_partition lt items (items ! tail) head tail")
    let ?xs = "swap_items items' h tail"
    note pass = qsort_pass [OF True tail ok run]
    have len: "length ?xs = length items" using pass(1) by (simp add: same_outside_def)
    have ok_xs: "ok (?xs ! i)" if "head \<le> i" "i \<le> tail" for i
      using qsort_done_ok [OF pass(1) tail ok that] .
    have room: "0 < room" using less.prems(2) True by (cases room) auto
    have pre: "qsort_pre ys a b" if "same_outside head tail ?xs ys" "head \<le> a" "b \<le> tail" for ys a b
    proof -
      have l: "length ys = length items" using that(1) len by (simp add: same_outside_def)
      have "ok (ys ! i)" if "head \<le> i" "i \<le> tail" for i
        by (rule qsort_done_ok [OF \<open>same_outside head tail ?xs ys\<close> _ ok_xs that]) (use len tail in simp_all)
      with that(2,3) l tail show ?thesis by (simp add: qsort_pre_def)
    qed
    have whole: "qsort_done head tail items r" if "qsort_done head tail ?xs r" for r
      using that pass(1) by (auto simp: qsort_done_def split: option.splits intro: same_outside_trans)
    show ?thesis
    proof (cases "int t - int head < int tail - int h - 1")
      case small: True
      have "qsort_done head t ?xs (mp_quicksort lt room ?xs head t)"
        by (rule call) (use pre [OF same_outside_refl] pass less.prems(2) small room in auto)
      then obtain ys where ys: "mp_quicksort lt room ?xs head t = Some ys" "same_outside head t ?xs ys" "sorted_between head t ys"
        by (auto simp: qsort_done_def split: option.splits)
      have "same_outside head tail ?xs ys" using ys(2) by (rule same_outside_mono) (use pass in auto)
      then have "qsort_done (Suc h) tail ys (qsort_loop lt room ys (h + 1) tail)"
        using less.hyps [of tail "h + 1" ys] pre [of ys "h + 1" tail] less.prems(2) pass True by simp
      then have "qsort_done head tail ?xs (qsort_loop lt room ys (h + 1) tail)"
        using qsort_done_join [of tail ?xs head h t head t ys "Suc h" tail] tail len ok_xs pass ys by simp
      moreover have "qsort_loop lt room items head tail = qsort_loop lt room ys (h + 1) tail"
        using True run small ys(1) by (subst qsort_loop.simps) simp
      ultimately show ?thesis using whole by simp
    next
      case small: False
      have "qsort_done (h + 1) tail ?xs (mp_quicksort lt room ?xs (h + 1) tail)"
        by (rule call) (use pre [OF same_outside_refl] pass less.prems(2) small room in auto)
      then obtain ys where ys: "mp_quicksort lt room ?xs (h + 1) tail = Some ys" "same_outside (Suc h) tail ?xs ys"
        "sorted_between (Suc h) tail ys"
        by (auto simp: qsort_done_def split: option.splits)
      have "same_outside head tail ?xs ys" using ys(2) by (rule same_outside_mono) (use pass in auto)
      then have "qsort_done head t ys (qsort_loop lt room ys head t)"
        using less.hyps [of t head ys] pre [of ys head t] less.prems(2) pass True by simp
      then have "qsort_done head tail ?xs (qsort_loop lt room ys head t)"
        using qsort_done_join [of tail ?xs head h t "Suc h" tail ys head t] tail len ok_xs pass ys by simp
      moreover have "qsort_loop lt room items head tail = qsort_loop lt room ys head t"
        using True run small ys(1) by (subst qsort_loop.simps) simp
      ultimately show ?thesis using whole by simp
    qed
  qed
qed

lemma mp_quicksort_val:
  "qsort_pre items head tail \<Longrightarrow> 0 < room \<Longrightarrow> tail + 1 - head < 2 ^ room \<Longrightarrow>
   qsort_done head tail items (mp_quicksort lt room items head tail)"
proof (induction room arbitrary: items head tail)
  case (Suc room)
  then show ?case using qsort_loop_val [of room items head tail] by (subst mp_quicksort.simps) simp
qed simp

end

end
