(* ===== verification/PyList.thy ===== *)
theory PyList
  imports ListSort
begin

text \<open>
  Lists (\<open>py/objlist.c\<close>), and the indices and slices of sequences (\<open>py/sequence.c\<close>, \<open>mp_get_index\<close> of
  \<open>py/obj.c\<close>). A slot is \<open>None\<close> when it holds \<open>MP_OBJ_NULL\<close>. The answers of the allocator are an argument:
  \<open>mem n\<close> tells whether there is room for \<open>n\<close> slots, \<open>junk\<close> is what new memory holds.
\<close>

section \<open>Indices and slices\<close>

datatype list_error =
    ListIndexError | ListValueError | ListTypeError | ListOverflowError | ListNotImplementedError | ListMemoryError | ListFault

text \<open>A sum of two \<open>mp_int_t\<close>.\<close>

definition mp_int_wrap :: "int \<Rightarrow> int" where
  "mp_int_wrap i = (i + 2 ^ 63) mod 2 ^ 64 - 2 ^ 63"

text \<open>
  \<open>mp_obj_get_int\<close> and \<open>mp_obj_get_int_maybe\<close> of an integer object of any size, given by its number: a machine
  integer, except for the smallest one, which \<open>mp_obj_int_get_checked\<close> refuses like the larger ones (C8).
\<close>

definition mp_obj_get_int :: "int \<Rightarrow> list_error + int" where
  "mp_obj_get_int i = (if 9223372036854775808 \<le> \<bar>i\<bar> then Inl ListOverflowError else Inr i)"

text \<open>\<open>mp_get_index\<close>: an index that is not an integer is \<open>None\<close>.\<close>

definition mp_get_index :: "nat \<Rightarrow> int option \<Rightarrow> bool \<Rightarrow> list_error + nat" where
  "mp_get_index len index is_slice =
     (case index of
        None \<Rightarrow> Inl ListTypeError
      | Some index \<Rightarrow>
          (case mp_obj_get_int index of
             Inl e \<Rightarrow> Inl e
           | Inr i \<Rightarrow>
               let i = (if i < 0 then i + int len else i)
               in if is_slice then Inr (nat (if i < 0 then 0 else if i > int len then int len else i))
                  else if i < 0 \<or> i \<ge> int len then Inl ListIndexError
                  else Inr (nat i)))"

record mp_bound_slice =
  slice_start :: int
  slice_stop :: int
  slice_step :: int

text \<open>One of the three objects, with what stands for Python's \<open>None\<close>; the stop is adjusted for a negative step.\<close>

definition mp_obj_get_int_or :: "int \<Rightarrow> int option \<Rightarrow> list_error + int" where
  "mp_obj_get_int_or d obj = (case obj of None \<Rightarrow> Inr d | Some i \<Rightarrow> mp_obj_get_int i)"

definition mp_slice_stop :: "nat \<Rightarrow> int \<Rightarrow> int option \<Rightarrow> list_error + int" where
  "mp_slice_stop len step ostop =
     (case ostop of
        None \<Rightarrow> Inr (if step > 0 then int len else 0)
      | Some i \<Rightarrow>
          (case mp_obj_get_int i of
             Inl e \<Rightarrow> Inl e
           | Inr stop \<Rightarrow> Inr (if stop \<ge> 0 \<and> step < 0 then mp_int_wrap (stop + 1) else stop)))"

text \<open>
  The three objects of a slice with the numbers that they stand for, \<open>None\<close> for Python's \<open>None\<close>. The second
  result is whether the step is 1.
\<close>

definition mp_seq_get_fast_slice_indexes ::
  "nat \<Rightarrow> int option \<times> int option \<times> int option \<Rightarrow> list_error + (mp_bound_slice \<times> bool)" where
  "mp_seq_get_fast_slice_indexes len index =
     (let (ostart, ostop, ostep) = index
      in case mp_obj_get_int_or 1 ostep of
        Inl e \<Rightarrow> Inl e
      | Inr step \<Rightarrow>
          if step = 0 then Inl ListValueError
          else case mp_obj_get_int_or (if step > 0 then 0 else int len - 1) ostart of
            Inl e \<Rightarrow> Inl e
          | Inr start \<Rightarrow>
              case mp_slice_stop len step ostop of
                Inl e \<Rightarrow> Inl e
              | Inr stop \<Rightarrow>
                  let start = (if start < 0 then
                                 let start = int len + start in if start < 0 then if step < 0 then - 1 else 0 else start
                               else if step > 0 \<and> start > int len then int len
                               else if step < 0 \<and> start \<ge> int len then int len - 1
                               else start);
                      stop = (if stop < 0 then
                                let stop = int len + stop; stop = (if stop < 0 then - 1 else stop)
                                in if step < 0 then stop + 1 else stop
                              else if stop > int len then int len
                              else stop);
                      stop = (if step > 0 \<and> start > stop then start
                              else if step < 0 \<and> start < stop then start + 1
                              else stop)
                  in Inr (\<lparr> slice_start = start, slice_stop = stop, slice_step = step \<rparr>, step = 1))"

text \<open>
  What the loops of \<open>mp_seq_extract_slice\<close> read; \<open>None\<close> is an access outside of the array, or no end.
\<close>

partial_function (option) seq_slice_loop :: "'o list \<Rightarrow> int \<Rightarrow> int \<Rightarrow> int \<Rightarrow> 'o list option" where
  "seq_slice_loop seq start stop step =
     (if (if step < 0 then start \<ge> stop else start < stop) then
        (if 0 \<le> start \<and> start < int (length seq) then
           Option.bind (seq_slice_loop seq (mp_int_wrap (start + step)) stop step) (\<lambda>r. Some (seq ! nat start # r))
         else None)
      else Some [])"

text \<open>\<open>mp_seq_index_obj\<close> and \<open>mp_seq_count_obj\<close>; the bounds of the search are indices of a slice.\<close>

function seq_find :: "('o \<Rightarrow> bool) \<Rightarrow> 'o list \<Rightarrow> nat \<Rightarrow> nat \<Rightarrow> nat option" where
  "seq_find eq items i stop = (if i < stop then if eq (items ! i) then Some i else seq_find eq items (i + 1) stop else None)"
  by auto
termination
  by (relation "measure (\<lambda>(eq, items, i, stop). stop - i)") auto

declare seq_find.simps [simp del]

definition mp_seq_index_obj ::
  "('o \<Rightarrow> 'o \<Rightarrow> bool) \<Rightarrow> 'o list \<Rightarrow> nat \<Rightarrow> 'o \<Rightarrow> int option option \<Rightarrow> int option option \<Rightarrow> list_error + nat" where
  "mp_seq_index_obj eq items n_items value start stop =
     (let find = (\<lambda>start stop. case seq_find (\<lambda>x. eq x value) items start stop of
                    None \<Rightarrow> Inl ListValueError | Some i \<Rightarrow> Inr i)
      in case start of
        None \<Rightarrow> find 0 n_items
      | Some start \<Rightarrow>
          (case mp_get_index n_items start True of
             Inl e \<Rightarrow> Inl e
           | Inr start \<Rightarrow>
               (case stop of
                  None \<Rightarrow> find start n_items
                | Some stop \<Rightarrow>
                    (case mp_get_index n_items stop True of Inl e \<Rightarrow> Inl e | Inr stop \<Rightarrow> find start stop))))"

definition mp_seq_count_obj :: "('o \<Rightarrow> 'o \<Rightarrow> bool) \<Rightarrow> 'o list \<Rightarrow> nat \<Rightarrow> 'o \<Rightarrow> nat" where
  "mp_seq_count_obj eq items n_items value = fold (\<lambda>x count. if eq x value then count + 1 else count) (take n_items items) 0"

definition mp_seq_multiply :: "'o list \<Rightarrow> nat \<Rightarrow> 'o list" where
  "mp_seq_multiply items reps = concat (replicate reps items)"

section \<open>Blocks of memory\<close>

definition mem_put :: "nat \<Rightarrow> 'a list \<Rightarrow> 'a list \<Rightarrow> 'a list" where
  "mem_put dest ys xs = take dest xs @ ys @ drop (dest + length ys) xs"

definition mem_move :: "nat \<Rightarrow> nat \<Rightarrow> nat \<Rightarrow> 'a list \<Rightarrow> 'a list" where
  "mem_move dest src n xs = mem_put dest (take n (drop src xs)) xs"

definition mp_seq_clear :: "nat \<Rightarrow> nat \<Rightarrow> 'o option list \<Rightarrow> 'o option list" where
  "mp_seq_clear from_slot n_slots items = mem_put from_slot (replicate (n_slots - from_slot) None) items"

definition mp_seq_replace_slice_no_grow ::
  "'a list \<Rightarrow> nat \<Rightarrow> nat \<Rightarrow> nat \<Rightarrow> 'a list \<Rightarrow> 'a list" where
  "mp_seq_replace_slice_no_grow dest dest_len beg stop vals =
     mem_move (beg + length vals) stop (dest_len - stop) (mem_put beg vals dest)"

definition mp_seq_replace_slice_grow_inplace ::
  "'a list \<Rightarrow> nat \<Rightarrow> nat \<Rightarrow> nat \<Rightarrow> 'a list \<Rightarrow> nat \<Rightarrow> 'a list" where
  "mp_seq_replace_slice_grow_inplace dest dest_len beg stop vals len_adj =
     mem_put beg vals (mem_move (beg + length vals) stop (dest_len + len_adj - (beg + length vals)) dest)"

section \<open>The list object\<close>

record 'o mp_obj_list =
  list_alloc :: nat
  list_len :: nat
  list_items :: "'o option list"

definition LIST_MIN_ALLOC :: nat where
  "LIST_MIN_ALLOC = 4"

text \<open>\<open>m_renew\<close>: the first slots stay.\<close>

record 'o list_mem =
  mem_room :: "nat \<Rightarrow> bool"
  mem_junk :: "'o option"

definition m_renew_items :: "'o list_mem \<Rightarrow> 'o option list \<Rightarrow> nat \<Rightarrow> 'o option list option" where
  "m_renew_items mem items n =
     (if mem_room mem n then Some (take n items @ replicate (n - length items) (mem_junk mem)) else None)"

type_synonym ('o, 'a) list_result = "'o mp_obj_list \<times> (list_error + 'a)"

definition list_new :: "'o list_mem \<Rightarrow> nat \<Rightarrow> 'o mp_obj_list option" where
  "list_new mem n =
     (let alloc = (if n < LIST_MIN_ALLOC then LIST_MIN_ALLOC else n)
      in map_option (\<lambda>items. \<lparr> list_alloc = alloc, list_len = n, list_items = mp_seq_clear n alloc items \<rparr>)
           (m_renew_items mem [] alloc))"

definition mp_obj_new_list :: "'o list_mem \<Rightarrow> 'o option list \<Rightarrow> 'o mp_obj_list option" where
  "mp_obj_new_list mem items =
     map_option (\<lambda>l. l\<lparr>list_items := mem_put 0 items (list_items l)\<rparr>) (list_new mem (length items))"

definition mp_obj_list_append :: "'o list_mem \<Rightarrow> 'o mp_obj_list \<Rightarrow> 'o \<Rightarrow> ('o, unit) list_result" where
  "mp_obj_list_append mem self arg =
     (if list_len self \<ge> list_alloc self then
        (case m_renew_items mem (list_items self) (list_alloc self * 2) of
           None \<Rightarrow> (self, Inl ListMemoryError)
         | Some items \<Rightarrow>
             let alloc = list_alloc self * 2;
                 items = mp_seq_clear (list_len self + 1) alloc items
             in (self\<lparr>list_alloc := alloc, list_len := list_len self + 1,
                      list_items := items[list_len self := Some arg]\<rparr>, Inr ()))
      else (self\<lparr>list_len := list_len self + 1, list_items := (list_items self)[list_len self := Some arg]\<rparr>, Inr ()))"

text \<open>\<open>list_extend\<close> with a list, and with what an iterator yields.\<close>

definition list_extend :: "'o list_mem \<Rightarrow> 'o mp_obj_list \<Rightarrow> 'o mp_obj_list \<Rightarrow> ('o, unit) list_result" where
  "list_extend mem self arg =
     (let n = list_len self + list_len arg;
          copy = (\<lambda>self. self\<lparr>list_items := mem_put (list_len self) (take (list_len arg) (list_items arg)) (list_items self),
                             list_len := n\<rparr>)
      in if n > list_alloc self then
           (case m_renew_items mem (list_items self) (n + 4) of
              None \<Rightarrow> (self, Inl ListMemoryError)
            | Some items \<Rightarrow> (copy (self\<lparr>list_alloc := n + 4, list_items := mp_seq_clear n (n + 4) items\<rparr>), Inr ()))
         else (copy self, Inr ()))"

fun list_extend_from_iter :: "'o list_mem \<Rightarrow> 'o mp_obj_list \<Rightarrow> 'o list \<Rightarrow> ('o, unit) list_result" where
  "list_extend_from_iter mem self [] = (self, Inr ())"
| "list_extend_from_iter mem self (item # iter) =
     (case mp_obj_list_append mem self item of
        (self, Inl e) \<Rightarrow> (self, Inl e)
      | (self, Inr _) \<Rightarrow> list_extend_from_iter mem self iter)"

definition mp_seq_extract_slice :: "'o list_mem \<Rightarrow> 'o option list \<Rightarrow> mp_bound_slice \<Rightarrow> list_error + 'o mp_obj_list" where
  "mp_seq_extract_slice mem seq indexes =
     (case mp_obj_new_list mem [] of
        None \<Rightarrow> Inl ListMemoryError
      | Some res \<Rightarrow>
          (case seq_slice_loop seq (slice_start indexes) (slice_stop indexes) (slice_step indexes) of
             None \<Rightarrow> Inl ListFault
           | Some items \<Rightarrow>
               if None \<in> set items then Inl ListFault
               else (case list_extend_from_iter mem res (map the items) of (res, Inl e) \<Rightarrow> Inl e | (res, Inr _) \<Rightarrow> Inr res)))"

text \<open>\<open>list_make_new\<close> with no argument, and with what an iterator yields.\<close>

definition list_make_new :: "'o list_mem \<Rightarrow> 'o list option \<Rightarrow> list_error + 'o mp_obj_list" where
  "list_make_new mem arg =
     (case mp_obj_new_list mem [] of
        None \<Rightarrow> Inl ListMemoryError
      | Some l \<Rightarrow>
          (case arg of
             None \<Rightarrow> Inr l
           | Some iter \<Rightarrow> (case list_extend_from_iter mem l iter of (l, Inl e) \<Rightarrow> Inl e | (l, Inr _) \<Rightarrow> Inr l)))"

definition list_pop :: "'o list_mem \<Rightarrow> 'o mp_obj_list \<Rightarrow> int option option \<Rightarrow> ('o, 'o) list_result" where
  "list_pop mem self arg =
     (if list_len self = 0 then (self, Inl ListIndexError)
      else
        (case mp_get_index (list_len self) (case arg of None \<Rightarrow> Some (- 1) | Some i \<Rightarrow> i) False of
           Inl e \<Rightarrow> (self, Inl e)
         | Inr index \<Rightarrow>
             (case list_items self ! index of
                None \<Rightarrow> (self, Inl ListFault)
              | Some ret \<Rightarrow>
                  let n = list_len self - 1;
                      items = mem_move index (index + 1) (n - index) (list_items self);
                      self = self\<lparr>list_len := n, list_items := items[n := None]\<rparr>
                  in if list_alloc self > LIST_MIN_ALLOC \<and> list_alloc self > 2 * list_len self then
                       (case m_renew_items mem (list_items self) (list_alloc self div 2) of
                          None \<Rightarrow> (self, Inl ListMemoryError)
                        | Some items \<Rightarrow>
                            (self\<lparr>list_items := items, list_alloc := list_alloc self div 2\<rparr>, Inr ret))
                     else (self, Inr ret))))"

definition mp_obj_list_store :: "'o mp_obj_list \<Rightarrow> int option \<Rightarrow> 'o \<Rightarrow> ('o, unit) list_result" where
  "mp_obj_list_store self index value =
     (case mp_get_index (list_len self) index False of
        Inl e \<Rightarrow> (self, Inl e)
      | Inr i \<Rightarrow> (self\<lparr>list_items := (list_items self)[i := Some value]\<rparr>, Inr ()))"

text \<open>\<open>list_subscr\<close>: deleting, loading and storing, by an index and by a slice.\<close>

definition list_load :: "'o mp_obj_list \<Rightarrow> int option \<Rightarrow> list_error + 'o" where
  "list_load self index =
     (case mp_get_index (list_len self) index False of
        Inl e \<Rightarrow> Inl e
      | Inr i \<Rightarrow> (case list_items self ! i of None \<Rightarrow> Inl ListFault | Some v \<Rightarrow> Inr v))"

definition list_load_slice ::
  "'o list_mem \<Rightarrow> 'o mp_obj_list \<Rightarrow> int option \<times> int option \<times> int option \<Rightarrow> list_error + 'o mp_obj_list" where
  "list_load_slice mem self index =
     (case mp_seq_get_fast_slice_indexes (list_len self) index of
        Inl e \<Rightarrow> Inl e
      | Inr (bound, fast) \<Rightarrow>
          if \<not> fast then mp_seq_extract_slice mem (list_items self) bound
          else
            let n = nat (slice_stop bound - slice_start bound)
            in (case list_new mem n of
                  None \<Rightarrow> Inl ListMemoryError
                | Some res \<Rightarrow>
                    Inr (res\<lparr>list_items := mem_put 0 (take n (drop (nat (slice_start bound)) (list_items self))) (list_items res)\<rparr>)))"

definition list_delete_slice ::
  "'o mp_obj_list \<Rightarrow> int option \<times> int option \<times> int option \<Rightarrow> ('o, unit) list_result" where
  "list_delete_slice self index =
     (case mp_seq_get_fast_slice_indexes (list_len self) index of
        Inl e \<Rightarrow> (self, Inl e)
      | Inr (bound, fast) \<Rightarrow>
          if \<not> fast then (self, Inl ListNotImplementedError)
          else
            let start = nat (slice_start bound); stop = nat (slice_stop bound);
                n = list_len self - (stop - start);
                items = mp_seq_replace_slice_no_grow (list_items self) (list_len self) start stop []
            in (self\<lparr>list_items := mp_seq_clear n (list_len self) items, list_len := n\<rparr>, Inr ()))"

definition list_store_slice ::
  "'o list_mem \<Rightarrow> 'o mp_obj_list \<Rightarrow> int option \<times> int option \<times> int option \<Rightarrow> 'o option list \<Rightarrow> ('o, unit) list_result" where
  "list_store_slice mem self index value =
     (case mp_seq_get_fast_slice_indexes (list_len self) index of
        Inl e \<Rightarrow> (self, Inl e)
      | Inr (bound, fast) \<Rightarrow>
          if \<not> fast then (self, Inl ListNotImplementedError)
          else
            let start = nat (slice_start bound); stop = nat (slice_stop bound);
                len_adj = int (length value) - int (stop - start);
                n = nat (int (list_len self) + len_adj)
            in if len_adj > 0 then
                 (case (if n > list_alloc self then
                          map_option (\<lambda>items. self\<lparr>list_items := items, list_alloc := n\<rparr>)
                            (m_renew_items mem (list_items self) n)
                        else Some self) of
                    None \<Rightarrow> (self, Inl ListMemoryError)
                  | Some self \<Rightarrow>
                      (self\<lparr>list_items := mp_seq_replace_slice_grow_inplace (list_items self) (list_len self) start stop value
                              (nat len_adj), list_len := n\<rparr>, Inr ()))
               else
                 (self\<lparr>list_items := mp_seq_clear n (list_len self)
                         (mp_seq_replace_slice_no_grow (list_items self) (list_len self) start stop value),
                       list_len := n\<rparr>, Inr ()))"

definition list_delete :: "'o list_mem \<Rightarrow> 'o mp_obj_list \<Rightarrow> int option \<Rightarrow> ('o, unit) list_result" where
  "list_delete mem self index = map_prod id (map_sum id (\<lambda>_. ())) (list_pop mem self (Some index))"

definition list_clear :: "'o list_mem \<Rightarrow> 'o mp_obj_list \<Rightarrow> ('o, unit) list_result" where
  "list_clear mem self =
     (let self = self\<lparr>list_len := 0\<rparr>
      in case m_renew_items mem (list_items self) LIST_MIN_ALLOC of
           None \<Rightarrow> (self, Inl ListMemoryError)
         | Some items \<Rightarrow>
             (self\<lparr>list_items := mp_seq_clear 0 LIST_MIN_ALLOC items, list_alloc := LIST_MIN_ALLOC\<rparr>, Inr ()))"

definition list_copy :: "'o list_mem \<Rightarrow> 'o mp_obj_list \<Rightarrow> 'o mp_obj_list option" where
  "list_copy mem self = mp_obj_new_list mem (take (list_len self) (list_items self))"

text \<open>
  \<open>list_insert\<close>, with \<open>none\<close> for the object \<open>None\<close> that it appends first. The index is an object word, which
  is read as a small integer whatever it is.
\<close>

fun list_shift_up :: "nat \<Rightarrow> nat \<Rightarrow> 'a list \<Rightarrow> 'a list" where
  "list_shift_up index 0 items = items"
| "list_shift_up index (Suc i) items =
     (if Suc i > index then list_shift_up index i (items[Suc i := items ! i]) else items)"

definition list_insert :: "'o list_mem \<Rightarrow> 'o \<Rightarrow> 'o mp_obj_list \<Rightarrow> 64 word \<Rightarrow> 'o \<Rightarrow> ('o, unit) list_result" where
  "list_insert mem none self idx obj =
     (let index = sint (MP_OBJ_SMALL_INT_VALUE idx);
          index = (if index < 0 then index + int (list_len self) else index);
          index = (if index < 0 then 0 else index);
          index = nat (if index > int (list_len self) then int (list_len self) else index)
      in case mp_obj_list_append mem self none of
           (self, Inl e) \<Rightarrow> (self, Inl e)
         | (self, Inr _) \<Rightarrow>
             (self\<lparr>list_items := (list_shift_up index (list_len self - 1) (list_items self))[index := Some obj]\<rparr>, Inr ()))"

definition list_index :: "('o \<Rightarrow> 'o \<Rightarrow> bool) \<Rightarrow> 'o mp_obj_list \<Rightarrow> 'o \<Rightarrow> int option option \<Rightarrow> int option option \<Rightarrow> list_error + nat" where
  "list_index eq self value start stop =
     mp_seq_index_obj (rel_option eq) (list_items self) (list_len self) (Some value) start stop"

definition list_count :: "('o \<Rightarrow> 'o \<Rightarrow> bool) \<Rightarrow> 'o mp_obj_list \<Rightarrow> 'o \<Rightarrow> nat" where
  "list_count eq self value = mp_seq_count_obj (rel_option eq) (list_items self) (list_len self) (Some value)"

definition mp_obj_list_remove ::
  "('o \<Rightarrow> 'o \<Rightarrow> bool) \<Rightarrow> 'o list_mem \<Rightarrow> 'o mp_obj_list \<Rightarrow> 'o \<Rightarrow> ('o, unit) list_result" where
  "mp_obj_list_remove eq mem self value =
     (case list_index eq self value None None of
        Inl e \<Rightarrow> (self, Inl e)
      | Inr i \<Rightarrow> map_prod id (map_sum id (\<lambda>_. ())) (list_pop mem self (Some (Some (int i)))))"

definition list_reverse :: "'o mp_obj_list \<Rightarrow> 'o mp_obj_list" where
  "list_reverse self =
     (let n = list_len self
      in self\<lparr>list_items := fold (\<lambda>i items. swap_items items i (n - i - 1)) [0 ..< n div 2] (list_items self)\<rparr>)"

definition list_add :: "'o list_mem \<Rightarrow> 'o mp_obj_list \<Rightarrow> 'o mp_obj_list \<Rightarrow> 'o mp_obj_list option" where
  "list_add mem lhs rhs =
     map_option (\<lambda>s. s\<lparr>list_items := mem_put (list_len lhs) (take (list_len rhs) (list_items rhs))
                                     (mem_put 0 (take (list_len lhs) (list_items lhs)) (list_items s))\<rparr>)
       (list_new mem (list_len lhs + list_len rhs))"

definition list_multiply :: "'o list_mem \<Rightarrow> 'o mp_obj_list \<Rightarrow> int \<Rightarrow> 'o mp_obj_list option" where
  "list_multiply mem lhs n =
     (let n = nat n
      in map_option (\<lambda>s. s\<lparr>list_items := mem_put 0 (mp_seq_multiply (take (list_len lhs) (list_items lhs)) n) (list_items s)\<rparr>)
           (list_new mem (list_len lhs * n)))"

text \<open>
  \<open>mp_obj_list_sort\<close>: \<open>lt\<close> is the truth of \<open>mp_binary_op(MP_BINARY_OP_LESS, a, b)\<close>, which is compared with the
  truth value that \<open>reverse\<close> selects. \<open>None\<close>: the recursion has no room left.
\<close>

definition sort_less :: "('k \<Rightarrow> 'k \<Rightarrow> bool) \<Rightarrow> ('o \<Rightarrow> 'k) \<Rightarrow> bool \<Rightarrow> 'o option \<Rightarrow> 'o option \<Rightarrow> bool" where
  "sort_less lt key reverse a b \<longleftrightarrow> lt (key (the a)) (key (the b)) = (\<not> reverse)"

definition mp_obj_list_sort ::
  "('k \<Rightarrow> 'k \<Rightarrow> bool) \<Rightarrow> ('o \<Rightarrow> 'k) \<Rightarrow> bool \<Rightarrow> nat \<Rightarrow> 'o mp_obj_list \<Rightarrow> 'o mp_obj_list option" where
  "mp_obj_list_sort lt key reverse room self =
     (if list_len self > 1 then
        map_option (\<lambda>items. self\<lparr>list_items := items\<rparr>)
          (mp_quicksort (sort_less lt key reverse) room (list_items self) 0 (list_len self - 1))
      else Some self)"

text \<open>\<open>mp_obj_list_set_len\<close>, and the list iterator: the next element and the iterator's new position.\<close>

definition mp_obj_list_set_len :: "'o mp_obj_list \<Rightarrow> nat \<Rightarrow> 'o mp_obj_list" where
  "mp_obj_list_set_len self n = self\<lparr>list_len := n\<rparr>"

definition list_it_iternext :: "'o mp_obj_list \<Rightarrow> nat \<Rightarrow> ('o option \<times> nat) option" where
  "list_it_iternext self cur = (if cur < list_len self then Some (list_items self ! cur, cur + 1) else None)"

end
