(* ===== verification/PyListLaws.thy ===== *)
theory PyListLaws
  imports PyList
begin

text \<open>
  Lists are Python lists: every operation on the slots is the operation on the sequence of elements, with
  the same value or exception, and the slots behind the elements hold \<open>MP_OBJ_NULL\<close>. Slices are the
  slices of Python.
\<close>

section \<open>The representation\<close>

definition list_of :: "'o list \<Rightarrow> nat \<Rightarrow> 'o mp_obj_list" where
  "list_of xs k = \<lparr> list_alloc = length xs + k, list_len = length xs, list_items = map Some xs @ replicate k None \<rparr>"

definition list_rep :: "'o mp_obj_list \<Rightarrow> 'o list \<Rightarrow> bool" where
  "list_rep self xs \<longleftrightarrow> (\<exists>k. self = list_of xs k \<and> 2 \<le> length xs + k)"

lemma list_of_fields [simp]:
  "list_alloc (list_of xs k) = length xs + k" "list_len (list_of xs k) = length xs"
  "list_items (list_of xs k) = map Some xs @ replicate k None"
  by (simp_all add: list_of_def)

lemma list_repI: "self = list_of xs k \<Longrightarrow> 2 \<le> length xs + k \<Longrightarrow> list_rep self xs"
  by (auto simp: list_rep_def)

lemma list_repE:
  assumes "list_rep self xs"
  obtains k where "self = list_of xs k" "2 \<le> length xs + k"
  using assms by (auto simp: list_rep_def)

lemma list_of_eqI:
  "list_alloc self = length xs + k \<Longrightarrow> list_len self = length xs \<Longrightarrow> list_items self = map Some xs @ replicate k None \<Longrightarrow>
   self = list_of (xs :: 'o list) k"
  by (cases self) (simp add: list_of_def)

lemma mem_put_append: "length ys = n \<Longrightarrow> n \<le> length zs \<Longrightarrow> mem_put (length xs) ys (xs @ zs) = xs @ ys @ drop n zs"
  by (simp add: mem_put_def)

section \<open>Building and growing\<close>

lemma list_new_val:
  "list_new mem n = Some self \<Longrightarrow> \<exists>k slots. self = \<lparr> list_alloc = n + k, list_len = n, list_items = slots @ replicate k None \<rparr> \<and>
     length slots = n \<and> 4 \<le> n + k"
  by (auto simp: list_new_def m_renew_items_def Let_def LIST_MIN_ALLOC_def mp_seq_clear_def mem_put_def
      intro!: exI [of _ "if n < 4 then 4 - n else 0"] exI [of _ "replicate n (mem_junk mem)"] split: if_splits)

lemma list_new_fill:
  assumes "list_new mem (length xs) = Some self"
  shows "list_rep (self\<lparr>list_items := mem_put 0 (map Some xs) (list_items self)\<rparr>) xs"
proof -
  from list_new_val [OF assms] obtain k slots where
    "self = \<lparr> list_alloc = length xs + k, list_len = length xs, list_items = slots @ replicate k None \<rparr>"
    "length slots = length xs" "4 \<le> length xs + k" by blast
  then show ?thesis by (intro list_repI [of _ xs k] list_of_eqI) (simp_all add: mem_put_def)
qed

lemma mp_obj_new_list_val: "mp_obj_new_list mem (map Some xs) = Some self \<Longrightarrow> list_rep self xs"
  using list_new_fill [of mem xs] by (auto simp: mp_obj_new_list_def)

lemma list_append_val:
  assumes "list_rep self xs" and "mp_obj_list_append mem self x = (self', r)"
  shows "r = Inr () \<and> list_rep self' (xs @ [x]) \<or> r = Inl ListMemoryError \<and> self' = self"
proof -
  obtain k where k: "self = list_of xs k" "2 \<le> length xs + k" using assms(1) by (rule list_repE)
  show ?thesis
  proof (cases "k = 0")
    case False
    then obtain j where j: "k = Suc j" by (cases k) auto
    with assms(2) k have r: "self' = self\<lparr>list_len := length xs + 1, list_items := (list_items self)[length xs := Some x]\<rparr>" "r = Inr ()"
      by (simp_all add: mp_obj_list_append_def)
    have eq: "self' = list_of (xs @ [x]) j" by (rule list_of_eqI) (simp_all add: r k j list_update_append)
    with r(2) k j list_repI [OF eq] show ?thesis by simp
  next
    case True
    show ?thesis
    proof (cases "mem_room mem (length xs * 2)")
      case room: True
      let ?n = "length xs"
      have pos: "0 < ?n" using k True by linarith
      have items: "mp_seq_clear (?n + 1) (?n * 2) (map Some xs @ replicate (?n * 2 - ?n) (mem_junk mem)) =
          map Some xs @ mem_junk mem # replicate (?n - 1) None"
        using pos by (cases ?n) (simp_all add: mp_seq_clear_def mem_put_def)
      have r: "self' = self\<lparr>list_alloc := ?n * 2, list_len := ?n + 1,
          list_items := (map Some xs @ mem_junk mem # replicate (?n - 1) None)[?n := Some x]\<rparr>" "r = Inr ()"
        using assms(2) k True room items by (simp_all add: mp_obj_list_append_def m_renew_items_def Let_def)
      have eq: "self' = list_of (xs @ [x]) (?n - 1)"
        by (rule list_of_eqI) (use pos in \<open>simp_all add: r list_update_append\<close>)
      with r(2) k True list_repI [OF eq] show ?thesis by simp
    next
      case False
      with assms(2) k True show ?thesis by (simp add: mp_obj_list_append_def m_renew_items_def)
    qed
  qed
qed

lemma list_extend_val:
  assumes "list_rep self xs" and "list_rep arg ys" and "list_extend mem self arg = (self', r)"
  shows "r = Inr () \<and> list_rep self' (xs @ ys) \<or> r = Inl ListMemoryError \<and> self' = self"
proof -
  obtain k where k: "self = list_of xs k" "2 \<le> length xs + k" using assms(1) by (rule list_repE)
  obtain j where j: "arg = list_of ys j" using assms(2) by (rule list_repE)
  show ?thesis
  proof (cases "length ys \<le> k")
    case True
    then have fits: "\<not> length xs + length ys > length xs + k" by simp
    from assms(3) k j fits have r: "r = Inr ()"
      "self' = self\<lparr>list_items := mem_put (length xs) (map Some ys) (list_items self), list_len := length xs + length ys\<rparr>"
      by (simp_all add: list_extend_def Let_def)
    have eq: "self' = list_of (xs @ ys) (k - length ys)"
      by (rule list_of_eqI) (use True in \<open>simp_all add: r k mem_put_def\<close>)
    with r(1) k True list_repI [OF eq] show ?thesis by simp
  next
    case False
    show ?thesis
    proof (cases "mem_room mem (length xs + length ys + 4)")
      case room: True
      let ?n = "length xs + length ys"
      have renew: "m_renew_items mem (list_items self) (?n + 4) =
          Some (map Some xs @ replicate k None @ replicate (?n + 4 - (length xs + k)) (mem_junk mem))"
        using False room k by (simp add: m_renew_items_def)
      have items: "mem_put (length xs) (map Some ys) (mp_seq_clear ?n (?n + 4)
          (map Some xs @ replicate k None @ replicate (?n + 4 - (length xs + k)) (mem_junk mem))) = map Some (xs @ ys) @ replicate 4 None"
        using False by (simp add: mp_seq_clear_def mem_put_def)
      have r: "r = Inr ()" "self' = self\<lparr>list_alloc := ?n + 4, list_items := map Some (xs @ ys) @ replicate 4 None, list_len := ?n\<rparr>"
        using assms(3) False j renew items k by (simp_all add: list_extend_def Let_def)
      have eq: "self' = list_of (xs @ ys) 4" by (rule list_of_eqI) (simp_all add: r)
      with r(1) list_repI [OF eq] show ?thesis by simp
    next
      case no: False
      with assms(3) k j False show ?thesis by (simp add: list_extend_def m_renew_items_def Let_def)
    qed
  qed
qed

lemma list_extend_iter_val:
  "list_rep self xs \<Longrightarrow> list_extend_from_iter mem self ys = (self', r) \<Longrightarrow> r = Inr () \<and> list_rep self' (xs @ ys) \<or> r = Inl ListMemoryError"
proof (induction ys arbitrary: self xs)
  case (Cons y ys)
  obtain s e where a: "mp_obj_list_append mem self y = (s, e)" by (cases "mp_obj_list_append mem self y")
  from list_append_val [OF Cons.prems(1) a] show ?case
  proof (elim disjE conjE)
    assume "e = Inr ()" "list_rep s (xs @ [y])"
    with Cons.IH [of s "xs @ [y]"] Cons.prems(2) a show ?thesis by simp
  qed (use Cons.prems(2) a in auto)
qed simp

lemma list_make_new_val:
  assumes "list_make_new mem arg = Inr self"
  shows "list_rep self (case arg of None \<Rightarrow> [] | Some ys \<Rightarrow> ys)"
proof -
  obtain l where l: "mp_obj_new_list mem [] = Some l" using assms by (auto simp: list_make_new_def split: option.splits)
  have rep: "list_rep l []" using mp_obj_new_list_val [of mem "[]" l] l by simp
  show ?thesis
  proof (cases arg)
    case (Some ys)
    obtain s e where e: "list_extend_from_iter mem l ys = (s, e)" by (cases "list_extend_from_iter mem l ys")
    from list_extend_iter_val [OF rep e] assms l e Some show ?thesis by (auto simp: list_make_new_def)
  qed (use assms l rep in \<open>simp add: list_make_new_def\<close>)
qed

text \<open>The iterator yields the elements in order.\<close>

lemma list_it_iternext_val:
  "list_rep self xs \<Longrightarrow> list_it_iternext self i = (if i < length xs then Some (Some (xs ! i), i + 1) else None)"
  by (auto elim!: list_repE simp: list_it_iternext_def nth_append)

section \<open>Indices\<close>

text \<open>
  An index of Python, with \<open>IndexError\<close> outside of the sequence, and \<open>OverflowError\<close> where it is no machine
  integer at all.
\<close>

definition py_index :: "nat \<Rightarrow> int \<Rightarrow> list_error + nat" where
  "py_index n i =
     (if 9223372036854775808 \<le> \<bar>i\<bar> then Inl ListOverflowError
      else let j = (if i < 0 then i + int n else i) in if 0 \<le> j \<and> j < int n then Inr (nat j) else Inl ListIndexError)"

lemma mp_get_index_val: "mp_get_index n (Some i) False = py_index n i"
  by (simp add: mp_get_index_def mp_obj_get_int_def py_index_def Let_def)

lemma py_index_lt: "py_index n i = Inr j \<Longrightarrow> j < n"
  by (auto simp: py_index_def Let_def split: if_splits)

lemma py_index_last: "0 < n \<Longrightarrow> py_index n (- 1) = Inr (n - 1)"
  by (simp add: py_index_def Let_def nat_eq_iff)

lemma py_index_nat: "j < n \<Longrightarrow> n < 2 ^ 62 \<Longrightarrow> py_index n (int j) = Inr j"
  by (simp add: py_index_def)

section \<open>Removing\<close>

definition py_delete :: "nat \<Rightarrow> 'o list \<Rightarrow> 'o list" where
  "py_delete j xs = take j xs @ drop (Suc j) xs"

lemma length_py_delete: "j < length xs \<Longrightarrow> length (py_delete j xs) = length xs - 1"
  by (simp add: py_delete_def)

lemma mem_move_delete:
  assumes "j < length xs"
  shows "(mem_move j (Suc j) (length xs - 1 - j) (xs @ zs))[length xs - 1 := y] = py_delete j xs @ y # zs"
proof -
  define as a bs where "as = take j xs" and "a = xs ! j" and "bs = drop (Suc j) xs"
  then have xs: "xs = as @ a # bs" "length as = j" using id_take_nth_drop [OF assms] assms by simp_all
  have "mem_move j (Suc j) (length xs - 1 - j) (xs @ zs) = as @ bs @ drop (length bs) (a # bs) @ zs"
  proof -
    have 1: "drop (Suc j) (xs @ zs) = bs @ zs" "take j (xs @ zs) = as" by (simp_all add: xs(1) xs(2) [symmetric])
    have 2: "drop (j + length bs) (xs @ zs) = drop (length bs) (a # bs @ zs)" by (simp add: xs(1) xs(2) [symmetric])
    have 3: "drop (length bs) (a # bs @ zs) = drop (length bs) (a # bs) @ zs"
      using drop_append [of "length bs" "a # bs" zs] by (simp del: drop_append)
    have len: "length xs - 1 - j = length bs" by (simp add: xs(1) xs(2) [symmetric])
    show ?thesis unfolding mem_move_def mem_put_def 1 len using 2 3 by simp
  qed
  moreover have "length (drop (length bs) (a # bs)) = Suc 0" by simp
  then obtain b where "drop (length bs) (a # bs) = [b]" by (auto simp: length_Suc_conv simp del: length_drop)
  ultimately have "mem_move j (Suc j) (length xs - 1 - j) (xs @ zs) = py_delete j xs @ b # zs"
    by (simp add: py_delete_def as_def bs_def)
  moreover have "length (py_delete j xs) = length xs - 1" by (rule length_py_delete [OF assms])
  ultimately show ?thesis by (metis list_update_length)
qed

text \<open>\<open>list_pop\<close> of the element at \<open>j\<close>. When the smaller array cannot be had the element is lost.\<close>

lemma list_pop_at:
  assumes "list_rep self xs" and "mp_get_index (length xs) (case arg of None \<Rightarrow> Some (- 1) | Some i \<Rightarrow> i) False = Inr j"
    and j: "j < length xs" and "list_pop mem self arg = (self', r)"
  shows "list_rep self' (py_delete j xs) \<and> (r = Inr (xs ! j) \<or> r = Inl ListMemoryError)"
proof -
  obtain k where k: "self = list_of xs k" "2 \<le> length xs + k" using assms(1) by (rule list_repE)
  let ?n = "length xs - 1" and ?ys = "py_delete j xs"
  have len: "length ?ys = ?n" by (rule length_py_delete [OF j])
  define s where "s = list_of ?ys (Suc k)"
  have items: "(mem_move j (j + 1) (?n - j) (map Some xs @ replicate k None))[?n := None] = map Some ?ys @ replicate (Suc k) None"
    using mem_move_delete [of j "map Some xs" "replicate k None" None] j by (simp add: py_delete_def drop_map take_map)
  have s: "self\<lparr>list_len := ?n, list_items := map Some ?ys @ replicate (Suc k) None\<rparr> = s"
    unfolding s_def k(1) by (rule list_of_eqI) (use j len in simp_all)
  have alloc: "list_alloc s = length xs + k" using j len by (simp add: s_def)
  have nth: "(map Some xs @ replicate k None) ! j = Some (xs ! j)" using j by (simp add: nth_append)
  have run: "(self', r) = (if list_alloc s > LIST_MIN_ALLOC \<and> list_alloc s > 2 * list_len s then
      (case m_renew_items mem (list_items s) (list_alloc s div 2) of
         None \<Rightarrow> (s, Inl ListMemoryError)
       | Some items \<Rightarrow> (s\<lparr>list_items := items, list_alloc := list_alloc s div 2\<rparr>, Inr (xs ! j)))
      else (s, Inr (xs ! j)))"
    unfolding assms(4) [symmetric] list_pop_def using k(1) assms(2) j nth items s
    by (auto simp: Let_def split: option.split)
  show ?thesis
  proof (cases "list_alloc s > LIST_MIN_ALLOC \<and> list_alloc s > 2 * list_len s \<and> mem_room mem (list_alloc s div 2)")
    case True
    let ?m = "(length xs + k) div 2"
    have m: "?n \<le> ?m" "2 \<le> ?m" "?m \<le> length xs + k" using True len alloc by (auto simp: s_def LIST_MIN_ALLOC_def)
    have "take ?m (list_items s) = map Some ?ys @ replicate (?m - ?n) None"
      using m len j unfolding s_def by (simp add: min_def del: replicate.simps)
    moreover have "?m - length (list_items s) = 0" using m len j by (simp add: s_def)
    ultimately have r: "self' = s\<lparr>list_items := map Some ?ys @ replicate (?m - ?n) None, list_alloc := ?m\<rparr>" "r = Inr (xs ! j)"
      using run True alloc by (simp_all add: m_renew_items_def)
    have "self' = list_of ?ys (?m - ?n)" by (rule list_of_eqI) (use m len in \<open>simp_all add: r s_def\<close>)
    from list_repI [OF this] m len r(2) show ?thesis by simp
  next
    case False
    then have "self' = s" "r = Inr (xs ! j) \<or> r = Inl ListMemoryError"
      using run by (auto simp: m_renew_items_def split: if_splits)
    moreover have "list_rep s ?ys" by (rule list_repI [OF s_def]) (use k(2) len j in simp)
    ultimately show ?thesis by simp
  qed
qed

lemma list_pop_error:
  assumes "list_rep self xs"
  shows "xs = [] \<Longrightarrow> list_pop mem self arg = (self, Inl ListIndexError)"
    and "xs \<noteq> [] \<Longrightarrow> mp_get_index (length xs) (case arg of None \<Rightarrow> Some (- 1) | Some i \<Rightarrow> i) False = Inl e \<Longrightarrow>
      list_pop mem self arg = (self, Inl e)"
proof -
  obtain k where k: "self = list_of xs k" using assms by (rule list_repE)
  then show "xs = [] \<Longrightarrow> list_pop mem self arg = (self, Inl ListIndexError)"
    and "xs \<noteq> [] \<Longrightarrow> mp_get_index (length xs) (case arg of None \<Rightarrow> Some (- 1) | Some i \<Rightarrow> i) False = Inl e \<Longrightarrow>
      list_pop mem self arg = (self, Inl e)" by (simp_all add: list_pop_def)
qed

section \<open>Storing, loading, clearing, copying, adding\<close>

lemma list_store_val:
  assumes "list_rep self xs"
  shows "mp_obj_list_store self (Some i) v = (case py_index (length xs) i of
      Inl e \<Rightarrow> (self, Inl e)
    | Inr j \<Rightarrow> (self\<lparr>list_items := (list_items self)[j := Some v]\<rparr>, Inr ()))"
    and "py_index (length xs) i = Inr j \<Longrightarrow> list_rep (self\<lparr>list_items := (list_items self)[j := Some v]\<rparr>) (xs[j := v])"
proof -
  obtain k where k: "self = list_of xs k" "2 \<le> length xs + k" using assms by (rule list_repE)
  then show "mp_obj_list_store self (Some i) v = (case py_index (length xs) i of
      Inl e \<Rightarrow> (self, Inl e)
    | Inr j \<Rightarrow> (self\<lparr>list_items := (list_items self)[j := Some v]\<rparr>, Inr ()))"
    by (auto simp: mp_obj_list_store_def mp_get_index_val split: sum.splits)
  assume j: "py_index (length xs) i = Inr j"
  have "self\<lparr>list_items := (list_items self)[j := Some v]\<rparr> = list_of (xs[j := v]) k"
    by (rule list_of_eqI) (use py_index_lt [OF j] in \<open>simp_all add: k list_update_append map_update\<close>)
  from list_repI [OF this] k(2) show "list_rep (self\<lparr>list_items := (list_items self)[j := Some v]\<rparr>) (xs[j := v])" by simp
qed

lemma list_load_val:
  assumes "list_rep self xs"
  shows "list_load self (Some i) = (case py_index (length xs) i of Inl e \<Rightarrow> Inl e | Inr j \<Rightarrow> Inr (xs ! j))"
proof -
  obtain k where k: "self = list_of xs k" using assms by (rule list_repE)
  have "(map Some xs @ replicate k None) ! j = Some (xs ! j)" if "py_index (length xs) i = Inr j" for j
    using py_index_lt [OF that] by (simp add: nth_append)
  then show ?thesis by (auto simp: k list_load_def mp_get_index_val split: sum.split)
qed

lemma list_clear_val:
  assumes "list_clear mem self = (self', r)" and "list_rep self xs"
  shows "r = Inr () \<and> list_rep self' [] \<or> r = Inl ListMemoryError \<and> self' = self\<lparr>list_len := 0\<rparr>"
proof (cases "mem_room mem 4")
  case True
  define items where "items = take 4 (list_items self) @ replicate (4 - length (list_items self)) (mem_junk mem)"
  have "length items = 4" by (simp add: items_def)
  then have clear: "mp_seq_clear 0 4 items = replicate 4 None" by (simp add: mp_seq_clear_def mem_put_def)
  have r: "self' = self\<lparr>list_len := 0, list_items := replicate 4 None, list_alloc := 4\<rparr>" "r = Inr ()"
    using assms(1) True clear by (simp_all add: list_clear_def LIST_MIN_ALLOC_def m_renew_items_def items_def Let_def)
  have "self' = list_of [] 4" by (rule list_of_eqI) (simp_all add: r)
  from list_repI [OF this] r(2) show ?thesis by simp
next
  case False
  with assms show ?thesis by (simp add: list_clear_def LIST_MIN_ALLOC_def m_renew_items_def Let_def)
qed

lemma list_copy_val: "list_rep self xs \<Longrightarrow> list_copy mem self = Some s \<Longrightarrow> list_rep s xs"
  by (auto simp: list_copy_def elim!: list_repE intro: mp_obj_new_list_val)

lemma list_add_val:
  assumes "list_rep lhs xs" "list_rep rhs ys" "list_add mem lhs rhs = Some s"
  shows "list_rep s (xs @ ys)"
proof -
  obtain k j where k: "lhs = list_of xs k" "rhs = list_of ys j" using assms(1,2) by (auto elim!: list_repE)
  obtain t where t: "list_new mem (length (xs @ ys)) = Some t"
    "s = t\<lparr>list_items := mem_put (length xs) (map Some ys) (mem_put 0 (map Some xs) (list_items t))\<rparr>"
    using assms(3) k by (auto simp: list_add_def)
  have "mem_put (length xs) (map Some ys) (mem_put 0 (map Some xs) (list_items t)) = mem_put 0 (map Some (xs @ ys)) (list_items t)"
    by (simp add: mem_put_def add.commute)
  with list_new_fill [OF t(1)] t(2) show ?thesis by simp
qed

lemma list_multiply_val:
  assumes "list_rep lhs xs" "list_multiply mem lhs n = Some s"
  shows "list_rep s (concat (replicate (nat n) xs))"
proof -
  obtain k where k: "lhs = list_of xs k" using assms(1) by (auto elim!: list_repE)
  have len: "length (concat (replicate (nat n) xs)) = length xs * nat n" by (simp add: length_concat sum_list_replicate)
  obtain t where t: "list_new mem (length (concat (replicate (nat n) xs))) = Some t"
    "s = t\<lparr>list_items := mem_put 0 (concat (replicate (nat n) (map Some xs))) (list_items t)\<rparr>"
    using assms(2) k len by (auto simp: list_multiply_def Let_def mp_seq_multiply_def)
  have "concat (replicate (nat n) (map Some xs)) = map Some (concat (replicate (nat n) xs))" by (simp add: map_concat)
  with list_new_fill [OF t(1)] t(2) show ?thesis by simp
qed

end
