(* ===== verification/PyListSlice.thy ===== *)
theory PyListSlice
  imports PyListLaws
begin

text \<open>
  The slices of \<open>py/sequence.c\<close> and \<open>py/objlist.c\<close> against the slices of the Python language: the bounds are
  clamped as the language says, and loading, storing and deleting a slice are the operations on sequences.
\<close>

section \<open>The slices of the language\<close>

function py_range :: "int \<Rightarrow> int \<Rightarrow> int \<Rightarrow> int list" where
  "py_range a b c = (if c > 0 \<and> a < b \<or> c < 0 \<and> a > b then a # py_range (a + c) b c else [])"
  by auto
termination
  by (relation "measure (\<lambda>(a, b, c). nat (if c > 0 then b - a else a - b))") auto

declare py_range.simps [simp del]

definition py_clamp :: "nat \<Rightarrow> int \<Rightarrow> int \<Rightarrow> int" where
  "py_clamp n step i =
     (if step > 0 then if i < 0 then max (i + int n) 0 else min i (int n)
      else if i < 0 then max (i + int n) (- 1) else min i (int n - 1))"

definition py_bounds :: "nat \<Rightarrow> int option \<times> int option \<times> int option \<Rightarrow> int \<times> int \<times> int" where
  "py_bounds n index =
     (let (start, stop, step) = index; step = (case step of None \<Rightarrow> 1 | Some s \<Rightarrow> s)
      in ((case start of None \<Rightarrow> if step > 0 then 0 else int n - 1 | Some i \<Rightarrow> py_clamp n step i),
          (case stop of None \<Rightarrow> if step > 0 then int n else - 1 | Some i \<Rightarrow> py_clamp n step i),
          step))"

definition py_slice :: "'o list \<Rightarrow> int option \<times> int option \<times> int option \<Rightarrow> 'o list" where
  "py_slice xs index = (let (a, b, c) = py_bounds (length xs) index in map (\<lambda>i. xs ! nat i) (py_range a b c))"

section \<open>The bounds\<close>

text \<open>Numbers that fit in a small integer, for which no sum overflows.\<close>

definition slice_arg_ok :: "int option \<Rightarrow> bool" where
  "slice_arg_ok i \<longleftrightarrow> (case i of None \<Rightarrow> True | Some i \<Rightarrow> - (2 ^ 62) \<le> i \<and> i < 2 ^ 62)"

definition slice_ok :: "nat \<Rightarrow> int option \<times> int option \<times> int option \<Rightarrow> bool" where
  "slice_ok n index \<longleftrightarrow>
     (case index of (a, b, c) \<Rightarrow> int n < 2 ^ 62 \<and> slice_arg_ok a \<and> slice_arg_ok b \<and> slice_arg_ok c \<and> c \<noteq> Some 0)"

lemma mp_int_wrap_id: "- (2 ^ 63) \<le> i \<Longrightarrow> i < 2 ^ 63 \<Longrightarrow> mp_int_wrap i = i"
  by (simp add: mp_int_wrap_def)

lemma slice_indexes_val:
  assumes ok: "slice_ok n index" and b: "py_bounds n index = (a, b, c)"
  shows "\<exists>start stop. mp_seq_get_fast_slice_indexes n index =
      Inr (\<lparr> slice_start = start, slice_stop = stop, slice_step = c \<rparr>, c = 1) \<and> c \<noteq> 0 \<and> start = a \<and>
      (if c > 0 then 0 \<le> a \<and> a \<le> int n \<and> b \<le> int n \<and> stop = max a b
       else - 1 \<le> a \<and> a < int n \<and> - 1 \<le> b \<and> 0 \<le> stop \<and> (stop = b + 1 \<or> b \<ge> a \<and> stop = a + 1))"
proof -
  obtain ostart ostop ostep where index: "index = (ostart, ostop, ostep)" by (cases index)
  have wrap: "mp_int_wrap (s + 1) = s + 1" if "ostop = Some s" for s
    using ok that by (intro mp_int_wrap_id) (auto simp: slice_ok_def slice_arg_ok_def index)
  have get: "mp_obj_get_int_or d ostep = Inr (case ostep of None \<Rightarrow> d | Some s \<Rightarrow> s)"
    "mp_obj_get_int_or d ostart = Inr (case ostart of None \<Rightarrow> d | Some s \<Rightarrow> s)"
    "mp_slice_stop n st ostop = Inr (case ostop of None \<Rightarrow> if st > 0 then int n else 0
       | Some s \<Rightarrow> if s \<ge> 0 \<and> st < 0 then mp_int_wrap (s + 1) else s)" for d st
    using ok by (auto simp: mp_obj_get_int_or_def mp_slice_stop_def mp_obj_get_int_def slice_ok_def slice_arg_ok_def index
      split: option.split)
  have c: "c = (case ostep of None \<Rightarrow> 1 | Some s \<Rightarrow> s)" "c \<noteq> 0"
    using b ok by (auto simp: py_bounds_def index slice_ok_def Let_def split: option.splits)
  show ?thesis
  proof (cases "c > 0")
    case True
    with b c(1) have ab: "a = (case ostart of None \<Rightarrow> 0 | Some i \<Rightarrow> if i < 0 then max (i + int n) 0 else min i (int n))"
      "b = (case ostop of None \<Rightarrow> int n | Some i \<Rightarrow> if i < 0 then max (i + int n) 0 else min i (int n))"
      by (simp_all add: py_bounds_def index Let_def py_clamp_def cong: option.case_cong)
    show ?thesis
      unfolding mp_seq_get_fast_slice_indexes_def index prod.case Let_def get sum.case c(1) [symmetric]
      using True ab by (cases ostart; cases ostop) (auto simp: max_def min_def)
  next
    case False
    with c(2) have neg: "c < 0" by simp
    with b c(1) have ab: "a = (case ostart of None \<Rightarrow> int n - 1 | Some i \<Rightarrow> if i < 0 then max (i + int n) (- 1) else min i (int n - 1))"
      "b = (case ostop of None \<Rightarrow> - 1 | Some i \<Rightarrow> if i < 0 then max (i + int n) (- 1) else min i (int n - 1))"
      by (simp_all add: py_bounds_def index Let_def py_clamp_def cong: option.case_cong)
    show ?thesis
      unfolding mp_seq_get_fast_slice_indexes_def index prod.case Let_def get sum.case c(1) [symmetric]
      using neg ab wrap by (cases ostart; cases ostop) (auto simp: max_def min_def)
  qed
qed

section \<open>Loading\<close>

lemma seq_slice_loop_up:
  "c > 0 \<Longrightarrow> c < 2 ^ 62 \<Longrightarrow> 0 \<le> a \<Longrightarrow> a < 2 ^ 62 + 2 ^ 62 \<Longrightarrow> b \<le> int (length seq) \<Longrightarrow> b < 2 ^ 62 \<Longrightarrow>
   seq_slice_loop seq a b c = Some (map (\<lambda>i. seq ! nat i) (py_range a b c))"
proof (induction a b c rule: py_range.induct)
  case (1 a b c)
  show ?case
  proof (cases "a < b")
    case True
    have wrap: "mp_int_wrap (a + c) = a + c" by (rule mp_int_wrap_id) (use "1.prems" True in simp_all)
    have IH: "seq_slice_loop seq (a + c) b c = Some (map (\<lambda>i. seq ! nat i) (py_range (a + c) b c))"
      by (rule "1.IH") (use "1.prems" True in auto)
    show ?thesis
      using True "1.prems" IH wrap by (subst seq_slice_loop.simps, subst py_range.simps) simp
  next
    case False
    with "1.prems" show ?thesis by (subst seq_slice_loop.simps, subst py_range.simps) simp
  qed
qed

lemma seq_slice_loop_down:
  "c < 0 \<Longrightarrow> - (2 ^ 62) \<le> c \<Longrightarrow> - (2 ^ 62) \<le> a + 1 \<Longrightarrow> a < int (length seq) \<Longrightarrow> a < 2 ^ 62 \<Longrightarrow> - 1 \<le> b \<Longrightarrow>
   seq_slice_loop seq a (b + 1) c = Some (map (\<lambda>i. seq ! nat i) (py_range a b c))"
proof (induction a b c rule: py_range.induct)
  case (1 a b c)
  show ?case
  proof (cases "a > b")
    case True
    have wrap: "mp_int_wrap (a + c) = a + c" by (rule mp_int_wrap_id) (use "1.prems" True in simp_all)
    have IH: "seq_slice_loop seq (a + c) (b + 1) c = Some (map (\<lambda>i. seq ! nat i) (py_range (a + c) b c))"
      by (rule "1.IH") (use "1.prems" True in auto)
    show ?thesis
      using True "1.prems" IH wrap by (subst seq_slice_loop.simps, subst py_range.simps) simp
  next
    case False
    with "1.prems" show ?thesis by (subst seq_slice_loop.simps, subst py_range.simps) simp
  qed
qed

lemma py_range_empty: "c > 0 \<Longrightarrow> b \<le> a \<Longrightarrow> py_range a b c = []" "c < 0 \<Longrightarrow> a \<le> b \<Longrightarrow> py_range a b c = []"
  by (simp_all add: py_range.simps)

lemma py_range_between:
  "i \<in> set (py_range a b c) \<Longrightarrow> (c > 0 \<longrightarrow> a \<le> i \<and> i < b) \<and> (c < 0 \<longrightarrow> b < i \<and> i \<le> a)"
proof (induction a b c rule: py_range.induct)
  case (1 a b c)
  then show ?case by (cases "c > 0 \<and> a < b \<or> c < 0 \<and> a > b") (fastforce simp: py_range.simps [of a b c])+
qed

text \<open>The array begins with the elements.\<close>

lemma extract_slice_val:
  assumes ok: "slice_ok (length xs) index"
    and run: "mp_seq_get_fast_slice_indexes (length xs) index = Inr (bound, fast)"
  shows "seq_slice_loop (map Some xs @ rest) (slice_start bound) (slice_stop bound) (slice_step bound) =
    Some (map Some (py_slice xs index))"
proof -
  obtain a b c where b: "py_bounds (length xs) index = (a, b, c)" by (cases "py_bounds (length xs) index")
  let ?seq = "map Some xs @ rest"
  from slice_indexes_val [OF ok b] run obtain stop where
    bound: "bound = \<lparr> slice_start = a, slice_stop = stop, slice_step = c \<rparr>" and c0: "c \<noteq> 0"
    and up: "c > 0 \<Longrightarrow> 0 \<le> a \<and> a \<le> int (length xs) \<and> b \<le> int (length xs) \<and> stop = max a b"
    and down: "\<not> c > 0 \<Longrightarrow> - 1 \<le> a \<and> a < int (length xs) \<and> - 1 \<le> b \<and> 0 \<le> stop \<and> (stop = b + 1 \<or> b \<ge> a \<and> stop = a + 1)"
    by (auto split: if_splits)
  have n: "int (length xs) < 2 ^ 62" "- (2 ^ 62) \<le> c" "c < 2 ^ 62"
    using ok b by (auto simp: slice_ok_def slice_arg_ok_def py_bounds_def Let_def split: prod.splits option.splits)
  have "seq_slice_loop ?seq a stop c = Some (map (\<lambda>i. ?seq ! nat i) (py_range a b c))"
  proof (cases "c > 0")
    case True
    note u = up [OF True]
    have "seq_slice_loop ?seq a (max a b) c = Some (map (\<lambda>i. ?seq ! nat i) (py_range a (max a b) c))"
      by (rule seq_slice_loop_up) (use u True n in auto)
    moreover have "py_range a (max a b) c = py_range a b c"
      using True by (cases "a \<le> b") (simp_all add: max_def py_range_empty)
    ultimately show ?thesis using u by simp
  next
    case False
    with c0 have neg: "c < 0" by simp
    note d = down [OF False]
    show ?thesis
    proof (cases "stop = b + 1")
      case True
      have "seq_slice_loop ?seq a (b + 1) c = Some (map (\<lambda>i. ?seq ! nat i) (py_range a b c))"
        by (rule seq_slice_loop_down) (use d neg n in auto)
      with True show ?thesis by simp
    next
      case False
      with d have e: "b \<ge> a" "stop = a + 1" by simp_all
      have "seq_slice_loop ?seq a (a + 1) c = Some []" by (subst seq_slice_loop.simps) (simp add: neg)
      with e neg show ?thesis by (simp add: py_range_empty)
    qed
  qed
  moreover have "map (\<lambda>i. ?seq ! nat i) (py_range a b c) = map Some (map (\<lambda>i. xs ! nat i) (py_range a b c))"
  proof -
    have "0 \<le> i \<and> i < int (length xs)" if "i \<in> set (py_range a b c)" for i
      using py_range_between [OF that] up down c0 by (cases "c > 0") auto
    then show ?thesis by (auto simp: nth_append nat_less_iff)
  qed
  ultimately show ?thesis by (simp add: bound py_slice_def b)
qed

lemma py_range_one: "py_range a b 1 = [a .. b - 1]"
proof (induction a b "1 :: int" rule: py_range.induct)
  case (1 a b)
  show ?case
  proof (cases "a < b")
    case True
    with 1 have "py_range (a + 1) b 1 = [a + 1 .. b - 1]" by simp
    with True show ?thesis by (simp add: py_range.simps [of a b 1] upto_rec1)
  qed (simp add: py_range.simps [of a b 1])
qed

lemma py_range_one_take:
  "0 \<le> a \<Longrightarrow> b \<le> int (length xs) \<Longrightarrow>
   map (\<lambda>i. xs ! nat i) (py_range a b 1) = take (nat (max a b) - nat a) (drop (nat a) xs)"
  by (rule nth_equalityI) (auto simp: py_range_one nth_upto max_def nat_add_distrib)

text \<open>A slice whose step is 1 is a block.\<close>

lemma fast_slice_val:
  assumes ok: "slice_ok (length xs) index"
    and run: "mp_seq_get_fast_slice_indexes (length xs) index = Inr (bound, True)"
  obtains a b where "py_bounds (length xs) index = (a, b, 1)" and "0 \<le> a" "a \<le> int (length xs)" "b \<le> int (length xs)"
    and "bound = \<lparr> slice_start = a, slice_stop = max a b, slice_step = 1 \<rparr>"
    and "py_slice xs index = take (nat (max a b) - nat a) (drop (nat a) xs)"
proof -
  obtain a b c where b: "py_bounds (length xs) index = (a, b, c)" by (cases "py_bounds (length xs) index")
  from slice_indexes_val [OF ok b] run have c: "c = 1"
    and v: "bound = \<lparr> slice_start = a, slice_stop = max a b, slice_step = 1 \<rparr>" "0 \<le> a" "a \<le> int (length xs)" "b \<le> int (length xs)"
    by (auto split: if_splits)
  from b c v show thesis by (intro that [of a b]) (simp_all add: py_slice_def py_range_one_take)
qed

lemma list_load_slice_val:
  assumes rep: "list_rep self xs" and ok: "slice_ok (length xs) index"
    and run: "list_load_slice mem self index = r"
  shows "(\<exists>s. r = Inr s \<and> list_rep s (py_slice xs index)) \<or> r = Inl ListMemoryError"
proof -
  obtain k where k: "self = list_of xs k" using rep by (rule list_repE)
  obtain a b c where b: "py_bounds (length xs) index = (a, b, c)" by (cases "py_bounds (length xs) index")
  obtain bound fast where i: "mp_seq_get_fast_slice_indexes (length xs) index = Inr (bound, fast)"
    using slice_indexes_val [OF ok b] by blast
  have len: "list_len self = length xs" by (simp add: k)
  show ?thesis
  proof (cases fast)
    case True
    with i have "mp_seq_get_fast_slice_indexes (length xs) index = Inr (bound, True)" by simp
    from fast_slice_val [OF ok this] obtain a b where v: "0 \<le> a" "a \<le> int (length xs)" "b \<le> int (length xs)"
      "bound = \<lparr> slice_start = a, slice_stop = max a b, slice_step = 1 \<rparr>"
      "py_slice xs index = take (nat (max a b) - nat a) (drop (nat a) xs)" by blast
    have l: "nat (max a b - a) = nat (max a b) - nat a" "nat a \<le> length xs" "nat (max a b) \<le> length xs"
      using v(1,2,3) by (simp_all add: nat_diff_distrib)
    moreover have "min (length xs - nat a) (nat (max a b) - nat a) = nat (max a b) - nat a"
      using l by (intro min_absorb2 diff_le_mono)
    ultimately have n: "nat (slice_stop bound - slice_start bound) = length (py_slice xs index)"
      "take (nat (slice_stop bound - slice_start bound)) (drop (nat (slice_start bound)) (list_items self)) = map Some (py_slice xs index)"
      using v(4,5) by (simp_all add: k drop_map take_map)
    have "r = (case list_new mem (length (py_slice xs index)) of
        None \<Rightarrow> Inl ListMemoryError
      | Some res \<Rightarrow> Inr (res\<lparr>list_items := mem_put 0 (map Some (py_slice xs index)) (list_items res)\<rparr>))"
      unfolding run [symmetric] list_load_slice_def Let_def len i sum.case prod.case n(1) n(2) [unfolded n(1)] using True by simp
    then show ?thesis by (auto dest: list_new_fill split: option.splits)
  next
    case False
    have loop: "seq_slice_loop (list_items self) (slice_start bound) (slice_stop bound) (slice_step bound) = Some (map Some (py_slice xs index))"
      using extract_slice_val [OF ok i, of "replicate k None"] by (simp add: k)
    have all: "(None \<in> set (map Some (py_slice xs index))) = False" "map the (map Some (py_slice xs index)) = py_slice xs index"
      by (simp_all add: image_iff o_def)
    have "r = (case mp_obj_new_list mem [] of None \<Rightarrow> Inl ListMemoryError
        | Some res \<Rightarrow> (case list_extend_from_iter mem res (py_slice xs index) of (res, Inl e) \<Rightarrow> Inl e | (res, Inr _) \<Rightarrow> Inr res))"
      unfolding run [symmetric] list_load_slice_def len i sum.case prod.case mp_seq_extract_slice_def loop option.case all if_False using False by simp
    then show ?thesis
      using mp_obj_new_list_val [of mem "[]"] by (auto dest: list_extend_iter_val split: option.splits prod.splits sum.splits)
  qed
qed

section \<open>Storing and deleting\<close>

definition py_replace :: "'o list \<Rightarrow> int option \<times> int option \<times> int option \<Rightarrow> 'o list \<Rightarrow> 'o list" where
  "py_replace xs index ys =
     (let (a, b, c) = py_bounds (length xs) index in take (nat a) xs @ ys @ drop (nat (max a b)) xs)"

lemma replace_no_grow:
  assumes "beg \<le> stop" "stop \<le> length xs" "length ys \<le> stop - beg"
  shows "mp_seq_clear (length xs - (stop - beg - length ys)) (length xs)
      (mp_seq_replace_slice_no_grow (map Some xs @ zs) (length xs) beg stop (map Some ys)) =
    map Some (take beg xs @ ys @ drop stop xs) @ replicate (stop - beg - length ys) None @ zs"
proof -
  define as ms bs where "as = take beg xs" and "ms = take (stop - beg) (drop beg xs)" and "bs = drop stop xs"
  have xs: "xs = as @ ms @ bs"
    unfolding as_def ms_def bs_def using assms(1) by (metis append_take_drop_id drop_drop le_add_diff_inverse2)
  have len: "length as = beg" "length ms = stop - beg" "length xs - stop = length bs"
    using assms by (simp_all add: as_def ms_def bs_def)
  have 1: "mem_put beg (map Some ys) (map Some xs @ zs) = map Some (as @ ys) @ drop (length ys) (map Some ms) @ map Some bs @ zs"
    using assms(3) len by (simp add: xs mem_put_def)
  define rest where "rest = drop (length ys) (map Some ms)"
  have rest: "length rest = stop - beg - length ys" using len by (simp add: rest_def)
  have 2: "take (length bs) (drop stop (map Some (as @ ys) @ rest @ map Some bs @ zs)) = map Some bs"
    using assms len rest by simp
  have 4: "drop (beg + (length ys + length bs)) (map Some as @ map Some ys @ R) = drop (length bs) R" for R
    by (simp add: len(1) [symmetric])
  have 3: "mp_seq_replace_slice_no_grow (map Some xs @ zs) (length xs) beg stop (map Some ys) =
      map Some (as @ ys @ bs) @ drop (length bs) (rest @ map Some bs) @ zs"
    unfolding mp_seq_replace_slice_no_grow_def mem_move_def 1 rest_def [symmetric] len(3) 2 length_map
    using 4 [of "rest @ map Some bs @ zs"] drop_append [of "length bs" "rest @ map Some bs" zs] len(1)
    by (simp add: mem_put_def add.assoc del: drop_append)
  have n: "length xs - (stop - beg - length ys) = length (as @ ys @ bs)" using assms len by (simp add: bs_def)
  show ?thesis
    unfolding 3 n using rest len assms by (simp add: mp_seq_clear_def mem_put_def as_def [symmetric] bs_def [symmetric])
qed

lemma replace_grow:
  assumes "beg \<le> stop" "stop \<le> length xs" "stop - beg < length ys" "length ys - (stop - beg) \<le> length zs"
  shows "mp_seq_replace_slice_grow_inplace (map Some xs @ zs) (length xs) beg stop (map Some ys) (length ys - (stop - beg)) =
    map Some (take beg xs @ ys @ drop stop xs) @ drop (length ys - (stop - beg)) zs"
proof -
  define as ms bs where "as = take beg xs" and "ms = take (stop - beg) (drop beg xs)" and "bs = drop stop xs"
  have xs: "xs = as @ ms @ bs"
    unfolding as_def ms_def bs_def using assms(1) by (metis append_take_drop_id drop_drop le_add_diff_inverse2)
  have len: "length as = beg" "length ms = stop - beg" "length bs = length xs - stop"
    using assms by (simp_all add: as_def ms_def bs_def)
  let ?d = "length ys - (stop - beg)"
  have count: "length xs + ?d - (beg + length ys) = length bs" using assms len by simp
  have src: "take (length bs) (drop stop (map Some xs @ zs)) = map Some bs" using assms(2) by (simp add: bs_def drop_map)
  have place: "beg + length ys = length xs - length bs + ?d" "length bs \<le> length xs" using assms len by simp_all
  define X where "X = map Some xs @ zs"
  have X: "length X = length xs + length zs" "take beg X = map Some as" "drop (length xs + ?d) X = drop ?d zs"
    "take (length bs) (drop stop X) = map Some bs"
    using assms(1,2) src by (simp_all add: X_def as_def take_map)
  let ?m = "mem_move (beg + length ys) stop (length bs) X"
  have m: "?m = take (beg + length ys) X @ map Some bs @ drop ?d zs"
  proof -
    have "beg + length ys + length bs = length xs + ?d" using place by linarith
    then show ?thesis unfolding mem_move_def mem_put_def X(4) length_map by (simp only: X(3))
  qed
  have fits: "beg + length ys \<le> length X" using place assms(4) X(1) by linarith
  have front: "take beg ?m = map Some as" unfolding m using X(2) fits by (simp add: min_def)
  have behind: "drop (beg + length ys) ?m = map Some bs @ drop ?d zs" unfolding m using fits by simp
  show ?thesis
    unfolding mp_seq_replace_slice_grow_inplace_def length_map count
    unfolding X_def [symmetric] mem_put_def [of beg] length_map front behind by (simp add: as_def bs_def)
qed

lemma list_store_slice_val:
  assumes rep: "list_rep self xs" and ok: "slice_ok (length xs) index"
    and run: "list_store_slice mem self index (map Some ys) = (self', r)"
  shows "r = Inr () \<and> list_rep self' (py_replace xs index ys) \<or>
    r = Inl ListMemoryError \<and> self' = self \<or> r = Inl ListNotImplementedError \<and> self' = self"
proof -
  obtain k where k: "self = list_of xs k" "2 \<le> length xs + k" using rep by (rule list_repE)
  obtain a b c where b: "py_bounds (length xs) index = (a, b, c)" by (cases "py_bounds (length xs) index")
  obtain bound fast where i: "mp_seq_get_fast_slice_indexes (length xs) index = Inr (bound, fast)"
    using slice_indexes_val [OF ok b] by blast
  show ?thesis
  proof (cases fast)
    case False
    with run i show ?thesis by (simp add: list_store_slice_def k)
  next
    case True
    with i have i: "mp_seq_get_fast_slice_indexes (length xs) index = Inr (bound, True)" by simp
    from fast_slice_val [OF ok this] obtain a b where v: "py_bounds (length xs) index = (a, b, 1)" "0 \<le> a" "a \<le> int (length xs)"
      "b \<le> int (length xs)" "bound = \<lparr> slice_start = a, slice_stop = max a b, slice_step = 1 \<rparr>" by blast
    define beg stop where "beg = nat a" and "stop = nat (max a b)"
    have bs: "beg \<le> stop" "stop \<le> length xs" "nat (slice_start bound) = beg" "nat (slice_stop bound) = stop"
      using v nat_mono [of a "max a b"] by (simp_all add: beg_def stop_def nat_le_iff)
    define zs where "zs = take beg xs @ ys @ drop stop xs"
    have spec: "py_replace xs index ys = zs" using v(1) by (simp add: py_replace_def zs_def beg_def stop_def)
    have len_zs: "length zs + (stop - beg) = length xs + length ys" using bs by (simp add: zs_def)
    have n: "nat (int (length xs) + (int (length ys) - int (stop - beg))) = length zs" using len_zs by linarith
    show ?thesis
    proof (cases "stop - beg < length ys")
      case True
      then have d: "int (length ys) - int (stop - beg) > 0" "nat (int (length ys) - int (stop - beg)) = length ys - (stop - beg)" by simp_all
      show ?thesis
      proof (cases "length zs > length xs + k")
        case False
        have eq: "self\<lparr>list_items := mp_seq_replace_slice_grow_inplace (list_items self) (length xs) beg stop (map Some ys)
            (length ys - (stop - beg)), list_len := length zs\<rparr> = list_of zs (length xs + k - length zs)"
          using replace_grow [OF bs(1,2) True, of "replicate k None"] False len_zs True bs
          by (intro list_of_eqI) (auto simp: k zs_def)
        have "self' = list_of zs (length xs + k - length zs)" "r = Inr ()"
          using run i bs d n False eq by (simp_all add: list_store_slice_def Let_def k)
        with list_repI [of self' zs "length xs + k - length zs"] k(2) False spec show ?thesis by simp
      next
        case grow: True
        show ?thesis
        proof (cases "mem_room mem (length zs)")
          case False
          with run i bs d n grow show ?thesis by (simp add: list_store_slice_def Let_def k m_renew_items_def)
        next
          case room: True
          let ?rest = "replicate k None @ replicate (length zs - (length xs + k)) (mem_junk mem)"
          have renew: "m_renew_items mem (list_items self) (length zs) = Some (map Some xs @ ?rest)"
            using grow room by (simp add: m_renew_items_def k)
          have short: "length ys - (stop - beg) = length ?rest" using grow len_zs True by simp
          have "mp_seq_replace_slice_grow_inplace (map Some xs @ ?rest) (length xs) beg stop (map Some ys)
              (length ys - (stop - beg)) = map Some zs"
            using replace_grow [OF bs(1,2) True, of ?rest] short by (simp add: zs_def)
          then have "self' = list_of zs 0" "r = Inr ()"
            using run i bs d n grow renew by (simp_all add: list_store_slice_def Let_def k list_of_def)
          with list_repI [of self' zs 0] k(2) grow spec show ?thesis by simp
        qed
      qed
    next
      case False
      then have d: "\<not> int (length ys) - int (stop - beg) > 0" by simp
      have small: "length zs = length xs - (stop - beg - length ys)" using len_zs False bs by simp
      have "length ys \<le> stop - beg" using False by simp
      then have items: "mp_seq_clear (length zs) (length xs)
          (mp_seq_replace_slice_no_grow (map Some xs @ replicate k None) (length xs) beg stop (map Some ys)) =
        map Some zs @ replicate (stop - beg - length ys + k) None"
        unfolding replicate_add small unfolding zs_def by (rule replace_no_grow [OF bs(1,2)])
      have size: "length xs + k = length zs + (stop - beg - length ys + k)" using len_zs False by simp
      have eq: "self\<lparr>list_items := mp_seq_clear (length zs) (length xs)
            (mp_seq_replace_slice_no_grow (list_items self) (length xs) beg stop (map Some ys)), list_len := length zs\<rparr> =
          list_of zs (stop - beg - length ys + k)"
        unfolding list_of_def size [symmetric] using items by (simp add: k list_of_def)
      have "self' = list_of zs (stop - beg - length ys + k)" "r = Inr ()"
        using run i bs d n eq by (simp_all add: list_store_slice_def Let_def k)
      with list_repI [of self' zs "stop - beg - length ys + k"] k(2) spec len_zs False bs show ?thesis by simp
    qed
  qed
qed

lemma list_delete_slice_val:
  assumes rep: "list_rep self xs" and ok: "slice_ok (length xs) index" and run: "list_delete_slice self index = (self', r)"
  shows "r = Inr () \<and> list_rep self' (py_replace xs index []) \<or> r = Inl ListNotImplementedError \<and> self' = self"
proof -
  obtain a b c where b: "py_bounds (length xs) index = (a, b, c)" by (cases "py_bounds (length xs) index")
  obtain bound fast where i: "mp_seq_get_fast_slice_indexes (length xs) index = Inr (bound, fast)"
    using slice_indexes_val [OF ok b] by blast
  obtain k where k: "self = list_of xs k" "2 \<le> length xs + k" using rep by (rule list_repE)
  have len: "list_len self = length xs" by (simp add: k)
  show ?thesis
  proof (cases fast)
    case False
    with run i show ?thesis by (simp add: list_delete_slice_def k)
  next
    case True
    with i have i: "mp_seq_get_fast_slice_indexes (length xs) index = Inr (bound, True)" by simp
    have "nat (int n - int m) = n - m" for n m by simp
    with i run have "list_store_slice mem self index (map Some []) = (self', r)"
      by (auto simp: list_delete_slice_def list_store_slice_def Let_def len nat_diff_distrib)
    from list_store_slice_val [OF rep ok this] i run show ?thesis
      by (auto simp: list_delete_slice_def Let_def len)
  qed
qed

end
