(* ===== verification/PyListRun.thy ===== *)
theory PyListRun
  imports PyListSlice
begin

text \<open>
  The remaining operations of \<open>py/objlist.c\<close>, sorting among them, and runs of list operations: every run on
  a list object is the run on a sequence that the Python language describes, with the same replies.
\<close>

section \<open>Inserting, reversing, searching\<close>

lemma list_shift_up_nth:
  "i < length items \<Longrightarrow>
   length (list_shift_up index i items) = length items \<and>
   (\<forall>m < length items. list_shift_up index i items ! m = (if index < m \<and> m \<le> i then items ! (m - 1) else items ! m))"
proof (induction i arbitrary: items)
  case (Suc i)
  show ?case
  proof (cases "Suc i > index")
    case True
    let ?items = "items[Suc i := items ! i]"
    from Suc have IH: "length (list_shift_up index i ?items) = length items"
      "\<And>m. m < length items \<Longrightarrow> list_shift_up index i ?items ! m = (if index < m \<and> m \<le> i then ?items ! (m - 1) else ?items ! m)"
      by simp_all
    show ?thesis using True IH Suc.prems by (auto simp: nth_list_update le_Suc_eq)
  qed auto
qed simp

definition py_insert :: "int \<Rightarrow> 'o \<Rightarrow> 'o list \<Rightarrow> 'o list" where
  "py_insert i x xs = (let j = nat (py_clamp (length xs) 1 i) in take j xs @ x # drop j xs)"

lemma shift_insert:
  assumes "j \<le> length xs"
  shows "(list_shift_up j (length xs) (map Some (xs @ [y]) @ zs))[j := Some x] = map Some (take j xs @ x # drop j xs) @ zs"
proof (rule nth_equalityI)
  let ?items = "map Some (xs @ [y]) @ zs"
  have s: "length (list_shift_up j (length xs) ?items) = length ?items"
    "\<And>m. m < length ?items \<Longrightarrow> list_shift_up j (length xs) ?items ! m = (if j < m \<and> m \<le> length xs then ?items ! (m - 1) else ?items ! m)"
    using list_shift_up_nth [of "length xs" ?items j] by simp_all
  then show "length ((list_shift_up j (length xs) ?items)[j := Some x]) = length (map Some (take j xs @ x # drop j xs) @ zs)"
    using assms by simp
  fix m
  assume "m < length ((list_shift_up j (length xs) ?items)[j := Some x])"
  then have m: "m < length xs + 1 + length zs" using s(1) by simp
  have "(list_shift_up j (length xs) ?items)[j := Some x] ! m =
      (if m = j then Some x else if j < m \<and> m \<le> length xs then ?items ! (m - 1) else ?items ! m)"
    using s m assms by (simp add: nth_list_update)
  also have "\<dots> = (map Some (take j xs @ x # drop j xs) @ zs) ! m"
  proof -
    consider "m < j" | "m = j" | "j < m" "m \<le> length xs" | "length xs < m" using m by linarith
    then show ?thesis
      using assms m by cases (auto simp: nth_append nth_Cons' not_le not_less)
  qed
  finally show "(list_shift_up j (length xs) ?items)[j := Some x] ! m = (map Some (take j xs @ x # drop j xs) @ zs) ! m" .
qed

lemma list_insert_val:
  assumes "list_rep self xs" and "list_insert mem none self (MP_OBJ_NEW_SMALL_INT (of_int i)) x = (self', r)"
    and small: "- (2 ^ 62) \<le> i" "i < 2 ^ 62"
  shows "r = Inr () \<and> list_rep self' (py_insert i x xs) \<or> r = Inl ListMemoryError \<and> self' = self"
proof -
  have len: "list_len self = length xs" using assms(1) by (auto elim!: list_repE)
  define j where "j = nat (py_clamp (length xs) 1 i)"
  have j: "j \<le> length xs" "j = nat (let index = (if i < 0 then i + int (length xs) else i); index = (if index < 0 then 0 else index)
      in if index > int (length xs) then int (length xs) else index)"
    by (auto simp: j_def py_clamp_def Let_def)
  obtain s e where a: "mp_obj_list_append mem self none = (s, e)" by (cases "mp_obj_list_append mem self none")
  from list_append_val [OF assms(1) a] show ?thesis
  proof (elim disjE conjE)
    assume e: "e = Inr ()" and "list_rep s (xs @ [none])"
    then obtain k where k: "s = list_of (xs @ [none]) k" "2 \<le> length (xs @ [none]) + k" by (auto elim!: list_repE)
    have r: "r = Inr ()" "self' = s\<lparr>list_items := (list_shift_up j (length xs) (list_items s))[j := Some x]\<rparr>"
      using assms(2) k(1) unfolding list_insert_def sint_small_int_obj [OF small] len Let_def a e prod.case sum.case j(2) [unfolded Let_def, symmetric]
      by simp_all
    have "self' = list_of (take j xs @ x # drop j xs) k"
      by (rule list_of_eqI) (use j(1) shift_insert [OF j(1), of none "replicate k None" x] in \<open>simp_all add: r k\<close>)
    from list_repI [OF this] k(2) j(1) r(1) show ?thesis by (simp add: py_insert_def j_def Let_def)
  next
    assume "e = Inl ListMemoryError" "s = self"
    with assms(2) a show ?thesis by (simp add: list_insert_def)
  qed
qed

lemma reverse_loop:
  "m \<le> length items div 2 \<Longrightarrow> n = length items \<Longrightarrow>
   length (fold (\<lambda>i items. swap_items items i (n - i - 1)) [0 ..< m] items) = n \<and>
   (\<forall>p < n. fold (\<lambda>i items. swap_items items i (n - i - 1)) [0 ..< m] items ! p =
     (if p < m \<or> n - m \<le> p then items ! (n - 1 - p) else items ! p))"
proof (induction m)
  case (Suc m)
  let ?f = "fold (\<lambda>i items. swap_items items i (n - i - 1)) [0 ..< m] items"
  from Suc have IH: "length ?f = n" "\<And>p. p < n \<Longrightarrow> ?f ! p = (if p < m \<or> n - m \<le> p then items ! (n - 1 - p) else items ! p)"
    by simp_all
  have m: "m < n" "n - m - 1 < n" "m < n - m - 1 \<or> m = n - m - 1" "m < n - m" using Suc.prems by auto
  have nth: "swap_items ?f m (n - m - 1) ! p =
      (if p = n - m - 1 then ?f ! m else if p = m then ?f ! (n - m - 1) else ?f ! p)" if "p < n" for p
    using that IH(1) m by (simp add: swap_items_def Let_def nth_list_update)
  have "swap_items ?f m (n - m - 1) ! p = (if p < Suc m \<or> n - Suc m \<le> p then items ! (n - 1 - p) else items ! p)" if "p < n" for p
  proof -
    consider "p = n - m - 1" | "p \<noteq> n - m - 1" "p = m" | "p \<noteq> n - m - 1" "p \<noteq> m" by blast
    then show ?thesis
    proof cases
      case 1
      then have "n - 1 - p = m" using m by linarith
      with nth [OF that] IH(2) [of m] m 1 show ?thesis by simp
    next
      case 2
      then have "n - 1 - p = n - m - 1" by simp
      with nth [OF that] IH(2) [of "n - m - 1"] m 2 show ?thesis by auto
    next
      case 3
      then have "(p < Suc m \<or> n - Suc m \<le> p) = (p < m \<or> n - m \<le> p)" by auto
      with nth [OF that] IH(2) [OF that] 3 show ?thesis by simp
    qed
  qed
  with IH(1) show ?case by (simp add: swap_items_def Let_def)
qed simp

lemma list_reverse_val:
  assumes "list_rep self xs"
  shows "list_rep (list_reverse self) (rev xs)"
proof -
  obtain k where k: "self = list_of xs k" "2 \<le> length xs + k" using assms by (rule list_repE)
  have swap: "swap_items (map Some xs' @ replicate k None) i j = map Some (swap_items xs' i j) @ replicate k None"
    if "i < length xs'" "j < length xs'" for i j and xs' :: "'a list"
    using that by (simp add: swap_items_def Let_def list_update_append nth_append map_update)
  have len: "length (fold (\<lambda>i items. swap_items items i (n - i - 1)) is xs') = length xs'" for n "is" and xs' :: "'a list"
    by (induction "is" arbitrary: xs') (simp_all add: swap_items_def Let_def)
  let ?F = "\<lambda>m. fold (\<lambda>i items. swap_items items i (length xs - i - 1)) [0 ..< m]"
  have "?F m (map Some xs @ replicate k None) = map Some (?F m xs) @ replicate k None" if "m \<le> length xs div 2" for m
    using that
  proof (induction m)
    case (Suc m)
    then have "m < length xs" "length xs - m - 1 < length xs" by auto
    with swap [of m "?F m xs" "length xs - m - 1"] have "swap_items (map Some (?F m xs) @ replicate k None) m (length xs - m - 1) =
        map Some (swap_items (?F m xs) m (length xs - m - 1)) @ replicate k None" unfolding len by simp
    with Suc show ?case by simp
  qed simp
  moreover have "?F (length xs div 2) xs = rev xs"
  proof (rule nth_equalityI)
    show "length (?F (length xs div 2) xs) = length (rev xs)" by (simp only: len length_rev)
    fix p
    assume "p < length (?F (length xs div 2) xs)"
    then have p: "p < length xs" by (simp only: len)
    have "?F (length xs div 2) xs ! p = (if p < length xs div 2 \<or> length xs - length xs div 2 \<le> p then xs ! (length xs - 1 - p) else xs ! p)"
      using reverse_loop [of "length xs div 2" xs "length xs"] p by simp
    moreover have "xs ! p = xs ! (length xs - 1 - p)" if "\<not> (p < length xs div 2 \<or> length xs - length xs div 2 \<le> p)"
    proof -
      have "p = length xs - 1 - p" using that by linarith
      then show ?thesis by simp
    qed
    ultimately show "?F (length xs div 2) xs ! p = rev xs ! p" using p by (auto simp: rev_nth)
  qed
  ultimately have "list_reverse self = list_of (rev xs) k"
    by (intro list_of_eqI) (simp_all add: list_reverse_def Let_def k)
  from list_repI [OF this] k(2) show ?thesis by simp
qed

text \<open>The first index in a range whose element equals the value.\<close>

definition py_find :: "('o \<Rightarrow> bool) \<Rightarrow> 'o list \<Rightarrow> nat \<Rightarrow> nat \<Rightarrow> list_error + nat" where
  "py_find p xs a b = (case filter (\<lambda>i. p (xs ! i)) [a ..< b] of [] \<Rightarrow> Inl ListValueError | i # _ \<Rightarrow> Inr i)"

lemma seq_find_val:
  "b \<le> length xs \<Longrightarrow> (case seq_find p xs a b of None \<Rightarrow> Inl ListValueError | Some i \<Rightarrow> Inr i) = py_find p xs a b"
proof (induction p xs a b rule: seq_find.induct)
  case (1 p xs a b)
  show ?case
  proof (cases "a < b")
    case True
    with 1 show ?thesis by (subst seq_find.simps) (auto simp: py_find_def upt_conv_Cons)
  next
    case False
    then show ?thesis by (subst seq_find.simps) (simp add: py_find_def)
  qed
qed

lemma py_find_slots:
  "b \<le> length xs \<Longrightarrow> py_find (\<lambda>x. rel_option eq x (Some v)) (map Some xs @ zs) a b = py_find (\<lambda>x. eq x v) xs a b"
proof -
  assume "b \<le> length xs"
  then have "filter (\<lambda>i. rel_option eq ((map Some xs @ zs) ! i) (Some v)) [a ..< b] = filter (\<lambda>i. eq (xs ! i) v) [a ..< b]"
    by (intro filter_cong) (auto simp: nth_append)
  then show ?thesis by (simp add: py_find_def)
qed

definition py_bound :: "nat \<Rightarrow> nat \<Rightarrow> int option \<Rightarrow> list_error + nat" where
  "py_bound n d i =
     (case i of
        None \<Rightarrow> Inr d
      | Some i \<Rightarrow> if 9223372036854775808 \<le> \<bar>i\<bar> then Inl ListOverflowError else Inr (nat (py_clamp n 1 i)))"

definition py_list_index :: "('o \<Rightarrow> 'o \<Rightarrow> bool) \<Rightarrow> 'o list \<Rightarrow> 'o \<Rightarrow> int option \<Rightarrow> int option \<Rightarrow> list_error + nat" where
  "py_list_index eq xs v a b =
     (case py_bound (length xs) 0 a of
        Inl e \<Rightarrow> Inl e
      | Inr i \<Rightarrow>
          (case py_bound (length xs) (length xs) b of Inl e \<Rightarrow> Inl e | Inr j \<Rightarrow> py_find (\<lambda>x. eq x v) xs i j))"

lemma mp_get_index_slice: "mp_get_index n (Some i) True = py_bound n d (Some i)"
  by (auto simp: mp_get_index_def mp_obj_get_int_def py_bound_def py_clamp_def Let_def)

lemma py_clamp_le: "nat (py_clamp n 1 i) \<le> n"
  by (auto simp: py_clamp_def)

lemma seq_find_slots:
  "b \<le> length xs \<Longrightarrow> (case seq_find (\<lambda>x. rel_option eq x (Some v)) (map Some xs @ zs) a b of
      None \<Rightarrow> Inl ListValueError | Some i \<Rightarrow> Inr i) = py_find (\<lambda>x. eq x v) xs a b"
  using seq_find_val [of b "map Some xs @ zs" "\<lambda>x. rel_option eq x (Some v)" a] py_find_slots [of b xs eq v zs a] by simp

lemma list_index_val:
  assumes "list_rep self xs" and "a = None \<Longrightarrow> b = None"
  shows "list_index eq self v (map_option Some a) (map_option Some b) = py_list_index eq xs v a b"
proof -
  obtain k where k: "self = list_of xs k" using assms(1) by (rule list_repE)
  show ?thesis
    using assms(2) by (cases a; cases b)
      (simp_all add: list_index_def mp_seq_index_obj_def k mp_get_index_slice [of _ _ 0] py_bound_def py_list_index_def
        seq_find_slots py_clamp_le)
qed

lemma list_count_val:
  assumes "list_rep self xs"
  shows "list_count eq self v = length (filter (\<lambda>x. eq x v) xs)"
proof -
  have "fold (\<lambda>x n. if rel_option eq x (Some v) then n + 1 else n) (map Some ys) m = m + length (filter (\<lambda>x. eq x v) ys)"
    for m :: nat and ys
    by (induction ys arbitrary: m) simp_all
  with assms show ?thesis by (auto simp: list_count_def mp_seq_count_obj_def elim!: list_repE)
qed

lemma py_find_less: "py_find p xs a b = Inr i \<Longrightarrow> i < b"
  unfolding py_find_def
proof (cases "filter (\<lambda>i. p (xs ! i)) [a ..< b]")
  case (Cons j js)
  assume "(case filter (\<lambda>i. p (xs ! i)) [a ..< b] of [] \<Rightarrow> Inl ListValueError | i # _ \<Rightarrow> Inr i) = Inr i"
  with Cons have "i \<in> set (filter (\<lambda>i. p (xs ! i)) [a ..< b])" by simp
  then show ?thesis by simp
qed simp

lemma list_remove_val:
  assumes "list_rep self xs" and "mp_obj_list_remove eq mem self v = (self', r)" and n: "length xs < 2 ^ 62"
  shows "case py_list_index eq xs v None None of
      Inl e \<Rightarrow> self' = self \<and> r = Inl e
    | Inr j \<Rightarrow> list_rep self' (py_delete j xs) \<and> (r = Inr () \<or> r = Inl ListMemoryError)"
proof -
  have index: "list_index eq self v None None = py_list_index eq xs v None None"
    using list_index_val [OF assms(1), of None None eq v] by simp
  show ?thesis
  proof (cases "py_list_index eq xs v None None")
    case (Inl e)
    with assms(2) index show ?thesis by (simp add: mp_obj_list_remove_def)
  next
    case (Inr j)
    then have j: "j < length xs" by (auto simp: py_list_index_def py_bound_def dest: py_find_less)
    obtain s e where p: "list_pop mem self (Some (Some (int j))) = (s, e)" by (cases "list_pop mem self (Some (Some (int j)))")
    have "list_rep s (py_delete j xs) \<and> (e = Inr (xs ! j) \<or> e = Inl ListMemoryError)"
      by (rule list_pop_at [OF assms(1) _ j p]) (use j n in \<open>simp add: mp_get_index_val py_index_nat\<close>)
    with assms(2) index Inr p show ?thesis by (auto simp: mp_obj_list_remove_def)
  qed
qed

section \<open>Sorting\<close>

lemma sort_result_slots:
  assumes "same_outside 0 (n - 1) (map Some xs @ replicate k None) items" and n: "n = length xs" "0 < n"
  shows "\<exists>ys. items = map Some ys @ replicate k None \<and> mset ys = mset xs"
proof -
  let ?zs = "map Some xs @ replicate k None"
  have len: "length items = n + k" using assms by (simp add: same_outside_def)
  have behind: "drop n items = replicate k None"
  proof (rule nth_equalityI)
    fix i
    assume "i < length (drop n items)"
    then have i: "i < k" using len by simp
    have out: "\<forall>j < length ?zs. j < 0 \<or> n - 1 < j \<longrightarrow> items ! j = ?zs ! j"
      using assms(1) unfolding same_outside_def by blast
    have "n + i < length ?zs" "n - 1 < n + i" using i n by (simp, linarith)
    with out have "items ! (n + i) = ?zs ! (n + i)" by blast
    then show "drop n items ! i = replicate k None ! i" using i n len by (simp add: nth_append)
  qed (simp add: len)
  have "mset (take n items) + mset (drop n items) = mset ?zs"
    using assms(1) by (metis append_take_drop_id mset_append same_outside_def)
  then have m: "mset (take n items) = image_mset Some (mset xs)" unfolding behind by simp
  define ys where "ys = map the (take n items)"
  have some: "x \<noteq> None" if "x \<in> set (take n items)" for x
  proof -
    have "x \<in># image_mset Some (mset xs)" using that unfolding m [symmetric] by simp
    then show ?thesis by auto
  qed
  have "map Some ys = take n items" unfolding ys_def map_map by (rule map_idI) (use some in auto)
  moreover have "mset ys = mset xs"
  proof -
    have "mset ys = image_mset the (mset (take n items))" by (simp add: ys_def)
    then show ?thesis unfolding m by (simp add: image_mset.compositionality o_def)
  qed
  ultimately show ?thesis using behind by (metis append_take_drop_id)
qed

text \<open>The order of the keys; \<open>R\<close> is the order of the result.\<close>

lemma list_sort_val:
  assumes rep: "list_rep self xs" and room: "length xs < 2 ^ room" "0 < room"
    and order: "sort_order (\<lambda>x. x \<in> Some ` A) R (sort_less lt key reverse)" and xs: "set xs \<subseteq> A"
  shows "\<exists>self' ys. mp_obj_list_sort lt key reverse room self = Some self' \<and> list_rep self' ys \<and> mset ys = mset xs \<and>
    sorted_wrt (\<lambda>x y. R (Some x) (Some y)) ys"
proof -
  obtain k where k: "self = list_of xs k" "2 \<le> length xs + k" using rep by (rule list_repE)
  show ?thesis
  proof (cases "length xs > 1")
    case False
    then have "sorted_wrt (\<lambda>x y. R (Some x) (Some y)) xs" by (cases xs) auto
    with False rep k show ?thesis by (auto simp: mp_obj_list_sort_def)
  next
    case True
    let ?items = "map Some xs @ replicate k None" and ?n = "length xs"
    have "sort_order.qsort_pre (\<lambda>x. x \<in> Some ` A) ?items 0 (?n - 1)"
      unfolding sort_order.qsort_pre_def [OF order] using True subsetD [OF xs nth_mem] by (auto simp: nth_append)
    then have "sort_order.qsort_done R 0 (?n - 1) ?items (mp_quicksort (sort_less lt key reverse) room ?items 0 (?n - 1))"
      by (rule sort_order.mp_quicksort_val [OF order]) (use room True in simp_all)
    then obtain items where items: "mp_quicksort (sort_less lt key reverse) room ?items 0 (?n - 1) = Some items"
      and same: "same_outside 0 (?n - 1) ?items items" and sorted: "sort_order.sorted_between R 0 (?n - 1) items"
      unfolding sort_order.qsort_done_def [OF order] by (auto split: option.splits)
    from True have "0 < ?n" by linarith
    from sort_result_slots [OF same refl this]
    obtain ys where ys: "items = map Some ys @ replicate k None" "mset ys = mset xs" by blast
    have len: "length ys = ?n" using ys(2) by (rule mset_eq_length)
    have "sorted_wrt (\<lambda>x y. R (Some x) (Some y)) ys"
      unfolding sorted_wrt_iff_nth_less
    proof (intro allI impI)
      fix i j
      assume ij: "i < j" "j < length ys"
      then have "R (items ! i) (items ! j)"
        using sorted len unfolding sort_order.sorted_between_def [OF order] by simp
      then show "R (Some (ys ! i)) (Some (ys ! j))" using ij by (simp add: ys(1) nth_append)
    qed
    moreover have "self\<lparr>list_items := items\<rparr> = list_of ys k"
      by (rule list_of_eqI) (simp_all add: k(1) ys(1) len)
    then have "list_rep (self\<lparr>list_items := items\<rparr>) ys" by (rule list_repI) (use k(2) len in simp)
    ultimately show ?thesis using True items ys(2) k(1) by (auto simp: mp_obj_list_sort_def)
  qed
qed

section \<open>Calls and what they return\<close>

text \<open>The calls on one list object; the operands of the slices are those of \<open>slice_ok\<close>.\<close>

type_synonym slice_args = "int option \<times> int option \<times> int option"

datatype 'o list_call =
    ListAppend 'o
  | ListExtend "'o mp_obj_list"
  | ListPop "int option"
  | ListStore int 'o
  | ListLoad int
  | ListDelete int
  | ListInsert int 'o
  | ListRemove 'o
  | ListReverse
  | ListClear
  | ListIndex 'o "int option" "int option"
  | ListCount 'o
  | ListLoadSlice slice_args
  | ListStoreSlice slice_args "'o list"
  | ListDeleteSlice slice_args

datatype 'o list_reply = ListDone | ListValue 'o | ListNumber nat | ListNew "'o mp_obj_list" | ListRaised list_error

fun list_reply_of :: "('a \<Rightarrow> 'o list_reply) \<Rightarrow> list_error + 'a \<Rightarrow> 'o list_reply" where
  "list_reply_of g (Inl e) = ListRaised e"
| "list_reply_of g (Inr v) = g v"

abbreviation done_reply :: "list_error + unit \<Rightarrow> 'o list_reply" where
  "done_reply \<equiv> list_reply_of (\<lambda>_. ListDone)"

fun list_exec ::
  "'o \<Rightarrow> ('o \<Rightarrow> 'o \<Rightarrow> bool) \<Rightarrow> 'o list_mem \<Rightarrow> 'o mp_obj_list \<Rightarrow> 'o list_call \<Rightarrow> 'o mp_obj_list \<times> 'o list_reply" where
  "list_exec none eq mem self (ListAppend x) = map_prod id done_reply (mp_obj_list_append mem self x)"
| "list_exec none eq mem self (ListExtend arg) = map_prod id done_reply (list_extend mem self arg)"
| "list_exec none eq mem self (ListPop i) = map_prod id (list_reply_of ListValue) (list_pop mem self (map_option Some i))"
| "list_exec none eq mem self (ListStore i x) = map_prod id done_reply (mp_obj_list_store self (Some i) x)"
| "list_exec none eq mem self (ListLoad i) = (self, list_reply_of ListValue (list_load self (Some i)))"
| "list_exec none eq mem self (ListDelete i) = map_prod id done_reply (list_delete mem self (Some i))"
| "list_exec none eq mem self (ListInsert i x) = map_prod id done_reply (list_insert mem none self (MP_OBJ_NEW_SMALL_INT (of_int i)) x)"
| "list_exec none eq mem self (ListRemove x) = map_prod id done_reply (mp_obj_list_remove eq mem self x)"
| "list_exec none eq mem self ListReverse = (list_reverse self, ListDone)"
| "list_exec none eq mem self ListClear = map_prod id done_reply (list_clear mem self)"
| "list_exec none eq mem self (ListIndex x a b) =
     (self, list_reply_of ListNumber (list_index eq self x (map_option Some a) (map_option Some b)))"
| "list_exec none eq mem self (ListCount x) = (self, ListNumber (list_count eq self x))"
| "list_exec none eq mem self (ListLoadSlice i) = (self, list_reply_of ListNew (list_load_slice mem self i))"
| "list_exec none eq mem self (ListStoreSlice i ys) = map_prod id done_reply (list_store_slice mem self i (map Some ys))"
| "list_exec none eq mem self (ListDeleteSlice i) = map_prod id done_reply (list_delete_slice self i)"

text \<open>
  The operands that the steps below are for: the list has fewer than \<open>2 ^ 62\<close> elements, another list is a
  list object, the bounds of \<open>index\<close> are given in order, the index of \<open>insert\<close> is a small integer, and so are
  the numbers of a slice, whose step is not 0. The indices of the other calls are any integers.
\<close>

fun list_args_ok :: "nat \<Rightarrow> 'o list_call \<Rightarrow> bool" where
  "list_args_ok n (ListExtend arg) \<longleftrightarrow> (\<exists>ys. list_rep arg ys)"
| "list_args_ok n (ListInsert i x) \<longleftrightarrow> - (2 ^ 62) \<le> i \<and> i < 2 ^ 62"
| "list_args_ok n (ListIndex x a b) \<longleftrightarrow> (a = None \<longrightarrow> b = None)"
| "list_args_ok n (ListLoadSlice i) \<longleftrightarrow> slice_ok n i"
| "list_args_ok n (ListStoreSlice i ys) \<longleftrightarrow> slice_ok n i"
| "list_args_ok n (ListDeleteSlice i) \<longleftrightarrow> slice_ok n i"
| "list_args_ok n c \<longleftrightarrow> True"

definition list_call_ok :: "nat \<Rightarrow> 'o list_call \<Rightarrow> bool" where
  "list_call_ok n c \<longleftrightarrow> int n < 2 ^ 62 \<and> list_args_ok n c"

text \<open>The element that \<open>pop\<close> takes, by default the last one; an empty list has none, whatever the index.\<close>

definition py_pop_index :: "'o list \<Rightarrow> int option \<Rightarrow> list_error + nat" where
  "py_pop_index xs i =
     (if xs = [] then Inl ListIndexError else py_index (length xs) (case i of None \<Rightarrow> - 1 | Some a \<Rightarrow> a))"

abbreviation slice_step_one :: "slice_args \<Rightarrow> bool" where
  "slice_step_one i \<equiv> snd (snd i) = None \<or> snd (snd i) = Some 1"

text \<open>
  The same calls on a sequence. A call that has to make room may raise \<open>MemoryError\<close> and change nothing; a
  removal has happened when the smaller array cannot be had.
\<close>

inductive py_list_step :: "('o \<Rightarrow> 'o \<Rightarrow> bool) \<Rightarrow> 'o list \<Rightarrow> 'o list_call \<Rightarrow> 'o list_reply \<Rightarrow> 'o list \<Rightarrow> bool" for eq where
  append: "py_list_step eq xs (ListAppend x) ListDone (xs @ [x])"
| extend: "list_rep arg ys \<Longrightarrow> py_list_step eq xs (ListExtend arg) ListDone (xs @ ys)"
| insert: "py_list_step eq xs (ListInsert i x) ListDone (py_insert i x xs)"
| pop: "py_pop_index xs i = Inr j \<Longrightarrow> py_list_step eq xs (ListPop i) (ListValue (xs ! j)) (py_delete j xs)"
| pop_missing: "py_pop_index xs i = Inl e \<Longrightarrow> py_list_step eq xs (ListPop i) (ListRaised e) xs"
| pop_memory: "py_pop_index xs i = Inr j \<Longrightarrow> py_list_step eq xs (ListPop i) (ListRaised ListMemoryError) (py_delete j xs)"
| store: "py_index (length xs) i = Inr j \<Longrightarrow> py_list_step eq xs (ListStore i x) ListDone (xs[j := x])"
| store_missing: "py_index (length xs) i = Inl e \<Longrightarrow> py_list_step eq xs (ListStore i x) (ListRaised e) xs"
| load: "py_index (length xs) i = Inr j \<Longrightarrow> py_list_step eq xs (ListLoad i) (ListValue (xs ! j)) xs"
| load_missing: "py_index (length xs) i = Inl e \<Longrightarrow> py_list_step eq xs (ListLoad i) (ListRaised e) xs"
| delete: "py_pop_index xs (Some i) = Inr j \<Longrightarrow> r = ListDone \<or> r = ListRaised ListMemoryError \<Longrightarrow>
    py_list_step eq xs (ListDelete i) r (py_delete j xs)"
| delete_missing: "py_pop_index xs (Some i) = Inl e \<Longrightarrow> py_list_step eq xs (ListDelete i) (ListRaised e) xs"
| remove: "py_list_index eq xs x None None = Inr j \<Longrightarrow> r = ListDone \<or> r = ListRaised ListMemoryError \<Longrightarrow>
    py_list_step eq xs (ListRemove x) r (py_delete j xs)"
| remove_missing: "py_list_index eq xs x None None = Inl e \<Longrightarrow> py_list_step eq xs (ListRemove x) (ListRaised e) xs"
| reverse: "py_list_step eq xs ListReverse ListDone (rev xs)"
| clear: "py_list_step eq xs ListClear ListDone []"
| index: "py_list_step eq xs (ListIndex x a b) (list_reply_of ListNumber (py_list_index eq xs x a b)) xs"
| count: "py_list_step eq xs (ListCount x) (ListNumber (length (filter (\<lambda>y. eq y x) xs))) xs"
| load_slice: "list_rep s (py_slice xs i) \<Longrightarrow> py_list_step eq xs (ListLoadSlice i) (ListNew s) xs"
| store_slice: "slice_step_one i \<Longrightarrow> py_list_step eq xs (ListStoreSlice i ys) ListDone (py_replace xs i ys)"
| store_slice_step: "\<not> slice_step_one i \<Longrightarrow>
    py_list_step eq xs (ListStoreSlice i ys) (ListRaised ListNotImplementedError) xs"
| delete_slice: "slice_step_one i \<Longrightarrow> py_list_step eq xs (ListDeleteSlice i) ListDone (py_replace xs i [])"
| delete_slice_step: "\<not> slice_step_one i \<Longrightarrow>
    py_list_step eq xs (ListDeleteSlice i) (ListRaised ListNotImplementedError) xs"
| append_memory: "py_list_step eq xs (ListAppend x) (ListRaised ListMemoryError) xs"
| extend_memory: "py_list_step eq xs (ListExtend arg) (ListRaised ListMemoryError) xs"
| insert_memory: "py_list_step eq xs (ListInsert i x) (ListRaised ListMemoryError) xs"
| load_slice_memory: "py_list_step eq xs (ListLoadSlice i) (ListRaised ListMemoryError) xs"
| store_slice_memory: "slice_step_one i \<Longrightarrow> py_list_step eq xs (ListStoreSlice i ys) (ListRaised ListMemoryError) xs"

text \<open>The list object after the call stands for the sequence after the step.\<close>

definition py_list_sim :: "('o \<Rightarrow> 'o \<Rightarrow> bool) \<Rightarrow> 'o list \<Rightarrow> 'o list_call \<Rightarrow> 'o list_reply \<Rightarrow> 'o mp_obj_list \<Rightarrow> bool" where
  "py_list_sim eq xs c r self \<longleftrightarrow> (\<exists>ys. list_rep self ys \<and> py_list_step eq xs c r ys)"

lemma py_list_simI: "list_rep self ys \<Longrightarrow> py_list_step eq xs c r ys \<Longrightarrow> py_list_sim eq xs c r self"
  by (auto simp: py_list_sim_def)

lemmas py_list_sims = py_list_simI py_list_step.intros

lemma slice_fast_step:
  assumes "slice_ok n i" "mp_seq_get_fast_slice_indexes n i = Inr (bound, fast)"
  shows "fast = slice_step_one i"
proof -
  obtain a b c where b: "py_bounds n i = (a, b, c)" by (cases "py_bounds n i")
  then have "(c = 1) = slice_step_one i"
    by (cases i) (auto simp: py_bounds_def Let_def split: option.splits)
  with slice_indexes_val [OF assms(1) b] assms(2) show ?thesis by auto
qed

lemma slice_indexes_run:
  assumes "slice_ok n i"
  obtains bound where "mp_seq_get_fast_slice_indexes n i = Inr (bound, slice_step_one i)"
proof -
  obtain a b c where b: "py_bounds n i = (a, b, c)" by (cases "py_bounds n i")
  with slice_indexes_val [OF assms b] obtain bound fast where "mp_seq_get_fast_slice_indexes n i = Inr (bound, fast)" by blast
  with slice_fast_step [OF assms this] that show thesis by blast
qed

lemma store_slice_reply:
  assumes "slice_ok (list_len self) i" and "list_store_slice mem self i ys = (self', r)"
  shows "if slice_step_one i then r \<noteq> Inl ListNotImplementedError else self' = self \<and> r = Inl ListNotImplementedError"
proof -
  obtain bound where "mp_seq_get_fast_slice_indexes (list_len self) i = Inr (bound, slice_step_one i)"
    using slice_indexes_run [OF assms(1)] .
  with assms(2) show ?thesis
    by (auto simp: list_store_slice_def Let_def split: if_splits option.splits)
qed

lemma delete_slice_reply:
  assumes "slice_ok (list_len self) i" and "list_delete_slice self i = (self', r)"
  shows "if slice_step_one i then r \<noteq> Inl ListNotImplementedError else self' = self \<and> r = Inl ListNotImplementedError"
proof -
  obtain bound where "mp_seq_get_fast_slice_indexes (list_len self) i = Inr (bound, slice_step_one i)"
    using slice_indexes_run [OF assms(1)] .
  with assms(2) show ?thesis
    by (auto simp: list_delete_slice_def Let_def split: if_splits)
qed

lemma list_pop_val:
  assumes rep: "list_rep self xs" and run: "list_pop mem self (map_option Some i) = (self', r)"
  shows "case py_pop_index xs i of
      Inl e \<Rightarrow> self' = self \<and> r = Inl e
    | Inr j \<Rightarrow> list_rep self' (py_delete j xs) \<and> (r = Inr (xs ! j) \<or> r = Inl ListMemoryError)"
proof (cases "xs = []")
  case True
  with list_pop_error(1) [OF rep, of mem "map_option Some i"] run show ?thesis by (simp add: py_pop_index_def)
next
  case False
  let ?a = "case i of None \<Rightarrow> - 1 | Some a \<Rightarrow> a" and ?arg = "map_option Some i"
  have arg: "(case ?arg of None \<Rightarrow> Some (- 1) | Some i \<Rightarrow> i) = Some ?a" by (cases i) simp_all
  show ?thesis
  proof (cases "py_index (length xs) ?a")
    case (Inl e)
    then have "mp_get_index (length xs) (Some ?a) False = Inl e" by (simp add: mp_get_index_val)
    with list_pop_error(2) [OF rep, of ?arg e mem] run Inl arg False show ?thesis by (simp add: py_pop_index_def)
  next
    case (Inr j)
    then have "mp_get_index (length xs) (Some ?a) False = Inr j" by (simp add: mp_get_index_val)
    with list_pop_at [OF rep _ py_index_lt [OF Inr] run] Inr arg False show ?thesis by (simp add: py_pop_index_def)
  qed
qed

lemma list_delete_val:
  assumes rep: "list_rep self xs" and run: "list_delete mem self (Some i) = (self', r)"
  shows "case py_pop_index xs (Some i) of
      Inl e \<Rightarrow> self' = self \<and> r = Inl e
    | Inr j \<Rightarrow> list_rep self' (py_delete j xs) \<and> (r = Inr () \<or> r = Inl ListMemoryError)"
proof -
  obtain s e where p: "list_pop mem self (map_option Some (Some i)) = (s, e)" by (cases "list_pop mem self (map_option Some (Some i))")
  from list_pop_val [OF rep p] p run show ?thesis by (auto simp: list_delete_def split: sum.splits)
qed

lemma list_exec_step:
  assumes rep: "list_rep self xs" and call: "list_call_ok (length xs) c" and mem: "mem_room mem LIST_MIN_ALLOC"
    and run: "list_exec none eq mem self c = (self', r)"
  shows "py_list_sim eq xs c r self'"
proof -
  have len: "list_len self = length xs" using rep by (auto elim!: list_repE)
  have n: "length xs < 2 ^ 62" and ok: "list_args_ok (length xs) c" using call by (simp_all add: list_call_ok_def)
  show ?thesis
  proof (cases c)
    case (ListAppend x)
    obtain s e where e: "mp_obj_list_append mem self x = (s, e)" by (cases "mp_obj_list_append mem self x")
    from list_append_val [OF rep e] rep e run ListAppend show ?thesis by (fastforce intro: py_list_sims)
  next
    case (ListExtend arg)
    with ok obtain ys where ys: "list_rep arg ys" by auto
    obtain s e where e: "list_extend mem self arg = (s, e)" by (cases "list_extend mem self arg")
    from list_extend_val [OF rep ys e] rep ys e run ListExtend show ?thesis by (fastforce intro: py_list_sims)
  next
    case (ListPop i)
    obtain s e where e: "list_pop mem self (map_option Some i) = (s, e)" by (cases "list_pop mem self (map_option Some i)")
    from list_pop_val [OF rep e] rep e run ListPop show ?thesis
      by (fastforce intro: py_list_sims split: sum.split_asm)
  next
    case (ListStore i x)
    from list_store_val [OF rep, where i = i and v = x] rep run ListStore show ?thesis
      by (fastforce intro: py_list_sims split: sum.split_asm)
  next
    case (ListLoad i)
    from list_load_val [OF rep, of i] rep run ListLoad show ?thesis
      by (fastforce intro: py_list_sims split: sum.split_asm)
  next
    case (ListDelete i)
    obtain s e where e: "list_delete mem self (Some i) = (s, e)" by (cases "list_delete mem self (Some i)")
    from list_delete_val [OF rep e] rep e run ListDelete show ?thesis
      by (fastforce intro: py_list_sims split: sum.split_asm)
  next
    case (ListInsert i x)
    obtain s e where e: "list_insert mem none self (MP_OBJ_NEW_SMALL_INT (of_int i)) x = (s, e)"
      by (cases "list_insert mem none self (MP_OBJ_NEW_SMALL_INT (of_int i)) x")
    from list_insert_val [OF rep e] ok rep e run ListInsert show ?thesis by (fastforce intro: py_list_sims)
  next
    case (ListRemove x)
    obtain s e where e: "mp_obj_list_remove eq mem self x = (s, e)" by (cases "mp_obj_list_remove eq mem self x")
    from list_remove_val [OF rep e n] rep e run ListRemove show ?thesis
      by (fastforce intro: py_list_sims split: sum.split_asm)
  next
    case ListReverse
    with list_reverse_val [OF rep] run show ?thesis by (fastforce intro: py_list_sims)
  next
    case ListClear
    obtain s e where e: "list_clear mem self = (s, e)" by (cases "list_clear mem self")
    with mem have "e = Inr ()" by (auto simp: list_clear_def m_renew_items_def Let_def)
    with list_clear_val [OF e rep] e run ListClear show ?thesis by (fastforce intro: py_list_sims)
  next
    case (ListIndex x a b)
    with ok have "a = None \<Longrightarrow> b = None" by simp
    from list_index_val [OF rep this, where eq = eq and v = x] rep run ListIndex show ?thesis by (fastforce intro: py_list_sims)
  next
    case (ListCount x)
    with list_count_val [OF rep, where eq = eq and v = x] rep run show ?thesis by (fastforce intro: py_list_sims)
  next
    case (ListLoadSlice i)
    with ok have "slice_ok (length xs) i" by simp
    from list_load_slice_val [OF rep this refl, of mem] rep run ListLoadSlice show ?thesis
      by (fastforce intro: py_list_sims)
  next
    case (ListStoreSlice i ys)
    with ok have i: "slice_ok (length xs) i" by simp
    obtain s e where e: "list_store_slice mem self i (map Some ys) = (s, e)" by (cases "list_store_slice mem self i (map Some ys)")
    from store_slice_reply [OF _ e] len i
    have "if slice_step_one i then e \<noteq> Inl ListNotImplementedError else s = self \<and> e = Inl ListNotImplementedError" by simp
    with list_store_slice_val [OF rep i e] rep e run ListStoreSlice show ?thesis
      by (fastforce intro: py_list_sims split: if_split_asm)
  next
    case (ListDeleteSlice i)
    with ok have i: "slice_ok (length xs) i" by simp
    obtain s e where e: "list_delete_slice self i = (s, e)" by (cases "list_delete_slice self i")
    from delete_slice_reply [OF _ e] len i
    have "if slice_step_one i then e \<noteq> Inl ListNotImplementedError else s = self \<and> e = Inl ListNotImplementedError" by simp
    with list_delete_slice_val [OF rep i e] rep e run ListDeleteSlice show ?thesis
      by (fastforce intro: py_list_sims split: if_split_asm)
  qed
qed

section \<open>Runs\<close>

fun list_run ::
  "'o \<Rightarrow> ('o \<Rightarrow> 'o \<Rightarrow> bool) \<Rightarrow> 'o list_mem \<Rightarrow> 'o mp_obj_list \<Rightarrow> 'o list_call list \<Rightarrow> 'o mp_obj_list \<times> 'o list_reply list" where
  "list_run none eq mem self [] = (self, [])"
| "list_run none eq mem self (c # cs) =
     (let (self, r) = list_exec none eq mem self c; (self, rs) = list_run none eq mem self cs in (self, r # rs))"

inductive py_list_run :: "('o \<Rightarrow> 'o \<Rightarrow> bool) \<Rightarrow> 'o list \<Rightarrow> 'o list_call list \<Rightarrow> 'o list_reply list \<Rightarrow> 'o list \<Rightarrow> bool" for eq where
  stop: "py_list_run eq xs [] [] xs"
| step: "py_list_step eq xs c r ys \<Longrightarrow> py_list_run eq ys cs rs zs \<Longrightarrow> py_list_run eq xs (c # cs) (r # rs) zs"

text \<open>The operands are checked at each call against the list that the calls before it leave.\<close>

fun list_calls_ok ::
  "'o \<Rightarrow> ('o \<Rightarrow> 'o \<Rightarrow> bool) \<Rightarrow> 'o list_mem \<Rightarrow> 'o mp_obj_list \<Rightarrow> 'o list_call list \<Rightarrow> bool" where
  "list_calls_ok none eq mem self [] \<longleftrightarrow> True"
| "list_calls_ok none eq mem self (c # cs) \<longleftrightarrow>
     list_call_ok (list_len self) c \<and> list_calls_ok none eq mem (fst (list_exec none eq mem self c)) cs"

lemma list_run_val:
  "list_rep self xs \<Longrightarrow> mem_room mem LIST_MIN_ALLOC \<Longrightarrow> list_calls_ok none eq mem self cs \<Longrightarrow>
   list_run none eq mem self cs = (self', rs) \<Longrightarrow> \<exists>ys. list_rep self' ys \<and> py_list_run eq xs cs rs ys"
proof (induction cs arbitrary: self xs rs)
  case Nil
  then show ?case by (auto intro: py_list_run.stop)
next
  case (Cons c cs)
  obtain s r where s: "list_exec none eq mem self c = (s, r)" by (cases "list_exec none eq mem self c")
  obtain s2 rs' where s': "list_run none eq mem s cs = (s2, rs')" by (cases "list_run none eq mem s cs")
  have s2: "s2 = self'" "rs = r # rs'" using Cons.prems(4) s s' by simp_all
  have len: "list_len self = length xs" using Cons.prems(1) by (auto elim!: list_repE)
  obtain ys where ys: "list_rep s ys" "py_list_step eq xs c r ys"
    using list_exec_step [OF Cons.prems(1) _ Cons.prems(2) s] Cons.prems(3) len by (auto simp: py_list_sim_def)
  have "list_calls_ok none eq mem s cs" using Cons.prems(3) s by simp
  from Cons.IH [OF ys(1) Cons.prems(2) this s' [unfolded s2]]
  obtain zs where "list_rep self' zs" "py_list_run eq ys cs rs' zs" by auto
  with ys(2) s2 show ?case by (auto intro: py_list_run.step)
qed

section \<open>Properties\<close>

text \<open>
  C29: on a new list every run of calls (append, extend, pop, store, load, delete, insert, remove, reverse,
  clear, index, count and the three uses of slices) makes the replies of \<open>py_list_step\<close>, and the list object
  stands for the sequence that this run ends with: the elements in its first slots, all others empty. The
  steps are those of a Python list, with the errors of this implementation: an index that is no machine integer
  raises \<open>OverflowError\<close>, storing or deleting a slice with a step raises \<open>NotImplementedError\<close>, and where memory
  runs out an addition leaves the list as it was, a removal has happened. The calls are those of \<open>list_call_ok\<close>:
  fewer than \<open>2 ^ 62\<close> elements, the numbers of slices are small integers with a step that is not 0, the index of
  \<open>insert\<close> is a small integer (of a long one the code takes the address), \<open>index\<close> has a stop only with a start;
  and there is always memory for the four slots of an emptied list.
\<close>

theorem list_runs_python:
  assumes "mp_obj_new_list mem (map Some xs) = Some self" and "mem_room mem LIST_MIN_ALLOC"
    and "list_calls_ok none eq mem self cs" and "list_run none eq mem self cs = (self', rs)"
  shows "\<exists>ys. list_rep self' ys \<and> py_list_run eq xs cs rs ys"
  by (rule list_run_val [OF mp_obj_new_list_val [OF assms(1)] assms(2-4)])

definition eight_slots :: "int list_mem" where
  "eight_slots = \<lparr> mem_room = (\<lambda>n. n \<le> 8), mem_junk = Some 99 \<rparr>"

lemma list_runs_python_witness:
  "\<exists>ys. list_rep \<lparr> list_alloc = 4, list_len = 2, list_items = [Some 7, Some 2, None, None] \<rparr> ys \<and>
     py_list_run (=) [1, 2, 3] [ListAppend 4, ListInsert (- 9) 7, ListPop None, ListDelete (- 1), ListRemove 1, ListPop (Some 5),
         ListLoad 9223372036854775808]
       [ListDone, ListDone, ListValue 4, ListDone, ListDone, ListRaised ListIndexError,
        ListRaised ListOverflowError] (ys :: int list)"
  by (rule list_runs_python [where mem = eight_slots and none = 0 and
        self = "\<lparr> list_alloc = 4, list_len = 3, list_items = [Some 1, Some 2, Some 3, None] \<rparr>"])
    (code_simp, code_simp, simp only: list_calls_ok.simps list_call_ok_def list_args_ok.simps simp_thms, code_simp, code_simp)

lemma list_room_append:
  assumes "\<And>n. mem_room mem n"
  shows "\<exists>l. mp_obj_list_append mem self x = (l, Inr ())"
  using assms by (simp add: mp_obj_list_append_def m_renew_items_def Let_def)

lemma list_room_extend:
  assumes room: "\<And>n. mem_room mem n"
  shows "\<exists>l. list_extend_from_iter mem self ys = (l, Inr ())"
proof (induction ys arbitrary: self)
  case (Cons y ys)
  obtain l where "mp_obj_list_append mem self y = (l, Inr ())" using list_room_append [OF room] by blast
  with Cons show ?case by simp
qed simp

lemma list_room_new: "(\<And>n. mem_room mem n) \<Longrightarrow> \<exists>l. list_new mem n = Some l"
  by (simp add: list_new_def m_renew_items_def Let_def)

text \<open>
  C30: the slice \<open>self[a:b:c]\<close>, for any three numbers that a small integer holds or \<open>None\<close> and a step
  other than 0, is the slice of Python: the elements at \<open>range(*slice(a, b, c).indices(len(self)))\<close>.
\<close>

theorem list_slice_python:
  assumes "list_rep self xs" and "slice_ok (length xs) index" and "\<And>n. mem_room mem n"
  shows "\<exists>s. list_load_slice mem self index = Inr s \<and> list_rep s (py_slice xs index)"
proof -
  have new: "\<exists>l. mp_obj_new_list mem [] = Some l"
    using list_room_new [OF assms(3)] by (auto simp: mp_obj_new_list_def)
  have "list_len self = length xs" using assms(1) by (auto elim!: list_repE)
  then obtain bound where bound: "mp_seq_get_fast_slice_indexes (list_len self) index = Inr (bound, slice_step_one index)"
    using slice_indexes_run [OF assms(2)] by metis
  have "list_load_slice mem self index \<noteq> Inl ListMemoryError"
  proof (cases "slice_step_one index")
    case True
    obtain l where "list_new mem (nat (slice_stop bound - slice_start bound)) = Some l" using list_room_new [OF assms(3)] by blast
    then show ?thesis unfolding list_load_slice_def bound sum.case prod.case using True by (simp add: Let_def)
  next
    case False
    obtain l where l: "mp_obj_new_list mem [] = Some l" using new by blast
    have "mp_seq_extract_slice mem (list_items self) bound \<noteq> Inl ListMemoryError"
    proof (cases "seq_slice_loop (list_items self) (slice_start bound) (slice_stop bound) (slice_step bound)")
      case (Some items)
      obtain l' where "list_extend_from_iter mem l (map the items) = (l', Inr ())" using list_room_extend [OF assms(3)] by blast
      with l Some show ?thesis by (simp add: mp_seq_extract_slice_def)
    qed (simp add: mp_seq_extract_slice_def l)
    then show ?thesis unfolding list_load_slice_def bound sum.case prod.case using False by simp
  qed
  with list_load_slice_val [OF assms(1,2) refl, of mem] show ?thesis by blast
qed

lemma list_slice_python_witness:
  "\<exists>s. list_load_slice \<lparr> mem_room = (\<lambda>n. True), mem_junk = None \<rparr> (list_of [10, 11, 12, 13 :: int] 2) (Some (- 1), None, Some (- 2)) = Inr s \<and>
    list_rep s [13, 11]"
proof -
  have "py_slice [10, 11, 12, 13 :: int] (Some (- 1), None, Some (- 2)) = [13, 11]"
    by (simp add: py_slice_def py_bounds_def py_clamp_def py_range.simps)
  moreover have "list_rep (list_of [10, 11, 12, 13 :: int] 2) [10, 11, 12, 13]" by (rule list_repI [OF refl]) simp
  from list_slice_python [OF this, of "(Some (- 1), None, Some (- 2))" "\<lparr> mem_room = (\<lambda>n. True), mem_junk = None \<rparr>"]
  have "\<exists>s. list_load_slice \<lparr> mem_room = (\<lambda>n. True), mem_junk = None \<rparr> (list_of [10, 11, 12, 13 :: int] 2) (Some (- 1), None, Some (- 2)) = Inr s \<and>
      list_rep s (py_slice [10, 11, 12, 13] (Some (- 1), None, Some (- 2)))"
    by (simp add: slice_ok_def slice_arg_ok_def)
  ultimately show ?thesis by simp
qed

end
