(* ===== verification/PySort.thy ===== *)
theory PySort
  imports PyListRun IntOps "HOL-Library.List_Lexorder"
begin

text \<open>
  The comparisons that \<open>list.sort\<close> uses: \<open>mp_binary_op\<close> on integer objects, and \<open>mp_seq_cmp_bytes\<close>
  (\<open>py/sequence.c\<close>) for strings and bytes. Both are orders, so that the sort of \<open>py/objlist.c\<close> sorts.
\<close>

section \<open>Comparison of byte sequences\<close>

text \<open>The sign of \<open>memcmp\<close> on as many bytes as both have.\<close>

fun memcmp_sign :: "8 word list \<Rightarrow> 8 word list \<Rightarrow> int" where
  "memcmp_sign (a # as) (b # bs) = (if a < b then - 1 else if b < a then 1 else memcmp_sign as bs)"
| "memcmp_sign as bs = 0"

datatype seq_cmp_op = SeqEqual | SeqLess | SeqMore | SeqLessEqual | SeqMoreEqual

definition mp_seq_cmp_bytes :: "seq_cmp_op \<Rightarrow> 8 word list \<Rightarrow> 8 word list \<Rightarrow> bool" where
  "mp_seq_cmp_bytes op data1 data2 =
     (if op = SeqEqual \<and> length data1 \<noteq> length data2 then False
      else
        let (data1, data2, op) =
              (if op = SeqLess then (data2, data1, SeqMore)
               else if op = SeqLessEqual then (data2, data1, SeqMoreEqual)
               else (data1, data2, op));
            res = memcmp_sign data1 data2
        in if op = SeqEqual then res = 0
           else if res < 0 then False
           else if res > 0 then True
           else if length data1 \<noteq> length data2 then \<not> length data1 < length data2
           else op \<noteq> SeqMore)"

lemma memcmp_sign_cases:
  "memcmp_sign as bs < 0 \<and> as < bs \<or> memcmp_sign as bs > 0 \<and> bs < as \<or>
   memcmp_sign as bs = 0 \<and> take (length bs) as = take (length as) bs"
  by (induction as bs rule: memcmp_sign.induct) auto

lemma prefix_less:
  fixes as :: "'v :: linorder list"
  shows "take (length bs) as = take (length as) bs \<Longrightarrow> (as < bs) = (length as < length bs)"
  by (induction as arbitrary: bs; case_tac bs) auto

text \<open>The operators on lists in lexicographic order.\<close>

definition lex_cmp :: "seq_cmp_op \<Rightarrow> 'v :: linorder list \<Rightarrow> 'v list \<Rightarrow> bool" where
  "lex_cmp op as bs =
     (case op of SeqEqual \<Rightarrow> as = bs | SeqLess \<Rightarrow> as < bs | SeqMore \<Rightarrow> bs < as
      | SeqLessEqual \<Rightarrow> as \<le> bs | SeqMoreEqual \<Rightarrow> bs \<le> as)"

lemma mp_seq_cmp_bytes_more:
  "mp_seq_cmp_bytes SeqMore as bs = (bs < as)" "mp_seq_cmp_bytes SeqMoreEqual as bs = (bs \<le> as)"
proof -
  have less: "mp_seq_cmp_bytes op as bs = (bs < as \<or> op = SeqMoreEqual \<and> as = bs)" if "op \<in> {SeqMore, SeqMoreEqual}" for op
    using memcmp_sign_cases [of as bs]
  proof (elim disjE conjE)
    assume "memcmp_sign as bs = 0" and p: "take (length bs) as = take (length as) bs"
    moreover have "as = bs" if "length as = length bs" using p that by simp
    ultimately show ?thesis
      using that prefix_less [OF p [symmetric]] by (auto simp: mp_seq_cmp_bytes_def)
  qed (use that in \<open>auto simp: mp_seq_cmp_bytes_def dest: less_asym\<close>)
  from less [of SeqMore] less [of SeqMoreEqual]
  show "mp_seq_cmp_bytes SeqMore as bs = (bs < as)" "mp_seq_cmp_bytes SeqMoreEqual as bs = (bs \<le> as)"
    by (auto simp: le_less)
qed

lemma mp_seq_cmp_bytes_val: "mp_seq_cmp_bytes op as bs = lex_cmp op as bs"
proof (cases op)
  case SeqEqual
  have "memcmp_sign as bs = 0 \<longleftrightarrow> as = bs" if "length as = length bs"
    using memcmp_sign_cases [of as bs] that by auto
  with SeqEqual show ?thesis by (auto simp: mp_seq_cmp_bytes_def lex_cmp_def)
next
  case SeqLess
  have "mp_seq_cmp_bytes SeqLess as bs = mp_seq_cmp_bytes SeqMore bs as" by (simp add: mp_seq_cmp_bytes_def)
  with SeqLess mp_seq_cmp_bytes_more show ?thesis by (simp add: lex_cmp_def)
next
  case SeqLessEqual
  have "mp_seq_cmp_bytes SeqLessEqual as bs = mp_seq_cmp_bytes SeqMoreEqual bs as" by (simp add: mp_seq_cmp_bytes_def)
  with SeqLessEqual mp_seq_cmp_bytes_more show ?thesis by (simp add: lex_cmp_def)
qed (simp_all add: mp_seq_cmp_bytes_more lex_cmp_def)

section \<open>Comparison of sequences of objects\<close>

text \<open>
  \<open>mp_seq_cmp_objs\<close>, with \<open>eq\<close> for \<open>mp_obj_equal\<close> and \<open>rel\<close> for the truth of \<open>mp_binary_op\<close>. The loop gives the
  decision of the first elements that differ.
\<close>

fun cmp_objs_loop :: "('o \<Rightarrow> 'o \<Rightarrow> bool) \<Rightarrow> (seq_cmp_op \<Rightarrow> 'o \<Rightarrow> 'o \<Rightarrow> bool) \<Rightarrow> seq_cmp_op \<Rightarrow> 'o list \<Rightarrow> 'o list \<Rightarrow> bool option" where
  "cmp_objs_loop eq rel op (a # as) (b # bs) =
     (if eq a b then cmp_objs_loop eq rel op as bs else if op = SeqEqual then Some False else Some (rel op a b))"
| "cmp_objs_loop eq rel op as bs = None"

definition mp_seq_cmp_objs :: "('o \<Rightarrow> 'o \<Rightarrow> bool) \<Rightarrow> (seq_cmp_op \<Rightarrow> 'o \<Rightarrow> 'o \<Rightarrow> bool) \<Rightarrow> seq_cmp_op \<Rightarrow> 'o list \<Rightarrow> 'o list \<Rightarrow> bool" where
  "mp_seq_cmp_objs eq rel op items1 items2 =
     (if op = SeqEqual \<and> length items1 \<noteq> length items2 then False
      else
        let (items1, items2, op) =
              (if op = SeqLess then (items2, items1, SeqMore)
               else if op = SeqLessEqual then (items2, items1, SeqMoreEqual)
               else (items1, items2, op))
        in case cmp_objs_loop eq rel op items1 items2 of
             Some r \<Rightarrow> r
           | None \<Rightarrow>
               if length items1 \<noteq> length items2 then \<not> length items1 < length items2
               else op \<noteq> SeqMore)"

definition compares_by :: "('o \<Rightarrow> 'v :: linorder) \<Rightarrow> ('o \<Rightarrow> 'o \<Rightarrow> bool) \<Rightarrow> (seq_cmp_op \<Rightarrow> 'o \<Rightarrow> 'o \<Rightarrow> bool) \<Rightarrow> bool" where
  "compares_by key eq rel \<longleftrightarrow>
     (\<forall>a b. eq a b = (key a = key b) \<and> rel SeqMore a b = (key b < key a) \<and> rel SeqMoreEqual a b = (key b \<le> key a))"

lemma cmp_objs_loop_val:
  fixes key :: "'o \<Rightarrow> 'v :: linorder"
  assumes "compares_by key eq rel"
    and "op \<in> {SeqEqual, SeqMore, SeqMoreEqual}"
  shows "case cmp_objs_loop eq rel op xs ys of
      Some r \<Rightarrow> map key xs \<noteq> map key ys \<and> (r \<longleftrightarrow> op \<noteq> SeqEqual \<and> map key ys < map key xs)
    | None \<Rightarrow> take (length ys) (map key xs) = take (length xs) (map key ys)"
  using assms by (induction eq rel op xs ys rule: cmp_objs_loop.induct) (auto simp: compares_by_def le_less split: option.splits)

text \<open>The order of sequences of objects is that of the sequences of their keys.\<close>

lemma mp_seq_cmp_objs_val:
  fixes key :: "'o \<Rightarrow> 'v :: linorder"
  assumes rel: "compares_by key eq rel"
  shows "mp_seq_cmp_objs eq rel op xs ys = lex_cmp op (map key xs) (map key ys)"
proof -
  have more: "mp_seq_cmp_objs eq rel op xs ys = lex_cmp op (map key xs) (map key ys)"
    if op: "op \<in> {SeqEqual, SeqMore, SeqMoreEqual}" for op xs ys
  proof (cases "cmp_objs_loop eq rel op xs ys")
    case (Some r)
    with cmp_objs_loop_val [OF rel op, where xs = xs and ys = ys]
    have "map key xs \<noteq> map key ys" "r \<longleftrightarrow> op \<noteq> SeqEqual \<and> map key ys < map key xs" by simp_all
    with op Some show ?thesis by (elim insertE) (simp_all add: mp_seq_cmp_objs_def lex_cmp_def le_less)
  next
    case None
    with cmp_objs_loop_val [OF rel op, where xs = xs and ys = ys]
    have p: "take (length ys) (map key xs) = take (length xs) (map key ys)" by simp
    have eq: "map key xs = map key ys \<longleftrightarrow> length xs = length ys" using p by (metis length_map order_refl take_all)
    have lt: "map key ys < map key xs \<longleftrightarrow> length ys < length xs" using prefix_less [of "map key xs" "map key ys"] p by simp
    have le: "map key ys \<le> map key xs \<longleftrightarrow> length ys \<le> length xs" unfolding le_less lt using eq by auto
    from op None show ?thesis by (elim insertE) (auto simp add: mp_seq_cmp_objs_def lex_cmp_def eq lt le)
  qed
  consider "op \<in> {SeqEqual, SeqMore, SeqMoreEqual}" | "op = SeqLess" | "op = SeqLessEqual" by (cases op) auto
  then show ?thesis
  proof cases
    case 2
    have "mp_seq_cmp_objs eq rel SeqLess xs ys = mp_seq_cmp_objs eq rel SeqMore ys xs" by (simp add: mp_seq_cmp_objs_def)
    with 2 more show ?thesis by (simp add: lex_cmp_def)
  next
    case 3
    have "mp_seq_cmp_objs eq rel SeqLessEqual xs ys = mp_seq_cmp_objs eq rel SeqMoreEqual ys xs" by (simp add: mp_seq_cmp_objs_def)
    with 3 more show ?thesis by (simp add: lex_cmp_def)
  qed (rule more)
qed

section \<open>Indices that are integer objects\<close>

text \<open>The number of an index is refused exactly when \<open>mp_obj_int_get_checked\<close> refuses the object.\<close>

lemma mp_obj_get_int_checked:
  assumes "num_ok n"
  shows "mp_obj_get_int (num_val n) =
    (case mp_obj_int_get_checked n of Inl e \<Rightarrow> Inl ListOverflowError | Inr v \<Rightarrow> Inr (sint v))"
  using mp_obj_int_get_checked_val [OF assms] by (auto simp: mp_obj_get_int_def sint_of_int_64)

section \<open>Sorting integers and byte strings\<close>

definition sort_le :: "bool \<Rightarrow> 'v :: ord \<Rightarrow> 'v \<Rightarrow> bool" where
  "sort_le reverse a b = (if reverse then b \<le> a else a \<le> b)"

text \<open>The test of the sort on integer objects, through the operator of the runtime.\<close>

definition num_less :: "num \<Rightarrow> num \<Rightarrow> bool" where
  "num_less a b \<longleftrightarrow> mp_binary_op MP_BINARY_OP_LESS a b = Inr (RBool True)"

lemma num_less_val:
  assumes "num_ok a" "num_ok b"
  shows "num_less a b = (num_val a < num_val b)"
proof -
  have "int_op_safe MP_BINARY_OP_LESS a b" by (cases a; cases b) (simp_all add: long_op_safe_def is_division_def)
  from mp_binary_op_val [OF assms this]
  have "map_sum id result_val (mp_binary_op MP_BINARY_OP_LESS a b) = Inr (PBool (num_val a < num_val b))"
    by (simp add: py_int_op_def)
  then obtain r where "mp_binary_op MP_BINARY_OP_LESS a b = Inr r" "result_val r = PBool (num_val a < num_val b)"
    by (cases "mp_binary_op MP_BINARY_OP_LESS a b") auto
  then show ?thesis unfolding num_less_def by (cases r) auto
qed

interpretation num_sort: sort_order "\<lambda>x. x \<in> Some ` {x. num_ok (key x)}"
  "\<lambda>x y. sort_le reverse (num_val (key (the x))) (num_val (key (the y)))" "sort_less num_less key reverse"
  for key reverse
  by unfold_locales (auto simp: sort_less_def sort_le_def num_less_val split: if_splits)

interpretation bytes_sort: sort_order "\<lambda>x. x \<in> range Some"
  "\<lambda>x y. sort_le reverse (key (the x)) (key (the y))" "sort_less (mp_seq_cmp_bytes SeqLess) key reverse"
  for key reverse
  by unfold_locales (auto simp: sort_less_def sort_le_def mp_seq_cmp_bytes_val lex_cmp_def split: if_splits)

section \<open>Properties\<close>

text \<open>
  C31: \<open>list.sort\<close> with a key that gives integers leaves the same elements in the order of their keys, or
  the reverse of it, and it returns when the stack has room for as many calls as the length has bits.
\<close>

theorem list_sort_python:
  assumes "list_rep self xs" and "\<forall>x \<in> set xs. num_ok (key x)" and "length xs < 2 ^ room" "0 < room"
  shows "\<exists>self' ys. mp_obj_list_sort num_less key reverse room self = Some self' \<and> list_rep self' ys \<and> mset ys = mset xs \<and>
    sorted_wrt (\<lambda>x y. if reverse then num_val (key y) \<le> num_val (key x) else num_val (key x) \<le> num_val (key y)) ys"
proof -
  have "set xs \<subseteq> {x. num_ok (key x)}" using assms(2) by blast
  from list_sort_val [OF assms(1,3,4) num_sort.sort_order_axioms [of key reverse] this] show ?thesis
    unfolding sort_le_def option.sel .
qed

lemma list_sort_python_witness:
  "\<exists>self' ys. mp_obj_list_sort num_less id True 2 (list_of [Small 3, Small (- 5), Small 8] 1) = Some self' \<and> list_rep self' ys \<and>
    mset ys = {# Small 3, Small (- 5), Small 8 #} \<and> sorted_wrt (\<lambda>x y. num_val y \<le> num_val x) ys"
proof -
  have "list_rep (list_of [Small 3, Small (- 5), Small 8] 1) [Small 3, Small (- 5), Small 8]" by (rule list_repI [OF refl]) simp
  from list_sort_python [OF this, of id 2 True] show ?thesis by simp
qed

end
