(* ===== verification/OmvArray.thy ===== *)
theory OmvArray
  imports ListSort "HOL-Library.Word"
begin

text \<open>
  The dynamic arrays of the camera library (\<open>omv/array.c\<close>) and the choice of the best keypoints in
  \<open>omv/img/orb.c\<close>. The answers of the allocator are an argument: \<open>xmem_room mem n\<close> tells whether
  \<open>xrealloc\<close> has room for \<open>n\<close> pointers, \<open>xmem_junk\<close> is what new memory holds. The fields are \<open>int\<close> in C;
  they are natural numbers here, and an index that would become negative is the result \<open>None\<close>.
\<close>

section \<open>The array\<close>

record 'a array_t =
  arr_index :: nat
  arr_length :: nat
  arr_data :: "'a list"
  arr_dtor :: bool

record 'a xmem =
  xmem_room :: "nat \<Rightarrow> bool"
  xmem_junk :: 'a

datatype array_error = ArrayMemoryError | ArrayFault

definition ARRAY_INIT_SIZE :: nat where
  "ARRAY_INIT_SIZE = 4"

definition xalloc_slots :: "'a xmem \<Rightarrow> nat \<Rightarrow> 'a list option" where
  "xalloc_slots mem n = (if n = 0 \<or> xmem_room mem n then Some (replicate n (xmem_junk mem)) else None)"

definition xrealloc_slots :: "'a xmem \<Rightarrow> 'a list \<Rightarrow> nat \<Rightarrow> 'a list option" where
  "xrealloc_slots mem xs n =
     (if n = 0 \<or> xmem_room mem n then Some (take n xs @ replicate (n - length xs) (xmem_junk mem)) else None)"

definition array_alloc_init :: "'a xmem \<Rightarrow> bool \<Rightarrow> nat \<Rightarrow> 'a array_t option" where
  "array_alloc_init mem dtor n_slots =
     map_option (\<lambda>data. \<lparr> arr_index = 0, arr_length = n_slots, arr_data = data, arr_dtor = dtor \<rparr>) (xalloc_slots mem n_slots)"

definition array_alloc :: "'a xmem \<Rightarrow> bool \<Rightarrow> 'a array_t option" where
  "array_alloc mem dtor =
     map_option (\<lambda>data. \<lparr> arr_index = 0, arr_length = ARRAY_INIT_SIZE, arr_data = data, arr_dtor = dtor \<rparr>)
       (xalloc_slots mem ARRAY_INIT_SIZE)"

text \<open>The second result of the functions that call the destructor: what they call it with.\<close>

definition array_clear :: "'a array_t \<Rightarrow> 'a array_t \<times> 'a list" where
  "array_clear array =
     (array\<lparr>arr_index := 0, arr_length := 0, arr_data := []\<rparr>,
      if arr_dtor array then take (arr_index array) (arr_data array) else [])"

definition array_free :: "'a array_t \<Rightarrow> 'a list" where
  "array_free array = snd (array_clear array)"

definition array_length :: "'a array_t \<Rightarrow> nat" where
  "array_length array = arr_index array"

definition array_at :: "'a array_t \<Rightarrow> nat \<Rightarrow> 'a option" where
  "array_at array idx = (if idx < length (arr_data array) then Some (arr_data array ! idx) else None)"

definition array_push_back :: "'a xmem \<Rightarrow> 'a array_t \<Rightarrow> 'a \<Rightarrow> 'a array_t \<times> (array_error + unit)" where
  "array_push_back mem array element =
     (case (if arr_index array = arr_length array then
              let array = array\<lparr>arr_length := arr_length array + ARRAY_INIT_SIZE\<rparr>
              in case xrealloc_slots mem (arr_data array) (arr_length array) of
                   None \<Rightarrow> Inl array
                 | Some data \<Rightarrow> Inr (array\<lparr>arr_data := data\<rparr>)
            else Inr array) of
        Inl array \<Rightarrow> (array, Inl ArrayMemoryError)
      | Inr array \<Rightarrow>
          if arr_index array < length (arr_data array) then
            (array\<lparr>arr_data := (arr_data array)[arr_index array := element], arr_index := arr_index array + 1\<rparr>, Inr ())
          else (array, Inl ArrayFault))"

definition array_pop_back :: "'a array_t \<Rightarrow> 'a array_t \<times> 'a option" where
  "array_pop_back array =
     (if arr_index array \<noteq> 0 then
        (array\<lparr>arr_index := arr_index array - 1\<rparr>, Some (arr_data array ! (arr_index array - 1)))
      else (array, None))"

text \<open>The block behind the element moves down by one.\<close>

definition array_take :: "'a array_t \<Rightarrow> nat \<Rightarrow> ('a array_t \<times> 'a) option" where
  "array_take array idx =
     (if arr_index array = 0 \<or> length (arr_data array) \<le> idx then None
      else
        let el = arr_data array ! idx; data = arr_data array; n = arr_index array;
            data = (if 1 < n \<and> idx < n - 1 then take idx data @ take (n - idx - 1) (drop (idx + 1) data) @ drop (n - 1) data
                    else data)
        in Some (array\<lparr>arr_data := data, arr_index := n - 1\<rparr>, el))"

definition array_erase :: "'a array_t \<Rightarrow> nat \<Rightarrow> ('a array_t \<times> 'a list) option" where
  "array_erase array idx =
     map_option (\<lambda>(array', el). (array', if arr_dtor array then [el] else [])) (array_take array idx)"

definition array_resize :: "'a xmem \<Rightarrow> 'a array_t \<Rightarrow> nat \<Rightarrow> 'a array_t \<times> 'a list \<times> (array_error + unit)" where
  "array_resize mem array num =
     (if arr_index array \<noteq> num then
        if num = 0 then (case array_clear array of (array, gone) \<Rightarrow> (array, gone, Inr ()))
        else
          let (array, gone) =
                (if arr_index array > num then
                   (array\<lparr>arr_index := num\<rparr>,
                    if arr_dtor array then take (arr_index array - num) (drop num (arr_data array)) else [])
                 else (array, []));
              array = array\<lparr>arr_length := num\<rparr>
          in case xrealloc_slots mem (arr_data array) num of
               None \<Rightarrow> (array, gone, Inl ArrayMemoryError)
             | Some data \<Rightarrow> (array\<lparr>arr_data := data\<rparr>, gone, Inr ())
      else (array, [], Inr ()))"

text \<open>
  The quicksort is the one of \<open>py/objlist.c\<close> with the test \<open>comp(x, y) < 0\<close>; \<open>None\<close> when the recursion has
  no room left.
\<close>

definition array_quicksort :: "('a \<Rightarrow> 'a \<Rightarrow> int) \<Rightarrow> nat \<Rightarrow> 'a list \<Rightarrow> nat \<Rightarrow> nat \<Rightarrow> 'a list option" where
  "array_quicksort cmp = mp_quicksort (\<lambda>x y. cmp x y < 0)"

definition array_sort :: "('a \<Rightarrow> 'a \<Rightarrow> int) \<Rightarrow> nat \<Rightarrow> 'a array_t \<Rightarrow> 'a array_t option" where
  "array_sort cmp room array =
     (if arr_index array > 1 then
        map_option (\<lambda>data. array\<lparr>arr_data := data\<rparr>) (array_quicksort cmp room (arr_data array) 0 (arr_index array - 1))
      else Some array)"

text \<open>The inner loop of \<open>array_isort\<close>, with \<open>j + 1\<close> for its \<open>j\<close>.\<close>

fun isort_shift :: "('a \<Rightarrow> 'a \<Rightarrow> int) \<Rightarrow> 'a \<Rightarrow> nat \<Rightarrow> 'a list \<Rightarrow> 'a list" where
  "isort_shift cmp t 0 data = data[0 := t]"
| "isort_shift cmp t (Suc j) data =
     (if cmp (data ! j) t \<noteq> 0 then isort_shift cmp t j (data[Suc j := data ! j]) else data[Suc j := t])"

definition array_isort :: "('a \<Rightarrow> 'a \<Rightarrow> int) \<Rightarrow> 'a array_t \<Rightarrow> 'a array_t" where
  "array_isort cmp array =
     array\<lparr>arr_data := fold (\<lambda>i data. isort_shift cmp (data ! i) i data) [1 ..< arr_index array] (arr_data array)\<rparr>"

section \<open>The array as a sequence\<close>

definition arr_ok :: "'a array_t \<Rightarrow> bool" where
  "arr_ok array \<longleftrightarrow> arr_index array \<le> arr_length array \<and> length (arr_data array) = arr_length array"

definition arr_abs :: "'a array_t \<Rightarrow> 'a list" where
  "arr_abs array = take (arr_index array) (arr_data array)"

lemma arr_abs_length: "arr_ok array \<Longrightarrow> length (arr_abs array) = array_length array"
  by (simp add: arr_ok_def arr_abs_def array_length_def)

lemma array_alloc_val: "array_alloc mem dtor = Some array \<Longrightarrow> arr_ok array \<and> arr_abs array = []"
  by (auto simp: array_alloc_def xalloc_slots_def arr_ok_def arr_abs_def split: if_splits)

lemma array_alloc_init_val: "array_alloc_init mem dtor n = Some array \<Longrightarrow> arr_ok array \<and> arr_abs array = []"
  by (auto simp: array_alloc_init_def xalloc_slots_def arr_ok_def arr_abs_def split: if_splits)

lemma array_clear_val:
  "arr_ok (fst (array_clear array))" "arr_abs (fst (array_clear array)) = []"
  "snd (array_clear array) = (if arr_dtor array then arr_abs array else [])"
  by (simp_all add: array_clear_def arr_ok_def arr_abs_def)

lemma array_at_val: "arr_ok array \<Longrightarrow> i < array_length array \<Longrightarrow> array_at array i = Some (arr_abs array ! i)"
  by (simp add: array_at_def arr_ok_def arr_abs_def array_length_def)

lemma array_push_back_val:
  assumes "arr_ok array" and "array_push_back mem array x = (array', r)"
  shows "r = Inr () \<and> arr_ok array' \<and> arr_abs array' = arr_abs array @ [x] \<or>
    r = Inl ArrayMemoryError \<and> arr_index array = arr_length array \<and> \<not> xmem_room mem (arr_length array + ARRAY_INIT_SIZE) \<and>
      array' = array\<lparr>arr_length := arr_length array + ARRAY_INIT_SIZE\<rparr>"
  using assms
  by (auto simp: array_push_back_def arr_ok_def arr_abs_def xrealloc_slots_def ARRAY_INIT_SIZE_def Let_def
      take_Suc_conv_app_nth nth_append list_update_append split: if_splits)

lemma array_pop_back_val:
  assumes "arr_ok array" and "array_pop_back array = (array', r)"
  shows "arr_ok array' \<and> (if arr_abs array = [] then array' = array \<and> r = None
    else r = Some (last (arr_abs array)) \<and> arr_abs array' = butlast (arr_abs array))"
  using assms
  by (auto simp: array_pop_back_def arr_ok_def arr_abs_def last_conv_nth butlast_take split: if_splits)

lemma array_take_val:
  assumes "arr_ok array" and "i < array_length array"
  shows "\<exists>array'. array_take array i = Some (array', arr_abs array ! i) \<and> arr_ok array' \<and>
    arr_dtor array' = arr_dtor array \<and> arr_abs array' = take i (arr_abs array) @ drop (Suc i) (arr_abs array)"
proof (cases "i < arr_index array - 1")
  case True
  with assms show ?thesis
    by (auto simp: array_take_def arr_ok_def arr_abs_def array_length_def Let_def min_def drop_take)
next
  case False
  with assms have "i = arr_index array - 1" by (simp add: array_length_def)
  with assms show ?thesis
    by (auto simp: array_take_def arr_ok_def arr_abs_def array_length_def Let_def min_def drop_take)
qed

lemma array_erase_val:
  assumes "arr_ok array" and "i < array_length array"
  shows "\<exists>array'. array_erase array i = Some (array', if arr_dtor array then [arr_abs array ! i] else []) \<and> arr_ok array' \<and>
    arr_abs array' = take i (arr_abs array) @ drop (Suc i) (arr_abs array)"
  using array_take_val [OF assms] by (auto simp: array_erase_def)

text \<open>With room for the new block the array has the first \<open>num\<close> elements, and the others are destroyed.\<close>

lemma array_resize_val:
  assumes "arr_ok array" and "num = 0 \<or> xmem_room mem num" and "array_resize mem array num = (array', gone, r)"
  shows "r = Inr () \<and> arr_ok array' \<and> arr_abs array' = take num (arr_abs array) \<and>
    gone = (if arr_dtor array then drop num (arr_abs array) else [])"
  using assms
  by (auto simp: array_resize_def array_clear_def arr_ok_def arr_abs_def xrealloc_slots_def Let_def min_def drop_take
      split: if_splits)

section \<open>Sorting\<close>

lemma array_sort_val:
  assumes ok: "arr_ok array" and room: "array_length array < 2 ^ room" "0 < room"
    and order: "sort_order (\<lambda>x. True) R (\<lambda>x y. cmp x y < 0)"
  shows "\<exists>array'. array_sort cmp room array = Some array' \<and> arr_ok array' \<and> arr_dtor array' = arr_dtor array \<and>
    arr_length array' = arr_length array \<and> mset (arr_abs array') = mset (arr_abs array) \<and> sorted_wrt R (arr_abs array')"
proof (cases "arr_index array > 1")
  case False
  then have "length (arr_abs array) \<le> 1" by (simp add: arr_abs_def)
  then have "sorted_wrt R (arr_abs array)" by (cases "arr_abs array") simp_all
  with False ok show ?thesis by (simp add: array_sort_def)
next
  case True
  let ?xs = "arr_data array" and ?n = "arr_index array"
  have len: "?n \<le> length ?xs" using ok by (simp add: arr_ok_def)
  have "sort_order.qsort_pre (\<lambda>x. True) ?xs 0 (?n - 1)"
    unfolding sort_order.qsort_pre_def [OF order] using True len by simp
  then have "sort_order.qsort_done R 0 (?n - 1) ?xs (mp_quicksort (\<lambda>x y. cmp x y < 0) room ?xs 0 (?n - 1))"
    by (rule sort_order.mp_quicksort_val [OF order]) (use room True in \<open>simp_all add: array_length_def\<close>)
  then obtain ys where ys: "mp_quicksort (\<lambda>x y. cmp x y < 0) room ?xs 0 (?n - 1) = Some ys"
    and same: "same_outside 0 (?n - 1) ?xs ys" and sorted: "sort_order.sorted_between R 0 (?n - 1) ys"
    unfolding sort_order.qsort_done_def [OF order] by (auto split: option.splits)
  have l: "length ys = length ?xs" "mset ys = mset ?xs" using same by (simp_all add: same_outside_def)
  have rest: "drop ?n ys = drop ?n ?xs"
    by (rule nth_equalityI) (use same True in \<open>auto simp: same_outside_def\<close>)
  have "mset (take ?n ys) + mset (drop ?n ys) = mset (take ?n ?xs) + mset (drop ?n ?xs)"
    using l(2) by (simp flip: mset_append)
  then have "mset (take ?n ys) = mset (take ?n ?xs)" by (simp add: rest)
  moreover have "sorted_wrt R (take ?n ys)"
    using sorted len l(1) unfolding sort_order.sorted_between_def [OF order] sorted_wrt_iff_nth_less by simp
  ultimately show ?thesis using True ys ok l(1)
    by (simp add: array_sort_def array_quicksort_def arr_ok_def arr_abs_def)
qed

text \<open>
  \<open>array_isort\<close> tests \<open>comp\<close> for truth where its header says that the result is negative, zero or positive:
  elements that are not equal are always exchanged.
\<close>

lemma isort_shift_front:
  "i < length data \<Longrightarrow> \<forall>j < i. cmp (data ! j) t \<noteq> 0 \<Longrightarrow> isort_shift cmp t i data = t # take i data @ drop (Suc i) data"
proof (induction i arbitrary: data)
  case 0
  then show ?case by (cases data) simp_all
next
  case (Suc i)
  then have "isort_shift cmp t (Suc i) data = isort_shift cmp t i (data[Suc i := data ! i])" by simp
  also have "\<dots> = t # take i data @ drop (Suc i) (data[Suc i := data ! i])" using Suc by simp
  also have "drop (Suc i) (data[Suc i := data ! i]) = data ! i # drop (Suc (Suc i)) data"
    using Suc.prems(1) by (simp add: drop_update_swap Cons_nth_drop_Suc [symmetric])
  finally show ?case using Suc.prems(1) by (simp add: take_Suc_conv_app_nth)
qed

lemma isort_loop:
  assumes "\<forall>i < length data. \<forall>j < length data. i \<noteq> j \<longrightarrow> cmp (data ! i) (data ! j) \<noteq> 0" and "n \<le> length data"
  shows "1 \<le> n \<Longrightarrow> fold (\<lambda>i data. isort_shift cmp (data ! i) i data) [1 ..< n] data = rev (take n data) @ drop n data"
  using assms(2)
proof (induction n)
  case (Suc n)
  show ?case
  proof (cases "n = 0")
    case True
    with Suc.prems show ?thesis by (cases data) simp_all
  next
    case False
    let ?ys = "rev (take n data) @ drop n data"
    have n: "n < length data" using Suc.prems by simp
    have "cmp (?ys ! j) (?ys ! n) \<noteq> 0" if "j < n" for j
    proof -
      have "?ys ! j = data ! (n - 1 - j)" "?ys ! n = data ! n" using that n by (simp_all add: nth_append rev_nth min_def)
      moreover have "n - 1 - j < length data" "n - 1 - j \<noteq> n" using that n by simp_all
      ultimately show ?thesis using assms(1) n by metis
    qed
    then have "isort_shift cmp (?ys ! n) n ?ys = ?ys ! n # take n ?ys @ drop (Suc n) ?ys"
      by (intro isort_shift_front) (use n in simp_all)
    also have "\<dots> = rev (take (Suc n) data) @ drop (Suc n) data"
      using n by (simp add: take_Suc_conv_app_nth nth_append min_def)
    finally show ?thesis using False Suc by simp
  qed
qed simp

section \<open>Keypoints\<close>

record kp_t =
  kp_x :: "16 word"
  kp_y :: "16 word"
  kp_score :: "16 word"
  kp_octave :: "16 word"
  kp_angle :: "16 word"
  kp_matched :: "16 word"
  kp_desc :: "8 word list"

definition kpt_comp :: "kp_t \<Rightarrow> kp_t \<Rightarrow> int" where
  "kpt_comp kp1 kp2 = uint (kp_score kp2) - uint (kp_score kp1)"

text \<open>The end of \<open>orb_find_keypoints\<close>.\<close>

definition orb_best_keypoints :: "kp_t xmem \<Rightarrow> nat \<Rightarrow> kp_t array_t \<Rightarrow> nat \<Rightarrow> (kp_t array_t \<times> kp_t list \<times> (array_error + unit)) option" where
  "orb_best_keypoints mem room kpts max_keypoints =
     map_option (\<lambda>kpts. if array_length kpts > max_keypoints then array_resize mem kpts max_keypoints else (kpts, [], Inr ()))
       (array_sort kpt_comp room kpts)"

interpretation kpt_order: sort_order "\<lambda>x. True" "\<lambda>x y. kp_score y \<le> kp_score x" "\<lambda>x y. kpt_comp x y < 0"
  by unfold_locales (auto simp: kpt_comp_def word_le_def word_less_def)

record hog_bin =
  bin_d :: int
  bin_m :: int

definition bin_array_comp :: "hog_bin \<Rightarrow> hog_bin \<Rightarrow> int" where
  "bin_array_comp b0 b1 = (if bin_m b0 < bin_m b1 then - 1 else if bin_m b0 > bin_m b1 then 1 else 0)"

interpretation bin_order: sort_order "\<lambda>x. True" "\<lambda>x y. bin_m x \<le> bin_m y" "\<lambda>x y. bin_array_comp x y < 0"
  by unfold_locales (auto simp: bin_array_comp_def split: if_splits)

section \<open>Properties\<close>

text \<open>
  C33: after the sort by score and the cut at \<open>max_keypoints\<close> the array holds the best keypoints in
  descending order of score: as many as there are or as asked for, none worse than one that was freed, and
  every keypoint is either kept or freed.
\<close>

theorem orb_keeps_best:
  assumes "arr_ok kpts" "arr_dtor kpts" and "array_length kpts < 2 ^ room" "0 < room"
    and "max_keypoints = 0 \<or> xmem_room mem max_keypoints"
  shows "\<exists>kpts' gone. orb_best_keypoints mem room kpts max_keypoints = Some (kpts', gone, Inr ()) \<and> arr_ok kpts' \<and>
    mset (arr_abs kpts') + mset gone = mset (arr_abs kpts) \<and> array_length kpts' = min max_keypoints (array_length kpts) \<and>
    sorted_wrt (\<lambda>x y. kp_score y \<le> kp_score x) (arr_abs kpts') \<and>
    (\<forall>x \<in> set (arr_abs kpts'). \<forall>y \<in> set gone. kp_score y \<le> kp_score x)"
proof -
  obtain k where k: "array_sort kpt_comp room kpts = Some k" "arr_ok k" "arr_dtor k" "mset (arr_abs k) = mset (arr_abs kpts)"
    and sorted: "sorted_wrt (\<lambda>x y. kp_score y \<le> kp_score x) (arr_abs k)"
    using array_sort_val [OF assms(1,3,4) kpt_order.sort_order_axioms] assms(2) by auto
  have len: "array_length k = array_length kpts"
    using mset_eq_length [OF k(4)] by (simp add: arr_abs_length k(2) assms(1))
  show ?thesis
  proof (cases "array_length k > max_keypoints")
    case False
    with k sorted len show ?thesis by (simp add: orb_best_keypoints_def)
  next
    case True
    obtain k' gone r where r: "array_resize mem k max_keypoints = (k', gone, r)" by (metis prod_cases3)
    note v = array_resize_val [OF k(2) assms(5) r]
    have m: "mset (arr_abs k') + mset gone = mset (arr_abs kpts)"
      using v k(3,4) by (simp flip: mset_append)
    have "sorted_wrt (\<lambda>x y. kp_score y \<le> kp_score x) (take max_keypoints (arr_abs k) @ drop max_keypoints (arr_abs k))"
      using sorted by simp
    then have "sorted_wrt (\<lambda>x y. kp_score y \<le> kp_score x) (arr_abs k') \<and>
        (\<forall>x \<in> set (arr_abs k'). \<forall>y \<in> set gone. kp_score y \<le> kp_score x)"
      unfolding sorted_wrt_append using v k(3) by simp
    moreover have "array_length k' = max_keypoints"
      using v True arr_abs_length [of k'] arr_abs_length [OF k(2)] by simp
    ultimately show ?thesis using True k(1) r v m len by (simp add: orb_best_keypoints_def)
  qed
qed

definition kp_scored :: "16 word \<Rightarrow> kp_t" where
  "kp_scored w = \<lparr> kp_x = 0, kp_y = 0, kp_score = w, kp_octave = 0, kp_angle = 0, kp_matched = 0, kp_desc = [] \<rparr>"

lemma orb_keeps_best_witness:
  "\<exists>kpts' gone. orb_best_keypoints \<lparr> xmem_room = (\<lambda>n. True), xmem_junk = kp_scored 0 \<rparr> 2
      \<lparr> arr_index = 3, arr_length = 4, arr_data = map kp_scored [5, 60000, 7, 9], arr_dtor = True \<rparr> 2 = Some (kpts', gone, Inr ()) \<and>
    array_length kpts' = 2 \<and> mset (arr_abs kpts') + mset gone = mset (map kp_scored [5, 60000, 7])"
  using orb_keeps_best [of "\<lparr> arr_index = 3, arr_length = 4, arr_data = map kp_scored [5, 60000, 7, 9], arr_dtor = True \<rparr>" 2 2
      "\<lparr> xmem_room = (\<lambda>n. True), xmem_junk = kp_scored 0 \<rparr>"]
  by (auto simp: arr_ok_def arr_abs_def array_length_def)

text \<open>
  C34: with a comparison that is zero only for equal elements, as the header of \<open>array.h\<close> says, \<open>array_isort\<close>
  does not sort: it reverses every array of different elements.
\<close>

theorem array_isort_reverses:
  assumes "arr_ok array" and "\<And>x y. cmp x y = 0 \<longleftrightarrow> x = y" and "distinct (arr_abs array)"
  shows "arr_abs (array_isort cmp array) = rev (arr_abs array)"
proof (cases "arr_index array")
  case (Suc k)
  let ?n = "arr_index array" and ?xs = "arr_data array"
  have loop: "fold (\<lambda>i data. isort_shift cmp (data ! i) i data) [1 ..< ?n] (arr_abs array) = rev (arr_abs array)"
    using isort_loop [of "arr_abs array" cmp ?n] assms Suc
    by (simp add: arr_abs_length array_length_def nth_eq_iff_index_eq)
  have shift: "isort_shift cmp t i (xs @ ys) = isort_shift cmp t i xs @ ys" if "i < length xs" for t i xs ys
    using that by (induction i arbitrary: xs) (simp_all add: nth_append list_update_append)
  have len: "length (isort_shift cmp t i xs) = length xs" for t i xs
    by (induction i arbitrary: xs) simp_all
  have "fold (\<lambda>i data. isort_shift cmp (data ! i) i data) is (xs @ ys) =
      fold (\<lambda>i data. isort_shift cmp (data ! i) i data) is xs @ ys" if "\<forall>i \<in> set is. i < length xs" for "is" xs ys
    using that by (induction "is" arbitrary: xs) (simp_all add: shift len nth_append)
  from this [of "[1 ..< ?n]" "take ?n ?xs" "drop ?n ?xs"] loop assms(1)
  show ?thesis by (simp add: array_isort_def arr_abs_def arr_ok_def)
qed (simp add: array_isort_def arr_abs_def)

lemma array_isort_reverses_witness:
  "arr_abs (array_isort (-) \<lparr> arr_index = 3, arr_length = 4, arr_data = [1, 2, 3, 0 :: int], arr_dtor = False \<rparr>) = [3, 2, 1]"
  using array_isort_reverses [of "\<lparr> arr_index = 3, arr_length = 4, arr_data = [1, 2, 3, 0 :: int], arr_dtor = False \<rparr>" "(-)"]
  by (simp add: arr_ok_def arr_abs_def)

end
