(* ===== verification/OmvRect.thy ===== *)
theory OmvRect
  imports OmvArray "HOL-Library.Signed_Division"
begin

text \<open>
  Rectangles of the camera library (\<open>omv/img/rectangle.c\<close>): 16-bit fields, sums and comparisons in \<open>int\<close>. The
  merge of overlapping detections works on the arrays of \<open>omv/array.c\<close>.
\<close>

section \<open>The functions\<close>

record rectangle_t =
  rect_x :: "16 word"
  rect_y :: "16 word"
  rect_w :: "16 word"
  rect_h :: "16 word"

definition rectangle_equal :: "rectangle_t \<Rightarrow> rectangle_t \<Rightarrow> bool" where
  "rectangle_equal r1 r2 \<longleftrightarrow>
     rect_x r1 = rect_x r2 \<and> rect_y r1 = rect_y r2 \<and> rect_w r1 = rect_w r2 \<and> rect_h r1 = rect_h r2"

definition rectangle_intersects :: "rectangle_t \<Rightarrow> rectangle_t \<Rightarrow> bool" where
  "rectangle_intersects r1 r2 \<longleftrightarrow>
     sint (rect_x r1) < sint (rect_x r2) + sint (rect_w r2) \<and>
     sint (rect_y r1) < sint (rect_y r2) + sint (rect_h r2) \<and>
     sint (rect_x r1) + sint (rect_w r1) > sint (rect_x r2) \<and>
     sint (rect_y r1) + sint (rect_h r1) > sint (rect_y r2)"

text \<open>\<open>rectangle_subimg\<close>; \<open>None\<close> when it returns false and leaves its output alone.\<close>

definition rectangle_subimg :: "int \<Rightarrow> int \<Rightarrow> rectangle_t \<Rightarrow> rectangle_t option" where
  "rectangle_subimg img_w img_h r =
     (let r_img = \<lparr> rect_x = 0, rect_y = 0, rect_w = word_of_int img_w, rect_h = word_of_int img_h \<rparr>
      in if rectangle_intersects r_img r then
           let r_img_x2 = sint (rect_x r_img) + sint (rect_w r_img);
               r_img_y2 = sint (rect_y r_img) + sint (rect_h r_img);
               r_x2 = sint (rect_x r) + sint (rect_w r);
               r_y2 = sint (rect_y r) + sint (rect_h r);
               x = (if sint (rect_x r_img) > sint (rect_x r) then rect_x r_img else rect_x r);
               y = (if sint (rect_y r_img) > sint (rect_y r) then rect_y r_img else rect_y r)
           in Some \<lparr> rect_x = x, rect_y = y,
                     rect_w = word_of_int ((if r_img_x2 < r_x2 then r_img_x2 else r_x2) - sint x),
                     rect_h = word_of_int ((if r_img_y2 < r_y2 then r_img_y2 else r_y2) - sint y) \<rparr>
         else None)"

definition rectangle_add :: "rectangle_t \<Rightarrow> rectangle_t \<Rightarrow> rectangle_t" where
  "rectangle_add r1 r2 =
     \<lparr> rect_x = rect_x r1 + rect_x r2, rect_y = rect_y r1 + rect_y r2, rect_w = rect_w r1 + rect_w r2, rect_h = rect_h r1 + rect_h r2 \<rparr>"

definition int16_div :: "16 word \<Rightarrow> int \<Rightarrow> 16 word" where
  "int16_div x c = word_of_int (sint x sdiv c)"

definition rectangle_div :: "rectangle_t \<Rightarrow> int \<Rightarrow> rectangle_t" where
  "rectangle_div r c =
     \<lparr> rect_x = int16_div (rect_x r) c, rect_y = int16_div (rect_y r) c, rect_w = int16_div (rect_w r) c, rect_h = int16_div (rect_h r) c \<rparr>"

text \<open>The loop over \<open>j\<close> of \<open>rectangle_merge\<close>.\<close>

function merge_overlaps ::
  "rectangle_t xmem \<Rightarrow> rectangle_t \<Rightarrow> rectangle_t array_t \<Rightarrow> rectangle_t array_t \<Rightarrow> nat \<Rightarrow>
   array_error + (rectangle_t array_t \<times> rectangle_t array_t)" where
  "merge_overlaps mem rect rectangles overlap j =
     (if j < array_length rectangles then
        (case array_at rectangles j of
           None \<Rightarrow> Inl ArrayFault
         | Some r \<Rightarrow>
             if rectangle_intersects rect r then
               (case array_take rectangles j of
                  None \<Rightarrow> Inl ArrayFault
                | Some (rectangles, el) \<Rightarrow>
                    (case array_push_back mem overlap el of
                       (overlap, Inl e) \<Rightarrow> Inl e
                     | (overlap, Inr _) \<Rightarrow> merge_overlaps mem rect rectangles overlap j))
             else merge_overlaps mem rect rectangles overlap (j + 1))
      else Inr (rectangles, overlap))"
  by pat_completeness auto
termination
  by (relation "measure (\<lambda>(mem, rect, rectangles, overlap, j). array_length rectangles - j)")
    (auto simp: array_take_def array_length_def Let_def split: if_splits)

declare merge_overlaps.simps [simp del]

text \<open>The loop that adds up the overlapping rectangles.\<close>

fun merge_sum :: "nat \<Rightarrow> rectangle_t \<Rightarrow> rectangle_t array_t \<Rightarrow> (rectangle_t \<times> rectangle_t array_t) option" where
  "merge_sum 0 rect overlap = Some (rect, overlap)"
| "merge_sum (Suc n) rect overlap =
     (case array_pop_back overlap of
        (overlap, None) \<Rightarrow> None
      | (overlap, Some overlap_rect) \<Rightarrow> merge_sum n (rectangle_add rect overlap_rect) overlap)"

lemma merge_overlaps_length:
  "merge_overlaps mem rect rectangles overlap j = Inr (rectangles', overlap') \<Longrightarrow> array_length rectangles' \<le> array_length rectangles"
proof (induction mem rect rectangles overlap j rule: merge_overlaps.induct)
  case (1 mem rect rectangles overlap j)
  have "arr_index r \<le> arr_index rectangles" if "array_take rectangles j = Some (r, el)" for r el
    using that by (auto simp: array_take_def Let_def split: if_splits)
  with 1 show ?case
    by (subst (asm) (3) merge_overlaps.simps)
      (fastforce simp: array_length_def split: if_split_asm option.split_asm prod.split_asm sum.split_asm)
qed

text \<open>The outer loop; the array of the overlapping rectangles is empty between two rounds.\<close>

function merge_loop ::
  "rectangle_t xmem \<Rightarrow> rectangle_t array_t \<Rightarrow> rectangle_t array_t \<Rightarrow> rectangle_t array_t \<Rightarrow> array_error + rectangle_t array_t" where
  "merge_loop mem rectangles objects overlap =
     (if array_length rectangles \<noteq> 0 then
        (case array_take rectangles 0 of
           None \<Rightarrow> Inl ArrayFault
         | Some (rectangles1, rect) \<Rightarrow>
             (case merge_overlaps mem rect rectangles1 overlap 0 of
                Inl e \<Rightarrow> Inl e
              | Inr (rectangles2, overlap) \<Rightarrow>
                  (case merge_sum (array_length overlap) rect overlap of
                     None \<Rightarrow> Inl ArrayFault
                   | Some (rect, overlap') \<Rightarrow>
                       (case array_push_back mem objects (rectangle_div rect (int (array_length overlap) + 1)) of
                          (objects, Inl e) \<Rightarrow> Inl e
                        | (objects, Inr _) \<Rightarrow> merge_loop mem rectangles2 objects overlap'))))
      else Inr objects)"
  by pat_completeness auto
termination
proof (relation "measure (\<lambda>(mem, rectangles, objects, overlap). array_length rectangles)", simp, goal_cases)
  case (1 mem rectangles objects overlap x2 a b ba xa y x2a xb ya xc yb xd)
  from 1 have "merge_overlaps mem b a overlap 0 = Inr (xa, y)" by simp
  from merge_overlaps_length [OF this] 1(1-3) show ?case
    by (auto simp: array_take_def array_length_def Let_def split: if_splits)
qed

declare merge_loop.simps [simp del]

definition rectangle_merge :: "rectangle_t xmem \<Rightarrow> rectangle_t array_t \<Rightarrow> array_error + rectangle_t array_t" where
  "rectangle_merge mem rectangles =
     (case array_alloc mem True of
        None \<Rightarrow> Inl ArrayMemoryError
      | Some objects \<Rightarrow>
          (case array_alloc mem True of
             None \<Rightarrow> Inl ArrayMemoryError
           | Some overlap \<Rightarrow> merge_loop mem rectangles objects overlap))"

text \<open>\<open>rectangle_expand\<close>: the comparisons and the stores of \<open>int\<close> values.\<close>

definition rectangle_expand :: "rectangle_t \<Rightarrow> int \<Rightarrow> int \<Rightarrow> rectangle_t" where
  "rectangle_expand r x y =
     (let r = (if x < sint (rect_x r) then r\<lparr>rect_x := word_of_int x\<rparr> else r);
          r = (if y < sint (rect_y r) then r\<lparr>rect_y := word_of_int y\<rparr> else r);
          r = (if x > sint (rect_w r) then r\<lparr>rect_w := word_of_int x\<rparr> else r)
      in if y > sint (rect_h r) then r\<lparr>rect_h := word_of_int y\<rparr> else r)"

section \<open>Intersections\<close>

definition rect_pixels :: "rectangle_t \<Rightarrow> (int \<times> int) set" where
  "rect_pixels r = {sint (rect_x r) ..< sint (rect_x r) + sint (rect_w r)} \<times> {sint (rect_y r) ..< sint (rect_y r) + sint (rect_h r)}"

lemma sint16_range: "- 32768 \<le> sint (w :: 16 word)" "sint (w :: 16 word) < 32768"
  using sint_greater_eq [of w] sint_lt [of w] by simp_all

lemma sint16_of_int: "- 32768 \<le> i \<Longrightarrow> i < 32768 \<Longrightarrow> sint (word_of_int i :: 16 word) = i"
  by (simp add: sint_word_ariths signed_take_bit_int_eq_self_iff sint_sbintrunc')

lemma ranges_meet: "0 < b \<Longrightarrow> 0 < d \<Longrightarrow> {a ..< a + b} \<inter> {c ..< c + d} \<noteq> {} \<longleftrightarrow> a < c + d \<and> c < a + (b :: int)"
  by (auto simp: ex_in_conv [symmetric] intro: exI [of _ "max a c"])

lemma rectangle_intersects_val:
  assumes "0 < sint (rect_w r1)" "0 < sint (rect_h r1)" "0 < sint (rect_w r2)" "0 < sint (rect_h r2)"
  shows "rectangle_intersects r1 r2 \<longleftrightarrow> rect_pixels r1 \<inter> rect_pixels r2 \<noteq> {}"
  using ranges_meet [OF assms(1,3), of "sint (rect_x r1)" "sint (rect_x r2)"]
    ranges_meet [OF assms(2,4), of "sint (rect_y r1)" "sint (rect_y r2)"]
  by (auto simp: rectangle_intersects_def rect_pixels_def Times_Int_Times)

section \<open>Merging\<close>

lemma merge_overlaps_val:
  assumes room: "\<And>n. xmem_room mem n"
  shows "arr_ok rectangles \<Longrightarrow> arr_ok overlap \<Longrightarrow> j \<le> array_length rectangles \<Longrightarrow>
    \<exists>rectangles' overlap'. merge_overlaps mem rect rectangles overlap j = Inr (rectangles', overlap') \<and>
      arr_ok rectangles' \<and> arr_ok overlap' \<and>
      arr_abs rectangles' = take j (arr_abs rectangles) @ filter (\<lambda>r. \<not> rectangle_intersects rect r) (drop j (arr_abs rectangles)) \<and>
      arr_abs overlap' = arr_abs overlap @ filter (rectangle_intersects rect) (drop j (arr_abs rectangles))"
proof (induction "array_length rectangles - j" arbitrary: rectangles overlap j rule: less_induct)
  case less
  let ?xs = "arr_abs rectangles"
  have len: "length ?xs = array_length rectangles" using less.prems(1) by (rule arr_abs_length)
  show ?case
  proof (cases "j < array_length rectangles")
    case False
    then have "merge_overlaps mem rect rectangles overlap j = Inr (rectangles, overlap)" by (subst merge_overlaps.simps) simp
    with False less.prems len show ?thesis by simp
  next
    case True
    have drop: "drop j ?xs = ?xs ! j # drop (Suc j) ?xs" using True len by (simp add: Cons_nth_drop_Suc)
    show ?thesis
    proof (cases "rectangle_intersects rect (?xs ! j)")
      case False
      have "merge_overlaps mem rect rectangles overlap j = merge_overlaps mem rect rectangles overlap (j + 1)"
        using True False array_at_val [OF less.prems(1) True] by (subst merge_overlaps.simps) simp
      with less.hyps [of rectangles "j + 1" overlap] less.prems True False drop len show ?thesis
        by (simp add: take_Suc_conv_app_nth)
    next
      case meets: True
      obtain rs where rs: "array_take rectangles j = Some (rs, ?xs ! j)" "arr_ok rs" "arr_abs rs = take j ?xs @ drop (Suc j) ?xs"
        using array_take_val [OF less.prems(1) True] by blast
      obtain ov r where push: "array_push_back mem overlap (?xs ! j) = (ov, r)" by (cases "array_push_back mem overlap (?xs ! j)")
      have ov: "r = Inr ()" "arr_ok ov" "arr_abs ov = arr_abs overlap @ [?xs ! j]"
        using array_push_back_val [OF less.prems(2) push] room by auto
      have len': "array_length rs = array_length rectangles - 1"
        using arr_abs_length [OF rs(2)] rs(3) len True by simp
      have "merge_overlaps mem rect rectangles overlap j = merge_overlaps mem rect rs ov j"
        using True meets array_at_val [OF less.prems(1) True] rs(1) push ov(1) by (subst merge_overlaps.simps) simp
      with less.hyps [of rs j ov] rs ov len' True drop meets len show ?thesis by simp
    qed
  qed
qed

lemma rectangle_add_commute: "rectangle_add p q = rectangle_add q p"
  by (simp add: rectangle_add_def add.commute)

lemma merge_sum_val:
  "arr_ok overlap \<Longrightarrow> length (arr_abs overlap) = n \<Longrightarrow>
   \<exists>overlap'. merge_sum n rect overlap = Some (fold rectangle_add (rev (arr_abs overlap)) rect, overlap') \<and>
     arr_ok overlap' \<and> arr_abs overlap' = []"
proof (induction n arbitrary: rect overlap)
  case (Suc n)
  obtain ov r where pop: "array_pop_back overlap = (ov, r)" by (cases "array_pop_back overlap")
  have ne: "arr_abs overlap \<noteq> []" using Suc.prems(2) by auto
  have ov: "arr_ok ov" "r = Some (last (arr_abs overlap))" "arr_abs ov = butlast (arr_abs overlap)"
    using array_pop_back_val [OF Suc.prems(1) pop] ne by simp_all
  have "rev (arr_abs overlap) = last (arr_abs overlap) # rev (butlast (arr_abs overlap))"
    using ne by (metis append_butlast_last_id rev_eq_Cons_iff rev_rev_ident)
  then have "fold rectangle_add (rev (arr_abs overlap)) rect = fold rectangle_add (rev (arr_abs ov)) (rectangle_add rect (last (arr_abs overlap)))"
    unfolding ov(3) by (simp only: fold_simps rectangle_add_commute [of rect])
  with Suc.IH [OF ov(1), of "rectangle_add rect (last (arr_abs overlap))"] ov(2,3) Suc.prems(2) pop show ?case by simp
qed simp

text \<open>The first rectangle with those that meet it, and so on for the others; the sum of such a group, divided.\<close>

function merge_groups :: "rectangle_t list \<Rightarrow> (rectangle_t \<times> rectangle_t list) list" where
  "merge_groups [] = []"
| "merge_groups (r # rs) = (r, filter (rectangle_intersects r) rs) # merge_groups (filter (\<lambda>q. \<not> rectangle_intersects r q) rs)"
  by pat_completeness auto
termination
  by (relation "measure length") (auto simp: less_Suc_eq_le)

definition group_merge :: "rectangle_t \<times> rectangle_t list \<Rightarrow> rectangle_t" where
  "group_merge = (\<lambda>(r, rs). rectangle_div (fold rectangle_add (rev rs) r) (int (length rs) + 1))"

lemma merge_loop_val:
  assumes room: "\<And>n. xmem_room mem n"
  shows "arr_ok rectangles \<Longrightarrow> arr_ok objects \<Longrightarrow> arr_ok overlap \<Longrightarrow> arr_abs overlap = [] \<Longrightarrow>
    \<exists>objects'. merge_loop mem rectangles objects overlap = Inr objects' \<and> arr_ok objects' \<and>
      arr_abs objects' = arr_abs objects @ map group_merge (merge_groups (arr_abs rectangles))"
proof (induction "array_length rectangles" arbitrary: rectangles objects overlap rule: less_induct)
  case less
  have len: "length (arr_abs rectangles) = array_length rectangles" using less.prems(1) by (rule arr_abs_length)
  show ?case
  proof (cases "arr_abs rectangles")
    case Nil
    then have "merge_loop mem rectangles objects overlap = Inr objects" using len by (subst merge_loop.simps) simp
    with less.prems Nil show ?thesis by simp
  next
    case (Cons rect rs)
    then have pos: "0 < array_length rectangles" using len by simp
    obtain r1 where r1: "array_take rectangles 0 = Some (r1, rect)" "arr_ok r1" "arr_abs r1 = rs"
      using array_take_val [OF less.prems(1) pos] Cons by auto
    obtain r2 ov where r2: "merge_overlaps mem rect r1 overlap 0 = Inr (r2, ov)" "arr_ok r2" "arr_ok ov"
      "arr_abs r2 = filter (\<lambda>r. \<not> rectangle_intersects rect r) rs" "arr_abs ov = filter (rectangle_intersects rect) rs"
      using merge_overlaps_val [OF room r1(2) less.prems(3), of 0 rect] less.prems(4) r1(3) by auto
    have ov: "length (arr_abs ov) = array_length ov" using r2(3) by (rule arr_abs_length)
    obtain ov' where ov': "merge_sum (array_length ov) rect ov = Some (fold rectangle_add (rev (arr_abs ov)) rect, ov')"
      "arr_ok ov'" "arr_abs ov' = []"
      using merge_sum_val [OF r2(3) ov, of rect] by auto
    let ?m = "rectangle_div (fold rectangle_add (rev (arr_abs ov)) rect) (int (array_length ov) + 1)"
    obtain ob r where push: "array_push_back mem objects ?m = (ob, r)" by (cases "array_push_back mem objects ?m")
    have ob: "r = Inr ()" "arr_ok ob" "arr_abs ob = arr_abs objects @ [?m]"
      using array_push_back_val [OF less.prems(2) push] room by auto
    have m: "?m = group_merge (rect, arr_abs ov)" using ov by (simp add: group_merge_def)
    have "merge_loop mem rectangles objects overlap = merge_loop mem r2 ob ov'"
      using pos r1(1) r2(1) ov'(1) push ob(1) by (subst merge_loop.simps) simp
    moreover have "array_length r2 < array_length rectangles"
      using arr_abs_length [OF r2(2)] r2(4) len Cons length_filter_le [of _ rs] by (metis le_imp_less_Suc length_Cons)
    then obtain objects' where "merge_loop mem r2 ob ov' = Inr objects'" "arr_ok objects'"
      "arr_abs objects' = arr_abs ob @ map group_merge (merge_groups (arr_abs r2))"
      using less.hyps [of r2 ob ov'] r2(2) ob(2) ov' by auto
    ultimately show ?thesis using Cons r2(4,5) ob(3) m by simp
  qed
qed

lemma merge_groups_mset: "(\<Sum>(r, rs) \<leftarrow> merge_groups xs. mset (r # rs)) = mset xs"
proof (induction xs rule: merge_groups.induct)
  case (2 r rs)
  then show ?case by (simp flip: mset_filter) (simp add: multiset_partition [symmetric])
qed simp

text \<open>Sums of 16-bit fields are right when the sum of the numbers fits.\<close>

lemma fold_rectangle_add:
  "rect_x (fold rectangle_add rs r) = rect_x r + sum_list (map rect_x rs)"
  "rect_y (fold rectangle_add rs r) = rect_y r + sum_list (map rect_y rs)"
  "rect_w (fold rectangle_add rs r) = rect_w r + sum_list (map rect_w rs)"
  "rect_h (fold rectangle_add rs r) = rect_h r + sum_list (map rect_h rs)"
  by (induction rs arbitrary: r) (simp_all add: rectangle_add_def add.assoc)

lemma sum_of_sint: "(word_of_int (\<Sum>x \<leftarrow> ws. sint x) :: 16 word) = sum_list ws"
  by (induction ws) simp_all

lemma int16_mean:
  assumes "- 32768 \<le> (\<Sum>x \<leftarrow> w # ws. sint x)" "(\<Sum>x \<leftarrow> w # ws. sint x) < 32768"
  shows "sint (int16_div (w + sum_list ws) (int (length ws) + 1)) = (\<Sum>x \<leftarrow> w # ws. sint x) sdiv (int (length ws) + 1)"
proof -
  let ?s = "\<Sum>x \<leftarrow> w # ws. sint x" and ?c = "int (length ws) + 1"
  have "sint (w + sum_list ws) = ?s" using sint16_of_int [OF assms] sum_of_sint [of "w # ws"] by simp
  moreover have "?s sdiv ?c = sgn ?s * (\<bar>?s\<bar> div ?c)" by (simp add: signed_divide_int_def)
  moreover have "0 \<le> \<bar>?s\<bar> div ?c" "\<bar>?s\<bar> div ?c \<le> \<bar>?s\<bar>" using zdiv_mono2 [of "\<bar>?s\<bar>" 1 ?c] by (simp_all add: pos_imp_zdiv_nonneg_iff)
  moreover have "- 32768 \<le> sgn s * q \<and> sgn s * q < 32768" if "0 \<le> q" "q \<le> \<bar>s\<bar>" "- 32768 \<le> s" "s < 32768" for s q :: int
    using that by (auto simp: sgn_if)
  ultimately have range: "sint (w + sum_list ws) = ?s" "- 32768 \<le> ?s sdiv ?c" "?s sdiv ?c < 32768" using assms by simp_all
  from range(2,3) have "sint (word_of_int (?s sdiv ?c) :: 16 word) = ?s sdiv ?c" by (rule sint16_of_int)
  with range(1) show ?thesis by (simp only: int16_div_def)
qed

text \<open>The mean of one field over a group, rounded towards zero, when the sum fits in 16 bits.\<close>

definition field_mean :: "(rectangle_t \<Rightarrow> 16 word) \<Rightarrow> rectangle_t list \<Rightarrow> rectangle_t \<Rightarrow> bool" where
  "field_mean field rs m \<longleftrightarrow>
     (let total = (\<Sum>r \<leftarrow> rs. sint (field r))
      in - 32768 \<le> total \<and> total < 32768 \<longrightarrow> sint (field m) = total sdiv int (length rs))"

lemma group_merge_mean:
  "field_mean rect_x (r # rs) (group_merge (r, rs))" "field_mean rect_y (r # rs) (group_merge (r, rs))"
  "field_mean rect_w (r # rs) (group_merge (r, rs))" "field_mean rect_h (r # rs) (group_merge (r, rs))"
proof -
  have sum: "sum_list (map f (rev rs)) = sum_list (map f rs)" for f :: "rectangle_t \<Rightarrow> 16 word"
    by (simp add: rev_map [symmetric] sum_list_rev)
  have "sint (int16_div (f r + sum_list (map f rs)) (int (length rs) + 1)) = (\<Sum>q \<leftarrow> r # rs. sint (f q)) sdiv int (length (r # rs))"
    if "- 32768 \<le> (\<Sum>q \<leftarrow> r # rs. sint (f q))" "(\<Sum>q \<leftarrow> r # rs. sint (f q)) < 32768" for f :: "rectangle_t \<Rightarrow> 16 word"
    using int16_mean [of "f r" "map f rs"] that by (simp add: o_def add.commute)
  then show "field_mean rect_x (r # rs) (group_merge (r, rs))" "field_mean rect_y (r # rs) (group_merge (r, rs))"
    "field_mean rect_w (r # rs) (group_merge (r, rs))" "field_mean rect_h (r # rs) (group_merge (r, rs))"
    by (simp_all add: field_mean_def Let_def group_merge_def rectangle_div_def fold_rectangle_add sum)
qed

section \<open>Properties\<close>

text \<open>
  C35: \<open>rectangle_subimg\<close> cuts a rectangle to the image: it reports false exactly when no pixel of the image
  is in the rectangle, and otherwise the pixels of its result are those that the two share.
\<close>

theorem rectangle_subimg_pixels:
  assumes "0 < img_w" "img_w < 32768" "0 < img_h" "img_h < 32768" and "0 < sint (rect_w r)" "0 < sint (rect_h r)"
  shows "case rectangle_subimg img_w img_h r of
      None \<Rightarrow> rect_pixels r \<inter> {0 ..< img_w} \<times> {0 ..< img_h} = {}
    | Some out \<Rightarrow> rect_pixels out = rect_pixels r \<inter> {0 ..< img_w} \<times> {0 ..< img_h} \<and> rect_pixels out \<noteq> {}"
proof -
  let ?img = "\<lparr> rect_x = 0, rect_y = 0, rect_w = word_of_int img_w, rect_h = word_of_int img_h \<rparr>"
  have img: "sint (word_of_int img_w :: 16 word) = img_w" "sint (word_of_int img_h :: 16 word) = img_h"
    using assms by (simp_all add: sint16_of_int)
  then have pix: "rect_pixels ?img = {0 ..< img_w} \<times> {0 ..< img_h}" by (simp add: rect_pixels_def)
  have meet: "rectangle_intersects ?img r \<longleftrightarrow> rect_pixels r \<inter> {0 ..< img_w} \<times> {0 ..< img_h} \<noteq> {}"
    using rectangle_intersects_val [of ?img r] assms img unfolding pix by (simp add: Int_commute)
  show ?thesis
  proof (cases "rectangle_intersects ?img r")
    case False
    with meet show ?thesis by (simp add: rectangle_subimg_def Let_def)
  next
    case True
    have cut: "sint (word_of_int ((if a < b then a else b) - c) :: 16 word) = (if a < b then a else b) - c"
      if "0 \<le> c" "c < 32768" "0 < a" "a < 32768" "c < b" for a b c :: int
      by (rule sint16_of_int) (use that in auto)
    have x: "sint (rect_x r) < img_w" "0 < sint (rect_x r) + sint (rect_w r)"
      and y: "sint (rect_y r) < img_h" "0 < sint (rect_y r) + sint (rect_h r)"
      using True img by (simp_all add: rectangle_intersects_def)
    let ?x = "if 0 > sint (rect_x r) then 0 else rect_x r" and ?y = "if 0 > sint (rect_y r) then 0 else rect_y r"
    define w h where "w = (if img_w < sint (rect_x r) + sint (rect_w r) then img_w else sint (rect_x r) + sint (rect_w r)) - sint ?x"
      and "h = (if img_h < sint (rect_y r) + sint (rect_h r) then img_h else sint (rect_y r) + sint (rect_h r)) - sint ?y"
    define out where "out = \<lparr> rect_x = ?x, rect_y = ?y, rect_w = word_of_int w, rect_h = word_of_int h \<rparr>"
    have out: "rectangle_subimg img_w img_h r = Some out"
      using True by (simp add: rectangle_subimg_def Let_def img out_def w_def h_def)
    have "sint (word_of_int w :: 16 word) = w"
      unfolding w_def by (rule cut) (use x assms sint16_range [of "rect_x r"] in auto)
    moreover have "sint (word_of_int h :: 16 word) = h"
      unfolding h_def by (rule cut) (use y assms sint16_range [of "rect_y r"] in auto)
    ultimately have "rect_pixels out = rect_pixels r \<inter> {0 ..< img_w} \<times> {0 ..< img_h}"
      by (auto simp: rect_pixels_def out_def w_def h_def)
    with meet True out show ?thesis by simp
  qed
qed

definition rect_at :: "int \<Rightarrow> int \<Rightarrow> int \<Rightarrow> int \<Rightarrow> rectangle_t" where
  "rect_at x y w h = \<lparr> rect_x = word_of_int x, rect_y = word_of_int y, rect_w = word_of_int w, rect_h = word_of_int h \<rparr>"

lemma rectangle_subimg_pixels_witness:
  "case rectangle_subimg 320 240 (rect_at (- 10) 200 30 100) of
      None \<Rightarrow> rect_pixels (rect_at (- 10) 200 30 100) \<inter> {0 ..< 320} \<times> {0 ..< 240} = {}
    | Some out \<Rightarrow> rect_pixels out = rect_pixels (rect_at (- 10) 200 30 100) \<inter> {0 ..< 320} \<times> {0 ..< 240} \<and> rect_pixels out \<noteq> {}"
  by (rule rectangle_subimg_pixels) (simp_all add: rect_at_def)

text \<open>
  C36: \<open>rectangle_merge\<close> splits the detections into groups, each a rectangle with all later ones that meet it and
  are in no group yet. No detection is lost or used twice, and for each group there is one rectangle whose fields
  are the means of theirs, as long as their sums fit in 16 bits.
\<close>

theorem rectangle_merge_means:
  assumes "arr_ok rectangles" and "\<And>n. xmem_room mem n"
  shows "\<exists>objects. rectangle_merge mem rectangles = Inr objects \<and> arr_ok objects \<and>
    list_all2 (\<lambda>(r, rs) m. \<forall>field \<in> {rect_x, rect_y, rect_w, rect_h}. field_mean field (r # rs) m)
      (merge_groups (arr_abs rectangles)) (arr_abs objects) \<and>
    (\<Sum>(r, rs) \<leftarrow> merge_groups (arr_abs rectangles). mset (r # rs)) = mset (arr_abs rectangles)"
proof -
  obtain empty where empty: "array_alloc mem True = Some empty" using assms(2) by (auto simp: array_alloc_def xalloc_slots_def)
  note v = array_alloc_val [OF empty]
  obtain objects where "merge_loop mem rectangles empty empty = Inr objects" "arr_ok objects"
    "arr_abs objects = map group_merge (merge_groups (arr_abs rectangles))"
    using merge_loop_val [OF assms(2,1), of empty empty] v by auto
  then show ?thesis
    using merge_groups_mset [of "arr_abs rectangles"] group_merge_mean
    by (auto simp: rectangle_merge_def empty list_all2_conv_all_nth split: prod.split)
qed

lemma rectangle_merge_means_witness:
  "\<exists>objects. rectangle_merge \<lparr> xmem_room = (\<lambda>n. True), xmem_junk = rect_at 0 0 0 0 \<rparr>
      \<lparr> arr_index = 2, arr_length = 2, arr_data = [rect_at 10 10 20 20, rect_at 20 16 20 21], arr_dtor = True \<rparr> = Inr objects \<and>
    arr_ok objects"
  using rectangle_merge_means [of "\<lparr> arr_index = 2, arr_length = 2, arr_data = [rect_at 10 10 20 20, rect_at 20 16 20 21], arr_dtor = True \<rparr>"
      "\<lparr> xmem_room = (\<lambda>n. True), xmem_junk = rect_at 0 0 0 0 \<rparr>"]
  by (auto simp: arr_ok_def)

end
