(* ===== verification/OmvQueue.thy ===== *)
theory OmvQueue
  imports Prelude "HOL-Library.Word"
begin

unbundle bit_operations_syntax

text \<open>
  The ring buffer (\<open>omv/ringbuf.c\<close>) and the bitmaps, stacks and queues of \<open>omv/img/collections.c\<close>. The
  blocks of memory that \<open>fb_alloc\<close> returns are arguments of the functions that allocate.
\<close>

section \<open>Ring buffer\<close>

definition BUFFER_SIZE :: "32 word" where
  "BUFFER_SIZE = 1024"

record ring_buf_t =
  ring_head :: "32 word"
  ring_tail :: "32 word"
  ring_data :: "8 word list"

definition ring_buf_init :: ring_buf_t where
  "ring_buf_init = \<lparr> ring_head = 0, ring_tail = 0, ring_data = replicate (unat BUFFER_SIZE) 0 \<rparr>"

definition ring_buf_empty :: "ring_buf_t \<Rightarrow> bool" where
  "ring_buf_empty buf \<longleftrightarrow> ring_head buf = ring_tail buf"

definition ring_buf_put :: "ring_buf_t \<Rightarrow> 8 word \<Rightarrow> ring_buf_t" where
  "ring_buf_put buf c =
     (if (ring_tail buf + 1) mod BUFFER_SIZE = ring_head buf then buf
      else buf\<lparr>ring_data := (ring_data buf)[unat (ring_tail buf) := c], ring_tail := (ring_tail buf + 1) mod BUFFER_SIZE\<rparr>)"

definition ring_buf_get :: "ring_buf_t \<Rightarrow> ring_buf_t \<times> 8 word" where
  "ring_buf_get buf =
     (if ring_head buf = ring_tail buf then (buf, 0)
      else (buf\<lparr>ring_head := (ring_head buf + 1) mod BUFFER_SIZE\<rparr>, ring_data buf ! unat (ring_head buf)))"

section \<open>Bitmaps\<close>

record bitmap_t =
  bitmap_size :: nat
  bitmap_data :: "8 word list"

definition CHAR_MASK :: nat where
  "CHAR_MASK = 7"

definition CHAR_SHIFT :: nat where
  "CHAR_SHIFT = 3"

definition bitmap_alloc :: "nat \<Rightarrow> bitmap_t" where
  "bitmap_alloc n = \<lparr> bitmap_size = n, bitmap_data = replicate (drop_bit CHAR_SHIFT (n + CHAR_MASK)) 0 \<rparr>"

definition bitmap_clear :: "bitmap_t \<Rightarrow> bitmap_t" where
  "bitmap_clear ptr =
     (let n = drop_bit CHAR_SHIFT (bitmap_size ptr + CHAR_MASK)
      in ptr\<lparr>bitmap_data := replicate n 0 @ drop n (bitmap_data ptr)\<rparr>)"

definition bitmap_bit_set :: "bitmap_t \<Rightarrow> nat \<Rightarrow> bitmap_t" where
  "bitmap_bit_set ptr index =
     (let i = drop_bit CHAR_SHIFT index
      in ptr\<lparr>bitmap_data := (bitmap_data ptr)[i := bitmap_data ptr ! i OR push_bit (index AND CHAR_MASK) 1]\<rparr>)"

definition bitmap_bit_get :: "bitmap_t \<Rightarrow> nat \<Rightarrow> bool" where
  "bitmap_bit_get ptr index \<longleftrightarrow>
     drop_bit (index AND CHAR_MASK) (bitmap_data ptr ! drop_bit CHAR_SHIFT index) AND 1 \<noteq> 0"

section \<open>Slots\<close>

text \<open>The \<open>memcpy\<close> to and from the element \<open>k\<close> of an array of elements of \<open>n\<close> bytes.\<close>

definition slot_put :: "nat \<Rightarrow> nat \<Rightarrow> 'b list \<Rightarrow> 'b list \<Rightarrow> 'b list" where
  "slot_put k n x data = take (k * n) data @ take n x @ drop (k * n + n) data"

definition slot_get :: "nat \<Rightarrow> nat \<Rightarrow> 'b list \<Rightarrow> 'b list" where
  "slot_get k n data = take n (drop (k * n) data)"

text \<open>A difference of two \<open>size_t\<close>.\<close>

definition size_minus_one :: "nat \<Rightarrow> nat" where
  "size_minus_one n = (n + (2 ^ 64 - 1)) mod 2 ^ 64"

section \<open>Stacks\<close>

record 'b lifo_t =
  lifo_len :: nat
  lifo_cap :: nat
  lifo_data_len :: nat
  lifo_data :: "'b list"

definition lifo_alloc :: "'b list \<Rightarrow> nat \<Rightarrow> nat \<Rightarrow> 'b lifo_t" where
  "lifo_alloc mem n_slots data_len =
     \<lparr> lifo_len = 0, lifo_cap = n_slots, lifo_data_len = data_len, lifo_data = mem \<rparr>"

text \<open>With all memory that is left.\<close>

definition lifo_alloc_all :: "'b list \<Rightarrow> nat \<Rightarrow> 'b lifo_t \<times> nat" where
  "lifo_alloc_all mem data_len =
     (\<lparr> lifo_len = 0, lifo_cap = length mem div data_len, lifo_data_len = data_len, lifo_data = mem \<rparr>, length mem div data_len)"

definition lifo_clear :: "'b lifo_t \<Rightarrow> 'b lifo_t" where
  "lifo_clear ptr = ptr\<lparr>lifo_len := 0\<rparr>"

definition lifo_size :: "'b lifo_t \<Rightarrow> nat" where
  "lifo_size ptr = lifo_len ptr"

definition lifo_is_not_empty :: "'b lifo_t \<Rightarrow> bool" where
  "lifo_is_not_empty ptr \<longleftrightarrow> lifo_len ptr \<noteq> 0"

definition lifo_is_not_full :: "'b lifo_t \<Rightarrow> bool" where
  "lifo_is_not_full ptr \<longleftrightarrow> lifo_len ptr \<noteq> lifo_cap ptr"

definition lifo_enqueue :: "'b lifo_t \<Rightarrow> 'b list \<Rightarrow> 'b lifo_t" where
  "lifo_enqueue ptr x =
     ptr\<lparr>lifo_data := slot_put (lifo_len ptr) (lifo_data_len ptr) x (lifo_data ptr), lifo_len := lifo_len ptr + 1\<rparr>"

definition lifo_peek :: "'b lifo_t \<Rightarrow> 'b list" where
  "lifo_peek ptr = slot_get (size_minus_one (lifo_len ptr)) (lifo_data_len ptr) (lifo_data ptr)"

definition lifo_poke :: "'b lifo_t \<Rightarrow> 'b list \<Rightarrow> 'b lifo_t" where
  "lifo_poke ptr x = ptr\<lparr>lifo_data := slot_put (lifo_len ptr) (lifo_data_len ptr) x (lifo_data ptr)\<rparr>"

definition lifo_dequeue :: "'b lifo_t \<Rightarrow> 'b lifo_t \<times> 'b list" where
  "lifo_dequeue ptr = (ptr\<lparr>lifo_len := size_minus_one (lifo_len ptr)\<rparr>, lifo_peek ptr)"

section \<open>Queues\<close>

record 'b fifo_t =
  fifo_head :: nat
  fifo_tail :: nat
  fifo_len :: nat
  fifo_cap :: nat
  fifo_data_len :: nat
  fifo_data :: "'b list"

definition fifo_alloc :: "'b list \<Rightarrow> nat \<Rightarrow> nat \<Rightarrow> 'b fifo_t" where
  "fifo_alloc mem n_slots data_len =
     \<lparr> fifo_head = 0, fifo_tail = 0, fifo_len = 0, fifo_cap = n_slots, fifo_data_len = data_len, fifo_data = mem \<rparr>"

definition fifo_alloc_all :: "'b list \<Rightarrow> nat \<Rightarrow> 'b fifo_t \<times> nat" where
  "fifo_alloc_all mem data_len =
     (\<lparr> fifo_head = 0, fifo_tail = 0, fifo_len = 0, fifo_cap = length mem div data_len, fifo_data_len = data_len,
        fifo_data = mem \<rparr>, length mem div data_len)"

definition fifo_clear :: "'b fifo_t \<Rightarrow> 'b fifo_t" where
  "fifo_clear ptr = ptr\<lparr>fifo_head := 0, fifo_tail := 0, fifo_len := 0\<rparr>"

definition fifo_size :: "'b fifo_t \<Rightarrow> nat" where
  "fifo_size ptr = fifo_len ptr"

definition fifo_is_not_empty :: "'b fifo_t \<Rightarrow> bool" where
  "fifo_is_not_empty ptr \<longleftrightarrow> fifo_len ptr \<noteq> 0"

definition fifo_is_not_full :: "'b fifo_t \<Rightarrow> bool" where
  "fifo_is_not_full ptr \<longleftrightarrow> fifo_len ptr \<noteq> fifo_cap ptr"

definition fifo_step :: "'b fifo_t \<Rightarrow> nat \<Rightarrow> nat" where
  "fifo_step ptr i = (let temp = i + 1 in if temp = fifo_cap ptr then 0 else temp)"

definition fifo_enqueue :: "'b fifo_t \<Rightarrow> 'b list \<Rightarrow> 'b fifo_t" where
  "fifo_enqueue ptr x =
     ptr\<lparr>fifo_data := slot_put (fifo_head ptr) (fifo_data_len ptr) x (fifo_data ptr),
         fifo_head := fifo_step ptr (fifo_head ptr), fifo_len := fifo_len ptr + 1\<rparr>"

definition fifo_peek :: "'b fifo_t \<Rightarrow> 'b list" where
  "fifo_peek ptr = slot_get (fifo_tail ptr) (fifo_data_len ptr) (fifo_data ptr)"

definition fifo_poke :: "'b fifo_t \<Rightarrow> 'b list \<Rightarrow> 'b fifo_t" where
  "fifo_poke ptr x = ptr\<lparr>fifo_data := slot_put (fifo_head ptr) (fifo_data_len ptr) x (fifo_data ptr)\<rparr>"

definition fifo_dequeue :: "'b fifo_t \<Rightarrow> 'b fifo_t \<times> 'b list" where
  "fifo_dequeue ptr =
     (ptr\<lparr>fifo_tail := fifo_step ptr (fifo_tail ptr), fifo_len := size_minus_one (fifo_len ptr)\<rparr>, fifo_peek ptr)"

section \<open>The contract of a queue\<close>

text \<open>
  What a client of a queue relies on: in the states of \<open>inv\<close> with the contents \<open>elems\<close> a value that fits is
  added at the end while there is room, and the oldest one is taken while there is one.
\<close>

datatype 'e queue_op = QPut 'e | QGet

fun queue_run :: "('s \<Rightarrow> 'e \<Rightarrow> 's) \<Rightarrow> ('s \<Rightarrow> 's \<times> 'e) \<Rightarrow> 's \<Rightarrow> 'e queue_op list \<Rightarrow> 's \<times> 'e list" where
  "queue_run put get s [] = (s, [])"
| "queue_run put get s (QPut x # ops) = queue_run put get (put s x) ops"
| "queue_run put get s (QGet # ops) = (let (s, x) = get s; (s, xs) = queue_run put get s ops in (s, x # xs))"

text \<open>A client that does not put into a full queue nor take from an empty one, from \<open>n\<close> elements on.\<close>

fun queue_legal :: "('e \<Rightarrow> bool) \<Rightarrow> nat \<Rightarrow> nat \<Rightarrow> 'e queue_op list \<Rightarrow> bool" where
  "queue_legal fits cap n [] \<longleftrightarrow> True"
| "queue_legal fits cap n (QPut x # ops) \<longleftrightarrow> fits x \<and> n < cap \<and> queue_legal fits cap (n + 1) ops"
| "queue_legal fits cap n (QGet # ops) \<longleftrightarrow> 0 < n \<and> queue_legal fits cap (n - 1) ops"

fun queue_puts :: "'e queue_op list \<Rightarrow> 'e list" where
  "queue_puts [] = []"
| "queue_puts (QPut x # ops) = x # queue_puts ops"
| "queue_puts (QGet # ops) = queue_puts ops"

locale bounded_queue =
  fixes inv :: "'s \<Rightarrow> bool" and elems :: "'s \<Rightarrow> 'e list" and cap :: nat and fits :: "'e \<Rightarrow> bool"
    and put :: "'s \<Rightarrow> 'e \<Rightarrow> 's" and get :: "'s \<Rightarrow> 's \<times> 'e"
  assumes put_ok: "inv s \<Longrightarrow> fits x \<Longrightarrow> length (elems s) < cap \<Longrightarrow> inv (put s x) \<and> elems (put s x) = elems s @ [x]"
    and get_ok: "inv s \<Longrightarrow> elems s \<noteq> [] \<Longrightarrow> get s = (s', x) \<Longrightarrow> inv s' \<and> elems s = x # elems s'"
begin

text \<open>What was put in and not yet taken out is what the queue holds, in order.\<close>

lemma queue_run_fifo:
  "inv s \<Longrightarrow> queue_legal fits cap (length (elems s)) ops \<Longrightarrow> queue_run put get s ops = (s', out) \<Longrightarrow>
   inv s' \<and> elems s @ queue_puts ops = out @ elems s'"
proof (induction ops arbitrary: s out)
  case (Cons c ops)
  show ?case
  proof (cases c)
    case (QPut x)
    with Cons put_ok [of s x] show ?thesis by fastforce
  next
    case QGet
    obtain s1 x where s1: "get s = (s1, x)" by (cases "get s")
    obtain s2 xs where s2: "queue_run put get s1 ops = (s2, xs)" by (cases "queue_run put get s1 ops")
    have "elems s \<noteq> []" using Cons.prems(2) QGet by auto
    note g = get_ok [OF Cons.prems(1) this s1]
    from Cons.IH [of s1 xs] g s1 s2 Cons.prems(2,3) QGet show ?thesis by auto
  qed
qed simp

end

section \<open>Slots and positions\<close>

lemma slot_get_put_same:
  "length x = n \<Longrightarrow> (k + 1) * n \<le> length data \<Longrightarrow> slot_get k n (slot_put k n x data) = x"
  by (simp add: slot_get_def slot_put_def)

lemma slot_get_put_other:
  assumes "length x = n" "(k + 1) * n \<le> length data" "(j + 1) * n \<le> length data" "j \<noteq> k"
  shows "slot_get j n (slot_put k n x data) = slot_get j n data"
proof (cases "j < k")
  case True
  then have "(j + 1) * n \<le> k * n" by (intro mult_le_mono1) simp
  then have "n \<le> k * n - j * n" by simp
  with assms show ?thesis by (simp add: slot_get_def slot_put_def drop_take min_absorb1)
next
  case False
  then have "(k + 1) * n \<le> j * n" using assms(4) by (intro mult_le_mono1) simp
  then have jk: "k * n + n \<le> j * n" "k \<le> j" using False by simp_all
  have "drop (j * n) (take (k * n) data @ x @ drop (k * n + n) data) = drop (j * n) data"
    using assms(1,2) jk by (simp add: drop_append)
  then show ?thesis using assms(1) by (simp add: slot_get_def slot_put_def)
qed

lemma length_slot_put: "length x = n \<Longrightarrow> (k + 1) * n \<le> length data \<Longrightarrow> length (slot_put k n x data) = length data"
  by (simp add: slot_put_def)

lemma size_minus_one_pos: "0 < n \<Longrightarrow> n < 2 ^ 64 \<Longrightarrow> size_minus_one n = n - 1"
  by (cases n) (simp_all add: size_minus_one_def)

text \<open>Positions in a circle of \<open>c\<close> places.\<close>

lemma circle_distinct_le: "j \<le> k \<Longrightarrow> k < c \<Longrightarrow> (t + j) mod c = (t + k) mod c \<Longrightarrow> j = (k :: nat)"
  using mod_eq_dvd_iff_nat [of "t + j" "t + k" c] by (auto dest!: dvd_imp_le)

lemma circle_distinct: "j < c \<Longrightarrow> k < c \<Longrightarrow> (t + j) mod c = (t + k) mod c \<Longrightarrow> j = (k :: nat)"
  using circle_distinct_le [of j k c t] circle_distinct_le [of k j c t] by linarith

lemma circle_other: "k < n \<Longrightarrow> n < c \<Longrightarrow> (h + k) mod c \<noteq> (h + n) mod (c :: nat)"
  using circle_distinct [of k c n h] by auto

lemma circle_full: "h < c \<Longrightarrow> n < c \<Longrightarrow> (h + Suc n) mod c = h \<longleftrightarrow> Suc n = (c :: nat)"
proof -
  assume h: "h < c" "n < c"
  show ?thesis
  proof (cases "Suc n = c")
    case False
    with h circle_other [of 0 "Suc n" c h] show ?thesis by (auto simp: mod_less)
  qed (use h in \<open>simp add: mod_less\<close>)
qed

section \<open>Stacks\<close>

definition lifo_ok :: "'b lifo_t \<Rightarrow> bool" where
  "lifo_ok ptr \<longleftrightarrow> lifo_len ptr \<le> lifo_cap ptr \<and> lifo_cap ptr < 2 ^ 64 \<and> lifo_cap ptr * lifo_data_len ptr \<le> length (lifo_data ptr)"

definition lifo_elems :: "'b lifo_t \<Rightarrow> 'b list list" where
  "lifo_elems ptr = map (\<lambda>k. slot_get k (lifo_data_len ptr) (lifo_data ptr)) [0 ..< lifo_len ptr]"

lemma slot_room: "k < c \<Longrightarrow> c * n \<le> m \<Longrightarrow> (k + 1) * n \<le> (m :: nat)"
  by (rule order_trans [OF mult_le_mono1]) simp_all

lemma lifo_alloc_val: "n * l \<le> length mem \<Longrightarrow> n < 2 ^ 64 \<Longrightarrow> lifo_ok (lifo_alloc mem n l) \<and> lifo_elems (lifo_alloc mem n l) = []"
  by (simp add: lifo_alloc_def lifo_ok_def lifo_elems_def)

lemma lifo_enqueue_val:
  assumes "lifo_ok ptr" "lifo_is_not_full ptr" "length x = lifo_data_len ptr"
  shows "lifo_ok (lifo_enqueue ptr x) \<and> lifo_elems (lifo_enqueue ptr x) = lifo_elems ptr @ [x]"
proof -
  have room: "lifo_len ptr < lifo_cap ptr" using assms(1,2) by (simp add: lifo_ok_def lifo_is_not_full_def)
  have fit: "(k + 1) * lifo_data_len ptr \<le> length (lifo_data ptr)" if "k < lifo_cap ptr" for k
    using slot_room [OF that] assms(1) by (simp add: lifo_ok_def)
  have "map (\<lambda>k. slot_get k (lifo_data_len ptr) (slot_put (lifo_len ptr) (lifo_data_len ptr) x (lifo_data ptr))) [0 ..< lifo_len ptr] =
      lifo_elems ptr"
    unfolding lifo_elems_def by (rule map_cong [OF refl]) (rule slot_get_put_other, use assms(3) fit room in auto)
  with slot_get_put_same [OF assms(3) fit [OF room]] length_slot_put [OF assms(3) fit [OF room]] assms(1) room show ?thesis
    by (simp add: lifo_enqueue_def lifo_ok_def lifo_elems_def)
qed

lemma lifo_dequeue_val:
  assumes "lifo_ok ptr" "lifo_is_not_empty ptr" "lifo_dequeue ptr = (ptr', x)"
  shows "lifo_ok ptr' \<and> lifo_elems ptr = lifo_elems ptr' @ [x]"
proof -
  obtain k where k: "lifo_len ptr = Suc k" using assms(2) by (auto simp: lifo_is_not_empty_def gr0_conv_Suc)
  then have "size_minus_one (lifo_len ptr) = k" using assms(1) by (simp add: size_minus_one_pos lifo_ok_def)
  with assms k show ?thesis by (auto simp: lifo_dequeue_def lifo_peek_def lifo_ok_def lifo_elems_def)
qed

section \<open>Queues\<close>

definition fifo_ok :: "nat \<Rightarrow> nat \<Rightarrow> 'b fifo_t \<Rightarrow> bool" where
  "fifo_ok c n ptr \<longleftrightarrow> fifo_cap ptr = c \<and> fifo_data_len ptr = n \<and> 0 < c \<and> c < 2 ^ 64 \<and> c * n \<le> length (fifo_data ptr) \<and>
     fifo_len ptr \<le> c \<and> fifo_tail ptr < c \<and> fifo_head ptr = (fifo_tail ptr + fifo_len ptr) mod c"

definition fifo_elems :: "'b fifo_t \<Rightarrow> 'b list list" where
  "fifo_elems ptr =
     map (\<lambda>k. slot_get ((fifo_tail ptr + k) mod fifo_cap ptr) (fifo_data_len ptr) (fifo_data ptr)) [0 ..< fifo_len ptr]"

lemma fifo_elems_length [simp]: "length (fifo_elems ptr) = fifo_len ptr"
  by (simp add: fifo_elems_def)

lemma fifo_step_mod: "i < fifo_cap ptr \<Longrightarrow> fifo_step ptr i = (i + 1) mod fifo_cap ptr"
  by (simp add: fifo_step_def Let_def)

lemma fifo_alloc_val:
  "0 < c \<Longrightarrow> c < 2 ^ 64 \<Longrightarrow> c * n \<le> length mem \<Longrightarrow> fifo_ok c n (fifo_alloc mem c n) \<and> fifo_elems (fifo_alloc mem c n) = []"
  by (simp add: fifo_alloc_def fifo_ok_def fifo_elems_def)

lemma fifo_alloc_all_val:
  assumes "fifo_alloc_all mem n = (ptr, c)" "0 < n" "n \<le> length mem" "length mem < 2 ^ 64"
  shows "fifo_ok c n ptr \<and> fifo_elems ptr = []"
proof -
  have "0 < length mem div n" "length mem div n < 2 ^ 64" "length mem div n * n \<le> length mem"
    using assms(2-4) by (simp_all add: div_greater_zero_iff div_times_less_eq_dividend le_less_trans [OF div_le_dividend])
  then show ?thesis using assms(1) by (auto simp: fifo_alloc_all_def fifo_ok_def fifo_elems_def)
qed

lemma fifo_clear_val: "fifo_ok c n ptr \<Longrightarrow> fifo_ok c n (fifo_clear ptr) \<and> fifo_elems (fifo_clear ptr) = []"
  by (simp add: fifo_clear_def fifo_ok_def fifo_elems_def)

lemma fifo_enqueue_val:
  assumes ok: "fifo_ok c n ptr" and x: "length x = n" and room: "fifo_len ptr < c"
  shows "fifo_ok c n (fifo_enqueue ptr x) \<and> fifo_elems (fifo_enqueue ptr x) = fifo_elems ptr @ [x]"
proof -
  have h: "fifo_head ptr = (fifo_tail ptr + fifo_len ptr) mod c" "fifo_head ptr < c" and [simp]: "fifo_cap ptr = c" "fifo_data_len ptr = n"
    and c: "0 < c" "c * n \<le> length (fifo_data ptr)"
    using ok by (auto simp: fifo_ok_def)
  have fit: "(k + 1) * n \<le> length (fifo_data ptr)" if "k < c" for k using slot_room [OF that c(2)] .
  let ?data = "slot_put (fifo_head ptr) n x (fifo_data ptr)"
  have "slot_get ((fifo_tail ptr + k) mod c) n ?data = slot_get ((fifo_tail ptr + k) mod c) n (fifo_data ptr)" if "k < fifo_len ptr" for k
  proof (rule slot_get_put_other [OF x fit fit])
    show "(fifo_tail ptr + k) mod c \<noteq> fifo_head ptr" using circle_distinct [of k c "fifo_len ptr" "fifo_tail ptr"] that room h(1) by auto
  qed (use h c in simp_all)
  moreover have "slot_get (fifo_head ptr) n ?data = x" by (rule slot_get_put_same [OF x fit [OF h(2)]])
  ultimately have "fifo_elems (fifo_enqueue ptr x) = fifo_elems ptr @ [x]"
    using h(1) by (simp add: fifo_elems_def fifo_enqueue_def)
  moreover have "fifo_step ptr (fifo_head ptr) = (fifo_tail ptr + (fifo_len ptr + 1)) mod c"
    using fifo_step_mod [of "fifo_head ptr" ptr] h by (simp add: mod_Suc_eq)
  ultimately show ?thesis
    using ok room length_slot_put [OF x fit [OF h(2)]] by (simp add: fifo_enqueue_def fifo_ok_def)
qed

lemma fifo_dequeue_val:
  assumes ok: "fifo_ok c n ptr" and ne: "fifo_elems ptr \<noteq> []" and run: "fifo_dequeue ptr = (ptr', x)"
  shows "fifo_ok c n ptr' \<and> fifo_elems ptr = x # fifo_elems ptr'"
proof -
  obtain k where k: "fifo_len ptr = Suc k" using ne by (cases "fifo_len ptr") (auto simp: fifo_elems_def)
  have [simp]: "fifo_cap ptr = c" "fifo_data_len ptr = n" and t: "fifo_tail ptr < c" "0 < c" using ok by (auto simp: fifo_ok_def)
  have len: "size_minus_one (fifo_len ptr) = k" using ok k by (simp add: size_minus_one_pos fifo_ok_def)
  have step: "fifo_step ptr (fifo_tail ptr) = (fifo_tail ptr + 1) mod c" using fifo_step_mod [of "fifo_tail ptr" ptr] t by simp
  have next_pos: "((fifo_tail ptr + 1) mod c + i) mod c = (fifo_tail ptr + Suc i) mod c" for i
    by (simp add: mod_add_left_eq)
  have p: "ptr' = ptr\<lparr>fifo_tail := (fifo_tail ptr + 1) mod c, fifo_len := k\<rparr>" "x = slot_get (fifo_tail ptr) n (fifo_data ptr)"
    using run step len by (auto simp: fifo_dequeue_def fifo_peek_def)
  have "fifo_elems ptr = x # fifo_elems ptr'"
    using t next_pos by (simp add: p fifo_elems_def k upt_conv_Cons map_Suc_upt [symmetric] o_def del: upt_Suc)
  moreover have "fifo_ok c n ptr'"
    using ok t k next_pos [of k] by (simp add: p(1) fifo_ok_def)
  ultimately show ?thesis by simp
qed

interpretation fifo: bounded_queue "fifo_ok c n" fifo_elems c "\<lambda>x. length x = n" fifo_enqueue fifo_dequeue for c n
proof (unfold_locales, goal_cases)
  case (1 s x)
  then show ?case by (intro fifo_enqueue_val) simp_all
next
  case (2 s s' x)
  then show ?case by (rule fifo_dequeue_val)
qed

section \<open>The ring buffer as a queue of 1023 bytes\<close>

definition ring_len :: "ring_buf_t \<Rightarrow> nat" where
  "ring_len buf = (unat (ring_tail buf) + 1024 - unat (ring_head buf)) mod 1024"

definition ring_elems :: "ring_buf_t \<Rightarrow> 8 word list" where
  "ring_elems buf = map (\<lambda>k. ring_data buf ! ((unat (ring_head buf) + k) mod 1024)) [0 ..< ring_len buf]"

definition ring_ok :: "ring_buf_t \<Rightarrow> bool" where
  "ring_ok buf \<longleftrightarrow> ring_head buf < 1024 \<and> ring_tail buf < 1024 \<and> length (ring_data buf) = 1024"

lemma ring_elems_length [simp]: "length (ring_elems buf) = ring_len buf"
  by (simp add: ring_elems_def)

lemma ring_next: "w < 1024 \<Longrightarrow> unat ((w + 1) mod BUFFER_SIZE) = (unat w + 1) mod 1024"
proof -
  assume "w < 1024"
  then have "unat w < 1024" by (simp add: word_less_nat_alt)
  then have "unat (w + 1) = unat w + 1" by (simp add: unat_word_ariths)
  then show ?thesis by (simp add: BUFFER_SIZE_def unat_mod_distrib)
qed

lemma ring_positions:
  assumes "ring_ok buf"
  shows "unat (ring_head buf) < 1024" "unat (ring_tail buf) < 1024" "ring_len buf < 1024"
    "unat (ring_tail buf) = (unat (ring_head buf) + ring_len buf) mod 1024"
proof -
  show h: "unat (ring_head buf) < 1024" "unat (ring_tail buf) < 1024" using assms by (simp_all add: ring_ok_def word_less_nat_alt)
  show "ring_len buf < 1024" by (simp add: ring_len_def)
  have "(unat (ring_head buf) + ring_len buf) mod 1024 = (unat (ring_head buf) + (unat (ring_tail buf) + 1024 - unat (ring_head buf))) mod 1024"
    by (simp add: ring_len_def mod_add_right_eq)
  then show "unat (ring_tail buf) = (unat (ring_head buf) + ring_len buf) mod 1024" using h by simp
qed

lemma ring_buf_empty_val: "ring_ok buf \<Longrightarrow> ring_buf_empty buf \<longleftrightarrow> ring_elems buf = []"
proof -
  assume ok: "ring_ok buf"
  note p = ring_positions [OF ok]
  have "ring_head buf = ring_tail buf \<longleftrightarrow> ring_len buf = 0"
  proof (cases "ring_len buf")
    case 0
    with p(1,4) show ?thesis by (simp add: word_unat_eq_iff)
  next
    case (Suc k)
    then have "unat (ring_tail buf) \<noteq> unat (ring_head buf)"
      using circle_other [of 0 "ring_len buf" 1024 "unat (ring_head buf)"] p(1,3) by (subst p(4)) simp
    with Suc show ?thesis by auto
  qed
  then show ?thesis unfolding ring_buf_empty_def by (simp flip: length_0_conv)
qed

lemma ring_full_val:
  assumes ok: "ring_ok buf"
  shows "(ring_tail buf + 1) mod BUFFER_SIZE = ring_head buf \<longleftrightarrow> ring_len buf = 1023"
proof -
  note p = ring_positions [OF ok]
  have "unat ((ring_tail buf + 1) mod BUFFER_SIZE) = (unat (ring_head buf) + Suc (ring_len buf)) mod 1024"
    using ring_next [of "ring_tail buf"] ok p(4) by (simp add: ring_ok_def mod_Suc_eq)
  moreover have "Suc (ring_len buf) = 1024 \<longleftrightarrow> ring_len buf = 1023" by linarith
  ultimately show ?thesis unfolding word_unat_eq_iff using circle_full [OF p(1,3)] by (simp only:)
qed

lemma ring_len_at:
  assumes "h < 1024" "n < 1024"
  shows "((h + n) mod 1024 + 1024 - h) mod 1024 = (n :: nat)"
proof (cases "h + n < 1024")
  case False
  then have "(h + n) mod 1024 = h + n - 1024" using assms by (simp add: mod_if)
  then show ?thesis using False assms by simp
qed (use assms in simp)

lemma ring_buf_put_val:
  assumes ok: "ring_ok buf"
  shows "ring_ok (ring_buf_put buf x) \<and>
    ring_elems (ring_buf_put buf x) = (if ring_len buf < 1023 then ring_elems buf @ [x] else ring_elems buf)"
proof (cases "ring_len buf = 1023")
  case True
  with ring_full_val [OF ok] ok show ?thesis by (simp add: ring_buf_put_def)
next
  case False
  note p = ring_positions [OF ok]
  let ?t = "unat (ring_tail buf)" and ?h = "unat (ring_head buf)"
  have put: "ring_buf_put buf x = buf\<lparr>ring_data := (ring_data buf)[?t := x], ring_tail := (ring_tail buf + 1) mod BUFFER_SIZE\<rparr>"
    using False ring_full_val [OF ok] by (simp add: ring_buf_put_def)
  have t: "unat ((ring_tail buf + 1) mod BUFFER_SIZE) = (?h + Suc (ring_len buf)) mod 1024"
    using ring_next [of "ring_tail buf"] ok p(4) by (simp add: ring_ok_def mod_Suc_eq)
  have len: "ring_len (ring_buf_put buf x) = Suc (ring_len buf)"
    using ring_len_at [OF p(1), of "Suc (ring_len buf)"] t p(3) False unfolding ring_len_def by (simp add: put)
  have "(ring_data buf)[?t := x] ! ((?h + k) mod 1024) = ring_data buf ! ((?h + k) mod 1024)" if "k < ring_len buf" for k
    using circle_other [OF that p(3), of ?h] unfolding p(4) [symmetric] by (intro nth_list_update_neq) simp
  moreover have "(ring_data buf)[?t := x] ! ((?h + ring_len buf) mod 1024) = x" using p(2,4) ok by (simp add: ring_ok_def)
  ultimately have "ring_elems (ring_buf_put buf x) = ring_elems buf @ [x]"
    unfolding ring_elems_def len by (simp add: put)
  moreover have "(ring_tail buf + 1) mod BUFFER_SIZE < 1024" by (simp add: BUFFER_SIZE_def word_mod_less_divisor)
  then have "ring_ok (ring_buf_put buf x)" using ok by (simp add: ring_ok_def put)
  ultimately show ?thesis using False p(3) by simp
qed

lemma ring_buf_get_val:
  assumes ok: "ring_ok buf" and run: "ring_buf_get buf = (buf', x)"
  shows "ring_ok buf' \<and> (if ring_elems buf = [] then buf' = buf \<and> x = 0 else ring_elems buf = x # ring_elems buf')"
proof (cases "ring_elems buf = []")
  case True
  with ring_buf_empty_val [OF ok] ok run show ?thesis by (auto simp: ring_buf_get_def ring_buf_empty_def)
next
  case False
  note p = ring_positions [OF ok]
  let ?h = "unat (ring_head buf)"
  obtain k where k: "ring_len buf = Suc k" using False by (cases "ring_len buf") (auto simp: ring_elems_def)
  have get: "buf' = buf\<lparr>ring_head := (ring_head buf + 1) mod BUFFER_SIZE\<rparr>" "x = ring_data buf ! ?h"
    using False ring_buf_empty_val [OF ok] run by (auto simp: ring_buf_get_def ring_buf_empty_def)
  have h: "unat ((ring_head buf + 1) mod BUFFER_SIZE) = (?h + 1) mod 1024" using ring_next ok by (simp add: ring_ok_def)
  have next_pos: "((?h + 1) mod 1024 + i) mod 1024 = (?h + Suc i) mod 1024" for i by (simp add: mod_add_left_eq)
  have len: "ring_len buf' = k"
  proof -
    have "unat (ring_tail buf) = ((?h + 1) mod 1024 + k) mod 1024" unfolding next_pos p(4) k ..
    then have "ring_len buf' = (((?h + 1) mod 1024 + k) mod 1024 + 1024 - (?h + 1) mod 1024) mod 1024"
      unfolding ring_len_def get(1) by (simp add: h)
    also have "\<dots> = k" by (rule ring_len_at) (use p(3) k in simp_all)
    finally show ?thesis .
  qed
  have "ring_elems buf = x # ring_elems buf'"
    unfolding ring_elems_def len k using p(1) next_pos
    by (simp add: get h upt_conv_Cons map_Suc_upt [symmetric] o_def del: upt_Suc)
  moreover have "(ring_head buf + 1) mod BUFFER_SIZE < 1024" by (simp add: BUFFER_SIZE_def word_mod_less_divisor)
  then have "ring_ok buf'" using ok by (simp add: ring_ok_def get(1))
  ultimately show ?thesis using False by simp
qed

interpretation ring: bounded_queue ring_ok ring_elems 1023 "\<lambda>x. True" ring_buf_put ring_buf_get
proof (unfold_locales, goal_cases)
  case (1 s x)
  then show ?case using ring_buf_put_val [of s x] by simp
next
  case (2 s s' x)
  then show ?case using ring_buf_get_val [of s s' x] by simp
qed

lemma ring_buf_init_val: "ring_ok ring_buf_init \<and> ring_elems ring_buf_init = []"
proof -
  have "unat BUFFER_SIZE = 1024" by (simp add: BUFFER_SIZE_def)
  then show ?thesis by (simp add: ring_buf_init_def ring_ok_def ring_elems_def ring_len_def)
qed

section \<open>The bits of a bitmap\<close>

definition bitmap_ok :: "bitmap_t \<Rightarrow> bool" where
  "bitmap_ok ptr \<longleftrightarrow> length (bitmap_data ptr) = drop_bit CHAR_SHIFT (bitmap_size ptr + CHAR_MASK)"

lemma bit_pos: "drop_bit CHAR_SHIFT i = i div 8" "i AND CHAR_MASK = i mod 8"
  using take_bit_eq_mask [of 3 i] by (simp_all add: CHAR_SHIFT_def CHAR_MASK_def drop_bit_eq_div mask_eq_exp_minus_1 take_bit_eq_mod)

lemma bitmap_bit_get_val: "bitmap_bit_get ptr i = bit (bitmap_data ptr ! (i div 8)) (i mod 8)"
  by (simp add: bitmap_bit_get_def bit_pos and_one_eq mod_2_eq_odd bit_iff_odd_drop_bit)

lemma bitmap_alloc_val: "bitmap_ok (bitmap_alloc n) \<and> (i < n \<longrightarrow> \<not> bitmap_bit_get (bitmap_alloc n) i)"
  by (simp add: bitmap_ok_def bitmap_alloc_def bitmap_bit_get_val) (simp add: bit_pos CHAR_MASK_def)

lemma bitmap_bit_set_val:
  assumes "bitmap_ok ptr" "i < bitmap_size ptr" "j < bitmap_size ptr"
  shows "bitmap_ok (bitmap_bit_set ptr i) \<and> bitmap_bit_get (bitmap_bit_set ptr i) j = (j = i \<or> bitmap_bit_get ptr j)"
proof -
  have "i div 8 < length (bitmap_data ptr)" using assms by (simp add: bitmap_ok_def bit_pos(1) CHAR_MASK_def)
  moreover have "j = i \<longleftrightarrow> j div 8 = i div 8 \<and> j mod 8 = i mod 8" by (metis div_mult_mod_eq)
  ultimately show ?thesis
    using assms by (auto simp: bitmap_ok_def bitmap_bit_set_def bitmap_bit_get_val bit_pos Let_def nth_list_update bit_or_iff bit_exp_iff possible_bit_def)
qed

section \<open>Properties\<close>

text \<open>A queue with room for \<open>cap\<close> elements that drops what does not fit and gives \<open>d\<close> when it is empty.\<close>

fun bounded_run :: "nat \<Rightarrow> 'e \<Rightarrow> 'e list \<Rightarrow> 'e queue_op list \<Rightarrow> 'e list \<times> 'e list" where
  "bounded_run cap d xs [] = (xs, [])"
| "bounded_run cap d xs (QPut x # ops) = bounded_run cap d (if length xs < cap then xs @ [x] else xs) ops"
| "bounded_run cap d [] (QGet # ops) = (let (s, out) = bounded_run cap d [] ops in (s, d # out))"
| "bounded_run cap d (x # xs) (QGet # ops) = (let (s, out) = bounded_run cap d xs ops in (s, x # out))"

lemma ring_run_val:
  "ring_ok buf \<Longrightarrow> ring_elems (fst (queue_run ring_buf_put ring_buf_get buf ops)) = fst (bounded_run 1023 0 (ring_elems buf) ops) \<and>
     snd (queue_run ring_buf_put ring_buf_get buf ops) = snd (bounded_run 1023 0 (ring_elems buf) ops)"
proof (induction ops arbitrary: buf)
  case (Cons c ops)
  show ?case
  proof (cases c)
    case (QPut x)
    with Cons.IH [of "ring_buf_put buf x"] ring_buf_put_val [OF Cons.prems, of x] show ?thesis by simp
  next
    case QGet
    obtain b x where b: "ring_buf_get buf = (b, x)" by (cases "ring_buf_get buf")
    note g = ring_buf_get_val [OF Cons.prems b]
    show ?thesis
    proof (cases "ring_elems buf")
      case Nil
      with g have "b = buf" "x = 0" by simp_all
      with Cons QGet b Nil show ?thesis by (simp add: case_prod_beta Let_def)
    next
      case (Cons y ys)
      with g have "x = y" "ring_elems b = ys" "ring_ok b" by simp_all
      with Cons.IH [of b] QGet b Cons show ?thesis by (simp add: case_prod_beta Let_def)
    qed
  qed
qed simp

text \<open>
  C37: every run of \<open>ring_buf_put\<close> and \<open>ring_buf_get\<close> from \<open>ring_buf_init\<close> is the run of a queue of 1023
  bytes: bytes come out in the order in which they went in, a byte is dropped exactly when 1023 are waiting,
  and 0 comes out of the empty buffer.
\<close>

theorem ring_buf_runs:
  "ring_elems (fst (queue_run ring_buf_put ring_buf_get ring_buf_init ops)) = fst (bounded_run 1023 0 [] ops) \<and>
   snd (queue_run ring_buf_put ring_buf_get ring_buf_init ops) = snd (bounded_run 1023 0 [] ops)"
  using ring_run_val [of ring_buf_init ops] ring_buf_init_val by simp

text \<open>
  C38: a client that respects \<open>fifo_is_not_full\<close> and \<open>fifo_is_not_empty\<close> gets the elements of a queue in the
  order in which it put them in; those that it has not taken yet are in the queue.
\<close>

theorem fifo_keeps_order:
  assumes "0 < c" "c < 2 ^ 64" "c * n \<le> length mem" and "queue_legal (\<lambda>x. length x = n) c 0 ops"
    and "queue_run fifo_enqueue fifo_dequeue (fifo_alloc mem c n) ops = (ptr, out)"
  shows "out @ fifo_elems ptr = queue_puts ops \<and> fifo_size ptr + length out = length (queue_puts ops)"
proof -
  note new = fifo_alloc_val [OF assms(1-3)]
  have "fifo_elems (fifo_alloc mem c n) @ queue_puts ops = out @ fifo_elems ptr"
    using fifo.queue_run_fifo [of c n "fifo_alloc mem c n" ops ptr out] new assms(4,5) by simp
  then have eq: "queue_puts ops = out @ fifo_elems ptr" using new by simp
  show ?thesis unfolding eq by (simp add: fifo_size_def)
qed

lemma fifo_keeps_order_witness:
  "[[1, 2], [3, 4]] @ [[5, 6], [7, 8 :: nat]] =
   queue_puts [QPut [1, 2], QPut [3, 4], QGet, QPut [5, 6], QGet, QPut [7, 8]] \<and> (2 :: nat) + 2 = 4"
proof -
  have run: "queue_run fifo_enqueue fifo_dequeue (fifo_alloc [0, 0, 0, 0] 2 2) [QPut [1, 2], QPut [3, 4], QGet, QPut [5, 6], QGet, QPut [7, 8 :: nat]] =
      (\<lparr> fifo_head = 0, fifo_tail = 0, fifo_len = 2, fifo_cap = 2, fifo_data_len = 2, fifo_data = [5, 6, 7, 8] \<rparr>, [[1, 2], [3, 4]])"
    by (simp add: fifo_alloc_def fifo_enqueue_def fifo_dequeue_def fifo_peek_def slot_put_def slot_get_def fifo_step_def size_minus_one_def
        Let_def)
  show ?thesis
    using fifo_keeps_order [OF _ _ _ _ run] by (simp add: fifo_elems_def slot_get_def fifo_size_def numeral_2_eq_2)
qed

end
