(* ===== verification/OmvList.thy ===== *)
theory OmvList
  imports OmvQueue "HOL-Library.Monad_Syntax"
begin

text \<open>
  The doubly linked list of \<open>omv/img/collections.c\<close>. The links are in a store from addresses to nodes; a
  null or freed pointer that is followed is the result \<open>None\<close>. The address that \<open>xalloc\<close> returns is an
  argument of the functions that allocate, and a value of \<open>data_len\<close> bytes is one element.
\<close>

section \<open>The functions\<close>

record 'b list_lnk =
  next_ptr :: "nat option"
  prev_ptr :: "nat option"
  lnk_data :: 'b

record 'b dlist =
  dl_heap :: "nat \<Rightarrow> 'b list_lnk option"
  dl_head :: "nat option"
  dl_tail :: "nat option"
  dl_size :: nat

definition dl_at :: "'b dlist \<Rightarrow> nat option \<Rightarrow> 'b list_lnk option" where
  "dl_at s p = Option.bind p (dl_heap s)"

definition dl_write :: "nat option \<Rightarrow> ('b list_lnk \<Rightarrow> 'b list_lnk) \<Rightarrow> 'b dlist \<Rightarrow> 'b dlist option" where
  "dl_write p f s = do { a \<leftarrow> p; n \<leftarrow> dl_heap s a; Some (s\<lparr>dl_heap := (dl_heap s)(a \<mapsto> f n)\<rparr>) }"

definition dl_new :: "nat \<Rightarrow> 'b list_lnk \<Rightarrow> 'b dlist \<Rightarrow> 'b dlist" where
  "dl_new a n s = s\<lparr>dl_heap := (dl_heap s)(a \<mapsto> n)\<rparr>"

definition dl_xfree :: "nat option \<Rightarrow> 'b dlist \<Rightarrow> 'b dlist option" where
  "dl_xfree p s = do { a \<leftarrow> p; Some (s\<lparr>dl_heap := (dl_heap s)(a := None)\<rparr>) }"

definition list_init :: "(nat \<Rightarrow> 'b list_lnk option) \<Rightarrow> 'b dlist" where
  "list_init heap = \<lparr> dl_heap = heap, dl_head = None, dl_tail = None, dl_size = 0 \<rparr>"

definition list_push_front :: "nat \<Rightarrow> 'b \<Rightarrow> 'b dlist \<Rightarrow> 'b dlist option" where
  "list_push_front tmp x s =
     (if dl_size s \<noteq> 0 then do {
        s \<leftarrow> Some (dl_new tmp \<lparr> next_ptr = dl_head s, prev_ptr = None, lnk_data = x \<rparr> s);
        s \<leftarrow> dl_write (dl_head s) (\<lambda>n. n\<lparr>prev_ptr := Some tmp\<rparr>) s;
        Some (s\<lparr>dl_head := Some tmp, dl_size := dl_size s + 1\<rparr>)
      } else
        Some (dl_new tmp \<lparr> next_ptr = None, prev_ptr = None, lnk_data = x \<rparr>
          (s\<lparr>dl_head := Some tmp, dl_tail := Some tmp, dl_size := dl_size s + 1\<rparr>)))"

definition list_push_back :: "nat \<Rightarrow> 'b \<Rightarrow> 'b dlist \<Rightarrow> 'b dlist option" where
  "list_push_back tmp x s =
     (if dl_size s \<noteq> 0 then do {
        s \<leftarrow> Some (dl_new tmp \<lparr> next_ptr = None, prev_ptr = dl_tail s, lnk_data = x \<rparr> s);
        s \<leftarrow> dl_write (dl_tail s) (\<lambda>n. n\<lparr>next_ptr := Some tmp\<rparr>) s;
        Some (s\<lparr>dl_tail := Some tmp, dl_size := dl_size s + 1\<rparr>)
      } else
        Some (dl_new tmp \<lparr> next_ptr = None, prev_ptr = None, lnk_data = x \<rparr>
          (s\<lparr>dl_head := Some tmp, dl_tail := Some tmp, dl_size := dl_size s + 1\<rparr>)))"

definition list_pop_front :: "'b dlist \<Rightarrow> ('b dlist \<times> 'b) option" where
  "list_pop_front s = do {
     tmp \<leftarrow> dl_at s (dl_head s);
     s1 \<leftarrow> (if next_ptr tmp \<noteq> None then dl_write (next_ptr tmp) (\<lambda>n. n\<lparr>prev_ptr := None\<rparr>) s else Some s);
     s2 \<leftarrow> dl_xfree (dl_head s) s1;
     Some (s2\<lparr>dl_head := next_ptr tmp, dl_size := size_minus_one (dl_size s)\<rparr>, lnk_data tmp)
   }"

definition list_pop_back :: "'b dlist \<Rightarrow> ('b dlist \<times> 'b) option" where
  "list_pop_back s = do {
     tmp \<leftarrow> dl_at s (dl_tail s);
     s1 \<leftarrow> dl_write (prev_ptr tmp) (\<lambda>n. n\<lparr>next_ptr := None\<rparr>) s;
     s2 \<leftarrow> dl_xfree (dl_tail s) s1;
     Some (s2\<lparr>dl_tail := prev_ptr tmp, dl_size := size_minus_one (dl_size s)\<rparr>, lnk_data tmp)
   }"

definition list_get_front :: "'b dlist \<Rightarrow> 'b option" where
  "list_get_front s = map_option lnk_data (dl_at s (dl_head s))"

definition list_get_back :: "'b dlist \<Rightarrow> 'b option" where
  "list_get_back s = map_option lnk_data (dl_at s (dl_tail s))"

definition list_set_front :: "'b \<Rightarrow> 'b dlist \<Rightarrow> 'b dlist option" where
  "list_set_front x s = dl_write (dl_head s) (\<lambda>n. n\<lparr>lnk_data := x\<rparr>) s"

definition list_set_back :: "'b \<Rightarrow> 'b dlist \<Rightarrow> 'b dlist option" where
  "list_set_back x s = dl_write (dl_tail s) (\<lambda>n. n\<lparr>lnk_data := x\<rparr>) s"

text \<open>The two loops that walk to an index, and the choice between them.\<close>

fun walk_next :: "'b dlist \<Rightarrow> nat \<Rightarrow> nat option \<Rightarrow> nat option option" where
  "walk_next s 0 i = Some i"
| "walk_next s (Suc index) i = do { n \<leftarrow> dl_at s i; walk_next s index (next_ptr n) }"

fun walk_prev :: "'b dlist \<Rightarrow> nat \<Rightarrow> nat option \<Rightarrow> nat option option" where
  "walk_prev s 0 i = Some i"
| "walk_prev s (Suc index) i = do { n \<leftarrow> dl_at s i; walk_prev s index (prev_ptr n) }"

definition walk_to :: "'b dlist \<Rightarrow> nat \<Rightarrow> nat option option" where
  "walk_to s index =
     (if index < drop_bit 1 (dl_size s) then walk_next s index (dl_head s)
      else walk_prev s (dl_size s - index - 1) (dl_tail s))"

definition list_insert_link :: "nat \<Rightarrow> 'b \<Rightarrow> nat \<Rightarrow> 'b dlist \<Rightarrow> 'b dlist option" where
  "list_insert_link tmp x index s =
     (if index = 0 then list_push_front tmp x s
      else if index \<ge> dl_size s then list_push_back tmp x s
      else do {
        i \<leftarrow> walk_to s index;
        n \<leftarrow> dl_at s i;
        s \<leftarrow> Some (dl_new tmp \<lparr> next_ptr = i, prev_ptr = prev_ptr n, lnk_data = x \<rparr> s);
        s \<leftarrow> dl_write (prev_ptr n) (\<lambda>m. m\<lparr>next_ptr := Some tmp\<rparr>) s;
        s \<leftarrow> dl_write i (\<lambda>m. m\<lparr>prev_ptr := Some tmp\<rparr>) s;
        Some (s\<lparr>dl_size := dl_size s + 1\<rparr>)
      })"

definition list_remove :: "nat \<Rightarrow> 'b dlist \<Rightarrow> ('b dlist \<times> 'b) option" where
  "list_remove index s =
     (if index = 0 then list_pop_front s
      else if index \<ge> size_minus_one (dl_size s) then list_pop_back s
      else do {
        i \<leftarrow> walk_to s index;
        n \<leftarrow> dl_at s i;
        s1 \<leftarrow> dl_write (prev_ptr n) (\<lambda>m. m\<lparr>next_ptr := next_ptr n\<rparr>) s;
        s2 \<leftarrow> dl_write (next_ptr n) (\<lambda>m. m\<lparr>prev_ptr := prev_ptr n\<rparr>) s1;
        s3 \<leftarrow> dl_xfree i s2;
        Some (s3\<lparr>dl_size := size_minus_one (dl_size s)\<rparr>, lnk_data n)
      })"

definition list_get :: "nat \<Rightarrow> 'b dlist \<Rightarrow> 'b option" where
  "list_get index s =
     (if index = 0 then list_get_front s
      else if index \<ge> size_minus_one (dl_size s) then list_get_back s
      else do { i \<leftarrow> walk_to s index; n \<leftarrow> dl_at s i; Some (lnk_data n) })"

definition list_set :: "'b \<Rightarrow> nat \<Rightarrow> 'b dlist \<Rightarrow> 'b dlist option" where
  "list_set x index s =
     (if index = 0 then list_set_front x s
      else if index \<ge> size_minus_one (dl_size s) then list_set_back x s
      else do { i \<leftarrow> walk_to s index; dl_write i (\<lambda>n. n\<lparr>lnk_data := x\<rparr>) s })"

text \<open>\<open>list_free\<close> follows the links of the nodes before it frees them; \<open>None\<close> is an access or no end.\<close>

partial_function (option) free_links :: "(nat \<Rightarrow> 'b list_lnk option) \<Rightarrow> nat option \<Rightarrow> (nat \<Rightarrow> 'b list_lnk option) option" where
  "free_links h i =
     (case i of
        None \<Rightarrow> Some h
      | Some a \<Rightarrow> (case h a of None \<Rightarrow> None | Some n \<Rightarrow> free_links (h(a := None)) (next_ptr n)))"

definition list_free :: "'b dlist \<Rightarrow> 'b dlist option" where
  "list_free s = map_option (\<lambda>h. s\<lparr>dl_heap := h\<rparr>) (free_links (dl_heap s) (dl_head s))"

definition list_clear_links :: "'b dlist \<Rightarrow> 'b dlist option" where
  "list_clear_links s = map_option (\<lambda>s. s\<lparr>dl_head := None, dl_tail := None, dl_size := 0\<rparr>) (list_free s)"

text \<open>The data that an iteration over the whole list reads, with \<open>list_size\<close> steps.\<close>

definition iterator_next :: "'b dlist \<Rightarrow> nat option \<Rightarrow> nat option option" where
  "iterator_next s lnk = map_option next_ptr (dl_at s lnk)"

definition iterator_prev :: "'b dlist \<Rightarrow> nat option \<Rightarrow> nat option option" where
  "iterator_prev s lnk = map_option prev_ptr (dl_at s lnk)"

definition iterator_get :: "'b dlist \<Rightarrow> nat option \<Rightarrow> 'b option" where
  "iterator_get s lnk = map_option lnk_data (dl_at s lnk)"

section \<open>A list in the store\<close>

text \<open>
  \<open>links h p ns q\<close>: the nodes of the addresses and elements \<open>ns\<close> are linked in both directions, with \<open>p\<close>
  in front of the first and \<open>q\<close> behind the last.
\<close>

fun first_or :: "(nat \<times> 'b) list \<Rightarrow> nat option \<Rightarrow> nat option" where
  "first_or [] q = q"
| "first_or (n # ns) q = Some (fst n)"

fun last_or :: "nat option \<Rightarrow> (nat \<times> 'b) list \<Rightarrow> nat option" where
  "last_or p [] = p"
| "last_or p (n # ns) = last_or (Some (fst n)) ns"

fun links :: "(nat \<Rightarrow> 'b list_lnk option) \<Rightarrow> nat option \<Rightarrow> (nat \<times> 'b) list \<Rightarrow> nat option \<Rightarrow> bool" where
  "links h p [] q \<longleftrightarrow> True"
| "links h p (n # ns) q \<longleftrightarrow>
     h (fst n) = Some \<lparr> next_ptr = first_or ns q, prev_ptr = p, lnk_data = snd n \<rparr> \<and> links h (Some (fst n)) ns q"

lemma first_or_append [simp]: "first_or (ms @ ns) q = first_or ms (first_or ns q)"
  by (cases ms) simp_all

lemma last_or_append [simp]: "last_or p (ms @ ns) = last_or (last_or p ms) ns"
  by (induction ms arbitrary: p) simp_all

lemma links_append: "links h p (ms @ ns) q \<longleftrightarrow> links h p ms (first_or ns q) \<and> links h (last_or p ms) ns q"
  by (induction ms arbitrary: p) auto

lemma links_frame: "a \<notin> fst ` set ns \<Longrightarrow> links (h(a := v)) p ns q = links h p ns q"
  by (induction ns arbitrary: p) auto

definition dl_rep :: "'b dlist \<Rightarrow> (nat \<times> 'b) list \<Rightarrow> bool" where
  "dl_rep s ns \<longleftrightarrow> distinct (map fst ns) \<and> links (dl_heap s) None ns None \<and> dl_head s = first_or ns None \<and>
     (ns \<noteq> [] \<longrightarrow> dl_tail s = last_or None ns) \<and> dl_size s = length ns \<and> length ns < 2 ^ 64"

lemma links_next:
  "links h p (ms @ [n]) q \<Longrightarrow> fst n \<notin> fst ` set ms \<Longrightarrow> h (fst n) = Some v \<Longrightarrow>
   links (h(fst n \<mapsto> v\<lparr>next_ptr := q'\<rparr>)) p (ms @ [n]) q'"
  by (auto simp: links_append links_frame)

lemma links_prev:
  "links h p (n # ns) q \<Longrightarrow> fst n \<notin> fst ` set ns \<Longrightarrow> h (fst n) = Some v \<Longrightarrow>
   links (h(fst n \<mapsto> v\<lparr>prev_ptr := p'\<rparr>)) p' (n # ns) q"
  by (auto simp: links_frame)

lemma links_node:
  "links h p (ms @ n # ns) q \<Longrightarrow> h (fst n) = Some \<lparr> next_ptr = first_or ns q, prev_ptr = last_or p ms, lnk_data = snd n \<rparr>"
  by (simp add: links_append)

lemma dl_repD:
  assumes "dl_rep s ns"
  shows "distinct (map fst ns)" "links (dl_heap s) None ns None" "dl_head s = first_or ns None"
    "ns \<noteq> [] \<Longrightarrow> dl_tail s = last_or None ns" "dl_size s = length ns" "length ns < 2 ^ 64"
  using assms by (simp_all add: dl_rep_def)

lemma dl_rep_node:
  assumes "dl_rep s (ms @ n # ns)"
  shows "dl_heap s (fst n) = Some \<lparr> next_ptr = first_or ns None, prev_ptr = last_or None ms, lnk_data = snd n \<rparr>"
  using links_node dl_repD(2) [OF assms] by blast

lemma list_init_val: "dl_rep (list_init heap) []"
  by (simp add: dl_rep_def list_init_def)

section \<open>The ends\<close>

lemma list_push_front_val:
  assumes rep: "dl_rep s ns" and new: "tmp \<notin> fst ` set ns" and len: "length ns + 1 < 2 ^ 64"
  shows "\<exists>s'. list_push_front tmp x s = Some s' \<and> dl_rep s' ((tmp, x) # ns)"
proof (cases ns)
  case Nil
  with rep len show ?thesis by (simp add: list_push_front_def dl_rep_def dl_new_def)
next
  case (Cons n ms)
  let ?h = "(dl_heap s)(tmp \<mapsto> \<lparr> next_ptr = Some (fst n), prev_ptr = None, lnk_data = x \<rparr>)"
  let ?v = "\<lparr> next_ptr = first_or ms None, prev_ptr = None, lnk_data = snd n \<rparr>"
  have n: "tmp \<noteq> fst n" "fst n \<notin> fst ` set ms" "tmp \<notin> fst ` set ms" using new dl_repD(1) [OF rep] Cons by auto
  have v: "?h (fst n) = Some ?v" using dl_rep_node [of s "[]" n ms] rep Cons n by simp
  have "links ?h None (n # ms) None" using dl_repD(2) [OF rep] Cons n by (simp add: links_frame)
  from links_prev [where h = ?h and p' = "Some tmp", OF this n(2) v]
  have "links (?h(fst n \<mapsto> ?v\<lparr>prev_ptr := Some tmp\<rparr>)) None ((tmp, x) # n # ms) None" using n by simp
  moreover have "list_push_front tmp x s =
      Some (s\<lparr>dl_heap := ?h(fst n \<mapsto> ?v\<lparr>prev_ptr := Some tmp\<rparr>), dl_head := Some tmp, dl_size := dl_size s + 1\<rparr>)"
    using dl_repD [OF rep] v n Cons by (simp add: list_push_front_def dl_new_def dl_write_def)
  ultimately show ?thesis using rep new len Cons by (simp add: dl_rep_def)
qed

lemma list_push_back_val:
  assumes rep: "dl_rep s ns" and new: "tmp \<notin> fst ` set ns" and len: "length ns + 1 < 2 ^ 64"
  shows "\<exists>s'. list_push_back tmp x s = Some s' \<and> dl_rep s' (ns @ [(tmp, x)])"
proof (cases ns rule: rev_cases)
  case Nil
  with rep len show ?thesis by (simp add: list_push_back_def dl_rep_def dl_new_def)
next
  case (snoc ms n)
  let ?h = "(dl_heap s)(tmp \<mapsto> \<lparr> next_ptr = None, prev_ptr = Some (fst n), lnk_data = x \<rparr>)"
  let ?v = "\<lparr> next_ptr = None, prev_ptr = last_or None ms, lnk_data = snd n \<rparr>"
  have n: "tmp \<noteq> fst n" "fst n \<notin> fst ` set ms" "tmp \<notin> fst ` set ns" using new dl_repD(1) [OF rep] snoc by auto
  have v: "?h (fst n) = Some ?v" using dl_rep_node [of s ms n "[]"] rep snoc n by simp
  have "links ?h None (ms @ [n]) None" using dl_repD(2) [OF rep] snoc n by (simp add: links_frame)
  from links_next [where h = ?h and q' = "Some tmp", OF this n(2) v]
  have "links (?h(fst n \<mapsto> ?v\<lparr>next_ptr := Some tmp\<rparr>)) None ((ms @ [n]) @ [(tmp, x)]) None"
    using n by (subst links_append) simp
  moreover have "list_push_back tmp x s =
      Some (s\<lparr>dl_heap := ?h(fst n \<mapsto> ?v\<lparr>next_ptr := Some tmp\<rparr>), dl_tail := Some tmp, dl_size := dl_size s + 1\<rparr>)"
    using dl_repD [OF rep] v n snoc by (simp add: list_push_back_def dl_new_def dl_write_def)
  ultimately show ?thesis using rep new len snoc by (auto simp: dl_rep_def)
qed

lemma list_pop_front_val:
  assumes rep: "dl_rep s (n # ns)"
  shows "\<exists>s'. list_pop_front s = Some (s', snd n) \<and> dl_rep s' ns"
proof -
  have d: "fst n \<notin> fst ` set ns" "distinct (map fst ns)" using dl_repD(1) [OF rep] by simp_all
  have size: "size_minus_one (dl_size s) = length ns" using dl_repD(5,6) [OF rep] by (simp add: size_minus_one_pos)
  have v: "dl_heap s (fst n) = Some \<lparr> next_ptr = first_or ns None, prev_ptr = None, lnk_data = snd n \<rparr>"
    using dl_rep_node [of s "[]" n ns] rep by simp
  show ?thesis
  proof (cases ns)
    case Nil
    with v size d dl_repD [OF rep] show ?thesis
      by (simp add: list_pop_front_def dl_at_def dl_xfree_def dl_rep_def)
  next
    case (Cons m ms)
    let ?v = "\<lparr> next_ptr = first_or ms None, prev_ptr = Some (fst n), lnk_data = snd m \<rparr>"
    have w: "dl_heap s (fst m) = Some ?v" using dl_rep_node [of s "[n]" m ms] rep Cons by simp
    have "links (dl_heap s) (Some (fst n)) (m # ms) None" using dl_repD(2) [OF rep] Cons by simp
    from links_prev [OF this _ w, of None] d(2) Cons
    have "links ((dl_heap s)(fst m \<mapsto> ?v\<lparr>prev_ptr := None\<rparr>)) None ns None" by simp
    then have "links ((dl_heap s)(fst m \<mapsto> ?v\<lparr>prev_ptr := None\<rparr>, fst n := None)) None ns None" using d by (simp add: links_frame)
    moreover have "list_pop_front s = Some (s\<lparr>dl_heap := (dl_heap s)(fst m \<mapsto> ?v\<lparr>prev_ptr := None\<rparr>, fst n := None),
        dl_head := first_or ns None, dl_size := length ns\<rparr>, snd n)"
      using v w size dl_repD [OF rep] Cons by (simp add: list_pop_front_def dl_at_def dl_write_def dl_xfree_def)
    ultimately show ?thesis using d dl_repD [OF rep] Cons by (simp add: dl_rep_def)
  qed
qed

lemma list_pop_back_val:
  assumes rep: "dl_rep s (ns @ [n])" and ne: "ns \<noteq> []"
  shows "\<exists>s'. list_pop_back s = Some (s', snd n) \<and> dl_rep s' ns"
proof -
  obtain ms m where ns: "ns = ms @ [m]" using ne by (cases ns rule: rev_cases) auto
  have d: "fst n \<notin> fst ` set ns" "distinct (map fst ns)" "fst m \<notin> fst ` set ms" using dl_repD(1) [OF rep] ns by auto
  have size: "size_minus_one (dl_size s) = length ns" using dl_repD(5,6) [OF rep] by (simp add: size_minus_one_pos)
  have v: "dl_heap s (fst n) = Some \<lparr> next_ptr = None, prev_ptr = Some (fst m), lnk_data = snd n \<rparr>"
    using dl_rep_node [of s ns n "[]"] rep ns by simp
  let ?v = "\<lparr> next_ptr = Some (fst n), prev_ptr = last_or None ms, lnk_data = snd m \<rparr>"
  have w: "dl_heap s (fst m) = Some ?v" using dl_rep_node [of s ms m "[n]"] rep ns by simp
  have "links (dl_heap s) None (ms @ [m]) (Some (fst n))" using dl_repD(2) [OF rep] ns by (simp add: links_append)
  from links_next [OF this d(3) w, of None] ns
  have "links ((dl_heap s)(fst m \<mapsto> ?v\<lparr>next_ptr := None\<rparr>)) None ns None" by simp
  then have "links ((dl_heap s)(fst m \<mapsto> ?v\<lparr>next_ptr := None\<rparr>, fst n := None)) None ns None" using d by (simp add: links_frame)
  moreover have "list_pop_back s = Some (s\<lparr>dl_heap := (dl_heap s)(fst m \<mapsto> ?v\<lparr>next_ptr := None\<rparr>, fst n := None),
      dl_tail := Some (fst m), dl_size := length ns\<rparr>, snd n)"
    using v w size dl_repD [OF rep] ns by (simp add: list_pop_back_def dl_at_def dl_write_def dl_xfree_def)
  ultimately show ?thesis using d dl_repD [OF rep] ns by (simp add: dl_rep_def)
qed

section \<open>The middle\<close>

lemma walk_next_val:
  "dl_rep s (ms @ ns) \<Longrightarrow> k < length ns \<Longrightarrow> walk_next s k (first_or ns None) = Some (Some (fst (ns ! k)))"
proof (induction k arbitrary: ms ns)
  case 0
  then show ?case by (cases ns) simp_all
next
  case (Suc k)
  then obtain n ns' where ns: "ns = n # ns'" by (cases ns) auto
  with Suc.IH [of "ms @ [n]" ns'] dl_rep_node [of s ms n ns'] Suc.prems show ?case by (simp add: dl_at_def)
qed

lemma walk_prev_val:
  "dl_rep s (ms @ ns) \<Longrightarrow> k < length ms \<Longrightarrow> walk_prev s k (last_or None ms) = Some (Some (fst (ms ! (length ms - 1 - k))))"
proof (induction k arbitrary: ms ns)
  case 0
  then show ?case by (cases ms rule: rev_cases) (simp_all add: nth_append)
next
  case (Suc k)
  then obtain ms' m where ms: "ms = ms' @ [m]" by (cases ms rule: rev_cases) auto
  with Suc.prems have "k < length ms'" "length ms' - Suc k < length ms'" by simp_all
  with ms Suc.IH [of ms' "m # ns"] dl_rep_node [of s ms' m ns] Suc.prems show ?case by (simp add: dl_at_def nth_append)
qed

lemma walk_to_val: "dl_rep s ns \<Longrightarrow> i < length ns \<Longrightarrow> walk_to s i = Some (Some (fst (ns ! i)))"
  using walk_next_val [of s "[]" ns i] walk_prev_val [of s ns "[]" "length ns - i - 1"] dl_repD(3,4,5) [of s ns]
  by (cases "ns = []") (auto simp: walk_to_def)

lemma list_insert_link_middle:
  assumes rep: "dl_rep s (ms @ n # ns)" and ms: "ms \<noteq> []" and new: "tmp \<notin> fst ` set (ms @ n # ns)"
    and len: "length (ms @ n # ns) + 1 < 2 ^ 64"
  shows "\<exists>s'. list_insert_link tmp x (length ms) s = Some s' \<and> dl_rep s' (ms @ (tmp, x) # n # ns)"
proof -
  obtain ms' m where m: "ms = ms' @ [m]" using ms by (cases ms rule: rev_cases) auto
  have d: "tmp \<noteq> fst n" "tmp \<noteq> fst m" "fst m \<noteq> fst n" "tmp \<notin> fst ` set ms'" "tmp \<notin> fst ` set ns"
    "fst n \<notin> fst ` set ns" "fst n \<notin> fst ` set ms'" "fst m \<notin> fst ` set ms'" "fst m \<notin> fst ` set ns"
    using new dl_repD(1) [OF rep] m by auto
  let ?t = "\<lparr> next_ptr = Some (fst n), prev_ptr = Some (fst m), lnk_data = x \<rparr>"
  let ?m = "\<lparr> next_ptr = Some (fst n), prev_ptr = last_or None ms', lnk_data = snd m \<rparr>"
  let ?n = "\<lparr> next_ptr = first_or ns None, prev_ptr = Some (fst m), lnk_data = snd n \<rparr>"
  have hm: "dl_heap s (fst m) = Some ?m" using dl_rep_node [of s ms' m "n # ns"] rep m by simp
  have hn: "dl_heap s (fst n) = Some ?n" using dl_rep_node [OF rep] m by simp
  let ?h = "(dl_heap s)(tmp \<mapsto> ?t, fst m \<mapsto> ?m\<lparr>next_ptr := Some tmp\<rparr>, fst n \<mapsto> ?n\<lparr>prev_ptr := Some tmp\<rparr>)"
  have old: "links (dl_heap s) None (ms' @ [m]) (Some (fst n))" "links (dl_heap s) (Some (fst m)) (n # ns) None"
    using dl_repD(2) [OF rep] by (simp_all add: links_append m)
  have "links (dl_heap s) None ms' (Some (fst m))" using old(1) by (simp add: links_append)
  then have "links ?h None (ms' @ [m]) (Some tmp)" using d by (simp add: links_append links_frame)
  moreover have "links ?h (Some tmp) (n # ns) None" using old(2) d by (simp add: links_frame)
  moreover have "?h tmp = Some ?t" using d by simp
  ultimately have "links ?h None (ms @ (tmp, x) # n # ns) None" by (simp add: links_append m)
  moreover have "list_insert_link tmp x (length ms) s = Some (s\<lparr>dl_heap := ?h, dl_size := dl_size s + 1\<rparr>)"
    using walk_to_val [OF rep, of "length ms"] dl_repD(5) [OF rep] d hm hn m
    by (simp add: list_insert_link_def dl_at_def dl_new_def dl_write_def nth_append)
  ultimately show ?thesis using rep new len m by (auto simp: dl_rep_def)
qed

lemma list_remove_middle:
  assumes rep: "dl_rep s (ms @ n # ns)" and "ms \<noteq> []" "ns \<noteq> []"
  shows "\<exists>s'. list_remove (length ms) s = Some (s', snd n) \<and> dl_rep s' (ms @ ns)"
proof -
  obtain ms' m where m: "ms = ms' @ [m]" using assms(2) by (cases ms rule: rev_cases) auto
  obtain k ks where k: "ns = k # ks" using assms(3) by (cases ns) auto
  have d: "fst m \<noteq> fst n" "fst m \<noteq> fst k" "fst n \<noteq> fst k" "fst m \<notin> fst ` set ms'" "fst n \<notin> fst ` set ms'" "fst k \<notin> fst ` set ms'"
    "fst m \<notin> fst ` set ks" "fst n \<notin> fst ` set ks" "fst k \<notin> fst ` set ks" "distinct (map fst (ms @ ns))"
    using dl_repD(1) [OF rep] m k by auto
  let ?m = "\<lparr> next_ptr = Some (fst n), prev_ptr = last_or None ms', lnk_data = snd m \<rparr>"
  let ?k = "\<lparr> next_ptr = first_or ks None, prev_ptr = Some (fst n), lnk_data = snd k \<rparr>"
  have hn: "dl_heap s (fst n) = Some \<lparr> next_ptr = Some (fst k), prev_ptr = Some (fst m), lnk_data = snd n \<rparr>"
    using dl_rep_node [OF rep] m k by simp
  have hm: "dl_heap s (fst m) = Some ?m" using dl_rep_node [of s ms' m "n # ns"] rep m by simp
  have hk: "dl_heap s (fst k) = Some ?k" using dl_rep_node [of s "ms @ [n]" k ks] rep k by simp
  let ?h = "(dl_heap s)(fst m \<mapsto> ?m\<lparr>next_ptr := Some (fst k)\<rparr>, fst k \<mapsto> ?k\<lparr>prev_ptr := Some (fst m)\<rparr>, fst n := None)"
  have old: "links (dl_heap s) None ms' (Some (fst m))" "links (dl_heap s) (Some (fst k)) ks None"
    using dl_repD(2) [OF rep] by (simp_all add: links_append m k)
  then have "links ?h None ms' (Some (fst m))" "links ?h (Some (fst k)) ks None" using d by (simp_all add: links_frame)
  then have "links ?h None (ms @ ns) None" using d by (simp add: links_append m k)
  moreover have "\<not> length ms \<ge> length (ms @ n # ns) - 1" using k by simp
  then have "list_remove (length ms) s = Some (s\<lparr>dl_heap := ?h, dl_size := length (ms @ ns)\<rparr>, snd n)"
    using walk_to_val [OF rep, of "length ms"] dl_repD(5,6) [OF rep] d hm hn hk m
    by (simp add: list_remove_def size_minus_one_pos dl_at_def dl_write_def dl_xfree_def nth_append)
  ultimately show ?thesis using rep d m k by (auto simp: dl_rep_def)
qed

section \<open>Reading, writing, freeing\<close>

lemma links_set:
  "links h p (ms @ n # ns) q \<Longrightarrow> distinct (map fst (ms @ n # ns)) \<Longrightarrow> h (fst n) = Some v \<Longrightarrow>
   links (h(fst n \<mapsto> v\<lparr>lnk_data := x\<rparr>)) p (ms @ (fst n, x) # ns) q"
  by (auto simp: links_append links_frame)

lemma dl_write_set:
  assumes rep: "dl_rep s (ms @ n # ns)"
  shows "\<exists>s'. dl_write (Some (fst n)) (\<lambda>m. m\<lparr>lnk_data := x\<rparr>) s = Some s' \<and> dl_rep s' (ms @ (fst n, x) # ns)"
  using links_set [OF dl_repD(2,1) [OF rep] dl_rep_node [OF rep], of x] dl_rep_node [OF rep] rep
  by (auto simp: dl_write_def dl_rep_def)

lemma list_ends:
  assumes rep: "dl_rep s ns" and ne: "ns \<noteq> []"
  shows "dl_head s = Some (fst (hd ns))" "dl_tail s = Some (fst (last ns))"
proof -
  have "first_or ns None = Some (fst (hd ns))" using ne by (cases ns) simp_all
  with dl_repD(3) [OF rep] show "dl_head s = Some (fst (hd ns))" by (rule trans)
  have "last_or None ns = Some (fst (last ns))" using ne by (cases ns rule: rev_cases) simp_all
  with dl_repD(4) [OF rep ne] show "dl_tail s = Some (fst (last ns))" by (rule trans)
qed

text \<open>The index that an access uses: everything behind the last element is the last element.\<close>

definition clamp_index :: "'a list \<Rightarrow> nat \<Rightarrow> nat" where
  "clamp_index xs i = min i (length xs - 1)"

lemma dl_access:
  assumes rep: "dl_rep s ns" and ne: "ns \<noteq> []"
  shows "(if i = 0 then Some (dl_head s) else if i \<ge> size_minus_one (dl_size s) then Some (dl_tail s) else walk_to s i) =
    Some (Some (fst (ns ! clamp_index ns i)))"
proof -
  have "size_minus_one (dl_size s) = length ns - 1" using dl_repD(5,6) [OF rep] ne by (simp add: size_minus_one_pos)
  with list_ends [OF rep ne] walk_to_val [OF rep, of i] ne show ?thesis
    by (auto simp: clamp_index_def min_def hd_conv_nth last_conv_nth)
qed

lemma list_get_val:
  assumes rep: "dl_rep s ns" and ne: "ns \<noteq> []"
  shows "list_get i s = Some (snd (ns ! clamp_index ns i))"
proof -
  let ?j = "clamp_index ns i"
  have j: "?j < length ns" using ne by (cases ns) (auto simp: clamp_index_def)
  have "dl_heap s (fst (ns ! ?j)) = Some \<lparr> next_ptr = first_or (drop (Suc ?j) ns) None, prev_ptr = last_or None (take ?j ns),
      lnk_data = snd (ns ! ?j) \<rparr>"
    using dl_rep_node [of s "take ?j ns" "ns ! ?j" "drop (Suc ?j) ns"] rep j by (simp add: id_take_nth_drop [symmetric])
  with dl_access [OF assms, of i] show ?thesis
    by (auto simp: list_get_def list_get_front_def list_get_back_def dl_at_def split: if_splits)
qed

lemma list_set_val:
  assumes rep: "dl_rep s ns" and ne: "ns \<noteq> []"
  shows "\<exists>s'. list_set x i s = Some s' \<and> dl_rep s' (ns[clamp_index ns i := (fst (ns ! clamp_index ns i), x)])"
proof -
  let ?j = "clamp_index ns i"
  have j: "?j < length ns" using ne by (cases ns) (auto simp: clamp_index_def)
  have "list_set x i s = dl_write (Some (fst (ns ! ?j))) (\<lambda>n. n\<lparr>lnk_data := x\<rparr>) s"
    using dl_access [OF assms, of i] by (auto simp: list_set_def list_set_front_def list_set_back_def split: if_splits)
  then show ?thesis
    using dl_write_set [of s "take ?j ns" "ns ! ?j" "drop (Suc ?j) ns" x] rep j
    by (simp add: id_take_nth_drop [symmetric] upd_conv_take_nth_drop)
qed

lemma free_links_val:
  "links h p ns None \<Longrightarrow> distinct (map fst ns) \<Longrightarrow>
   \<exists>h'. free_links h (first_or ns None) = Some h' \<and> (\<forall>a. h' a = (if a \<in> fst ` set ns then None else h a))"
proof (induction ns arbitrary: h p)
  case Nil
  then show ?case by (subst free_links.simps) simp
next
  case (Cons n ns)
  then have "links (h(fst n := None)) (Some (fst n)) ns None" "distinct (map fst ns)" by (simp_all add: links_frame)
  from Cons.IH [OF this] obtain h' where
    "free_links (h(fst n := None)) (first_or ns None) = Some h'" "\<forall>a. h' a = (if a \<in> fst ` set ns then None else (h(fst n := None)) a)"
    by blast
  with Cons.prems show ?case by (subst free_links.simps) auto
qed

lemma list_clear_links_val:
  assumes rep: "dl_rep s ns"
  shows "\<exists>s'. list_clear_links s = Some s' \<and> dl_rep s' [] \<and> (\<forall>a. dl_heap s' a = (if a \<in> fst ` set ns then None else dl_heap s a))"
  using free_links_val [OF dl_repD(2,1) [OF rep]] dl_repD(3) [OF rep]
  by (auto simp: list_clear_links_def list_free_def dl_rep_def)

section \<open>Runs of calls\<close>

datatype 'b link_call =
    LinkPushFront 'b
  | LinkPushBack 'b
  | LinkPopFront
  | LinkPopBack
  | LinkInsert nat 'b
  | LinkRemove nat
  | LinkGet nat
  | LinkSet nat 'b
  | LinkClear

datatype 'b link_reply = LinkDone | LinkData 'b | LinkMemoryError

text \<open>
  \<open>xalloc\<close> is a function of the store; when it raises, which is before the first write, nothing has changed.
\<close>

definition with_xalloc :: "((nat \<Rightarrow> 'b list_lnk option) \<Rightarrow> nat option) \<Rightarrow> (nat \<Rightarrow> 'b dlist option) \<Rightarrow> 'b dlist \<Rightarrow> ('b dlist \<times> 'b link_reply) option" where
  "with_xalloc xalloc f s =
     (case xalloc (dl_heap s) of None \<Rightarrow> Some (s, LinkMemoryError) | Some tmp \<Rightarrow> map_option (\<lambda>s. (s, LinkDone)) (f tmp))"

fun link_exec ::
  "((nat \<Rightarrow> 'b list_lnk option) \<Rightarrow> nat option) \<Rightarrow> 'b dlist \<Rightarrow> 'b link_call \<Rightarrow> ('b dlist \<times> 'b link_reply) option" where
  "link_exec xalloc s (LinkPushFront x) = with_xalloc xalloc (\<lambda>tmp. list_push_front tmp x s) s"
| "link_exec xalloc s (LinkPushBack x) = with_xalloc xalloc (\<lambda>tmp. list_push_back tmp x s) s"
| "link_exec xalloc s LinkPopFront = map_option (map_prod id LinkData) (list_pop_front s)"
| "link_exec xalloc s LinkPopBack = map_option (map_prod id LinkData) (list_pop_back s)"
| "link_exec xalloc s (LinkInsert i x) = with_xalloc xalloc (\<lambda>tmp. list_insert_link tmp x i s) s"
| "link_exec xalloc s (LinkRemove i) = map_option (map_prod id LinkData) (list_remove i s)"
| "link_exec xalloc s (LinkGet i) = map_option (\<lambda>x. (s, LinkData x)) (list_get i s)"
| "link_exec xalloc s (LinkSet i x) = map_option (\<lambda>s. (s, LinkDone)) (list_set x i s)"
| "link_exec xalloc s LinkClear = map_option (\<lambda>s. (s, LinkDone)) (list_clear_links s)"

fun link_run ::
  "((nat \<Rightarrow> 'b list_lnk option) \<Rightarrow> nat option) \<Rightarrow> 'b dlist \<Rightarrow> 'b link_call list \<Rightarrow> ('b dlist \<times> 'b link_reply list) option" where
  "link_run xalloc s [] = Some (s, [])"
| "link_run xalloc s (c # cs) =
     do { (s, r) \<leftarrow> link_exec xalloc s c; (s, rs) \<leftarrow> link_run xalloc s cs; Some (s, r # rs) }"

text \<open>The calls on a sequence; \<open>None\<close> for the calls that the functions do not handle.\<close>

fun link_spec :: "'b list \<Rightarrow> 'b link_call \<Rightarrow> ('b list \<times> 'b link_reply) option" where
  "link_spec xs (LinkPushFront x) = Some (x # xs, LinkDone)"
| "link_spec xs (LinkPushBack x) = Some (xs @ [x], LinkDone)"
| "link_spec xs LinkPopFront = (if xs = [] then None else Some (tl xs, LinkData (hd xs)))"
| "link_spec xs LinkPopBack = (if length xs < 2 then None else Some (butlast xs, LinkData (last xs)))"
| "link_spec xs (LinkInsert i x) = Some (take i xs @ x # drop i xs, LinkDone)"
| "link_spec xs (LinkRemove i) =
     (if xs = [] \<or> i \<noteq> 0 \<and> length xs < 2 then None
      else let j = clamp_index xs i in Some (take j xs @ drop (Suc j) xs, LinkData (xs ! j)))"
| "link_spec xs (LinkGet i) = (if xs = [] then None else Some (xs, LinkData (xs ! clamp_index xs i)))"
| "link_spec xs (LinkSet i x) = (if xs = [] then None else Some (xs[clamp_index xs i := x], LinkDone))"
| "link_spec xs LinkClear = Some ([], LinkDone)"

fun link_spec_run :: "'b list \<Rightarrow> 'b link_call list \<Rightarrow> ('b list \<times> 'b link_reply list) option" where
  "link_spec_run xs [] = Some (xs, [])"
| "link_spec_run xs (c # cs) = do { (xs, r) \<leftarrow> link_spec xs c; (xs, rs) \<leftarrow> link_spec_run xs cs; Some (xs, r # rs) }"

text \<open>\<open>xalloc\<close> returns a new address at each of the calls, and the size does not overflow.\<close>

fun link_allocs :: "'b link_call \<Rightarrow> bool" where
  "link_allocs (LinkPushFront x) \<longleftrightarrow> True"
| "link_allocs (LinkPushBack x) \<longleftrightarrow> True"
| "link_allocs (LinkInsert i x) \<longleftrightarrow> True"
| "link_allocs c \<longleftrightarrow> False"

fun link_calls_ok ::
  "((nat \<Rightarrow> 'b list_lnk option) \<Rightarrow> nat option) \<Rightarrow> 'b dlist \<Rightarrow> 'b link_call list \<Rightarrow> bool" where
  "link_calls_ok xalloc s [] \<longleftrightarrow> True"
| "link_calls_ok xalloc s (c # cs) \<longleftrightarrow>
     (link_allocs c \<longrightarrow> dl_size s < 2 ^ 63 \<and> (case xalloc (dl_heap s) of None \<Rightarrow> False | Some tmp \<Rightarrow> dl_heap s tmp = None)) \<and>
     (case link_exec xalloc s c of None \<Rightarrow> True | Some (s, r) \<Rightarrow> link_calls_ok xalloc s cs)"

lemma dl_rep_fresh: "dl_rep s ns \<Longrightarrow> dl_heap s tmp = None \<Longrightarrow> tmp \<notin> fst ` set ns"
proof
  assume rep: "dl_rep s ns" and new: "dl_heap s tmp = None" and "tmp \<in> fst ` set ns"
  then obtain n where n: "n \<in> set ns" "tmp = fst n" by auto
  then obtain ms ks where "ns = ms @ n # ks" by (auto simp: in_set_conv_decomp)
  with dl_rep_node [of s ms n ks] rep new n show False by simp
qed

lemma list_insert_link_val:
  assumes rep: "dl_rep s ns" and new: "tmp \<notin> fst ` set ns" and len: "length ns + 1 < 2 ^ 64"
  shows "\<exists>s'. list_insert_link tmp x i s = Some s' \<and> dl_rep s' (take i ns @ (tmp, x) # drop i ns)"
proof -
  consider "i = 0" | "i \<noteq> 0" "length ns \<le> i" | "i \<noteq> 0" "i < length ns" by linarith
  then show ?thesis
  proof cases
    case 1
    with list_push_front_val [OF assms, of x] show ?thesis by (simp add: list_insert_link_def)
  next
    case 2
    with list_push_back_val [OF assms, of x] dl_repD(5) [OF rep] show ?thesis by (simp add: list_insert_link_def)
  next
    case 3
    then have ns: "ns = take i ns @ ns ! i # drop (Suc i) ns" "take i ns \<noteq> []" "length (take i ns) = i" "drop i ns = ns ! i # drop (Suc i) ns"
      by (auto simp: id_take_nth_drop [symmetric] Cons_nth_drop_Suc)
    from list_insert_link_middle [of s "take i ns" "ns ! i" "drop (Suc i) ns" tmp x] rep new len ns show ?thesis by metis
  qed
qed

lemma list_remove_link_val:
  assumes rep: "dl_rep s ns" and ne: "ns \<noteq> []" and two: "i = 0 \<or> 2 \<le> length ns"
  shows "\<exists>s'. list_remove i s = Some (s', snd (ns ! clamp_index ns i)) \<and>
    dl_rep s' (take (clamp_index ns i) ns @ drop (Suc (clamp_index ns i)) ns)"
proof -
  have size: "size_minus_one (dl_size s) = length ns - 1" using dl_repD(5,6) [OF rep] ne by (simp add: size_minus_one_pos)
  consider "i = 0" | "i \<noteq> 0" "length ns - 1 \<le> i" | "i \<noteq> 0" "i < length ns - 1" by linarith
  then show ?thesis
  proof cases
    case 1
    obtain n ms where "ns = n # ms" using ne by (cases ns) auto
    with list_pop_front_val [of s n ms] rep 1 show ?thesis by (simp add: list_remove_def clamp_index_def)
  next
    case 2
    obtain ms n where ns: "ns = ms @ [n]" using ne by (cases ns rule: rev_cases) auto
    then have "ms \<noteq> []" using two 2 by auto
    with list_pop_back_val [of s ms n] rep ns 2 size show ?thesis
      by (simp add: list_remove_def clamp_index_def min_absorb2)
  next
    case 3
    then have ns: "ns = take i ns @ ns ! i # drop (Suc i) ns" "take i ns \<noteq> []" "drop (Suc i) ns \<noteq> []" "length (take i ns) = i"
      by (auto simp: id_take_nth_drop [symmetric])
    from list_remove_middle [of s "take i ns" "ns ! i" "drop (Suc i) ns"] rep ns 3 show ?thesis
      by (simp add: clamp_index_def min_absorb1)
  qed
qed

lemma link_exec_spec:
  assumes rep: "dl_rep s ns" and spec: "link_spec (map snd ns) c = Some (ys, r)"
    and ok: "link_allocs c \<Longrightarrow> dl_size s < 2 ^ 63 \<and> (case xalloc (dl_heap s) of None \<Rightarrow> False | Some tmp \<Rightarrow> dl_heap s tmp = None)"
  shows "\<exists>s' ns'. link_exec xalloc s c = Some (s', r) \<and> dl_rep s' ns' \<and> map snd ns' = ys"
proof -
  have size: "dl_size s = length ns" using dl_repD(5) [OF rep] .
  have tmp: "\<exists>tmp. xalloc (dl_heap s) = Some tmp \<and> tmp \<notin> fst ` set ns \<and> length ns + 1 < 2 ^ 64" if "link_allocs c"
    using ok [OF that] dl_rep_fresh [OF rep] size by (auto split: option.splits)
  show ?thesis
  proof (cases c)
    case (LinkPushFront x)
    with tmp obtain t where t: "xalloc (dl_heap s) = Some t" "t \<notin> fst ` set ns" "length ns + 1 < 2 ^ 64" by auto
    from list_push_front_val [OF rep t(2,3), of x] t(1) spec LinkPushFront show ?thesis by (fastforce simp: with_xalloc_def)
  next
    case (LinkPushBack x)
    with tmp obtain t where t: "xalloc (dl_heap s) = Some t" "t \<notin> fst ` set ns" "length ns + 1 < 2 ^ 64" by auto
    from list_push_back_val [OF rep t(2,3), of x] t(1) spec LinkPushBack show ?thesis by (fastforce simp: with_xalloc_def)
  next
    case LinkPopFront
    with spec obtain n ms where "ns = n # ms" "ys = map snd ms" "r = LinkData (snd n)" by (cases ns) auto
    with list_pop_front_val [of s n ms] rep LinkPopFront show ?thesis by auto
  next
    case LinkPopBack
    with spec have l: "2 \<le> length ns" by (auto split: if_splits)
    then obtain ms n where ns: "ns = ms @ [n]" by (cases ns rule: rev_cases) auto
    with l have "ms \<noteq> []" by auto
    with list_pop_back_val [of s ms n] rep LinkPopBack spec l ns show ?thesis by (auto simp: butlast_append)
  next
    case (LinkInsert i x)
    with tmp obtain t where t: "xalloc (dl_heap s) = Some t" "t \<notin> fst ` set ns" "length ns + 1 < 2 ^ 64" by auto
    from list_insert_link_val [OF rep t(2,3), of x i] t(1) spec LinkInsert show ?thesis
      by (fastforce simp: with_xalloc_def take_map drop_map)
  next
    case (LinkRemove i)
    with spec have ns: "ns \<noteq> []" "i = 0 \<or> 2 \<le> length ns" by (auto split: if_splits)
    have j: "clamp_index (map snd ns) i = clamp_index ns i" "clamp_index ns i < length ns"
      using ns(1) by (cases ns; simp add: clamp_index_def)+
    with list_remove_link_val [OF rep ns] LinkRemove spec ns show ?thesis
      by (fastforce simp: Let_def take_map drop_map split: if_splits)
  next
    case (LinkGet i)
    with spec have ns: "ns \<noteq> []" by (auto split: if_splits)
    have j: "clamp_index (map snd ns) i = clamp_index ns i" "clamp_index ns i < length ns"
      using ns by (cases ns; simp add: clamp_index_def)+
    with list_get_val [OF rep ns, of i] LinkGet spec ns rep show ?thesis by auto
  next
    case (LinkSet i x)
    with spec have ns: "ns \<noteq> []" by (auto split: if_splits)
    have j: "clamp_index (map snd ns) i = clamp_index ns i" by (simp add: clamp_index_def)
    with list_set_val [OF rep ns, of x i] LinkSet spec ns show ?thesis by (fastforce simp: map_update)
  next
    case LinkClear
    with list_clear_links_val [OF rep] spec show ?thesis by auto
  qed
qed

lemma link_run_spec:
  "dl_rep s ns \<Longrightarrow> link_calls_ok xalloc s cs \<Longrightarrow> link_spec_run (map snd ns) cs = Some (ys, rs) \<Longrightarrow>
   \<exists>s' ns'. link_run xalloc s cs = Some (s', rs) \<and> dl_rep s' ns' \<and> map snd ns' = ys"
proof (induction cs arbitrary: s ns rs)
  case (Cons c cs)
  obtain xs r rs' where spec: "link_spec (map snd ns) c = Some (xs, r)" "link_spec_run xs cs = Some (ys, rs')" "rs = r # rs'"
    using Cons.prems(3) by (auto split: bind_split_asm)
  have "link_allocs c \<Longrightarrow> dl_size s < 2 ^ 63 \<and> (case xalloc (dl_heap s) of None \<Rightarrow> False | Some tmp \<Rightarrow> dl_heap s tmp = None)"
    using Cons.prems(2) by simp
  from link_exec_spec [where xalloc = xalloc, OF Cons.prems(1) spec(1) this]
  obtain s1 ns1 where s1: "link_exec xalloc s c = Some (s1, r)" "dl_rep s1 ns1" "map snd ns1 = xs" by blast
  from Cons.IH [OF s1(2), of rs'] s1 spec Cons.prems(2)
  obtain s2 ns2 where "link_run xalloc s1 cs = Some (s2, rs')" "dl_rep s2 ns2" "map snd ns2 = ys" by auto
  with s1 spec(3) show ?case by auto
qed auto

section \<open>Property\<close>

text \<open>
  C39: on a new list every run of the calls that a sequence allows (no access to an empty list, and the back of
  the list is not popped when it is the only element) meets no null or freed pointer, returns what the
  sequence gives, and leaves a well linked list of its elements. Popping the only element from the back follows
  a null pointer.
\<close>

theorem list_links_refine:
  fixes cs :: "'b link_call list"
  assumes "link_calls_ok xalloc (list_init heap) cs" and "link_spec_run [] cs = Some (ys, rs)"
  shows "(\<exists>s' ns. link_run xalloc (list_init heap) cs = Some (s', rs) \<and> dl_rep s' ns \<and> map snd ns = ys) \<and>
    (\<forall>(s :: 'b dlist) n. \<not> (dl_rep s [n] \<and> list_pop_back s \<noteq> None))"
proof -
  have "\<not> (dl_rep s [n] \<and> list_pop_back s \<noteq> None)" for s :: "'b dlist" and n
    by (simp add: list_pop_back_def dl_at_def dl_write_def dl_rep_def)
  moreover have "\<exists>s' ns. link_run xalloc (list_init heap) cs = Some (s', rs) \<and> dl_rep s' ns \<and> map snd ns = ys"
    using link_run_spec [OF list_init_val assms(1)] assms(2) by simp
  ultimately show ?thesis by blast
qed

definition eight_addresses :: "(nat \<Rightarrow> 'b list_lnk option) \<Rightarrow> nat option" where
  "eight_addresses h = List.find (\<lambda>a. h a = None) [1, 2, 3, 4, 5, 6, 7, 8]"

lemma list_links_refine_witness:
  "(\<exists>s' ns. link_run eight_addresses (list_init (\<lambda>_. None))
      [LinkPushBack 10, LinkPushFront 20, LinkInsert 1 30, LinkRemove 1, LinkPushBack 40, LinkSet 5 50, LinkPopBack, LinkGet 9] =
        Some (s', [LinkDone, LinkDone, LinkDone, LinkData 30, LinkDone, LinkDone, LinkData 50, LinkData 10]) \<and>
      dl_rep s' ns \<and> map snd ns = [20, 10 :: int])"
  by (rule list_links_refine [THEN conjunct1])
    (simp_all add: eight_addresses_def list_init_def with_xalloc_def list_push_back_def list_push_front_def list_insert_link_def
      list_remove_def list_set_def list_get_def list_pop_back_def list_set_back_def list_get_back_def walk_to_def dl_new_def
      dl_write_def dl_at_def dl_xfree_def size_minus_one_pos clamp_index_def drop_bit_eq_div)

end
