(* ===== verification/FbAlloc.thy ===== *)
theory FbAlloc
  imports Prelude "HOL-Library.Word"
begin

text \<open>
  The stack of frame buffer memory (\<open>omv/fb_alloc.c\<close>): it grows down from \<open>_fballoc\<close>, here \<open>upper\<close>, to the end
  of the picture, \<open>MAIN_FB_PIXELS()\<close>, here \<open>pix\<close>. The word in front of each block holds the size of the block
  with that word. Addresses and sizes are 64-bit words; the memory is a function from word addresses.
\<close>

section \<open>The functions\<close>

record fb_state =
  fb_pointer :: "64 word"
  fb_mem :: "64 word \<Rightarrow> 64 word"

datatype fb_error = FbMemoryError

definition fb_alloc_init0 :: "64 word \<Rightarrow> fb_state \<Rightarrow> fb_state" where
  "fb_alloc_init0 upper s = s\<lparr>fb_pointer := upper\<rparr>"

text \<open>The comparison with \<open>sizeof\<close> is one of unsigned numbers.\<close>

definition fb_avail :: "64 word \<Rightarrow> fb_state \<Rightarrow> 64 word" where
  "fb_avail pix s = (let temp = fb_pointer s - pix - 8 in if temp < 8 then 0 else temp)"

definition fb_alloc_mark :: "64 word \<Rightarrow> fb_state \<Rightarrow> fb_state \<times> (fb_error + unit)" where
  "fb_alloc_mark pix s =
     (let new_pointer = fb_pointer s - 8
      in if new_pointer < pix then (s, Inl FbMemoryError)
         else (s\<lparr>fb_mem := (fb_mem s)(new_pointer := 8), fb_pointer := new_pointer\<rparr>, Inr ()))"

text \<open>The pointer that is returned, 0 for \<open>NULL\<close>.\<close>

definition fb_alloc :: "64 word \<Rightarrow> fb_state \<Rightarrow> 64 word \<Rightarrow> fb_state \<times> (fb_error + 64 word)" where
  "fb_alloc pix s n =
     (if n = 0 then (s, Inr 0)
      else
        let n = ((n + 8 - 1) div 8) * 8; result = fb_pointer s - n; new_pointer = result - 8
        in if new_pointer < pix then (s, Inl FbMemoryError)
           else (s\<lparr>fb_mem := (fb_mem s)(new_pointer := n + 8), fb_pointer := new_pointer\<rparr>, Inr result))"

definition fb_alloc_all :: "64 word \<Rightarrow> fb_state \<Rightarrow> fb_state \<times> 64 word \<times> 64 word" where
  "fb_alloc_all pix s =
     (let temp = fb_pointer s - pix - 8
      in if temp < 8 then (s, 0, 0)
         else
           let n = (temp div 8) * 8; result = fb_pointer s - n; new_pointer = result - 8
           in (s\<lparr>fb_mem := (fb_mem s)(new_pointer := n + 8), fb_pointer := new_pointer\<rparr>, result, n))"

text \<open>\<open>memset\<close> with 0 on memory that is kept in little-endian words; the last word may be covered in part.\<close>

definition fb_memset0 :: "64 word \<Rightarrow> 64 word \<Rightarrow> fb_state \<Rightarrow> fb_state" where
  "fb_memset0 p n s =
     (let k = unat n div 8; r = unat n mod 8; rest = p + of_nat (8 * k);
          m = fold (\<lambda>i m. m(p + of_nat (8 * i) := 0)) [0 ..< k] (fb_mem s)
      in s\<lparr>fb_mem := (if r = 0 then m else m(rest := m rest AND NOT (mask (8 * r))))\<rparr>)"

definition fb_alloc0 :: "64 word \<Rightarrow> fb_state \<Rightarrow> 64 word \<Rightarrow> fb_state \<times> (fb_error + 64 word)" where
  "fb_alloc0 pix s n =
     (case fb_alloc pix s n of (s, Inl e) \<Rightarrow> (s, Inl e) | (s, Inr p) \<Rightarrow> (fb_memset0 p n s, Inr p))"

definition fb_alloc0_all :: "64 word \<Rightarrow> fb_state \<Rightarrow> fb_state \<times> 64 word \<times> 64 word" where
  "fb_alloc0_all pix s = (case fb_alloc_all pix s of (s, p, n) \<Rightarrow> (fb_memset0 p n s, p, n))"

definition fb_free :: "64 word \<Rightarrow> fb_state \<Rightarrow> fb_state" where
  "fb_free upper s =
     (if fb_pointer s < upper then s\<lparr>fb_pointer := fb_pointer s + fb_mem s (fb_pointer s)\<rparr> else s)"

text \<open>The two loops; \<open>None\<close> when they do not end. In the first the size is an \<open>int\<close>.\<close>

partial_function (option) fb_alloc_free_till_mark :: "64 word \<Rightarrow> fb_state \<Rightarrow> fb_state option" where
  "fb_alloc_free_till_mark upper s =
     (if fb_pointer s < upper then
        let n = ucast (fb_mem s (fb_pointer s)) :: 32 word; s = s\<lparr>fb_pointer := fb_pointer s + scast n\<rparr>
        in if n = 8 then Some s else fb_alloc_free_till_mark upper s
      else Some s)"

partial_function (option) fb_free_all :: "64 word \<Rightarrow> fb_state \<Rightarrow> fb_state option" where
  "fb_free_all upper s =
     (if fb_pointer s < upper then fb_free_all upper (s\<lparr>fb_pointer := fb_pointer s + fb_mem s (fb_pointer s)\<rparr>)
      else Some s)"

section \<open>The stack of blocks\<close>

lemma unat64: "unat (w :: 64 word) < 2 ^ 64"
  using unsigned_less [of w, where 'a = nat] by simp

text \<open>The sizes of the blocks with their headers, from the last one on; a mark is a block of 8 bytes.\<close>

fun fb_chain :: "(64 word \<Rightarrow> 64 word) \<Rightarrow> nat \<Rightarrow> nat list \<Rightarrow> nat \<Rightarrow> bool" where
  "fb_chain m p [] upper \<longleftrightarrow> p = upper"
| "fb_chain m p (b # bs) upper \<longleftrightarrow> m (of_nat p) = of_nat b \<and> 8 \<le> b \<and> b < 2 ^ 31 \<and> fb_chain m (p + b) bs upper"

definition fb_rep :: "64 word \<Rightarrow> fb_state \<Rightarrow> nat list \<Rightarrow> bool" where
  "fb_rep upper s bs \<longleftrightarrow> fb_chain (fb_mem s) (unat (fb_pointer s)) bs (unat upper)"

lemma fb_chain_top: "fb_chain m p bs upper \<Longrightarrow> p + sum_list bs = upper"
  by (induction bs arbitrary: p) fastforce+

lemma fb_chain_frame:
  "fb_chain m p bs upper \<Longrightarrow> a < p \<Longrightarrow> upper < 2 ^ 64 \<Longrightarrow> fb_chain (m(of_nat a := v)) p bs upper"
proof (induction bs arbitrary: p)
  case (Cons b bs)
  have "p < 2 ^ 64" using fb_chain_top [OF Cons.prems(1)] Cons.prems(3) by simp
  then have "(of_nat a :: 64 word) \<noteq> of_nat p" using Cons.prems(2) by (simp add: of_nat_inverse word_unat_eq_iff unat_of_nat)
  with Cons show ?case by simp
qed simp

lemma fb_rep_top: "fb_rep upper s bs \<Longrightarrow> unat (fb_pointer s) + sum_list bs = unat upper"
  unfolding fb_rep_def by (rule fb_chain_top)

text \<open>Pushing a block, popping one.\<close>

lemma fb_rep_push:
  assumes rep: "fb_rep upper s bs" and b: "8 \<le> b" "b < 2 ^ 31" "b \<le> unat (fb_pointer s)"
  shows "fb_rep upper (s\<lparr>fb_mem := (fb_mem s)(fb_pointer s - of_nat b := of_nat b), fb_pointer := fb_pointer s - of_nat b\<rparr>) (b # bs)"
proof -
  let ?p = "fb_pointer s - of_nat b"
  have lt: "unat (fb_pointer s) < 2 ^ 64" using unat64 .
  then have "unat (of_nat b :: 64 word) = b" using b(3) by (simp add: unat_of_nat)
  then have p: "unat ?p = unat (fb_pointer s) - b" using b(3) by (simp add: unat_sub word_le_nat_alt)
  have "unat upper < 2 ^ 64" using unat64 .
  from fb_chain_frame [OF rep [unfolded fb_rep_def] _ this, of "unat ?p" "of_nat b"] p b
  have "fb_chain ((fb_mem s)(?p := of_nat b)) (unat (fb_pointer s)) bs (unat upper)" by simp
  then show ?thesis using p b by (simp add: fb_rep_def)
qed

lemma fb_rep_pop:
  assumes rep: "fb_rep upper s (b # bs)"
  shows "fb_pointer s < upper" "fb_mem s (fb_pointer s) = of_nat b" "8 \<le> b" "b < 2 ^ 31"
    "fb_rep upper (s\<lparr>fb_pointer := fb_pointer s + of_nat b\<rparr>) bs"
proof -
  have c: "fb_mem s (fb_pointer s) = of_nat b" "8 \<le> b" "b < 2 ^ 31" "fb_chain (fb_mem s) (unat (fb_pointer s) + b) bs (unat upper)"
    using rep by (simp_all add: fb_rep_def)
  then show "fb_mem s (fb_pointer s) = of_nat b" "8 \<le> b" "b < 2 ^ 31" by simp_all
  have upper: "unat (fb_pointer s) + b + sum_list bs = unat upper" using fb_chain_top [OF c(4)] .
  then show "fb_pointer s < upper" using c(2) by (simp add: word_less_nat_alt)
  have "unat upper < 2 ^ 64" using unat64 .
  then have "unat (fb_pointer s + of_nat b) = unat (fb_pointer s) + b"
    using upper by (simp add: unat_word_ariths unat_of_nat)
  then show "fb_rep upper (s\<lparr>fb_pointer := fb_pointer s + of_nat b\<rparr>) bs" using c(4) by (simp add: fb_rep_def)
qed

lemma fb_rep_empty: "fb_rep upper s [] \<longleftrightarrow> fb_pointer s = upper"
  by (simp add: fb_rep_def word_unat_eq_iff)

lemma fb_alloc_init0_val: "fb_rep upper (fb_alloc_init0 upper s) []"
  by (simp add: fb_rep_empty fb_alloc_init0_def)

lemma fb_free_val: "fb_rep upper s bs \<Longrightarrow> fb_rep upper (fb_free upper s) (tl bs)"
proof (cases bs)
  case Nil
  then show "fb_rep upper s bs \<Longrightarrow> fb_rep upper (fb_free upper s) (tl bs)" by (simp add: fb_rep_empty fb_free_def)
next
  case (Cons b bs')
  assume "fb_rep upper s bs"
  with fb_rep_pop [of upper s b bs'] Cons show ?thesis by (simp add: fb_free_def)
qed

lemma fb_free_all_val: "fb_rep upper s bs \<Longrightarrow> \<exists>s'. fb_free_all upper s = Some s' \<and> fb_rep upper s' [] \<and> fb_mem s' = fb_mem s"
proof (induction bs arbitrary: s)
  case Nil
  then show ?case by (subst fb_free_all.simps) (simp add: fb_rep_empty)
next
  case (Cons b bs)
  note p = fb_rep_pop [OF Cons.prems]
  from Cons.IH [OF p(5)] p(1,2) show ?case by (subst fb_free_all.simps) simp
qed

text \<open>The blocks behind the last mark; none when there is no mark.\<close>

definition behind_mark :: "nat list \<Rightarrow> nat list" where
  "behind_mark bs = tl (dropWhile (\<lambda>b. b \<noteq> 8) bs)"

lemma fb_free_till_mark_val:
  "fb_rep upper s bs \<Longrightarrow> \<exists>s'. fb_alloc_free_till_mark upper s = Some s' \<and> fb_rep upper s' (behind_mark bs) \<and> fb_mem s' = fb_mem s"
proof (induction bs arbitrary: s)
  case Nil
  then show ?case by (subst fb_alloc_free_till_mark.simps) (simp add: fb_rep_empty behind_mark_def)
next
  case (Cons b bs)
  note p = fb_rep_pop [OF Cons.prems]
  have u: "unat (ucast (of_nat b :: 64 word) :: 32 word) = b"
    using p(4) by (simp add: unsigned_ucast_eq unsigned_of_nat take_bit_nat_eq_self)
  then have n: "(ucast (of_nat b :: 64 word) :: 32 word) = of_nat b" unfolding word_unat_eq_iff u
    using p(4) by (simp add: unsigned_of_nat take_bit_nat_eq_self)
  have s: "(scast (of_nat b :: 32 word) :: 64 word) = of_nat b"
    using p(4) by (simp add: scast_eq signed_of_nat signed_take_bit_int_eq_self)
  have eight: "(of_nat b :: 32 word) = 8 \<longleftrightarrow> b = 8"
    using u unfolding n by (auto simp: word_unat_eq_iff)
  show ?case
  proof (cases "b = 8")
    case True
    with p show ?thesis by (subst fb_alloc_free_till_mark.simps) (simp add: Let_def n s eight behind_mark_def)
  next
    case False
    with Cons.IH [OF p(5)] p show ?thesis
      by (subst fb_alloc_free_till_mark.simps) (simp add: Let_def n s eight behind_mark_def)
  qed
qed

section \<open>Runs\<close>

datatype fb_op =
    FbAlloc "64 word"
  | FbAlloc0 "64 word"
  | FbAllocAll
  | FbAlloc0All
  | FbAvail
  | FbMark
  | FbFree
  | FbFreeTillMark
  | FbFreeAll
  | FbWrite "64 word" "64 word"

datatype fb_reply = FbDone | FbPtr nat | FbBlock nat nat | FbSize nat | FbRaised

fun fb_exec :: "64 word \<Rightarrow> 64 word \<Rightarrow> fb_state \<Rightarrow> fb_op \<Rightarrow> (fb_state \<times> fb_reply) option" where
  "fb_exec upper pix s (FbAlloc n) =
     Some (map_prod id (\<lambda>r. case r of Inl e \<Rightarrow> FbRaised | Inr p \<Rightarrow> FbPtr (unat p)) (fb_alloc pix s n))"
| "fb_exec upper pix s FbAllocAll = (case fb_alloc_all pix s of (s, p, n) \<Rightarrow> Some (s, FbBlock (unat p) (unat n)))"
| "fb_exec upper pix s (FbAlloc0 n) =
     Some (map_prod id (\<lambda>r. case r of Inl e \<Rightarrow> FbRaised | Inr p \<Rightarrow> FbPtr (unat p)) (fb_alloc0 pix s n))"
| "fb_exec upper pix s FbAlloc0All = (case fb_alloc0_all pix s of (s, p, n) \<Rightarrow> Some (s, FbBlock (unat p) (unat n)))"
| "fb_exec upper pix s FbAvail = Some (s, FbSize (unat (fb_avail pix s)))"
| "fb_exec upper pix s FbMark =
     Some (map_prod id (\<lambda>r. case r of Inl e \<Rightarrow> FbRaised | Inr _ \<Rightarrow> FbDone) (fb_alloc_mark pix s))"
| "fb_exec upper pix s FbFree = Some (fb_free upper s, FbDone)"
| "fb_exec upper pix s FbFreeTillMark = map_option (\<lambda>s. (s, FbDone)) (fb_alloc_free_till_mark upper s)"
| "fb_exec upper pix s FbFreeAll = map_option (\<lambda>s. (s, FbDone)) (fb_free_all upper s)"
| "fb_exec upper pix s (FbWrite a v) = Some (s\<lparr>fb_mem := (fb_mem s)(a := v)\<rparr>, FbDone)"

fun fb_run :: "64 word \<Rightarrow> 64 word \<Rightarrow> fb_state \<Rightarrow> fb_op list \<Rightarrow> (fb_state \<times> fb_reply list) option" where
  "fb_run upper pix s [] = Some (s, [])"
| "fb_run upper pix s (c # cs) =
     (case fb_exec upper pix s c of
        None \<Rightarrow> None
      | Some (s, r) \<Rightarrow> map_option (\<lambda>(s, rs). (s, r # rs)) (fb_run upper pix s cs))"

text \<open>A word of one of the blocks, behind its header.\<close>

fun fb_owns :: "nat \<Rightarrow> nat list \<Rightarrow> nat \<Rightarrow> bool" where
  "fb_owns p [] a \<longleftrightarrow> False"
| "fb_owns p (b # bs) a \<longleftrightarrow> p + 8 \<le> a \<and> a + 8 \<le> p + b \<or> fb_owns (p + b) bs a"

text \<open>
  The same calls on the stack of block sizes, between the addresses \<open>pix\<close> and \<open>upper\<close>; \<open>None\<close> for requests of
  more than \<open>2 ^ 30\<close> bytes, for questions about what is left when that is less than 8 bytes, and for writes
  outside of the blocks.
\<close>

function fb_spec :: "nat \<Rightarrow> nat \<Rightarrow> nat list \<Rightarrow> fb_op \<Rightarrow> (nat list \<times> fb_reply) option" where
  "fb_spec upper pix bs (FbAlloc w) =
     (let p = upper - sum_list bs; n = (unat w + 7) div 8 * 8
      in if unat w > 2 ^ 30 then None
         else if w = 0 then Some (bs, FbPtr 0)
         else if pix + (n + 8) \<le> p then Some ((n + 8) # bs, FbPtr (p - n))
         else Some (bs, FbRaised))"
| "fb_spec upper pix bs FbAllocAll =
     (let p = upper - sum_list bs; n = (p - pix - 8) div 8 * 8
      in if p < pix + 8 then None
         else if p < pix + 16 then Some (bs, FbBlock 0 0)
         else Some ((n + 8) # bs, FbBlock (p - n) n))"
| "fb_spec upper pix bs (FbAlloc0 w) = fb_spec upper pix bs (FbAlloc w)"
| "fb_spec upper pix bs FbAlloc0All = fb_spec upper pix bs FbAllocAll"
| "fb_spec upper pix bs FbAvail =
     (let p = upper - sum_list bs
      in if p < pix + 8 then None else Some (bs, FbSize (if p < pix + 16 then 0 else p - pix - 8)))"
| "fb_spec upper pix bs FbMark =
     (if pix + 8 \<le> upper - sum_list bs then Some (8 # bs, FbDone) else Some (bs, FbRaised))"
| "fb_spec upper pix bs FbFree = Some (tl bs, FbDone)"
| "fb_spec upper pix bs FbFreeTillMark = Some (behind_mark bs, FbDone)"
| "fb_spec upper pix bs FbFreeAll = Some ([], FbDone)"
| "fb_spec upper pix bs (FbWrite a v) = (if fb_owns (upper - sum_list bs) bs (unat a) then Some (bs, FbDone) else None)"
  by pat_completeness auto

termination
  by (relation "measure (\<lambda>(upper, pix, bs, c). case c of FbAlloc0 w \<Rightarrow> 1 | FbAlloc0All \<Rightarrow> 1 | _ \<Rightarrow> 0)") simp_all

fun fb_spec_run :: "nat \<Rightarrow> nat \<Rightarrow> nat list \<Rightarrow> fb_op list \<Rightarrow> (nat list \<times> fb_reply list) option" where
  "fb_spec_run upper pix bs [] = Some (bs, [])"
| "fb_spec_run upper pix bs (c # cs) =
     (case fb_spec upper pix bs c of
        None \<Rightarrow> None
      | Some (bs, r) \<Rightarrow> map_option (\<lambda>(bs, rs). (bs, r # rs)) (fb_spec_run upper pix bs cs))"

text \<open>The memory of the board: it begins at \<open>0x80000000\<close>, and the frame buffer is smaller than 2 GB.\<close>

definition fb_place :: "64 word \<Rightarrow> 64 word \<Rightarrow> bool" where
  "fb_place upper pix \<longleftrightarrow> 2 ^ 31 \<le> unat pix \<and> unat pix \<le> unat upper \<and> unat upper < unat pix + 2 ^ 31 \<and> unat upper < 2 ^ 63"

definition fb_inv :: "64 word \<Rightarrow> 64 word \<Rightarrow> fb_state \<Rightarrow> nat list \<Rightarrow> bool" where
  "fb_inv upper pix s bs \<longleftrightarrow> fb_place upper pix \<and> fb_rep upper s bs \<and> unat pix \<le> unat (fb_pointer s)"

lemma fb_chain_write:
  "fb_chain m p bs upper \<Longrightarrow> fb_owns p bs a \<Longrightarrow> upper < 2 ^ 64 \<Longrightarrow> fb_chain (m(of_nat a := v)) p bs upper"
proof (induction bs arbitrary: p)
  case (Cons b bs)
  have sum: "p + (b + sum_list bs) = upper" using fb_chain_top [OF Cons.prems(1)] by simp
  have own_less: "a < q + sum_list cs" if "fb_owns q cs a" for q cs using that by (induction cs arbitrary: q) fastforce+
  have a: "a < upper" "p < upper" "p \<noteq> a"
  proof -
    show "a < upper" using own_less [OF Cons.prems(2)] sum by simp
    have "8 \<le> b" using Cons.prems(1) by simp
    with sum show "p < upper" by simp
    have own_ge: "q \<le> a" if "fb_owns q cs a" for q cs using that by (induction cs arbitrary: q) fastforce+
    from own_ge [of "p + b" bs] Cons.prems(2) \<open>8 \<le> b\<close> show "p \<noteq> a" by auto
  qed
  then have ne: "(of_nat a :: 64 word) \<noteq> of_nat p"
    using Cons.prems(3) by (simp add: word_unat_eq_iff unsigned_of_nat take_bit_nat_eq_self)
  have "fb_chain (m(of_nat a := v)) (p + b) bs upper"
  proof (cases "fb_owns (p + b) bs a")
    case True
    have "fb_chain m (p + b) bs upper" using Cons.prems(1) by simp
    from Cons.IH [OF this True Cons.prems(3)] show ?thesis .
  next
    case False
    with Cons.prems(2) have "a < p + b" by auto
    with fb_chain_frame [of m "p + b" bs upper a v] Cons.prems(1,3) show ?thesis by simp
  qed
  moreover have "(m(of_nat a := v)) (of_nat p) = of_nat b" "8 \<le> b" "b < 2 ^ 31" using Cons.prems(1) ne by simp_all
  ultimately show ?case by (simp only: fb_chain.simps simp_thms)
qed simp

lemma fb_inv_pointer: "fb_inv upper pix s bs \<Longrightarrow> unat upper - sum_list bs = unat (fb_pointer s)"
  using fb_rep_top [of upper s bs] by (auto simp: fb_inv_def)

lemma fb_inv_push:
  assumes inv: "fb_inv upper pix s bs" and b: "8 \<le> b" "unat pix + b \<le> unat (fb_pointer s)"
  shows "fb_inv upper pix (s\<lparr>fb_mem := (fb_mem s)(fb_pointer s - of_nat b := of_nat b), fb_pointer := fb_pointer s - of_nat b\<rparr>) (b # bs)"
    and "unat (fb_pointer s - of_nat b) = unat (fb_pointer s) - b"
proof -
  have top: "unat (fb_pointer s) \<le> unat upper" "fb_place upper pix" "fb_rep upper s bs"
    using fb_rep_top [of upper s bs] inv by (auto simp: fb_inv_def)
  then have "b < 2 ^ 31" "b \<le> unat (fb_pointer s)" using b(2) by (simp_all add: fb_place_def)
  from fb_rep_push [OF top(3) b(1) this] have rep: "fb_rep upper
      (s\<lparr>fb_mem := (fb_mem s)(fb_pointer s - of_nat b := of_nat b), fb_pointer := fb_pointer s - of_nat b\<rparr>) (b # bs)" .
  from fb_rep_top [OF rep] fb_rep_top [OF top(3)] show p: "unat (fb_pointer s - of_nat b) = unat (fb_pointer s) - b" by simp
  with rep top b show "fb_inv upper pix (s\<lparr>fb_mem := (fb_mem s)(fb_pointer s - of_nat b := of_nat b), fb_pointer := fb_pointer s - of_nat b\<rparr>) (b # bs)"
    by (simp add: fb_inv_def)
qed

lemma fb_inv_less: "fb_inv upper pix s bs \<Longrightarrow> fb_rep upper s' bs' \<Longrightarrow> sum_list bs' \<le> sum_list bs \<Longrightarrow> fb_inv upper pix s' bs'"
  using fb_rep_top [of upper s bs] fb_rep_top [of upper s' bs'] by (auto simp: fb_inv_def)

lemma fb_round:
  fixes w :: "64 word"
  assumes "unat w \<le> 2 ^ 30"
  shows "((w + 8 - 1) div 8) * 8 = of_nat ((unat w + 7) div 8 * 8)" and "w \<noteq> 0 \<Longrightarrow> 8 \<le> (unat w + 7) div 8 * 8"
proof -
  have "unat (w + 7) = unat w + 7" using assms by (simp add: unat_word_ariths)
  then have d: "unat ((w + 7) div 8) = (unat w + 7) div 8" by (simp add: unat_div_distrib)
  have "(unat w + 7) div 8 * 8 \<le> unat w + 7" by simp
  then have "(unat w + 7) div 8 * 8 < 2 ^ 64" using assms by simp
  with d have eq: "unat ((w + 7) div 8 * 8) = (unat w + 7) div 8 * 8" by (simp add: unat_word_ariths)
  have "w + 8 - 1 = w + 7" by simp
  then show "((w + 8 - 1) div 8) * 8 = of_nat ((unat w + 7) div 8 * 8)" unfolding eq [symmetric] by (simp add: add.commute)
  assume "w \<noteq> 0"
  then have "0 < unat w" by (simp add: unat_gt_0)
  then show "8 \<le> (unat w + 7) div 8 * 8" by simp
qed

lemma fb_sub: "b \<le> unat (p :: 64 word) \<Longrightarrow> unat (p - of_nat b) = unat p - b"
proof -
  assume b: "b \<le> unat p"
  then have "unat (of_nat b :: 64 word) = b" using unat64 [of p] by (simp add: unsigned_of_nat take_bit_nat_eq_self)
  then show ?thesis using b by (simp add: unat_sub word_le_nat_alt)
qed

lemma fb_alloc_val:
  assumes inv: "fb_inv upper pix s bs" and w: "unat w \<le> 2 ^ 30" "w \<noteq> 0" and n: "n = (unat w + 7) div 8 * 8"
  shows "if unat pix + (n + 8) \<le> unat (fb_pointer s)
    then \<exists>s' p. fb_alloc pix s w = (s', Inr p) \<and> unat p = unat (fb_pointer s) - n \<and> fb_inv upper pix s' ((n + 8) # bs)
    else fb_alloc pix s w = (s, Inl FbMemoryError)"
proof -
  have n8: "8 \<le> n" "n \<le> 2 ^ 30 + 8" using fb_round(2) [OF w] w(1) by (simp_all add: n)
  have round: "((w + 8 - 1) div 8) * 8 = of_nat n" using fb_round(1) [OF w(1)] by (simp add: n)
  have fits: "n + 8 \<le> unat (fb_pointer s)" using inv n8 by (simp add: fb_inv_def fb_place_def)
  have new: "fb_pointer s - of_nat n - 8 = fb_pointer s - of_nat (n + 8)" by simp
  have size: "(of_nat n + 8 :: 64 word) = of_nat (n + 8)" by simp
  have less: "fb_pointer s - of_nat (n + 8) < pix \<longleftrightarrow> unat (fb_pointer s) < unat pix + (n + 8)"
    unfolding word_less_nat_alt fb_sub [OF fits] using fits by linarith
  have run: "fb_alloc pix s w = (if unat (fb_pointer s) < unat pix + (n + 8) then (s, Inl FbMemoryError)
      else (s\<lparr>fb_mem := (fb_mem s)(fb_pointer s - of_nat (n + 8) := of_nat (n + 8)), fb_pointer := fb_pointer s - of_nat (n + 8)\<rparr>,
            Inr (fb_pointer s - of_nat n)))"
    unfolding fb_alloc_def Let_def round new size less using w(2) by simp
  show ?thesis
  proof (cases "unat pix + (n + 8) \<le> unat (fb_pointer s)")
    case True
    with fb_inv_push(1) [OF inv _ True] n8 fb_sub [of n "fb_pointer s"] fits run show ?thesis by simp
  next
    case False
    with run show ?thesis by simp
  qed
qed

lemma fb_mark_val:
  assumes inv: "fb_inv upper pix s bs"
  shows "if unat pix + 8 \<le> unat (fb_pointer s)
    then \<exists>s'. fb_alloc_mark pix s = (s', Inr ()) \<and> fb_inv upper pix s' (8 # bs)
    else fb_alloc_mark pix s = (s, Inl FbMemoryError)"
proof -
  have fits: "8 \<le> unat (fb_pointer s)" using inv by (simp add: fb_inv_def fb_place_def)
  have less: "fb_pointer s - 8 < pix \<longleftrightarrow> unat (fb_pointer s) < unat pix + 8"
    using fb_sub [OF fits] fits unfolding word_less_nat_alt by simp linarith
  show ?thesis
    using fb_inv_push(1) [OF inv, of 8] less by (auto simp: fb_alloc_mark_def Let_def)
qed

lemma fb_left:
  assumes inv: "fb_inv upper pix s bs" and left: "unat pix + 8 \<le> unat (fb_pointer s)"
  shows "unat (fb_pointer s - pix - 8) = unat (fb_pointer s) - unat pix - 8"
proof -
  have "unat (fb_pointer s - pix) = unat (fb_pointer s) - unat pix" using left by (simp add: unat_sub word_le_nat_alt)
  moreover have "unat (8 :: 64 word) = 8" by simp
  ultimately show ?thesis using left by (simp add: unat_sub word_le_nat_alt)
qed

lemma fb_avail_val:
  assumes inv: "fb_inv upper pix s bs" and left: "unat pix + 8 \<le> unat (fb_pointer s)"
  shows "unat (fb_avail pix s) = (if unat (fb_pointer s) < unat pix + 16 then 0 else unat (fb_pointer s) - unat pix - 8)"
  using fb_left [OF assms] left by (simp add: fb_avail_def Let_def word_less_nat_alt)

lemma fb_alloc_all_val:
  assumes inv: "fb_inv upper pix s bs" and left: "unat pix + 8 \<le> unat (fb_pointer s)"
    and n: "n = (unat (fb_pointer s) - unat pix - 8) div 8 * 8"
  shows "if unat (fb_pointer s) < unat pix + 16 then fb_alloc_all pix s = (s, 0, 0)
    else \<exists>s' p m. fb_alloc_all pix s = (s', p, m) \<and> unat p = unat (fb_pointer s) - n \<and> unat m = n \<and> fb_inv upper pix s' ((n + 8) # bs)"
proof (cases "unat (fb_pointer s) < unat pix + 16")
  case True
  then have "unat (fb_pointer s) - unat pix - 8 < 8" using left by linarith
  with fb_left [OF inv left] True show ?thesis by (simp add: fb_alloc_all_def Let_def word_less_nat_alt)
next
  case False
  let ?t = "fb_pointer s - pix - 8"
  have t: "unat ?t = unat (fb_pointer s) - unat pix - 8" by (rule fb_left [OF inv left])
  have ge: "\<not> ?t < 8" using t False by (simp add: word_less_nat_alt)
  have nb: "n \<le> unat (fb_pointer s) - unat pix - 8" "unat (fb_pointer s) < 2 ^ 64" unfolding n by (simp, rule unat64)
  have "unat (?t div 8) = unat ?t div 8" by (simp add: unat_div_distrib)
  moreover have "unat ?t div 8 * 8 < 2 ^ 64" using t nb n by simp
  ultimately have un: "unat (?t div 8 * 8) = n" unfolding n t [symmetric] by (simp add: unat_word_ariths)
  then have eq: "?t div 8 * 8 = of_nat n" using word_unat_eq_iff [of "?t div 8 * 8" "of_nat n"] nb
    by (simp add: unsigned_of_nat take_bit_nat_eq_self)
  have fits: "unat pix + (n + 8) \<le> unat (fb_pointer s)" "n \<le> unat (fb_pointer s)" using nb left by linarith+
  have new: "fb_pointer s - of_nat n - 8 = fb_pointer s - of_nat (n + 8)" "(of_nat n + 8 :: 64 word) = of_nat (n + 8)" by simp_all
  have "fb_alloc_all pix s =
      (s\<lparr>fb_mem := (fb_mem s)(fb_pointer s - of_nat (n + 8) := of_nat (n + 8)), fb_pointer := fb_pointer s - of_nat (n + 8)\<rparr>,
       fb_pointer s - of_nat n, of_nat n)"
    unfolding fb_alloc_all_def Let_def eq new using ge by simp
  with fb_inv_push(1) [OF inv _ fits(1)] fb_sub [OF fits(2)] un False show ?thesis by (simp add: eq)
qed

lemma fb_owns_bounds: "fb_owns p bs a \<Longrightarrow> p \<le> a \<and> a < p + sum_list bs"
  by (induction bs arbitrary: p) fastforce+

text \<open>Clearing a block touches none of the headers, and clears every word of it.\<close>

lemma fb_chain_writes:
  "fb_chain m p bs upper \<Longrightarrow> \<forall>a \<in> set as. fb_owns p bs a \<Longrightarrow> upper < 2 ^ 64 \<Longrightarrow>
   fb_chain (fold (\<lambda>a m. m(of_nat a := 0)) as m) p bs upper"
proof (induction as arbitrary: m)
  case (Cons a as)
  with fb_chain_write [of m p bs upper a 0] show ?case by (simp del: fun_upd_apply)
qed simp

lemma fb_memset0_rep:
  assumes rep: "fb_rep upper s ((n + 8) # bs)" and p: "unat p = unat (fb_pointer s) + 8" and w: "unat w \<le> n" "8 dvd n"
  shows "fb_rep upper (fb_memset0 p w s) ((n + 8) # bs)"
proof -
  let ?q = "unat p" and ?k = "unat w div 8" and ?bs = "(n + 8) # bs"
  have upper: "unat upper < 2 ^ 64" by (rule unat64)
  have addr: "p + of_nat j = of_nat (?q + j)" for j by simp
  define m where "m = fold (\<lambda>i m. m(p + of_nat (8 * i) := 0)) [0 ..< ?k] (fb_mem s)"
  have eq: "m = fold (\<lambda>a m. m(of_nat a := 0)) (map (\<lambda>i. ?q + 8 * i) [0 ..< ?k]) (fb_mem s)"
    unfolding m_def fold_map addr comp_def by (rule refl)
  have own: "fb_owns (unat (fb_pointer s)) ?bs (?q + 8 * i)" if "i < ?k" for i
  proof -
    have "8 * i + 8 \<le> unat w" using that by presburger
    with p w(1) show ?thesis by simp
  qed
  have m: "fb_chain m (unat (fb_pointer s)) ?bs (unat upper)"
    unfolding eq by (rule fb_chain_writes [OF rep [unfolded fb_rep_def] _ upper]) (use own in \<open>auto simp del: fb_owns.simps\<close>)
  have last: "fb_chain (m(of_nat (?q + 8 * ?k) := v)) (unat (fb_pointer s)) ?bs (unat upper)" if "unat w mod 8 \<noteq> 0" for v
  proof (rule fb_chain_write [OF m _ upper])
    obtain c where "n = 8 * c" using w(2) by blast
    with w(1) that have "8 * ?k + 8 \<le> n" by presburger
    with p show "fb_owns (unat (fb_pointer s)) ?bs (?q + 8 * ?k)" by simp
  qed
  have ptr: "fb_pointer (fb_memset0 p w s) = fb_pointer s" by (simp add: fb_memset0_def Let_def)
  have mem: "fb_mem (fb_memset0 p w s) = (if unat w mod 8 = 0 then m
      else m(p + of_nat (8 * ?k) := m (p + of_nat (8 * ?k)) AND NOT (mask (8 * (unat w mod 8)))))"
    unfolding fb_memset0_def Let_def m_def by simp
  show ?thesis
  proof (cases "unat w mod 8 = 0")
    case True
    with m show ?thesis by (simp only: fb_rep_def mem ptr simp_thms if_True)
  next
    case False
    from last [OF this] False show ?thesis by (simp only: fb_rep_def mem ptr addr if_False)
  qed
qed

lemma fb_memset0_inv:
  assumes "fb_inv upper pix s ((n + 8) # bs)" and "unat p = unat upper - sum_list bs - n" and "unat w \<le> n" "8 dvd n"
  shows "fb_inv upper pix (fb_memset0 p w s) ((n + 8) # bs)"
proof -
  have rep: "fb_rep upper s ((n + 8) # bs)" using assms(1) by (simp add: fb_inv_def)
  have "unat p = unat (fb_pointer s) + 8" using fb_rep_top [OF rep] assms(2) by simp
  with fb_memset0_rep [OF rep _ assms(3,4)] assms(1) show ?thesis by (simp add: fb_inv_def fb_memset0_def Let_def)
qed

lemma fb_memset0_zero:
  assumes "8 * i + 8 \<le> unat w" and "unat p + unat w < 2 ^ 64"
  shows "fb_mem (fb_memset0 p w s) (p + of_nat (8 * i)) = 0"
proof -
  have addr: "unat (p + of_nat j) = unat p + j" if "j \<le> unat w" for j
  proof -
    have "unat (of_nat j :: 64 word) = j" using that assms(2) by (simp add: unsigned_of_nat take_bit_nat_eq_self)
    with that assms(2) show ?thesis by (simp add: unat_word_ariths)
  qed
  have eq: "p + of_nat (8 * i) = p + of_nat (8 * j) \<longleftrightarrow> i = j" if "8 * j \<le> unat w" for j
    using that assms(1) addr [of "8 * i"] addr [of "8 * j"] unfolding word_unat_eq_iff by linarith
  have "fold (\<lambda>i m. m(p + of_nat (8 * i) := 0)) is m (p + of_nat (8 * i)) = 0"
    if "i \<in> set is \<or> m (p + of_nat (8 * i)) = 0" for "is" and m :: "64 word \<Rightarrow> 64 word"
    using that by (induction "is" arbitrary: m) auto
  moreover have "i \<in> set [0 ..< unat w div 8]" using assms(1) by auto
  moreover have "p + of_nat (8 * i) \<noteq> p + of_nat (8 * (unat w div 8))" using eq [of "unat w div 8"] assms(1) by auto
  ultimately show ?thesis by (simp add: fb_memset0_def Let_def del: of_nat_mult)
qed

lemma sum_behind_mark: "sum_list (behind_mark bs) \<le> sum_list bs"
proof (induction bs)
  case (Cons b bs)
  then show ?case by (cases "b = 8") (simp_all add: behind_mark_def)
qed (simp add: behind_mark_def)

lemma fb_exec_spec:
  assumes inv: "fb_inv upper pix s bs" and spec: "fb_spec (unat upper) (unat pix) bs c = Some (bs', r)"
  shows "\<exists>s'. fb_exec upper pix s c = Some (s', r) \<and> fb_inv upper pix s' bs'"
proof -
  note p = fb_inv_pointer [OF inv]
  have rep: "fb_rep upper s bs" using inv by (simp add: fb_inv_def)
  show ?thesis
  proof (cases c)
    case (FbAlloc w)
    show ?thesis
    proof (cases "w = 0")
      case True
      with FbAlloc spec inv show ?thesis by (simp add: fb_alloc_def Let_def)
    next
      case False
      have "unat w \<le> 2 ^ 30" using spec FbAlloc by (simp add: Let_def split: if_splits)
      from fb_alloc_val [OF inv this False refl] spec FbAlloc False inv p show ?thesis
        by (auto simp: Let_def split: if_splits)
    qed
  next
    case (FbAlloc0 w)
    show ?thesis
    proof (cases "w = 0")
      case True
      with FbAlloc0 spec inv show ?thesis by (simp add: fb_alloc0_def fb_alloc_def fb_memset0_def Let_def)
    next
      case False
      let ?n = "(unat w + 7) div 8 * 8"
      have w: "unat w \<le> 2 ^ 30" using spec FbAlloc0 by (simp add: Let_def split: if_splits)
      have n: "unat w \<le> ?n" "8 dvd ?n" by simp_all
      show ?thesis
      proof (cases "unat pix + (?n + 8) \<le> unat (fb_pointer s)")
        case True
        with fb_alloc_val [OF inv w False refl] obtain s' q where a: "fb_alloc pix s w = (s', Inr q)"
          "unat q = unat (fb_pointer s) - ?n" "fb_inv upper pix s' ((?n + 8) # bs)" by auto
        from fb_memset0_inv [OF a(3) _ n] a(2) p have "fb_inv upper pix (fb_memset0 q w s') ((?n + 8) # bs)" by simp
        with spec FbAlloc0 False True p w a show ?thesis by (simp add: fb_alloc0_def Let_def)
      next
        case False
        with fb_alloc_val [OF inv w \<open>w \<noteq> 0\<close> refl] have "fb_alloc pix s w = (s, Inl FbMemoryError)" by simp
        with spec FbAlloc0 False \<open>w \<noteq> 0\<close> p w inv show ?thesis by (simp add: fb_alloc0_def Let_def)
      qed
    qed
  next
    case FbAlloc0All
    let ?n = "(unat (fb_pointer s) - unat pix - 8) div 8 * 8"
    have left: "unat pix + 8 \<le> unat (fb_pointer s)" using spec p FbAlloc0All by (simp add: Let_def split: if_splits)
    show ?thesis
    proof (cases "unat (fb_pointer s) < unat pix + 16")
      case True
      with fb_alloc_all_val [OF inv left refl] spec FbAlloc0All left p inv show ?thesis
        by (simp add: fb_alloc0_all_def fb_memset0_def Let_def)
    next
      case False
      with fb_alloc_all_val [OF inv left refl] obtain s' q m where a: "fb_alloc_all pix s = (s', q, m)"
        "unat q = unat (fb_pointer s) - ?n" "unat m = ?n" "fb_inv upper pix s' ((?n + 8) # bs)" by auto
      from fb_memset0_inv [OF a(4), of q m] a(2,3) p have "fb_inv upper pix (fb_memset0 q m s') ((?n + 8) # bs)" by simp
      with spec FbAlloc0All False left p a show ?thesis by (simp add: fb_alloc0_all_def Let_def)
    qed
  next
    case FbAllocAll
    then have "unat pix + 8 \<le> unat (fb_pointer s)" using spec p by (simp add: Let_def split: if_splits)
    from fb_alloc_all_val [OF inv this refl] spec FbAllocAll inv p show ?thesis
      by (auto simp: Let_def split: if_splits)
  next
    case FbAvail
    then have "unat pix + 8 \<le> unat (fb_pointer s)" using spec p by (simp add: Let_def split: if_splits)
    from fb_avail_val [OF inv this] spec FbAvail inv p show ?thesis by (auto simp: Let_def split: if_splits)
  next
    case FbMark
    from fb_mark_val [OF inv] spec FbMark inv p show ?thesis by (auto split: if_splits)
  next
    case FbFree
    have "sum_list (tl bs) \<le> sum_list bs" by (cases bs) simp_all
    with fb_inv_less [OF inv fb_free_val [OF rep]] spec FbFree show ?thesis by simp
  next
    case FbFreeTillMark
    with fb_free_till_mark_val [OF rep] spec fb_inv_less [OF inv _ sum_behind_mark] show ?thesis by auto
  next
    case FbFreeAll
    with fb_free_all_val [OF rep] spec fb_inv_less [OF inv, of _ "[]"] show ?thesis by auto
  next
    case (FbWrite a v)
    then have own: "fb_owns (unat (fb_pointer s)) bs (unat a)" and [simp]: "bs' = bs" "r = FbDone"
      using spec p by (simp_all split: if_splits)
    from fb_chain_write [OF rep [unfolded fb_rep_def] own unat64, of v]
    have "fb_rep upper (s\<lparr>fb_mem := (fb_mem s)(a := v)\<rparr>) bs" by (simp add: fb_rep_def)
    then show ?thesis using FbWrite inv by (simp add: fb_inv_def)
  qed
qed

lemma fb_run_spec:
  "fb_inv upper pix s bs \<Longrightarrow> fb_spec_run (unat upper) (unat pix) bs cs = Some (bs', rs) \<Longrightarrow>
   \<exists>s'. fb_run upper pix s cs = Some (s', rs) \<and> fb_inv upper pix s' bs'"
proof (induction cs arbitrary: s bs rs)
  case (Cons c cs)
  then obtain bs1 r rs1 where c: "fb_spec (unat upper) (unat pix) bs c = Some (bs1, r)"
    "fb_spec_run (unat upper) (unat pix) bs1 cs = Some (bs', rs1)" "rs = r # rs1"
    by (auto split: option.splits)
  from fb_exec_spec [OF Cons.prems(1) c(1)] obtain s1 where s1: "fb_exec upper pix s c = Some (s1, r)" "fb_inv upper pix s1 bs1" by blast
  from Cons.IH [OF s1(2) c(2)] s1(1) c(3) show ?case by auto
qed simp

section \<open>Properties\<close>

text \<open>A block whose header is 0 is never freed.\<close>

lemma fb_free_all_stuck:
  assumes "fb_pointer s < upper" "fb_mem s (fb_pointer s) = 0"
  shows "fb_free_all upper s = None"
proof (rule ccontr)
  assume "fb_free_all upper s \<noteq> None"
  then obtain s' where "fb_free_all upper s = Some s'" by blast
  then have "\<not> (fb_pointer s < upper \<and> fb_mem s (fb_pointer s) = 0)"
    by (rule fb_free_all.raw_induct [where P = "\<lambda>upper s s'. \<not> (fb_pointer s < upper \<and> fb_mem s (fb_pointer s) = 0)", rotated])
      (auto split: if_splits)
  with assms show False by simp
qed

text \<open>
  C32: a second \<open>fb_alloc_all\<close> does not report that nothing is left. Its comparison of a negative number with
  \<open>sizeof\<close> is one of unsigned numbers, so that it returns the block of the first call again, with the size
  \<open>2 ^ 64 - 8\<close>, and writes 0 over the size of that block: from then on \<open>fb_free\<close> frees nothing and
  \<open>fb_free_all\<close> does not return.
\<close>

theorem fb_alloc_all_twice:
  assumes inv: "fb_inv upper pix s bs" and room: "unat pix + 16 \<le> unat (fb_pointer s)"
    and first: "fb_alloc_all pix s = (s1, p1, n1)" and second: "fb_alloc_all pix s1 = (s2, p2, n2)"
  shows "p2 = p1 \<and> unat n2 = 2 ^ 64 - 8 \<and> fb_free upper s2 = s2 \<and> fb_free_all upper s2 = None"
proof -
  define n where "n = (unat (fb_pointer s) - unat pix - 8) div 8 * 8"
  have left: "unat pix + 8 \<le> unat (fb_pointer s)" using room by simp
  have v: "unat p1 = unat (fb_pointer s) - n" "fb_inv upper pix s1 ((n + 8) # bs)"
    using fb_alloc_all_val [OF inv left n_def] room first by auto
  have nb: "n \<le> unat (fb_pointer s) - unat pix - 8" "unat (fb_pointer s) - unat pix - 8 < n + 8"
    unfolding n_def by (simp, metis add.commute dividend_less_times_div mult.commute mult_Suc_right zero_less_numeral)
  have ptr: "unat (fb_pointer s1) = unat (fb_pointer s) - (n + 8)"
    using fb_inv_pointer [OF v(2)] fb_inv_pointer [OF inv] by simp
  have lt: "fb_pointer s1 < upper" using v(2) fb_rep_pop(1) [of upper s1 "n + 8" bs] by (simp add: fb_inv_def)
  define r where "r = unat (fb_pointer s1) - unat pix"
  have r: "r < 8" "unat pix + r = unat (fb_pointer s1)" unfolding r_def using ptr nb room by linarith+
  have sub: "fb_pointer s1 - pix = of_nat r" unfolding word_unat_eq_iff
    using r unat64 [of "fb_pointer s1"] by (simp add: unat_sub word_le_nat_alt unsigned_of_nat take_bit_nat_eq_self)
  have t: "unat (of_nat r - 8 :: 64 word) = 2 ^ 64 - (8 - r)"
    using r(1) by (simp add: unat_sub_if_size unat_of_nat word_le_nat_alt unsigned_of_nat take_bit_nat_eq_self word_size)
  then have ge: "\<not> (of_nat r - 8 :: 64 word) < 8" using r(1) by (simp add: word_less_nat_alt)
  have "unat ((of_nat r - 8 :: 64 word) div 8) = 2 ^ 61 - 1"
    unfolding unat_div_distrib t using r(1) by simp
  then have "unat ((of_nat r - 8 :: 64 word) div 8 * 8) = 2 ^ 64 - 8" by (simp add: unat_word_ariths)
  then have n2: "(of_nat r - 8 :: 64 word) div 8 * 8 = - 8" by (simp add: word_unat_eq_iff)
  have p1: "p1 = fb_pointer s1 + 8"
  proof -
    have "unat (fb_pointer s1 + 8) = unat (fb_pointer s1) + 8"
      using ptr nb left unat64 [of "fb_pointer s"] by (simp add: unat_word_ariths)
    then show ?thesis using v(1) ptr nb left by (simp add: word_unat_eq_iff)
  qed
  have s2: "s2 = s1\<lparr>fb_mem := (fb_mem s1)(fb_pointer s1 := 0)\<rparr>" "p2 = fb_pointer s1 + 8" "n2 = - 8"
    using second unfolding fb_alloc_all_def sub Let_def n2 using ge by auto
  then have stuck: "fb_pointer s2 < upper" "fb_mem s2 (fb_pointer s2) = 0" using lt by simp_all
  then have "fb_free upper s2 = s2" by (simp add: fb_free_def)
  with fb_free_all_stuck [OF stuck] p1 s2 show ?thesis by simp
qed

definition fb_start :: fb_state where
  "fb_start = \<lparr> fb_pointer = 0x80100000, fb_mem = (\<lambda>a. 0) \<rparr>"

lemma fb_start_inv: "fb_inv 0x80100000 0x80000000 fb_start []"
  by (simp add: fb_inv_def fb_place_def fb_rep_empty fb_start_def)

lemma fb_alloc_all_twice_witness:
  "case fb_alloc_all 0x80000000 fb_start of (s1, p1, n1) \<Rightarrow>
     (case fb_alloc_all 0x80000000 s1 of (s2, p2, n2) \<Rightarrow>
       p2 = p1 \<and> unat n2 = 2 ^ 64 - 8 \<and> fb_free 0x80100000 s2 = s2 \<and> fb_free_all 0x80100000 s2 = None)"
proof -
  have room: "unat (0x80000000 :: 64 word) + 16 \<le> unat (fb_pointer fb_start)" by (simp add: fb_start_def)
  obtain s1 p1 n1 where 1: "fb_alloc_all 0x80000000 fb_start = (s1, p1, n1)" by (metis prod_cases3)
  obtain s2 p2 n2 where 2: "fb_alloc_all 0x80000000 s1 = (s2, p2, n2)" by (metis prod_cases3)
  from fb_alloc_all_twice [OF fb_start_inv room 1 2] show ?thesis unfolding 1 2 prod.case .
qed

text \<open>
  C40: a run of the allocator from \<open>fb_alloc_init0\<close>, with writes of the callers into their blocks between the
  calls, is the run of a stack of block sizes, as long as its calls are those of \<open>fb_spec\<close>: requests of at most
  \<open>2 ^ 30\<close> bytes (a larger one can wrap the pointer and be granted), \<open>fb_avail\<close>, \<open>fb_alloc_all\<close> and \<open>fb_alloc0_all\<close>
  only while at least 8 bytes are left above the picture (with less the unsigned comparison takes the room for a
  large one, see C32), and writes inside of a block only. On these runs an allocation is refused exactly when
  header and rounded size do not fit above the picture, blocks follow each other without overlap, and freeing,
  also till the last mark, restores the pointer of before.
\<close>

theorem fb_stack_refines:
  assumes "fb_place upper pix" and "fb_spec_run (unat upper) (unat pix) [] cs = Some (bs, rs)"
  shows "\<exists>s'. fb_run upper pix (fb_alloc_init0 upper s) cs = Some (s', rs) \<and> fb_chain (fb_mem s') (unat (fb_pointer s')) bs (unat upper) \<and>
    unat pix \<le> unat (fb_pointer s')"
proof -
  have "fb_inv upper pix (fb_alloc_init0 upper s) []"
    using assms(1) fb_alloc_init0_val by (simp add: fb_inv_def fb_alloc_init0_def fb_place_def)
  from fb_run_spec [OF this assms(2)] show ?thesis by (auto simp: fb_inv_def fb_rep_def)
qed

lemma fb_stack_refines_witness:
  "\<exists>s'. fb_run 0x80100000 0x80000000 (fb_alloc_init0 0x80100000 fb_start)
      [FbAlloc 13, FbMark, FbAlloc 2000000, FbAlloc 8, FbWrite 0x800FFFD8 7, FbFreeTillMark, FbAvail, FbFree] =
      Some (s', [FbPtr 0x800FFFF0, FbDone, FbRaised, FbPtr 0x800FFFD8, FbDone, FbDone, FbSize 0xFFFE0, FbDone]) \<and>
    fb_chain (fb_mem s') (unat (fb_pointer s')) [] 0x80100000 \<and> 0x80000000 \<le> unat (fb_pointer s')"
  using fb_stack_refines [where upper = "0x80100000" and pix = "0x80000000" and s = fb_start and bs = "[]" and
      cs = "[FbAlloc 13, FbMark, FbAlloc 2000000, FbAlloc 8, FbWrite 0x800FFFD8 7, FbFreeTillMark, FbAvail, FbFree]" and
      rs = "[FbPtr 0x800FFFF0, FbDone, FbRaised, FbPtr 0x800FFFD8, FbDone, FbDone, FbSize 0xFFFE0, FbDone]"]
  by (simp add: fb_place_def Let_def behind_mark_def)

end
