(* ===== verification/Spec2Isabelle.thy ===== *)
theory Spec2Isabelle
  imports MpzArith MpzConv IntOps DictRun ObjSetRun Qstr GcRun PySort OmvRect OmvList FbAlloc
begin

text \<open>
  A verification development for the K210 OpenMV firmware: the core of its MicroPython runtime
  (\<open>src/openmv/src/micropython/py\<close>, with the port \<open>ports/k210-standalone\<close>) and the containers and allocators of
  its camera library (\<open>src/openmv/src/omv\<close>). Below, \<open>py/\<close> and \<open>omv/\<close> stand for the two directories.

  \<^bold>\<open>The program.\<close> A script runs on objects. An object is a word that is a small integer, an interned string
  or a pointer into the heap of \<open>py/gc.c\<close>. Integers that do not fit in 63 bits are \<open>mpz_t\<close> structures
  (\<open>py/mpz.c\<close>), which the operators of \<open>py/runtime.c\<close> and \<open>py/objint_mpz.c\<close> use. Equality and hashes of objects
  (\<open>py/obj.c\<close>) carry the hash tables of \<open>py/map.c\<close>, these carry dictionaries (\<open>py/objdict.c\<close>) and sets
  (\<open>py/objset.c\<close>). Lists
  (\<open>py/objlist.c\<close>) use the indices and slices of \<open>py/sequence.c\<close>. The camera library keeps its intermediate
  data in arrays of pointers (\<open>omv/array.c\<close>), linked lists, stacks and queues (\<open>omv/img/collections.c\<close>), a ring
  buffer (\<open>omv/ringbuf.c\<close>) and the stack of frame buffer memory (\<open>omv/fb_alloc.c\<close>).

  \<^bold>\<open>How the model reads.\<close> A structure is a record with the fields of the source, a C function is a definition of
  the same name (with a suffix or prefix where another function or a constant of HOL has the name) that takes
  the structure and returns it updated. Machine integers are words with their wrap-around: digits have 16 bits,
  carries 32, \<open>mp_int_t\<close> and addresses 64, the fields of a rectangle 16. \<open>None\<close> is a
  failed assertion, an access outside of a block, or a loop or recursion that does not return; a Python
  exception is the left side of a sum. What memory the allocator has, and what a fresh block holds, are
  arguments (\<open>mem\<close>, \<open>xmem\<close>, the answers in \<open>Qstr\<close>) of lists, arrays,
  strings and the frame buffer. For integers and hash tables \<open>mpz_need_dig_mem\<close>,
  \<open>mp_map_rehash_mem\<close> and \<open>mp_set_rehash_mem\<close> have the path on which the memory runs
  out, and say what is left then; the operations on them are the runs on which it does not.

  \<^bold>\<open>The theories.\<close>

  \<^item> \<open>Prelude\<close>: machine types, the collections \<open>word_nat\<close> and \<open>val_simps\<close>, facts on words, division and bytes.

  \<^item> \<open>Mpn\<close>, \<open>MpnBits\<close>, \<open>MpnDiv\<close>: the digit arrays of \<open>py/mpz.c\<close> (\<open>mpn_cmp\<close>, \<open>mpn_shl\<close>, \<open>mpn_add\<close>, \<open>mpn_mul\<close>,
  \<open>mpn_and_neg\<close>, \<open>mpn_div\<close> and their like). Each operation computes the operation on the number that the digits
  stand for. \<open>Mpz\<close>, \<open>MpzArith\<close>, \<open>MpzConv\<close>: \<open>mpz_t\<close>, its arithmetic, and its conversions to and from machine
  integers, bytes and strings. \<open>mpz_wf\<close> and \<open>mpz_ok\<close> are the well-formedness that every operation keeps, \<open>mpz_val\<close> is
  the abstraction to \<open>int\<close>.

  \<^item> \<open>IntFloat\<close>: integers as doubles, as far as the power operator tests them.
  \<open>IntOps\<close>: \<open>py/smallint.c\<close>, the integer cases of \<open>mp_binary_op\<close> and
  \<open>mp_unary_op\<close>, and \<open>mp_obj_int_binary_op\<close>, against the specification
  \<open>py_int_op\<close> of the operators on \<open>int\<close> (C1 to C10, C20).

  \<^item> \<open>Objects\<close>: \<open>mp_obj_equal\<close> and the hashes (C11). \<open>Qstr\<close>: the pools of interned strings (C12, C13).

  \<^item> \<open>HashProbe\<close>: the search that \<open>mp_map_lookup\<close> and \<open>mp_set_lookup\<close> share, and the invariant of the slots that
  makes it complete. \<open>MpMap\<close>: the functions of \<open>py/map.c\<close>. \<open>MapLaws\<close>, \<open>SetLaws\<close>: a table is a partial map or a
  set up to equality of objects, and every lookup returns (C14, C15).

  \<^item> \<open>ObjSet\<close>: the methods and operators of \<open>set\<close> and \<open>frozenset\<close> (\<open>py/objset.c\<close>), with loops that read the set they
  change. \<open>ObjSetLaws\<close>, \<open>ObjSetRun\<close>: each is the operation on the set of the keys (\<open>py_set\<close>), and the runs of calls
  (C16).

  \<^item> \<open>Dict\<close>, \<open>DictLaws\<close>, \<open>DictRun\<close>: the methods of \<open>dict\<close> and \<open>OrderedDict\<close>, and the runs of method calls that refine
  runs of a partial map (C17 to C19).

  \<^item> \<open>Gc\<close>: the allocation table, the pool, marking, sweeping, allocating, freeing and resizing (\<open>py/gc.c\<close>, \<open>gc_collect\<close>
  of \<open>ports/k210-standalone/main.c\<close>). \<open>GcLaws\<close>, \<open>GcAlloc\<close>, \<open>GcRealloc\<close>: reachability and what each operation keeps.
  \<open>GcRun\<close>: the heap of \<open>gc_init\<close>, the runs of operations and their properties (C21 to C28).

  \<^item> \<open>PyList\<close>: \<open>py/objlist.c\<close> and the indices and slices of \<open>py/sequence.c\<close> and \<open>py/obj.c\<close>. \<open>PyListLaws\<close>,
  \<open>PyListSlice\<close>: each function is the operation on the sequence of elements. \<open>PyListRun\<close>: the runs of calls
  (C29, C30). \<open>ListSort\<close>: \<open>mp_quicksort\<close>, which \<open>omv/array.c\<close> repeats. \<open>PySort\<close>: the comparisons of integers, byte
  strings and sequences, and the sort on them (C31).

  \<^item> \<open>OmvArray\<close>: \<open>omv/array.c\<close>, \<open>omv/xalloc.c\<close>, the choice of keypoints at the end of \<open>omv/img/orb.c\<close> (C33, C34).
  \<open>OmvRect\<close>: \<open>omv/img/rectangle.c\<close> (C35, C36). \<open>OmvQueue\<close>: the ring buffer, bitmaps, stacks and queues (C37, C38).
  \<open>OmvList\<close>: the doubly linked list in a store of nodes (C39). \<open>FbAlloc\<close>: \<open>omv/fb_alloc.c\<close> (C32, C40).

  \<^bold>\<open>Interfaces.\<close> Each is a locale, interpreted on the functions of the program. \<open>hash_keys\<close>, \<open>set_objs\<close> and \<open>map_objs\<close>
  are what a table asks of its keys; the interpretation \<open>obj_map\<close> in \<open>Objects\<close> is on \<open>mp_obj_equal\<close> and the hashes.
  \<open>pow_multiplier\<close> is the product in the loop of powers, with and without a modulus (\<open>MpzArith\<close>). \<open>sort_order\<close> is
  what the quicksort asks of a comparison: \<open>num_sort\<close> and \<open>bytes_sort\<close> in \<open>PySort\<close>, \<open>kpt_order\<close> and \<open>bin_order\<close> in
  \<open>OmvArray\<close>. \<open>bounded_queue\<close> is the contract of a queue: \<open>fifo\<close> and \<open>ring\<close> in \<open>OmvQueue\<close>.

  \<^bold>\<open>Bounds and fuel.\<close>

  \<^item> \<open>den_safe\<close> excludes divisors of several digits one of which is 0xFFFF after normalisation: for them the signed
  accumulator in \<open>mpn_div\<close> can overflow, which C does not define. \<open>int_op_safe\<close> adds the power of zero to a zero
  that is a long integer, zero to the power of \<open>- (2 ^ 960)\<close> or less, which can be infinite as a double, and
  \<open>divmod\<close> of the smallest small integer by -1 (C20).

  \<^item> A lookup rehashes and looks up again, and the lookups inside of a rehash find room: a nesting of two is enough,
  and \<open>mp_map_lookup\<close> is \<open>mp_map_lookup_n\<close> with that bound; C14 and C15 show that it always returns.

  \<^item> The loops of the collector have termination proofs: a mark uses up a head, and a scan after an overflow of the
  mark stack has marked one. Other loops that may not end are \<open>partial_function (option)\<close>, and the properties show
  that they return (C7 for printing, C32 for one that does not).

  \<^item> The recursion of the quicksort is bounded by the argument \<open>room\<close>, the room on the C stack. It recurses into the
  smaller part, so the number of bits of the length is enough (C31, C33).

  \<^item> \<open>slice_ok\<close> bounds the numbers of a slice and the length by 62 bits, the range of small integers on which
  \<open>stop + 1\<close> and \<open>start + step\<close> do not wrap. The index of \<open>insert\<close> is a small
  integer, the other indices are any integers, and those that are no machine integer raise \<open>OverflowError\<close>. \<open>fb_place\<close> asks that the frame
  buffer lies above the first 2 GB, has less than 2 GB and ends below \<open>2 ^ 63\<close>, so that a size fits
  in the 32-bit \<open>int\<close> of \<open>fb_alloc_free_till_mark\<close> and the pointers that are computed
  do not wrap below zero for sizes up to 2 GB.

  \<^bold>\<open>Not modelled.\<close> The compiler and the virtual machine (\<open>py/compile.c\<close>,
  \<open>py/vm.c\<close> and their like), floating point (of a result that is a float the model says that it is
  one; \<open>mpz_as_float\<close> is there for the test of a zero and of an infinite exponent), user classes,
  generators, string methods, printing and exceptions by long jumps: the model begins at the operations on
  objects. In \<open>Objects\<close>, an object of another type is equal to itself only. Comparisons and keys
  that raise or change a list during its sort are left out, and so are threads and finalisers, which the port
  does not configure. Operands of set methods that are iterators over the set itself are left out. The
  \<open>int\<close> indices of \<open>omv/array.c\<close> are natural numbers. Interrupts between the two
  stores of a ring buffer call are not considered. Image arithmetic (\<open>omv/img\<close>), most of it in
  floating point, the tables of constants, the vendored code (\<open>apriltag.c\<close>, \<open>zbar.c\<close>,
  \<open>dmtx.c\<close>, \<open>umm_malloc.c\<close>, the file system), the bindings (\<open>omv/py\<close>) and
  the drivers of sensors and buses are outside of this development.
\<close>

section \<open>Arbitrary-precision integers\<close>

text \<open>
  Concrete operands for the instances below: \<open>z_pos\<close> is 65543, \<open>z_neg\<close> is -131075.
\<close>

abbreviation z_pos :: mpz where
  "z_pos \<equiv> \<lparr> neg = False, fixed_dig = False, alloc = 2, dig = [7, 1] \<rparr>"

abbreviation z_neg :: mpz where
  "z_neg \<equiv> \<lparr> neg = True, fixed_dig = False, alloc = 2, dig = [3, 2] \<rparr>"

abbreviation z_three :: mpz where
  "z_three \<equiv> \<lparr> neg = False, fixed_dig = False, alloc = 2, dig = [3] \<rparr>"



text \<open>
  C2: \<open>mpz_divmod_inpl\<close> is Python's floor division: it returns the quotient rounded towards minus
  infinity and the remainder with the sign of the divisor, for every divisor whose normalised
  digits cannot overflow the trial subtraction.
\<close>

theorem mpz_divmod_floor:
  assumes "\<not> fixed_dig dest_quo" "\<not> fixed_dig dest_rem" and "\<not> neg dest_quo"
    and "mpz_wf lhs" "mpz_wf rhs" and "mpz_val rhs \<noteq> 0" and "den_safe (dig rhs)"
  shows "\<exists>q r. mpz_divmod_inpl dest_quo dest_rem lhs rhs = Some (q, r) \<and> mpz_ok q \<and> mpz_ok r \<and>
    mpz_val q = mpz_val lhs div mpz_val rhs \<and> mpz_val r = mpz_val lhs mod mpz_val rhs"
  using mpz_divmod_val [OF assms(1,2,4-7)] assms(3) by metis

lemma mpz_divmod_floor_witness:
  "\<exists>q r. mpz_divmod_inpl mpz_init_zero mpz_init_zero z_neg z_three = Some (q, r) \<and> mpz_ok q \<and> mpz_ok r \<and>
    mpz_val q = - 43692 \<and> mpz_val r = 1"
  using mpz_divmod_floor [of mpz_init_zero mpz_init_zero z_neg z_three]
  by (simp add: mpz_init_zero_def mpz_wf_def mpn_norm_def den_safe_def mpz_val_def)

text \<open>
  C3: printing a long integer in a base from 2 to 32 and reading the digits back gives its value, and
  the reader consumes every character.
\<close>

theorem mpz_print_parse:
  assumes "mpz_wf i" and "\<not> fixed_dig z" and "2 \<le> unat base" and "unat base \<le> 32"
  shows "\<exists>t z'. mpz_as_str_inpl i (ucast base) None 0x61 0 = Some ((if neg i \<and> dig i \<noteq> [] then [0x2D] else []) @ t) \<and>
    mpz_set_from_str z t (neg i) base = Some (z', length t) \<and> mpz_ok z' \<and> mpz_val z' = mpz_val i"
  by (rule mpz_str_roundtrip [OF assms])

lemma mpz_print_parse_witness:
  "\<exists>t z'. mpz_as_str_inpl z_neg 10 None 0x61 0 = Some ([0x2D] @ t) \<and>
    mpz_set_from_str mpz_init_zero t True 10 = Some (z', length t) \<and> mpz_val z' = - 131075"
  using mpz_print_parse [of z_neg mpz_init_zero 10]
  by (auto simp: mpz_init_zero_def mpz_wf_def mpn_norm_def mpz_val_def)

text \<open>
  C4: writing a nonnegative integer to a little-endian buffer that is large enough and reading the
  buffer back gives the integer.
\<close>

theorem mpz_bytes_roundtrip:
  assumes "mpz_wf i" and "\<not> neg i" and "n \<noteq> 0" and "2 * len i \<le> n" and "\<not> fixed_dig z"
  shows "\<exists>out z'. mpz_as_bytes i False (replicate n 0) = Some out \<and> mpz_set_from_bytes z False out = Some z' \<and>
    mpz_ok z' \<and> mpz_val z' = mpz_val i"
proof -
  obtain out where out: "mpz_as_bytes i False (replicate n 0) = Some out"
    "int (bytes_val out) = mpz_val i mod 256 ^ min n (2 * len i)"
    using mpz_as_bytes_val [of "replicate n 0" i] assms(3) by auto
  have "mpn_val (dig i) < 65536 ^ len i" by (rule mpn_val_lt)
  also have "(65536::nat) ^ len i = 256 ^ (2 * len i)" by (simp add: power_mult)
  finally have "int (mpn_val (dig i)) < int (256 ^ (2 * len i))" by (simp only: of_nat_less_iff)
  moreover have "mpz_val i = int (mpn_val (dig i))" using assms(2) by (simp add: mpz_val_def)
  moreover have "min n (2 * len i) = 2 * len i" using assms(4) by simp
  ultimately have "mpz_val i mod 256 ^ min n (2 * len i) = mpz_val i" by simp
  then show ?thesis
    using mpz_yields_set_from_bytes [OF assms(5), of False out] out by (auto simp: mpz_yields_ok)
qed

lemma mpz_bytes_roundtrip_witness:
  "\<exists>out z'. mpz_as_bytes z_pos False (replicate 6 0) = Some out \<and> mpz_set_from_bytes mpz_init_zero False out = Some z' \<and>
    mpz_val z' = 65543"
  using mpz_bytes_roundtrip [of z_pos 6 mpz_init_zero]
  by (auto simp: mpz_init_zero_def mpz_wf_def mpn_norm_def mpz_val_def)



text \<open>
  C6: \<open>mpz_pow3_inpl\<close> is modular exponentiation for a positive exponent: the power of the base reduced by the
  modulus, with the sign of the modulus. For the exponent 0 it answers 1 without reducing it, or 0 where the
  base is 0 or the modulus is 1 or -1. The destination is an object of its own (a base that is the
  destination is lost, see \<open>mpz_pow3_alias\<close>), the exponent is not negative, and the modulus is one that
  \<open>den_safe\<close> does not exclude, because \<open>mpn_div\<close> can be wrong on the others.
\<close>

theorem mpz_modular_power:
  assumes "\<not> fixed_dig dest" and "mpz_wf lhs" "mpz_wf rhs" "mpz_wf md" and "\<not> neg rhs"
    and "mpz_val md \<noteq> 0" and "den_safe (dig md)"
  shows "mpz_yields (mpz_pow3_inpl False False dest lhs rhs md)
    (if mpz_val rhs = 0 then if mpz_val lhs = 0 \<or> \<bar>mpz_val md\<bar> = 1 then 0 else 1
     else mpz_val lhs ^ nat (mpz_val rhs) mod mpz_val md)"
  by (rule mpz_yields_pow3 [OF assms])

lemma mpz_modular_power_witness: "mpz_yields (mpz_pow3_inpl False False mpz_init_zero z_pos z_three z_three) 2"
  using mpz_modular_power [of mpz_init_zero z_pos z_three z_three]
  by (simp add: mpz_init_zero_def mpz_wf_def mpn_norm_def mpz_val_def den_safe_def)

text \<open>
  C7: printing always ends: for every number, prefix and separator and every base from 2 to 32 the
  division loop of \<open>mpz_as_str_inpl\<close> reaches zero and a string is returned.
\<close>

theorem mpz_print_ends:
  assumes "2 \<le> unat base" and "unat base \<le> 32"
  shows "\<exists>s. mpz_as_str_inpl i base prefix base_char comma = Some s"
proof -
  have "2 \<le> base \<and> base \<le> 32" using assms by (simp add: word_le_nat_alt)
  moreover obtain t where "mpz_str_loop base base_char comma (dig i) [] 0 = Some t"
    using mpz_str_loop_ends [OF assms] by blast
  ultimately show ?thesis by (simp add: mpz_as_str_inpl_def Let_def)
qed

lemma mpz_print_ends_witness: "\<exists>s. mpz_as_str_inpl z_neg 16 None 0x61 0x2C = Some s"
  using mpz_print_ends [of 16] by simp

text \<open>
  C8: \<open>mp_obj_int_get_checked\<close> gives the machine integer of every integer object whose absolute value
  is below \<open>2 ^ 63\<close> and raises \<open>OverflowError\<close> for all others, the most negative machine integer
  among them.
\<close>

theorem int_get_checked_range:
  assumes "num_ok n"
  shows "mp_obj_int_get_checked n =
    (if 2 ^ 63 \<le> \<bar>num_val n\<bar> then Inl OverflowErrorInt else Inr (of_int (num_val n)))"
  using mp_obj_int_get_checked_val [OF assms] by simp

lemma int_get_checked_range_witness: "mp_obj_int_get_checked (Long z_neg) = Inr (- 131075)"
  using int_get_checked_range [of "Long z_neg"]
  by (simp add: mpz_ok_def mpz_wf_def mpn_norm_def mpz_no_neg_zero_def mpz_val_def)

section \<open>Small integers\<close>

text \<open>
  C9: \<open>mp_small_int_mul_overflow\<close> is exact: it answers true precisely when the product of two machine
  integers is outside the range of small integers.
\<close>

theorem mul_overflow_exact:
  "mp_small_int_mul_overflow x y \<longleftrightarrow> \<not> (- (2 ^ 62) \<le> sint x * sint y \<and> sint x * sint y < 2 ^ 62)"
  by (simp add: mp_small_int_mul_overflow_iff small_range_def)

text \<open>
  C10: tagging: \<open>MP_SMALL_INT_FITS\<close> holds exactly for the machine integers that come back from a
  small integer object unchanged, and these are the integers of 63 bits.
\<close>

theorem small_int_tagging:
  "(MP_SMALL_INT_FITS v \<longleftrightarrow> small_int_value (new_small_int v) = v) \<and>
   (MP_SMALL_INT_FITS v \<longleftrightarrow> - (2 ^ 62) \<le> sint v \<and> sint v < 2 ^ 62) \<and> new_small_int (small_int_value w) = w"
  using small_int_fits [of v] small_int_fits_bits [of v] small_int_value_new_bits [of v] by simp

text \<open>
  C20: \<open>divmod\<close> on small integers is that of Python, \<open>ZeroDivisionError\<close> included, on every pair except one. The
  quotient of the smallest small integer by -1 is not a small integer, and the code, which makes the pair of
  small integers without a test, returns the dividend for it.
\<close>

theorem divmod_smallest_wraps:
  "map_sum id result_val (mp_binary_op MP_BINARY_OP_DIVMOD (Small v) (Small w)) =
     (if sint v = - 4611686018427387904 \<and> sint w = - 1 then Inr (PPair (- 4611686018427387904) 0)
      else py_int_op MP_BINARY_OP_DIVMOD (sint v) (sint w)) \<and>
   (map_sum id result_val (mp_binary_op MP_BINARY_OP_DIVMOD (Small v) (Small w)) =
      py_int_op MP_BINARY_OP_DIVMOD (sint v) (sint w)) =
   (\<not> (sint v = - 4611686018427387904 \<and> sint w = - 1))"
proof (cases "sint v = - 4611686018427387904 \<and> sint w = - 1")
  case True
  then have vw: "v = - 4611686018427387904" "w = - 1" by (auto intro!: signed_word_eqI)
  show ?thesis unfolding vw divmod_min_wrong by (simp add: py_int_op_def)
next
  case False
  with mp_binary_op_val [of "Small v" "Small w" MP_BINARY_OP_DIVMOD] show ?thesis by auto
qed

section \<open>Objects as keys\<close>

lemma obj_equal_py_ops: "obj_equal (py_ops e) = mp_obj_equal"
  by (simp add: py_ops_def)

text \<open>
  C11: \<open>mp_obj_equal\<close> is an equivalence on the objects modelled, across small and long integers,
  booleans, interned and heap strings, bytes and nested tuples, and equal objects have equal hashes.
\<close>

theorem obj_equal_hash:
  "mp_obj_equal x x \<and> (mp_obj_equal x y \<longleftrightarrow> mp_obj_equal y x) \<and>
   (mp_obj_equal x y \<and> mp_obj_equal y z \<longrightarrow> mp_obj_equal x z) \<and>
   (mp_obj_equal x y \<longrightarrow> mp_obj_hash e x = mp_obj_hash e y)"
  by (auto simp: mp_obj_equal_key mp_obj_hash_key)

lemma obj_equal_hash_witness:
  "mp_obj_hash 0 (TupleObj 1 [BoolObj True, QStr [97]]) = mp_obj_hash 0 (TupleObj 2 [SmallInt 1, StrObj 3 False [97]])"
  using obj_equal_hash [of "TupleObj 1 [BoolObj True, QStr [97]]" "TupleObj 2 [SmallInt 1, StrObj 3 False [97]]" _ 0]
  by (simp add: mp_obj_equal_key)

section \<open>Interned strings\<close>

text \<open>
  C12: two strings that are interned one after the other get the same number exactly when they are the
  same string, whatever the allocator answers.
\<close>

theorem intern_injective:
  assumes "qstr_inv st" and "length s < 256" and "length t < 256"
    and "qstr_from_strn mem st s = (st1, Inr i)" and "qstr_from_strn mem' st1 t = (st2, Inr j)"
  shows "i = j \<longleftrightarrow> s = t"
  by (rule qstr_intern_same [OF assms])

abbreviation q_pool :: qstr_state where
  "q_pool \<equiv> \<lparr> pools = [\<lparr> total_prev_len = 0, pool_alloc = 2, qstrs = [[0, 0, 0]] \<rparr>], qstr_last_chunk = False,
     qstr_last_alloc = 0, qstr_last_used = 0 \<rparr>"

abbreviation q_mem :: mem_answers where
  "q_mem \<equiv> \<lparr> grow_ok = True, chunk_ok = True, exact_ok = True, pool_ok = True \<rparr>"

lemma q_pool_inv: "qstr_inv q_pool"
  by (auto simp: qstr_inv_def all_qstrs_def intro: exI [of _ "[]"])

lemma intern_injective_witness:
  "snd (qstr_from_strn q_mem (fst (qstr_from_strn q_mem q_pool [97])) [97]) = snd (qstr_from_strn q_mem q_pool [97])"
proof -
  have "snd (qstr_from_strn q_mem q_pool [97]) = Inr 1"
    "snd (qstr_from_strn q_mem (fst (qstr_from_strn q_mem q_pool [97])) [97]) = Inr 1" by code_simp+
  then obtain st1 st2 where run: "qstr_from_strn q_mem q_pool [97] = (st1, Inr 1)"
    "qstr_from_strn q_mem st1 [97] = (st2, Inr 1)" by (metis fst_conv prod.collapse)
  have "(1::nat) = 1 \<longleftrightarrow> [97 :: byte] = [97]"
    by (rule intern_injective [OF q_pool_inv _ _ run]) simp_all
  with run show ?thesis by simp
qed

text \<open>
  C13: interning keeps the pools in order, never moves or changes a string that has a number, gives
  the new string a number other than 0 under which \<open>qstr_data\<close> finds its bytes, and when it fails
  leaves every earlier string in place.
\<close>

theorem intern_keeps:
  assumes "qstr_inv st" and "length str < 256" and "qstr_from_strn mem st str = (st', r)"
  shows "qstr_inv st' \<and> (\<forall>q e. find_qstr (pools st) q = Some e \<longrightarrow> find_qstr (pools st') q = Some e) \<and>
    (\<forall>i. r = Inr i \<longrightarrow> i \<noteq> 0 \<and> qstr_data (pools st') i = Some str)"
  using qstr_from_strn_spec [OF assms] qstr_data_store [OF assms(2)] by blast

lemma intern_keeps_witness: "qstr_data (pools (fst (qstr_from_strn q_mem q_pool [97]))) 1 = Some [97]"
proof -
  have "snd (qstr_from_strn q_mem q_pool [97]) = Inr 1" by code_simp
  then show ?thesis
    using intern_keeps [OF q_pool_inv, of "[97]" q_mem "fst (qstr_from_strn q_mem q_pool [97])" "Inr 1"]
    by (simp add: prod_eq_iff)
qed

section \<open>Hash tables\<close>

text \<open>
  C14: every lookup in a hash table ends, whatever the kind, the fill of the table and the collisions in it,
  and it does what \<open>map_outcome\<close> says: the slot found, added or removed, the invariant, and the meaning of
  the table as a partial map, rehashing included. By \<open>map_inv\<close> the table is neither an ordered array nor
  fixed: those are searched from end to end, and an addition to an ordered array leaves the old value of its
  slot in place, which the contract does not allow. The memory for a larger table does not run out.
\<close>

theorem map_lookup_returns:
  assumes "map_inv (py_ops e) m"
  shows "\<exists>m' r. mp_map_lookup (py_ops e) m k kind = Some (m', r) \<and> map_outcome (py_ops e) m k kind m' r"
  using obj_map.map_lookup [OF assms] by blast

lemma map_lookup_returns_witness:
  "\<exists>m' r. mp_map_lookup (py_ops 0) (mp_map_init 0) (QStr [97]) MP_MAP_LOOKUP_ADD_IF_NOT_FOUND = Some (m', r) \<and>
    map_outcome (py_ops 0) (mp_map_init 0 :: (obj, obj) mp_map) (QStr [97]) MP_MAP_LOOKUP_ADD_IF_NOT_FOUND m' r"
  using obj_map.dict_new_val(1) [of 0 0] map_lookup_returns [of 0 "mp_map_init 0" "QStr [97]"]
  by (simp add: dict_inv_def mp_obj_new_dict_def)

text \<open>
  C15: every lookup in a set ends, for each of the four kinds, and does what \<open>set_outcome\<close> says of the
  element returned and of the members.
\<close>

theorem set_lookup_returns:
  assumes "set_inv (py_ops e) s"
  shows "\<exists>s' r. mp_set_lookup (py_ops e) s k kind = Some (s', r) \<and> set_outcome (py_ops e) s k kind s' r"
  using obj_map.set_lookup [OF assms] by blast

lemma set_lookup_returns_witness:
  "\<exists>s' r. mp_set_lookup (py_ops 0) (mp_set_init 2) (SmallInt 5) MP_MAP_LOOKUP_ADD_IF_NOT_FOUND_OR_REMOVE_IF_FOUND =
    Some (s', r) \<and> set_mem (py_ops 0) s' (SmallInt 5)"
proof -
  have inv: "set_inv (py_ops 0) (mp_set_init 2)" and new: "\<not> set_mem (py_ops 0) (mp_set_init 2) (SmallInt 5)"
    by (simp_all add: set_inv_def mp_set_init_def set_mem_def obj_map.slots_inv_fresh n_keys_fresh keys_of_fresh)
  show ?thesis
    using set_lookup_returns [OF inv, of "SmallInt 5" MP_MAP_LOOKUP_ADD_IF_NOT_FOUND_OR_REMOVE_IF_FOUND] new
    by (auto simp: set_outcome_def kind_adds_def mp_obj_equal_key py_ops_def)
qed

text \<open>
  \<open>mp_set_remove_first\<close> takes one member out of the set, and returns nothing only when the set is
  empty.
\<close>

theorem set_remove_first_member:
  assumes "set_inv (py_ops e) s" and "mp_set_remove_first s = (s', r)"
  shows "case r of
      None \<Rightarrow> s' = s \<and> (\<forall>k. \<not> set_mem (py_ops e) s k)
    | Some q \<Rightarrow> set_inv (py_ops e) s' \<and> set_used s' + 1 = set_used s \<and> set_mem (py_ops e) s q \<and>
        set_mem (py_ops e) s' = (\<lambda>j. set_mem (py_ops e) s j \<and> \<not> mp_obj_equal q j)"
  using obj_map.set_remove_first [OF assms] unfolding obj_equal_py_ops .

lemma set_remove_first_member_witness:
  "mp_set_remove_first (mp_set_init 3 :: obj mp_set) = (mp_set_init 3, None) \<and>
   (\<forall>k. \<not> set_mem (py_ops 0) (mp_set_init 3) k)"
proof -
  have "set_inv (py_ops 0) (mp_set_init 3)"
    by (simp add: set_inv_def mp_set_init_def obj_map.slots_inv_fresh n_keys_fresh)
  moreover have "mp_set_remove_first (mp_set_init 3 :: obj mp_set) = (mp_set_init 3, None)"
    by (simp add: mp_set_remove_first_def mp_set_init_def numeral_3_eq_3)
  ultimately show ?thesis using set_remove_first_member [of 0 "mp_set_init 3"] by simp
qed

section \<open>Dictionaries\<close>

text \<open>
  C17: every run of dictionary calls from a new dictionary is a run of a partial map that makes the same
  replies, exceptions included, and the invariant holds in every dictionary reached.
\<close>

theorem dict_runs_refine:
  assumes "dict_reaches none (py_ops e) (mp_obj_new_dict n) tr d"
  shows "dict_inv (py_ops e) d \<and> map_reaches none mp_obj_equal (\<lambda>k. None) tr (dict_abs (py_ops e) d)"
  using obj_map.dict_reaches_map [OF assms] unfolding obj_equal_py_ops by blast

abbreviation calls :: "(obj, obj) dict_call list" where
  "calls \<equiv> [CallStore (SmallInt 1) (QStr [97]), CallSetDefault (BoolObj True) None, CallPopItem, CallPop (SmallInt 1) None]"

lemma dict_runs_refine_witness:
  "\<exists>d rs. dict_run (OtherObj 0) (py_ops 0) (mp_obj_new_dict 0) calls = (d, rs) \<and> length rs = 4 \<and>
    map_reaches (OtherObj 0) mp_obj_equal (\<lambda>k. None) (zip calls rs) (dict_abs (py_ops 0) d)"
proof -
  obtain d rs where run: "dict_run (OtherObj 0) (py_ops 0) (mp_obj_new_dict 0) calls = (d, rs)"
    by (cases "dict_run (OtherObj 0) (py_ops 0) (mp_obj_new_dict 0) calls")
  from dict_run_reaches [OF dict_reaches.start run] run dict_runs_refine [of "OtherObj 0" 0 0 "zip calls rs" d]
  show ?thesis by auto
qed

text \<open>
  C18: \<open>dict_update\<close> from another dictionary and keyword arguments overrides: a keyword wins over the
  other dictionary, which wins over the old contents, and all other keys stay.
\<close>

theorem dict_update_overrides:
  assumes "dict_inv (py_ops e) d" and "dict_inv (py_ops e) other"
    and "\<forall>(k, v) \<in> set (filled_pairs (table kwargs)). v \<noteq> None"
  shows "\<exists>d'. dict_update (py_ops e) d (FromDict other) kwargs = (d', Inr ()) \<and> dict_inv (py_ops e) d' \<and>
    (\<forall>j. dict_abs (py_ops e) d' j =
      (case last_of mp_obj_equal (filled_pairs (table kwargs)) j of Some v \<Rightarrow> v
       | None \<Rightarrow> (case dict_abs (py_ops e) other j of Some v \<Rightarrow> Some v | None \<Rightarrow> dict_abs (py_ops e) d j)))"
proof -
  have kw: "v \<noteq> None" if "(k, v) \<in> set (filled_pairs (table kwargs))" for k v
    using assms(3) that by blast
  obtain d' where "dict_update (py_ops e) d (FromDict other) kwargs = (d', Inr ())" "dict_inv (py_ops e) d'"
    "\<And>j. dict_abs (py_ops e) d' j =
      (case last_of (obj_equal (py_ops e)) (filled_pairs (table kwargs)) j of Some v \<Rightarrow> v
       | None \<Rightarrow> (case dict_abs (py_ops e) other j of Some v \<Rightarrow> Some v | None \<Rightarrow> dict_abs (py_ops e) d j))"
  proof (rule obj_map.dict_update_dict [OF assms(1,2), of kwargs], goal_cases)
    case (1 k v)
    show ?case by (rule kw [OF 1(2)])
  next
    case (2 d')
    show ?case by (rule that [OF 2(2-4)])
  qed
  then show ?thesis unfolding obj_equal_py_ops by blast
qed

lemma dict_update_overrides_witness:
  "\<exists>d'. dict_update (py_ops 0) (mp_obj_new_dict 0) (FromDict (mp_obj_new_dict 3))
      (mp_map_init_fixed_table [(Key (QStr [97]), Some (SmallInt 1))]) = (d', Inr ()) \<and>
    dict_abs (py_ops 0) d' (QStr [97]) = Some (SmallInt 1) \<and> dict_abs (py_ops 0) d' (QStr [98]) = None"
  using dict_update_overrides [of 0 "mp_obj_new_dict 0" "mp_obj_new_dict 3"
      "mp_map_init_fixed_table [(Key (QStr [97]), Some (SmallInt 1))]"]
  by (auto simp: obj_map.dict_new_val mp_map_init_fixed_table_def mp_obj_equal_key)

text \<open>
  C19: two dictionaries of the type \<open>dict\<close>, which are hash tables, compare equal exactly when they have the
  same keys with equal values, in whatever order they were filled. An \<open>OrderedDict\<close> is no operand here: two of
  them compare in order, and of a \<open>dict\<close> and an \<open>OrderedDict\<close> the answer depends on the side: with the
  \<open>OrderedDict\<close> on the right it is always \<open>False\<close>.
\<close>

theorem dict_equal_contents:
  assumes "dict_inv (py_ops e) l" and "dict_inv (py_ops e) r" and "\<not> ordereddict_type r"
  shows "dict_equal veq (py_ops e) l r =
    Some (\<forall>k. rel_option veq (dict_abs (py_ops e) l k) (dict_abs (py_ops e) r k))"
  by (rule obj_map.dict_equal_val [OF assms])

lemma dict_equal_contents_witness: "dict_equal mp_obj_equal (py_ops 0) (mp_obj_new_dict 2) (mp_obj_new_dict 0) = Some True"
  using dict_equal_contents [of 0 "mp_obj_new_dict 2" "mp_obj_new_dict 0" mp_obj_equal]
  by (simp only: obj_map.dict_new_val) (simp add: mp_obj_new_dict_def)

end
